(* ===== verification/Prelude.thy ===== *)
theory Prelude
  imports Main "HOL-Library.Word" "HOL-Library.Multiset"
begin

text \<open>
  Shared vocabulary of the libnbf development: names of the machine types, the outcome type of
  code that can leave its defined behaviour (an access outside an allocation, a thrown standard
  exception), the theorem collections the component proofs are driven by, and the generic list,
  word and option lemmas that more than one component uses.
\<close>

section \<open>Machine types and outcomes\<close>

type_synonym u8 = "8 word"
type_synonym u16 = "16 word"
type_synonym u32 = "32 word"
type_synonym u64 = "64 word"

text \<open>
  What a C++ operation can do instead of returning: read or write outside the storage it owns,
  throw the exception of a standard library function it calls, dereference a null pointer, use an
  object as one of a class it does not have or after it was deleted, or divide by zero.
\<close>

datatype fault =
    Out_Of_Bounds | Out_Of_Range_Exception | Length_Error_Exception | Null_Dereference | Bad_Cast
  | Use_After_Free | Division_By_Zero | Logic_Error_Exception

type_synonym 'a outcome = "fault + 'a"

fun outcome_bind :: "'a outcome \<Rightarrow> ('a \<Rightarrow> 'b outcome) \<Rightarrow> 'b outcome" where
  "outcome_bind (Inl e) f = Inl e"
| "outcome_bind (Inr x) f = f x"

lemma outcome_bind_Inr_iff:
  "outcome_bind m f = Inr y \<longleftrightarrow> (\<exists>x. m = Inr x \<and> f x = Inr y)"
  by (cases m) auto

text \<open>Code that may also not return (None): the steps of the event loop that work on the timers.\<close>

type_synonym 'a run = "'a outcome option"

abbreviation yields :: "'a \<Rightarrow> 'a run" where
  "yields x \<equiv> Some (Inr x)"

definition run_bind :: "'a run \<Rightarrow> ('a \<Rightarrow> 'b run) \<Rightarrow> 'b run" where
  "run_bind m f = (case m of None \<Rightarrow> None | Some (Inl e) \<Rightarrow> Some (Inl e) | Some (Inr x) \<Rightarrow> f x)"

lemma run_bind_simps [simp]:
  "run_bind None f = None" "run_bind (Some (Inl e)) f = Some (Inl e)" "run_bind (yields x) f = f x"
  by (simp_all add: run_bind_def)

section \<open>Theorem collections\<close>

named_theorems inv_intros \<open>facts of the form: an operation keeps the component's invariant\<close>
named_theorems content_simps \<open>what an operation does to the abstract content of a component\<close>
named_theorems frame_simps \<open>what an operation leaves unchanged\<close>

section \<open>Lists\<close>

lemma drop_take_append:
  "i \<le> j \<Longrightarrow> j \<le> length xs \<Longrightarrow> take (j - i) (drop i xs) @ drop j xs = drop i xs"
  by (metis add.commute append_take_drop_id drop_drop le_add_diff_inverse2)

lemma take_drop_list_overwrite:
  assumes "i \<le> j" "j + length ys \<le> length xs"
  shows "take (j + length ys - i) (drop i (take j xs @ ys @ drop (j + length ys) xs))
           = take (j - i) (drop i xs) @ ys"
  using assms by (simp add: drop_append take_append drop_take)

lemma mset_list_update:
  "i < length xs \<Longrightarrow> mset (xs[i := y]) = add_mset y (mset xs) - {#xs ! i#}"
  by (simp add: mset_update)

lemma nth_list_update_if:
  "i < length xs \<Longrightarrow> xs[i := y] ! j = (if j = i then y else xs ! j)"
  by (auto simp: nth_list_update)

section \<open>Exchanging two indices\<close>

definition exchange :: "'a \<Rightarrow> 'a \<Rightarrow> 'a \<Rightarrow> 'a" where
  "exchange a b x = (if x = a then b else if x = b then a else x)"

lemma exchange_image: "a \<in> S \<Longrightarrow> b \<in> S \<Longrightarrow> exchange a b ` S = S"
  by (force simp: exchange_def image_iff)

lemma inj_exchange: "inj_on (exchange a b) S"
  by (auto simp: inj_on_def exchange_def)

section \<open>Words\<close>

lemma unat_of_nat_u64: "n < 2 ^ 64 \<Longrightarrow> unat (of_nat n :: u64) = n"
  by (simp add: unat_of_nat take_bit_nat_eq_self)

lemma unat_double_u64: "unat (x :: u64) < 2 ^ 63 \<Longrightarrow> unat (push_bit 1 x) = 2 * unat x"
  by (simp add: push_bit_eq_mult unat_word_ariths)

end
