(* ===== verification/Byte_Queue.thy ===== *)
theory Byte_Queue
  imports Prelude
begin

text \<open>
  The contract a protocol relies on when it encodes into, and decodes out of, a connection's
  buffer: a queue of bytes with an operation that appends and may be refused, and one that drops
  from the front. Buffer provides it; the protocol encoders are its clients.
\<close>

text \<open>
  A sequence of \<open>if (!output->Write(...)) return false;\<close> statements: stop at the first refusal.
\<close>

fun write_all :: "('a list \<Rightarrow> 'b \<Rightarrow> (bool \<times> 'b) option) \<Rightarrow> 'a list list \<Rightarrow> 'b \<Rightarrow> (bool \<times> 'b) option" where
  "write_all put [] b = Some (True, b)"
| "write_all put (c # cs) b =
     (case put c b of
        None \<Rightarrow> None
      | Some (ok, b') \<Rightarrow> if ok then write_all put cs b' else Some (False, b'))"

locale byte_queue =
  fixes inv :: "'b \<Rightarrow> bool"
    and content :: "'b \<Rightarrow> 'a list"
    and put :: "'a list \<Rightarrow> 'b \<Rightarrow> (bool \<times> 'b) option"
    and drain :: "nat \<Rightarrow> 'b \<Rightarrow> 'b"
    and lim :: nat
  assumes write_law: "inv b \<Longrightarrow> length (content b) + length xs \<le> lim \<Longrightarrow>
      \<exists>ok b'. put xs b = Some (ok, b') \<and> inv b' \<and> content b' = content b @ (if ok then xs else [])"
    and drain_inv: "inv b \<Longrightarrow> inv (drain n b)"
    and drain_law: "inv b \<Longrightarrow> content (drain n b) = drop n (content b)"
begin

lemma write_all_prefix:
  "inv b \<Longrightarrow> length (content b) + length (concat cs) \<le> lim \<Longrightarrow>
     \<exists>ok b' k. write_all put cs b = Some (ok, b') \<and> inv b' \<and>
       content b' = content b @ concat (take k cs) \<and> (if ok then k = length cs else k < length cs)"
proof (induction cs arbitrary: b)
  case Nil
  then show ?case by auto
next
  case (Cons c cs)
  from write_law [OF Cons.prems(1), of c] Cons.prems(2) obtain ok b1 where
    b1: "put c b = Some (ok, b1)" "inv b1" "content b1 = content b @ (if ok then c else [])"
    by auto
  show ?case
  proof (cases ok)
    case True
    have "length (content b1) + length (concat cs) \<le> lim" using Cons.prems(2) b1 True by simp
    from Cons.IH [OF b1(2) this] obtain ok' b' k where
      "write_all put cs b1 = Some (ok', b')" "inv b'" "content b' = content b1 @ concat (take k cs)"
      "if ok' then k = length cs else k < length cs"
      by blast
    then show ?thesis using b1 True
      by (intro exI [of _ ok'] exI [of _ b'] exI [of _ "Suc k"]) auto
  next
    case False
    then show ?thesis using b1
      by (intro exI [of _ False] exI [of _ b1] exI [of _ 0]) auto
  qed
qed

lemma write_all_content:
  assumes "inv b" "length (content b) + length (concat cs) \<le> lim" "write_all put cs b = Some (True, b')"
  shows "inv b' \<and> content b' = content b @ concat cs"
  using write_all_prefix [OF assms(1,2)] assms(3) by auto

lemma write_then_drain:
  assumes "inv b" "length (content b) + length xs \<le> lim" "put xs b = Some (True, b')"
  shows "content (drain (length (content b)) b') = xs"
  using write_law [OF assms(1,2)] assms(3) drain_law by auto

end

end
