(* ===== verification/Buffer.thy ===== *)
theory Buffer
  imports Byte_Queue
begin

text \<open>
  The byte buffer of src/src/common/buffer.h and buffer.cpp (class Buffer), the storage every
  connection reads into and every protocol encodes into. The four pointers are offsets from
  pos\_begin\_; a null pos\_begin\_ is \<open>blk = None\<close>. The element type is left open: protocols
  use bytes or characters. malloc is a parameter, a function from the size asked for to the fresh
  block or to None when it fails.
\<close>

section \<open>State and operations\<close>

record 'a buffer =
  blk :: "'a list option"
  rpos :: nat
  wpos :: nat

definition buf_new :: "'a buffer" where
  "buf_new = \<lparr>blk = None, rpos = 0, wpos = 0\<rparr>"

definition GetCapacity :: "'a buffer \<Rightarrow> nat" where
  "GetCapacity b = (case blk b of None \<Rightarrow> 0 | Some d \<Rightarrow> length d)"

definition GetReadingSize :: "'a buffer \<Rightarrow> nat" where
  "GetReadingSize b = wpos b - rpos b"

definition GetWritingSize :: "'a buffer \<Rightarrow> nat" where
  "GetWritingSize b = GetCapacity b - wpos b"

text \<open>The bytes from pos\_reading\_ up to pos\_writing\_: what a reader of GetReading sees.\<close>

definition GetReading :: "'a buffer \<Rightarrow> 'a list" where
  "GetReading b = (case blk b of None \<Rightarrow> [] | Some d \<Rightarrow> take (wpos b - rpos b) (drop (rpos b) d))"

definition ResetAll :: "'a buffer \<Rightarrow> 'a buffer" where
  "ResetAll b = b\<lparr>rpos := 0, wpos := 0\<rparr>"

definition DrainReading :: "nat \<Rightarrow> 'a buffer \<Rightarrow> 'a buffer" where
  "DrainReading len b =
     (let b' = b\<lparr>rpos := rpos b + len\<rparr>
      in if rpos b' \<ge> wpos b' then ResetAll b' else b')"

definition PourWriting :: "nat \<Rightarrow> 'a buffer \<Rightarrow> bool \<times> 'a buffer" where
  "PourWriting len b =
     (if GetCapacity b \<ge> wpos b + len then (True, b\<lparr>wpos := wpos b + len\<rparr>) else (False, b))"

definition StripWriting :: "nat \<Rightarrow> 'a buffer \<Rightarrow> bool \<times> 'a buffer" where
  "StripWriting len b =
     (if wpos b \<ge> rpos b + len then (True, b\<lparr>wpos := wpos b - len\<rparr>) else (False, b))"

definition DestroyAll :: "'a buffer \<Rightarrow> 'a buffer" where
  "DestroyAll b = (case blk b of None \<Rightarrow> b | Some _ \<Rightarrow> \<lparr>blk = None, rpos = 0, wpos = 0\<rparr>)"

text \<open>memcpy of \<open>xs\<close> to offset \<open>at\<close> of a block.\<close>

definition memcpy_at :: "'a list \<Rightarrow> nat \<Rightarrow> 'a list \<Rightarrow> 'a list" where
  "memcpy_at d at xs = take at d @ xs @ drop (at + length xs) d"

text \<open>
  The two doubling loops of EnsureSize, \<open>while (len < need) len <<= 1\<close> (with \<open>dlen = 0\<close>) and
  \<open>while (bufsize - dlen < need) bufsize <<= 1\<close>, on size\_t. The shift wraps to 0, so the loop
  need not end: None is the loop that runs for ever.
\<close>

partial_function (option) grow_loop :: "u64 \<Rightarrow> u64 \<Rightarrow> u64 \<Rightarrow> u64 option" where
  "grow_loop bufsize dlen need =
     (if bufsize - dlen < need then grow_loop (push_bit 1 bufsize) dlen need else Some bufsize)"

text \<open>
  EnsureSize: None when a doubling loop does not end, otherwise the returned flag and the buffer.
\<close>

definition EnsureSize :: "(nat \<Rightarrow> 'a list option) \<Rightarrow> nat \<Rightarrow> 'a buffer \<Rightarrow> (bool \<times> 'a buffer) option" where
  "EnsureSize malloc need b =
     (case blk b of
        None \<Rightarrow>
          (case grow_loop 256 0 (of_nat need) of
             None \<Rightarrow> None
           | Some len \<Rightarrow>
               (case malloc (unat len) of
                  None \<Rightarrow> Some (False, b)
                | Some nb \<Rightarrow> Some (True, \<lparr>blk = Some nb, rpos = 0, wpos = 0\<rparr>)))
      | Some d \<Rightarrow>
          (if length d \<ge> wpos b + need then Some (True, b)
           else
             let flen = (length d - wpos b) + rpos b;
                 dlen = wpos b - rpos b
             in if flen < need \<or> flen * 4 < dlen
                then
                  (case grow_loop (of_nat (length d * 2)) (of_nat dlen) (of_nat need) of
                     None \<Rightarrow> None
                   | Some bufsize \<Rightarrow>
                       (case malloc (unat bufsize) of
                          None \<Rightarrow> Some (False, b)
                        | Some nb \<Rightarrow>
                            Some (True, \<lparr>blk = Some (if dlen > 0 then memcpy_at nb 0 (take dlen (drop (rpos b) d)) else nb),
                                         rpos = 0, wpos = dlen\<rparr>)))
                else Some (True, \<lparr>blk = Some (memcpy_at d 0 (take dlen (drop (rpos b) d))),
                                  rpos = 0, wpos = dlen\<rparr>)))"

definition Write :: "(nat \<Rightarrow> 'a list option) \<Rightarrow> 'a list \<Rightarrow> 'a buffer \<Rightarrow> (bool \<times> 'a buffer) option" where
  "Write malloc xs b =
     (let put = (\<lambda>b. b\<lparr>blk := map_option (\<lambda>d. memcpy_at d (wpos b) xs) (blk b),
                       wpos := wpos b + length xs\<rparr>)
      in if wpos b + length xs \<le> GetCapacity b then Some (True, put b)
         else (case EnsureSize malloc (length xs) b of
                 None \<Rightarrow> None
               | Some (ok, b') \<Rightarrow> if ok then Some (True, put b') else Some (False, b')))"

text \<open>
  ShrinkSpace keeps the number of pending bytes in an int: 2 GiB and more wrap, and a negative
  count becomes 0.
\<close>

definition ShrinkSpace :: "(nat \<Rightarrow> 'a list option) \<Rightarrow> nat \<Rightarrow> 'a buffer \<Rightarrow> bool \<times> 'a buffer" where
  "ShrinkSpace malloc max_size b =
     (case blk b of
        None \<Rightarrow> (True, b)
      | Some d \<Rightarrow>
          if length d < max_size then (True, b)
          else if wpos b > rpos b + max_size then (True, b)
          else
            let dlen = nat (signed_take_bit 31 (int (wpos b - rpos b)))
            in (case malloc max_size of
                  None \<Rightarrow> (False, b)
                | Some nb \<Rightarrow>
                    (True, \<lparr>blk = Some (if dlen > 0 then memcpy_at nb 0 (take dlen (drop (rpos b) d)) else nb),
                            rpos = 0, wpos = dlen\<rparr>)))"

text \<open>
  FindBytes: \<open>dLen\<close> is computed in size\_t and stored into an int, hence the 32-bit wrap. The loop
  runs \<open>i\<close> from \<open>from\<close> to \<open>dLen\<close>; p[0] is compared before memcmp.
\<close>

function find_from :: "'a list \<Rightarrow> 'a list \<Rightarrow> int \<Rightarrow> int \<Rightarrow> int" where
  "find_from dat p i dLen =
     (if i \<le> dLen then
        (if take 1 (drop (nat i) dat) = take 1 p \<and> take (length p) (drop (nat i) dat) = p then i
         else find_from dat p (i + 1) dLen)
      else -1)"
  by pat_completeness auto
termination
  by (relation "measure (\<lambda>(dat, p, i, dLen). nat (dLen + 1 - i))") auto

declare find_from.simps [simp del]

definition FindBytes :: "'a list \<Rightarrow> int \<Rightarrow> 'a buffer \<Rightarrow> int" where
  "FindBytes p from b =
     (if from < 0 \<or> length p \<le> 0 then -1
      else find_from (GetReading b) p from
             (signed_take_bit 31 (int (GetReadingSize b) - int (length p))))"

section \<open>Well-formed buffers\<close>

text \<open>
  The pointers are ordered, pos\_begin\_ \<open>\<le>\<close> pos\_reading\_ \<open>\<le>\<close> pos\_writing\_ \<open>\<le>\<close> pos\_end\_. The
  documented behaviour of malloc is that a block it returns has the size asked for. The sizes a
  process can allocate stay far below size\_t's range: \<open>buf_limit\<close> bounds the bytes ever held at
  once, and \<open>buf_inv\<close> the capacity, so that no size computation wraps. A block of size 0 (malloc
  may return one for ShrinkSpace(0)) is excluded: doubling its size never ends.
\<close>

definition buf_ok :: "'a buffer \<Rightarrow> bool" where
  "buf_ok b \<longleftrightarrow> rpos b \<le> wpos b \<and> wpos b \<le> GetCapacity b"

definition malloc_ok :: "(nat \<Rightarrow> 'a list option) \<Rightarrow> bool" where
  "malloc_ok malloc \<longleftrightarrow> (\<forall>n nb. malloc n = Some nb \<longrightarrow> length nb = n)"

definition buf_limit :: nat where
  "buf_limit = 2 ^ 60"

definition buf_inv :: "'a buffer \<Rightarrow> bool" where
  "buf_inv b \<longleftrightarrow> buf_ok b \<and> GetCapacity b < 2 ^ 62 \<and> (blk b \<noteq> None \<longrightarrow> 0 < GetCapacity b)"

lemmas buf_defs = GetReading_def GetCapacity_def GetReadingSize_def GetWritingSize_def buf_ok_def

lemma malloc_okD [dest]: "malloc_ok malloc \<Longrightarrow> malloc n = Some nb \<Longrightarrow> length nb = n"
  by (simp add: malloc_ok_def)

lemma length_GetReading [simp]: "buf_ok b \<Longrightarrow> length (GetReading b) = GetReadingSize b"
  by (auto simp: buf_defs split: option.splits)

lemma length_memcpy_at [simp]: "at + length xs \<le> length d \<Longrightarrow> length (memcpy_at d at xs) = length d"
  by (simp add: memcpy_at_def)

lemma take_drop_memcpy_at:
  "i \<le> at \<Longrightarrow> at + length xs \<le> length d \<Longrightarrow>
     take (at + length xs - i) (drop i (memcpy_at d at xs)) = take (at - i) (drop i d) @ xs"
  unfolding memcpy_at_def by (rule take_drop_list_overwrite)

lemma buf_ok_new [inv_intros]: "buf_ok buf_new"
  by (simp add: buf_new_def buf_defs)

lemma GetReading_new [content_simps]: "GetReading buf_new = []"
  by (simp add: buf_new_def GetReading_def)

subsection \<open>Moving the cursors\<close>

lemma buf_ok_ResetAll [inv_intros]: "buf_ok (ResetAll b)"
  by (simp add: ResetAll_def buf_defs)

lemma GetReading_ResetAll [content_simps]: "GetReading (ResetAll b) = []"
  by (simp add: ResetAll_def GetReading_def split: option.splits)

lemma GetCapacity_ResetAll [frame_simps]: "GetCapacity (ResetAll b) = GetCapacity b"
  by (simp add: ResetAll_def GetCapacity_def)

lemma buf_ok_DrainReading [inv_intros]: "buf_ok b \<Longrightarrow> buf_ok (DrainReading n b)"
  by (auto simp: DrainReading_def Let_def ResetAll_def buf_defs)

lemma GetCapacity_DrainReading [frame_simps]: "GetCapacity (DrainReading n b) = GetCapacity b"
  by (simp add: DrainReading_def Let_def GetCapacity_ResetAll) (simp add: GetCapacity_def)

lemma GetReading_DrainReading [content_simps]:
  "GetReading (DrainReading n b) = drop n (GetReading b)"
proof (cases "rpos b + n \<ge> wpos b")
  case True
  then show ?thesis
    by (simp add: DrainReading_def Let_def GetReading_ResetAll)
      (auto simp: GetReading_def split: option.splits)
next
  case False
  then show ?thesis
    by (simp add: DrainReading_def Let_def GetReading_def drop_take add.commute diff_diff_left split: option.splits)
qed

lemma StripWriting_content:
  assumes "buf_ok b" "StripWriting n b = (r, b')"
  shows "buf_ok b' \<and> (r \<longleftrightarrow> n \<le> GetReadingSize b) \<and>
         GetReading b' = (if r then take (GetReadingSize b - n) (GetReading b) else GetReading b)"
proof (cases "wpos b \<ge> rpos b + n")
  case True
  then have "b' = b\<lparr>wpos := wpos b - n\<rparr>" "r" using assms(2) by (auto simp: StripWriting_def)
  moreover have "wpos b - n - rpos b = min (wpos b - rpos b - n) (wpos b - rpos b)" by simp
  ultimately show ?thesis using assms(1) True
    by (auto simp: buf_defs take_take split: option.splits)
next
  case False
  then show ?thesis using assms by (auto simp: StripWriting_def buf_defs)
qed

lemma buf_ok_PourWriting [inv_intros]: "buf_ok b \<Longrightarrow> buf_ok (snd (PourWriting n b))"
  by (auto simp: PourWriting_def buf_defs)

subsection \<open>The doubling loops\<close>

lemma grow_loop_stops:
  assumes "0 < unat bufsize" "unat dlen \<le> unat bufsize" "unat dlen + unat need \<le> 2 ^ 63"
  shows "\<exists>r. grow_loop bufsize dlen need = Some r \<and> unat dlen + unat need \<le> unat r \<and>
             (r = bufsize \<or> unat r < 2 * (unat dlen + unat need))"
  using assms
proof (induction "2 ^ 64 - unat bufsize" arbitrary: bufsize rule: less_induct)
  case less
  have sub: "unat (bufsize - dlen) = unat bufsize - unat dlen"
    using less.prems(2) by (simp add: unat_sub word_le_nat_alt)
  show ?case
  proof (cases "bufsize - dlen < need")
    case True
    then have lt: "unat bufsize < unat dlen + unat need"
      using sub less.prems by (simp add: word_less_nat_alt)
    then have dbl: "unat (push_bit 1 bufsize) = 2 * unat bufsize"
      using less.prems by (intro unat_double_u64) simp
    have "2 ^ 64 - unat (push_bit 1 bufsize) < 2 ^ 64 - unat bufsize"
      using dbl lt less.prems by simp
    from less.hyps [OF this] dbl less.prems obtain r where
      r: "grow_loop (push_bit 1 bufsize) dlen need = Some r" "unat dlen + unat need \<le> unat r"
         "r = push_bit 1 bufsize \<or> unat r < 2 * (unat dlen + unat need)"
      by auto
    then show ?thesis using True dbl lt by (subst grow_loop.simps) auto
  next
    case False
    then have "unat dlen + unat need \<le> unat bufsize"
      using sub less.prems by (simp add: word_less_nat_alt)
    with False show ?thesis by (subst grow_loop.simps) simp
  qed
qed

text \<open>The same for sizes given as numbers.\<close>

lemma grow_loop_nat:
  assumes "0 < k" "k < 2 ^ 64" "d \<le> k" "d + n \<le> 2 ^ 63"
  shows "\<exists>r. grow_loop (of_nat k) (of_nat d) (of_nat n) = Some r \<and> d + n \<le> unat r \<and>
             (unat r = k \<or> unat r < 2 * (d + n))"
proof -
  have u: "unat (of_nat k :: u64) = k" "unat (of_nat d :: u64) = d" "unat (of_nat n :: u64) = n"
    using assms by (auto intro!: unat_of_nat_u64)
  show ?thesis
    using grow_loop_stops [of "of_nat k" "of_nat d" "of_nat n", unfolded u] assms u(1) by blast
qed

lemma push_bit_256_le: "(push_bit k 256 :: u64) \<le> 2 ^ 63"
proof (cases "k + 8 < 64")
  case True
  have "(push_bit k 256 :: u64) = 2 ^ (k + 8)"
    by (simp add: push_bit_eq_mult power_add)
  moreover have "unat ((2 :: u64) ^ (k + 8)) = 2 ^ (k + 8)"
    using unat_of_nat_u64 [of "2 ^ (k + 8)"] power_strict_increasing [OF True, of "2::nat"] by simp
  moreover have "(2 :: nat) ^ (k + 8) \<le> 2 ^ 63"
    using True by (intro power_increasing) auto
  ultimately show ?thesis by (simp add: word_le_nat_alt)
next
  case False
  then have "(2 :: u64) ^ (k + 8) = 0"
    by simp
  then show ?thesis by (simp add: push_bit_eq_mult power_add mult.commute)
qed

lemma grow_loop_forever:
  assumes "\<And>j. push_bit j s < need"
  shows "grow_loop (push_bit k s) 0 need = None"
proof (rule ccontr)
  assume "grow_loop (push_bit k s) 0 need \<noteq> None"
  then obtain r where ret: "grow_loop (push_bit k s) 0 need = Some r" by auto
  have "\<not> (need = need \<and> (0::u64) = 0 \<and> (\<exists>j. push_bit k s = push_bit j s))"
  proof (rule grow_loop.raw_induct
      [where P = "\<lambda>b d n r. \<not> (n = need \<and> d = 0 \<and> (\<exists>j. b = push_bit j s))", OF _ ret], safe)
    fix f :: "u64 \<Rightarrow> u64 \<Rightarrow> u64 \<Rightarrow> u64 option" and r' j
    assume IH: "\<And>b d n r. f b d n = Some r \<Longrightarrow> \<not> (n = need \<and> d = 0 \<and> (\<exists>j. b = push_bit j s))"
      and eq: "(if push_bit j s - 0 < need then f (push_bit 1 (push_bit j s)) 0 need
                else Some (push_bit j s)) = Some r'"
    have "f (push_bit (1 + j) s) 0 need = Some r'" using eq assms [of j] by (simp add: push_bit_push_bit)
    with IH show False by blast
  qed
  then show False by blast
qed

subsection \<open>EnsureSize, Write and ShrinkSpace\<close>

text \<open>A freshly allocated block that received the pending bytes holds exactly them.\<close>

lemma moved_block:
  assumes "dlen \<le> length nb" "blk b = Some d" "buf_ok b" "dlen = wpos b - rpos b"
    and "b' = \<lparr>blk = Some (if dlen > 0 then memcpy_at nb 0 (take dlen (drop (rpos b) d)) else nb),
               rpos = 0, wpos = dlen\<rparr>"
  shows "buf_ok b' \<and> GetReading b' = GetReading b \<and> GetCapacity b' = length nb"
proof -
  have len: "length (take dlen (drop (rpos b) d)) = dlen"
    using assms(2-4) by (auto simp: buf_defs)
  then have copied: "length (memcpy_at nb 0 (take dlen (drop (rpos b) d))) = length nb"
    using assms(1) by simp
  then have "GetReading b' = take dlen (drop (rpos b) d)"
    using take_drop_memcpy_at [of 0 0 "take dlen (drop (rpos b) d)" nb] len assms
    by (auto simp: GetReading_def)
  then show ?thesis using assms copied by (auto simp: buf_defs)
qed

lemma EnsureSize_spec:
  assumes inv: "buf_inv b" and m: "malloc_ok malloc" and lim: "GetReadingSize b + need \<le> buf_limit"
  shows "\<exists>ok b'. EnsureSize malloc need b = Some (ok, b') \<and> buf_inv b' \<and> GetReading b' = GetReading b \<and>
           (ok \<longrightarrow> need \<le> GetWritingSize b' \<and> blk b' \<noteq> None) \<and>
           (\<not> ok \<longrightarrow> b' = b \<and> (\<exists>n. malloc n = None))"
proof (cases "blk b")
  case None
  have need: "need \<le> 2 ^ 60" using lim by (simp add: buf_limit_def)
  have "\<exists>r. grow_loop (of_nat 256) (of_nat 0) (of_nat need) = Some r \<and> 0 + need \<le> unat r \<and>
             (unat r = 256 \<or> unat r < 2 * (0 + need))"
    by (rule grow_loop_nat) (use need in simp_all)
  then obtain r where r: "grow_loop 256 0 (of_nat need) = Some r" "need \<le> unat r"
      "unat r = 256 \<or> unat r < 2 * need"
    by auto
  have b: "rpos b = 0" "wpos b = 0" using inv None by (auto simp: buf_inv_def buf_defs)
  show ?thesis
  proof (cases "malloc (unat r)")
    case None': None
    then show ?thesis using None r inv by (auto simp: EnsureSize_def)
  next
    case (Some nb)
    then have len: "length nb = unat r" using m by auto
    have "EnsureSize malloc need b = Some (True, \<lparr>blk = Some nb, rpos = 0, wpos = 0\<rparr>)"
      by (simp add: EnsureSize_def None r(1) Some)
    moreover have "unat r < 2 ^ 62 \<and> 0 < unat r" using r(2,3) need by (elim disjE) simp_all
    ultimately show ?thesis using r(2) len
      by (intro exI [of _ True] exI [of _ "\<lparr>blk = Some nb, rpos = 0, wpos = 0\<rparr>"] conjI)
        (simp_all add: buf_inv_def buf_defs None)
  qed
next
  case (Some d)
  have pos: "rpos b \<le> wpos b" "wpos b \<le> length d" "length d < 2 ^ 62" "d \<noteq> []"
    using inv Some by (auto simp: buf_inv_def buf_defs)
  let ?dlen = "wpos b - rpos b"
  let ?flen = "(length d - wpos b) + rpos b"
  have dn: "?dlen + need \<le> 2 ^ 60" using lim by (simp add: buf_limit_def GetReadingSize_def)
  show ?thesis
  proof (cases "wpos b + need \<le> length d")
    case True
    have "EnsureSize malloc need b = Some (True, b)" using Some True by (simp add: EnsureSize_def)
    moreover have "need \<le> GetWritingSize b" using Some True by (simp add: GetWritingSize_def GetCapacity_def)
    ultimately show ?thesis using inv Some by (intro exI [of _ True] exI [of _ b]) simp
  next
    case False
    note nofit = False
    show ?thesis
    proof (cases "?flen < need \<or> ?flen * 4 < ?dlen")
      case True
      have small: "length d < 2 ^ 61" using True dn pos by auto
      have "0 < length d" using True nofit pos by auto
      then have "\<exists>r. grow_loop (of_nat (length d * 2)) (of_nat ?dlen) (of_nat need) = Some r \<and>
          ?dlen + need \<le> unat r \<and> (unat r = length d * 2 \<or> unat r < 2 * (?dlen + need))"
        by (intro grow_loop_nat) (use dn pos small in simp_all)
      then obtain r where r: "grow_loop (of_nat (length d * 2)) (of_nat ?dlen) (of_nat need) = Some r"
          "?dlen + need \<le> unat r" "unat r = length d * 2 \<or> unat r < 2 * (?dlen + need)"
        by blast
      show ?thesis
      proof (cases "malloc (unat r)")
        case None
        then show ?thesis using Some nofit True r inv by (auto simp: EnsureSize_def Let_def)
      next
        case (Some nb)
        have nb: "length nb = unat r" using m Some by auto
        let ?b' = "\<lparr>blk = Some (if ?dlen > 0 then memcpy_at nb 0 (take ?dlen (drop (rpos b) d)) else nb),
                    rpos = 0, wpos = ?dlen\<rparr>"
        have ens: "EnsureSize malloc need b = Some (True, ?b')"
          using \<open>blk b = Some d\<close> nofit True r Some by (auto simp: EnsureSize_def Let_def)
        have keep: "buf_ok ?b' \<and> GetReading ?b' = GetReading b \<and> GetCapacity ?b' = length nb"
          using \<open>blk b = Some d\<close> inv nb r by (intro moved_block) (auto simp: buf_inv_def)
        have rr: "unat r < 2 ^ 62" "0 < unat r" using r(2,3) small dn pos nofit by auto
        have "buf_inv ?b'" using keep rr nb unfolding buf_inv_def by simp
        moreover have "need \<le> GetWritingSize ?b'"
          using keep nb r(2) unfolding GetWritingSize_def by simp
        ultimately show ?thesis using ens keep by (intro exI [of _ True] exI [of _ ?b']) simp
      qed
    next
      case False
      let ?b' = "\<lparr>blk = Some (memcpy_at d 0 (take ?dlen (drop (rpos b) d))), rpos = 0, wpos = ?dlen\<rparr>"
      have ens: "EnsureSize malloc need b = Some (True, ?b')"
        using Some nofit False by (auto simp: EnsureSize_def Let_def)
      have len: "length (take ?dlen (drop (rpos b) d)) = ?dlen" using pos by simp
      then have "GetReading ?b' = GetReading b"
        using take_drop_memcpy_at [of 0 0 "take ?dlen (drop (rpos b) d)" d] Some pos
        by (simp add: GetReading_def)
      moreover have "buf_inv ?b'"
        using pos inv Some len by (simp add: buf_inv_def buf_defs)
      moreover have "need \<le> GetWritingSize ?b'"
        using False pos len by (simp add: buf_defs)
      ultimately show ?thesis using ens by (intro exI [of _ True] exI [of _ ?b']) simp
    qed
  qed
qed

lemma EnsureSize_refuses_nothing:
  assumes "buf_inv b" "malloc_ok malloc" "GetReadingSize b + need \<le> buf_limit" "\<forall>n. malloc n \<noteq> None"
  shows "\<exists>b'. EnsureSize malloc need b = Some (True, b') \<and> buf_inv b' \<and>
              GetReading b' = GetReading b \<and> need \<le> GetWritingSize b'"
  using EnsureSize_spec [OF assms(1-3)] assms(4) by (metis (full_types))

lemma put_content:
  assumes "buf_inv b" "blk b = Some d" "wpos b + length xs \<le> length d"
  shows "buf_inv (b\<lparr>blk := map_option (\<lambda>d. memcpy_at d (wpos b) xs) (blk b), wpos := wpos b + length xs\<rparr>) \<and>
         GetReading (b\<lparr>blk := map_option (\<lambda>d. memcpy_at d (wpos b) xs) (blk b), wpos := wpos b + length xs\<rparr>)
           = GetReading b @ xs"
  using assms take_drop_memcpy_at [of "rpos b" "wpos b" xs d]
  by (auto simp: buf_inv_def buf_defs)

lemma Write_spec:
  assumes inv: "buf_inv b" and m: "malloc_ok malloc" and lim: "GetReadingSize b + length xs \<le> buf_limit"
  shows "\<exists>ok b'. Write malloc xs b = Some (ok, b') \<and> buf_inv b' \<and>
           GetReading b' = GetReading b @ (if ok then xs else []) \<and>
           (\<not> ok \<longrightarrow> b' = b \<and> (\<exists>n. malloc n = None))"
proof (cases "wpos b + length xs \<le> GetCapacity b")
  case True
  show ?thesis
  proof (cases "blk b")
    case None
    then show ?thesis using True inv
      by (auto simp: Write_def Let_def buf_inv_def buf_defs)
  next
    case (Some d)
    then show ?thesis using True put_content [OF inv Some, of xs]
      by (auto simp: Write_def Let_def GetCapacity_def)
  qed
next
  case False
  from EnsureSize_spec [OF inv m lim] obtain ok b' where
    b': "EnsureSize malloc (length xs) b = Some (ok, b')" "buf_inv b'" "GetReading b' = GetReading b"
        "ok \<longrightarrow> length xs \<le> GetWritingSize b' \<and> blk b' \<noteq> None"
        "\<not> ok \<longrightarrow> b' = b \<and> (\<exists>n. malloc n = None)"
    by blast
  show ?thesis
  proof (cases ok)
    case True
    then obtain d where d: "blk b' = Some d" using b'(4) by auto
    have "wpos b' + length xs \<le> length d"
      using b'(2,4) True d by (auto simp: buf_inv_def buf_defs)
    then show ?thesis using put_content [OF b'(2) d, of xs] b' True False
      by (auto simp: Write_def Let_def)
  next
    case ok: False
    then show ?thesis using b' False by (auto simp: Write_def Let_def)
  qed
qed

lemma signed_31_nat: "n < 2 ^ 31 \<Longrightarrow> nat (signed_take_bit 31 (int n)) = n"
  by (subst signed_take_bit_int_eq_self) auto

lemma ShrinkSpace_spec:
  assumes "buf_inv b" "malloc_ok malloc" "0 < max_size" "max_size < 2 ^ 62" "GetReadingSize b < 2 ^ 31"
    and "ShrinkSpace malloc max_size b = (r, b')"
  shows "buf_inv b' \<and> GetReading b' = GetReading b \<and> (GetCapacity b' = GetCapacity b \<or> GetCapacity b' = max_size)
         \<and> (\<not> r \<longrightarrow> b' = b \<and> malloc max_size = None)"
proof (cases "blk b")
  case None
  then show ?thesis using assms by (simp add: ShrinkSpace_def)
next
  case (Some d)
  have dlen: "nat (signed_take_bit 31 (int (wpos b - rpos b))) = wpos b - rpos b"
    using assms(5) by (intro signed_31_nat) (simp add: GetReadingSize_def)
  show ?thesis
  proof (cases "length d < max_size \<or> wpos b > rpos b + max_size \<or> malloc max_size = None")
    case True
    then show ?thesis using assms Some by (auto simp: ShrinkSpace_def Let_def split: if_splits)
  next
    case False
    then obtain nb where nb: "malloc max_size = Some nb" "length nb = max_size" using assms(2) by auto
    have b': "r" "b' = \<lparr>blk = Some (if wpos b - rpos b > 0 then memcpy_at nb 0 (take (wpos b - rpos b) (drop (rpos b) d)) else nb),
               rpos = 0, wpos = wpos b - rpos b\<rparr>"
      using assms(6) False Some nb(1) by (auto simp: ShrinkSpace_def Let_def dlen)
    have ok: "buf_ok b' \<and> GetReading b' = GetReading b \<and> GetCapacity b' = length nb"
      by (rule moved_block [OF _ Some _ refl b'(2)]) (use assms(1) False nb in \<open>auto simp: buf_inv_def\<close>)
    then have "buf_inv b'" using nb assms(3,4) b' by (simp add: buf_inv_def)
    with ok nb b' show ?thesis by simp
  qed
qed

subsection \<open>FindBytes\<close>

definition occurs_at :: "'a list \<Rightarrow> 'a list \<Rightarrow> nat \<Rightarrow> bool" where
  "occurs_at p dat i \<longleftrightarrow> take (length p) (drop i dat) = p"

lemma occurs_at_length: "occurs_at p dat i \<Longrightarrow> p \<noteq> [] \<Longrightarrow> i + length p \<le> length dat"
  unfolding occurs_at_def
  by (drule arg_cong [where f = length]) (cases p, auto simp: min_def split: if_splits)

lemma occurs_at_first: "occurs_at p dat i \<Longrightarrow> p \<noteq> [] \<Longrightarrow> take 1 (drop i dat) = take 1 p"
  unfolding occurs_at_def by (cases p) (auto simp: take_Cons' split: if_splits, metis One_nat_def take_Suc_Cons take0 take_Nil list.exhaust)

lemma find_from_spec:
  assumes "p \<noteq> []" "0 \<le> i"
  shows "(find_from dat p i dLen = -1 \<and> (\<forall>j. i \<le> j \<and> j \<le> dLen \<longrightarrow> \<not> occurs_at p dat (nat j))) \<or>
         (i \<le> find_from dat p i dLen \<and> find_from dat p i dLen \<le> dLen \<and>
          occurs_at p dat (nat (find_from dat p i dLen)) \<and>
          (\<forall>j. i \<le> j \<and> j < find_from dat p i dLen \<longrightarrow> \<not> occurs_at p dat (nat j)))"
  using assms
proof (induction dat p i dLen rule: find_from.induct)
  case (1 dat p i dLen)
  have hit: "(take 1 (drop (nat i) dat) = take 1 p \<and> take (length p) (drop (nat i) dat) = p)
             \<longleftrightarrow> occurs_at p dat (nat i)"
    using occurs_at_first [OF _ "1.prems"(1), of dat "nat i"] by (auto simp: occurs_at_def)
  consider "dLen < i" | "i \<le> dLen" "occurs_at p dat (nat i)" | "i \<le> dLen" "\<not> occurs_at p dat (nat i)"
    by fastforce
  then show ?case
  proof cases
    case 1
    then show ?thesis by (subst (1) find_from.simps) auto
  next
    case 2
    then have "find_from dat p i dLen = i" using hit by (subst find_from.simps) simp
    then show ?thesis using 2 by auto
  next
    case 3
    then have step: "find_from dat p i dLen = find_from dat p (i + 1) dLen"
      using hit by (subst find_from.simps) auto
    have split: "i \<le> j \<longleftrightarrow> j = i \<or> i + 1 \<le> j" for j by auto
    show ?thesis
      using "1.IH" [OF 3(1)] 3 hit "1.prems" unfolding step split by auto
  qed
qed

lemma FindBytes_spec:
  assumes ok: "buf_ok b" and p: "p \<noteq> []" "length p < 2 ^ 31" and small: "GetReadingSize b < 2 ^ 31" and f: "0 \<le> f"
  shows "(FindBytes p f b = -1 \<and> (\<forall>j \<ge> nat f. \<not> occurs_at p (GetReading b) j)) \<or>
         (f \<le> FindBytes p f b \<and> occurs_at p (GetReading b) (nat (FindBytes p f b)) \<and>
          (\<forall>j. nat f \<le> j \<and> j < nat (FindBytes p f b) \<longrightarrow> \<not> occurs_at p (GetReading b) j))"
proof -
  define d where "d = int (GetReadingSize b) - int (length p)"
  have "signed_take_bit 31 d = d"
    using p small unfolding d_def by (intro signed_take_bit_int_eq_self) auto
  then have F: "FindBytes p f b = find_from (GetReading b) p f d"
    using p f by (simp add: FindBytes_def d_def)
  have late: "int j \<le> d" if "occurs_at p (GetReading b) j" for j
    using occurs_at_length [OF that p(1)] ok by (simp add: d_def)
  consider
      "find_from (GetReading b) p f d = -1" "\<forall>j. f \<le> j \<and> j \<le> d \<longrightarrow> \<not> occurs_at p (GetReading b) (nat j)"
    | "f \<le> find_from (GetReading b) p f d" "occurs_at p (GetReading b) (nat (find_from (GetReading b) p f d))"
      "\<forall>j. f \<le> j \<and> j < find_from (GetReading b) p f d \<longrightarrow> \<not> occurs_at p (GetReading b) (nat j)"
    using find_from_spec [OF p(1) f, of "GetReading b" d] by blast
  then show ?thesis
  proof cases
    case 1
    have "\<not> occurs_at p (GetReading b) j" if "nat f \<le> j" for j
      using 1(2) [rule_format, of "int j"] late [of j] that f by (auto simp: nat_le_iff)
    with 1 F show ?thesis by simp
  next
    case 2
    have "\<not> occurs_at p (GetReading b) j"
      if "nat f \<le> j" "j < nat (find_from (GetReading b) p f d)" for j
      using 2(3) [rule_format, of "int j"] that f by (auto simp: nat_le_iff)
    with 2 F show ?thesis by simp
  qed
qed

section \<open>Buffer as a byte queue\<close>

lemma buf_inv_DrainReading [inv_intros]: "buf_inv b \<Longrightarrow> buf_inv (DrainReading n b)"
proof -
  have "blk (DrainReading n b) = blk b"
    by (simp add: DrainReading_def Let_def ResetAll_def)
  then show "buf_inv b \<Longrightarrow> buf_inv (DrainReading n b)"
    by (simp add: buf_inv_def buf_ok_DrainReading GetCapacity_DrainReading)
qed

lemma buf_inv_ResetAll [inv_intros]: "buf_inv b \<Longrightarrow> buf_inv (ResetAll b)"
proof -
  have "blk (ResetAll b) = blk b" by (simp add: ResetAll_def)
  then show "buf_inv b \<Longrightarrow> buf_inv (ResetAll b)"
    by (simp add: buf_inv_def buf_ok_ResetAll GetCapacity_ResetAll)
qed

lemma buf_inv_new [inv_intros]: "buf_inv buf_new"
  by (simp add: buf_inv_def buf_new_def buf_defs)

text \<open>An allocator that never fails; the fill byte is arbitrary.\<close>

definition malloc_fill :: "'a \<Rightarrow> nat \<Rightarrow> 'a list option" where
  "malloc_fill x n = Some (replicate n x)"

lemma malloc_ok_fill [simp]: "malloc_ok (malloc_fill x)"
  by (simp add: malloc_ok_def malloc_fill_def)

text \<open>
  An allocator that documents malloc: it serves requests up to \<open>k\<close> elements and fails above.
\<close>

definition malloc_upto :: "nat \<Rightarrow> 'a \<Rightarrow> nat \<Rightarrow> 'a list option" where
  "malloc_upto k x n = (if n \<le> k then Some (replicate n x) else None)"

lemma malloc_ok_upto [simp]: "malloc_ok (malloc_upto k x)"
  by (simp add: malloc_ok_def malloc_upto_def)

text \<open>
  Every allocator that behaves as documented turns the buffer into a byte queue; the bounded
  allocator is one.
\<close>

locale allocator =
  fixes malloc :: "nat \<Rightarrow> 'a list option"
  assumes malloc_documented: "malloc_ok malloc"

sublocale allocator \<subseteq> bufq: byte_queue buf_inv GetReading "Write malloc" DrainReading buf_limit
proof unfold_locales
  fix b :: "'a buffer" and xs :: "'a list"
  assume inv: "buf_inv b" and lim: "length (GetReading b) + length xs \<le> buf_limit"
  have "GetReadingSize b + length xs \<le> buf_limit"
    using inv lim by (simp add: buf_inv_def)
  from Write_spec [OF inv malloc_documented this]
  show "\<exists>ok b'. Write malloc xs b = Some (ok, b') \<and> buf_inv b' \<and>
          GetReading b' = GetReading b @ (if ok then xs else [])"
    by blast
qed (simp_all add: buf_inv_DrainReading GetReading_DrainReading)

context allocator
begin

lemmas encode_prefix = bufq.write_all_prefix
lemmas encode_content = bufq.write_all_content
lemmas encode_then_drain = bufq.write_then_drain

end

interpretation upto: allocator "malloc_upto k x"
  by unfold_locales simp

lemma Write_all_prefix:
  assumes "malloc_ok malloc" "buf_inv b" "GetReadingSize b + length (concat cs) \<le> buf_limit"
  shows "\<exists>ok b' k. write_all (Write malloc) cs b = Some (ok, b') \<and> buf_inv b' \<and>
     GetReading b' = GetReading b @ concat (take k cs) \<and> (if ok then k = length cs else k < length cs)"
proof -
  have "length (GetReading b) + length (concat cs) \<le> buf_limit"
    using assms(2,3) by (simp add: buf_inv_def)
  from allocator.encode_prefix [OF allocator.intro [OF assms(1)] assms(2) this]
  show ?thesis .
qed

text \<open>When memory never runs out, nothing is refused.\<close>

lemma Write_all_total:
  "malloc_ok malloc \<Longrightarrow> \<forall>n. malloc n \<noteq> None \<Longrightarrow> buf_inv b \<Longrightarrow> GetReadingSize b + length (concat cs) \<le> buf_limit \<Longrightarrow>
     \<exists>b'. write_all (Write malloc) cs b = Some (True, b')"
proof (induction cs arbitrary: b)
  case (Cons c cs)
  have "GetReadingSize b + length c \<le> buf_limit" using Cons.prems(4) by simp
  from Write_spec [OF Cons.prems(3,1) this] obtain ok b1 where
    w: "Write malloc c b = Some (ok, b1)" "buf_inv b1" "GetReading b1 = GetReading b @ (if ok then c else [])" "\<not> ok \<longrightarrow> (\<exists>n. malloc n = None)"
    by blast
  then have ok using Cons.prems(2) by blast
  with w have b1: "Write malloc c b = Some (True, b1)" "buf_inv b1" "GetReading b1 = GetReading b @ c" by simp_all
  then have "GetReadingSize b1 = GetReadingSize b + length c"
    using Cons.prems(3) by (metis buf_inv_def length_GetReading length_append)
  with Cons.IH [OF Cons.prems(1,2) b1(2)] Cons.prems(4) b1(1) show ?case by simp
qed simp

section \<open>Properties\<close>



text \<open>FindBytes returns the first position from \<open>f\<close> on at which the pattern occurs in the pending
  bytes, and -1 exactly when there is none, for data and patterns below 2 GiB.\<close>

lemma FindBytes_first:
  assumes "buf_inv b" "p \<noteq> []" "length p < 2 ^ 31" "GetReadingSize b < 2 ^ 31" "0 \<le> f"
  shows "FindBytes p f b = (if \<exists>j \<ge> nat f. occurs_at p (GetReading b) j
           then int (LEAST j. nat f \<le> j \<and> occurs_at p (GetReading b) j) else -1)"
proof -
  have "buf_ok b" using assms(1) by (simp add: buf_inv_def)
  from FindBytes_spec [OF this assms(2-5)] consider
    "FindBytes p f b = -1" "\<forall>j \<ge> nat f. \<not> occurs_at p (GetReading b) j" |
    "f \<le> FindBytes p f b" "occurs_at p (GetReading b) (nat (FindBytes p f b))"
    "\<forall>j. nat f \<le> j \<and> j < nat (FindBytes p f b) \<longrightarrow> \<not> occurs_at p (GetReading b) j"
    by blast
  then show ?thesis
  proof cases
    case 1
    then show ?thesis by auto
  next
    case 2
    then have "(LEAST j. nat f \<le> j \<and> occurs_at p (GetReading b) j) = nat (FindBytes p f b)"
      by (intro Least_equality) (auto simp: not_less [symmetric] simp del: not_less)
    with 2 assms(5) show ?thesis by (metis nat_mono int_nat_eq order_trans)
  qed
qed

lemma FindBytes_first_witness:
  "FindBytes ''cd'' 0 \<lparr>blk = Some ''xabcdcd.'', rpos = 1, wpos = 7\<rparr> =
     (if \<exists>j \<ge> nat 0. occurs_at ''cd'' (GetReading \<lparr>blk = Some ''xabcdcd.'', rpos = 1, wpos = 7\<rparr>) j
      then int (LEAST j. nat 0 \<le> j \<and> occurs_at ''cd'' (GetReading \<lparr>blk = Some ''xabcdcd.'', rpos = 1, wpos = 7\<rparr>) j)
      else -1)
   \<and> FindBytes ''cd'' 0 \<lparr>blk = Some ''xabcdcd.'', rpos = 1, wpos = 7\<rparr> = 2"
  by (intro conjI FindBytes_first)
     (simp_all add: buf_inv_def buf_defs FindBytes_def signed_take_bit_int_eq_self find_from.simps)

text \<open>Shrinking a buffer that holds less than 2 GiB to a positive size keeps the pending bytes and the
  invariant, and the capacity is either unchanged or the size asked for; when malloc fails it
  returns false and changes nothing.\<close>

lemma ShrinkSpace_keeps:
  assumes "buf_inv b" "malloc_ok malloc" "0 < max_size" "max_size < 2 ^ 62" "GetReadingSize b < 2 ^ 31"
    and "ShrinkSpace malloc max_size b = (r, b')"
  shows "buf_inv b' \<and> GetReading b' = GetReading b \<and> (GetCapacity b' = GetCapacity b \<or> GetCapacity b' = max_size)
         \<and> (\<not> r \<longrightarrow> b' = b \<and> malloc max_size = None)"
  using assms by (rule ShrinkSpace_spec)

lemma ShrinkSpace_keeps_witness:
  "ShrinkSpace (malloc_upto 9 CHR ''.'') 4 \<lparr>blk = Some ''abcdef'', rpos = 1, wpos = 3\<rparr>
      = (True, \<lparr>blk = Some ''bc..'', rpos = 0, wpos = 2\<rparr>)
   \<and> GetReading \<lparr>blk = Some ''bc..'', rpos = 0, wpos = 2\<rparr> = ''bc''"
proof -
  have run: "ShrinkSpace (malloc_upto 9 CHR ''.'') 4 \<lparr>blk = Some ''abcdef'', rpos = 1, wpos = 3\<rparr>
      = (True, \<lparr>blk = Some ''bc..'', rpos = 0, wpos = 2\<rparr>)"
    by (simp add: ShrinkSpace_def malloc_upto_def memcpy_at_def numeral_eq_Suc)
  have "GetReading \<lparr>blk = Some ''bc..'', rpos = 0, wpos = 2\<rparr> = GetReading \<lparr>blk = Some ''abcdef'', rpos = 1, wpos = 3\<rparr>"
    using ShrinkSpace_keeps [OF _ _ _ _ _ run] by (simp add: buf_inv_def buf_defs)
  with run show ?thesis by (simp add: buf_defs)
qed

text \<open>Shrinking an idle buffer to size 0 leaves a block of size 0, and the next non-empty
  write does not return: doubling 0 stays 0.\<close>

lemma ShrinkSpace_0_then_Write_loops:
  assumes "buf_inv b" "blk b \<noteq> None" "rpos b = wpos b" "malloc 0 = Some []"
    and "xs \<noteq> []" "length xs < 2 ^ 64"
  shows "Write malloc xs (snd (ShrinkSpace malloc 0 b)) = None"
proof -
  from assms(2) obtain d where d: "blk b = Some d" by auto
  have s: "snd (ShrinkSpace malloc 0 b) = \<lparr>blk = Some [], rpos = 0, wpos = 0\<rparr>"
    using d assms(3,4) by (simp add: ShrinkSpace_def)
  have "0 < (of_nat (length xs) :: u64)"
    using assms(5,6) by (metis unat_of_nat_u64 length_greater_0_conv unat_gt_0 unat_eq_zero neq0_conv word_gt_0)
  then have "grow_loop 0 0 (of_nat (length xs)) = None"
    using grow_loop_forever [of 0 "of_nat (length xs)" 0] by simp
  then show ?thesis
    using assms(5) by (simp add: s Write_def EnsureSize_def Let_def buf_defs)
qed

lemma ShrinkSpace_0_then_Write_loops_witness:
  "Write (malloc_upto 256 CHR ''x'') ''a''
     (snd (ShrinkSpace (malloc_upto 256 CHR ''x'') 0 \<lparr>blk = Some ''x'', rpos = 0, wpos = 0\<rparr>)) = None"
  by (rule ShrinkSpace_0_then_Write_loops) (simp_all add: buf_inv_def buf_defs malloc_upto_def)

end
