(* ===== verification/C_Text.thy ===== *)
theory C_Text
  imports Prelude "HOL-Library.Char_ord"
begin

text \<open>
  Numbers in text, as the C library prints and reads them: sprintf with the unsigned decimal
  conversion and strtoll in base 10, which skips white space, takes a sign and clamps. Also the bytes of
  a character string and back.
\<close>

section \<open>Printing\<close>

definition digit :: "nat \<Rightarrow> char" where
  "digit n = char_of (n + 48)"

fun dec :: "nat \<Rightarrow> string" where
  "dec n = (if n < 10 then [digit n] else dec (n div 10) @ [digit (n mod 10)])"

declare dec.simps [simp del]

definition dec_int :: "int \<Rightarrow> string" where
  "dec_int i = (if i < 0 then CHR ''-'' # dec (nat (- i)) else dec (nat i))"

section \<open>Reading\<close>

definition is_digit :: "char \<Rightarrow> bool" where
  "is_digit c \<longleftrightarrow> 48 \<le> (of_char c :: nat) \<and> (of_char c :: nat) \<le> 57"

definition is_space :: "char \<Rightarrow> bool" where
  "is_space c \<longleftrightarrow> (of_char c :: nat) = 32 \<or> (9 \<le> (of_char c :: nat) \<and> (of_char c :: nat) \<le> 13)"

definition digits_value :: "string \<Rightarrow> nat" where
  "digits_value ds = foldl (\<lambda>v c. v * 10 + ((of_char c :: nat) - 48)) 0 ds"

text \<open>
  strtoll(s, \&end, 10): the value and the number of characters up to \<open>end\<close>; without digits the value
  is 0 and \<open>end\<close> is the start.
\<close>

definition strtoll :: "string \<Rightarrow> int \<times> nat" where
  "strtoll s =
     (let ws = takeWhile is_space s;
          rest = drop (length ws) s;
          sign = (case rest of [] \<Rightarrow> 0 | c # cs \<Rightarrow> if c = CHR ''-'' \<or> c = CHR ''+'' then 1 else 0);
          ds = takeWhile is_digit (drop sign rest);
          v = int (digits_value ds)
      in if ds = [] then (0, 0)
         else (if take sign rest = ''-'' then max (- (2 ^ 63)) (- v) else min (2 ^ 63 - 1) v,
               length ws + sign + length ds))"

text \<open>atoi: the conversion to int cuts the value.\<close>

definition atoi :: "string \<Rightarrow> int" where
  "atoi s = signed_take_bit 31 (fst (strtoll s))"

section \<open>What is printed is read back\<close>

lemma of_char_digit: "n < 10 \<Longrightarrow> (of_char (digit n) :: nat) = n + 48"
  by (simp add: digit_def)

lemma is_digit_digit: "n < 10 \<Longrightarrow> is_digit (digit n)"
  by (simp add: is_digit_def of_char_digit)

lemma dec_nonempty [simp]: "dec n \<noteq> []"
  by (subst dec.simps) simp

lemma dec_digits: "c \<in> set (dec n) \<Longrightarrow> is_digit c"
proof (induction n rule: dec.induct)
  case (1 n)
  then show ?case by (subst (asm) (2) dec.simps) (auto simp: is_digit_digit split: if_splits)
qed

lemma digits_value_dec: "digits_value (dec n) = n"
proof (induction n rule: dec.induct)
  case (1 n)
  then show ?case
    by (subst dec.simps) (auto simp: digits_value_def of_char_digit)
qed

lemma digit_not_space: "is_digit c \<Longrightarrow> \<not> is_space c"
  by (auto simp: is_digit_def is_space_def)

lemma digit_not_sign: "is_digit c \<Longrightarrow> c \<noteq> CHR ''-'' \<and> c \<noteq> CHR ''+''"
  by (auto simp: is_digit_def)

lemma dec_hd: "is_digit (hd (dec n))"
  by (rule dec_digits [of _ n]) simp

lemma strtoll_dec:
  assumes "int n < 2 ^ 63" "\<not> is_digit c"
  shows "strtoll (dec n @ c # rest) = (int n, length (dec n))"
proof -
  obtain d ds where dn: "dec n = d # ds" by (cases "dec n") auto
  have d: "is_digit d" using dec_hd [of n] by (simp add: dn)
  have ws: "takeWhile is_space (dec n @ c # rest) = []"
    using digit_not_space [OF d] by (simp add: dn)
  have tw: "takeWhile is_digit (dec n @ c # rest) = dec n"
    using assms(2) dec_digits by (simp add: takeWhile_append)
  have sign: "(case dec n @ c # rest of [] \<Rightarrow> 0 | c # cs \<Rightarrow> if c = CHR ''-'' \<or> c = CHR ''+'' then 1 else 0) = (0 :: nat)"
    using digit_not_sign [OF d] by (simp add: dn)
  show ?thesis
    using assms(1) unfolding strtoll_def Let_def ws list.size drop_0 sign tw
    by (simp add: digits_value_dec)
qed

lemma strtoll_dec_end:
  assumes "int n < 2 ^ 63"
  shows "strtoll (dec n) = (int n, length (dec n))"
proof -
  obtain d ds where dn: "dec n = d # ds" by (cases "dec n") auto
  have d: "is_digit d" using dec_hd [of n] by (simp add: dn)
  have ws: "takeWhile is_space (dec n) = []" using digit_not_space [OF d] by (simp add: dn)
  have tw: "takeWhile is_digit (dec n) = dec n" using dec_digits by (simp add: takeWhile_eq_all_conv)
  have sign: "(case dec n of [] \<Rightarrow> 0 | c # cs \<Rightarrow> if c = CHR ''-'' \<or> c = CHR ''+'' then 1 else 0) = (0 :: nat)"
    using digit_not_sign [OF d] by (simp add: dn)
  show ?thesis using assms unfolding strtoll_def Let_def ws list.size drop_0 sign tw by (simp add: digits_value_dec)
qed

lemma strtoll_dec_int: "\<bar>i\<bar> < 2 ^ 63 \<Longrightarrow> fst (strtoll (dec_int i)) = i"
proof (cases "i < 0")
  case True
  assume i: "\<bar>i\<bar> < 2 ^ 63"
  obtain d ds where dn: "dec (nat (- i)) = d # ds" by (cases "dec (nat (- i))") auto
  have s: "\<not> is_space (CHR ''-'')" by (simp add: is_space_def)
  have tw: "takeWhile is_digit (dec (nat (- i))) = dec (nat (- i))" using dec_digits by (simp add: takeWhile_eq_all_conv)
  show ?thesis using True i s by (simp add: dec_int_def strtoll_def Let_def tw digits_value_dec)
next
  case False
  assume i: "\<bar>i\<bar> < 2 ^ 63"
  then have "int (nat i) < 2 ^ 63" using False by simp
  from strtoll_dec_end [OF this] False show ?thesis by (simp add: dec_int_def)
qed

lemma atoi_dec_int: "- (2 ^ 31) \<le> i \<Longrightarrow> i < 2 ^ 31 \<Longrightarrow> atoi (dec_int i) = i"
proof -
  assume i: "- (2 ^ 31) \<le> i" "i < 2 ^ 31"
  then have "\<bar>i\<bar> < 2 ^ 63" by simp
  then have "atoi (dec_int i) = signed_take_bit 31 i" by (simp add: atoi_def strtoll_dec_int)
  also have "\<dots> = i" using i by (intro signed_take_bit_int_eq_self) simp_all
  finally show ?thesis .
qed

lemma strtoll_minus_one: "\<not> is_digit c \<Longrightarrow> strtoll (''-1'' @ c # rest) = (-1, 2)"
proof -
  assume c: "\<not> is_digit c"
  have "\<not> is_space (CHR ''-'')" "is_digit (CHR ''1'')" "digits_value ''1'' = 1" by code_simp+
  with c show ?thesis by (simp add: strtoll_def Let_def)
qed

lemma strtoll_end: "snd (strtoll s) \<le> length s"
proof -
  let ?ws = "length (takeWhile is_space s)"
  define sign :: nat where "sign = (case drop ?ws s of [] \<Rightarrow> 0 | c # cs \<Rightarrow> if c = CHR ''-'' \<or> c = CHR ''+'' then 1 else 0)"
  define ds where "ds = takeWhile is_digit (drop (?ws + sign) s)"
  have "snd (strtoll s) = (if ds = [] then 0 else ?ws + sign + length ds)"
    unfolding strtoll_def Let_def sign_def [symmetric] by (simp add: ds_def add.commute)
  then have "snd (strtoll s) = 0 \<or> (\<exists>k ds. snd (strtoll s) = k + length ds \<and> ds \<noteq> [] \<and> ds = takeWhile is_digit (drop k s))"
    using ds_def by auto
  moreover have "k + length ds \<le> length s" if "ds \<noteq> []" "ds = takeWhile is_digit (drop k s)" for k ds
  proof -
    have "length ds \<le> length s - k"
      using length_takeWhile_le [of is_digit "drop k s"] that(2) by simp
    moreover have "0 < length ds" using that(1) by simp
    ultimately show ?thesis by linarith
  qed
  ultimately show ?thesis by fastforce
qed

section \<open>Bytes\<close>

definition chars_of :: "u8 list \<Rightarrow> string" where
  "chars_of bs = map (\<lambda>b. char_of (unat b)) bs"

definition bytes_of :: "string \<Rightarrow> u8 list" where
  "bytes_of s = map of_char s"

lemma byte_of_char: "of_char (char_of (unat w) :: char) = (w :: u8)"
proof -
  have "unat w < 256" using unsigned_less [of w] by simp
  have "(of_char (char_of (unat w) :: char) :: u8) = of_nat (of_char (char_of (unat w) :: char))"
    by (simp only: of_nat_of_char)
  also have "\<dots> = w" using \<open>unat w < 256\<close> by simp
  finally show ?thesis .
qed

lemma bytes_of_chars [simp]: "bytes_of (chars_of bs) = bs"
  by (simp add: bytes_of_def chars_of_def byte_of_char comp_def)

lemma length_chars_of [simp]: "length (chars_of bs) = length bs"
  by (simp add: chars_of_def)

end
