(* ===== verification/Messages.thy ===== *)
theory Messages
  imports C_Text
begin

text \<open>
  The messages of src/src/message\_base.h, message\_base.cpp, message.h and protocol/http/http\_info.h:
  the fields of MessageBase and EventMessage, with the fields of the derived class as a payload. A
  pointer to a message is the message; a static\_cast to a class the object does not have reads
  foreign memory and is the fault Bad\_Cast. A Dict (std::unordered\_map) is the list of its entries in
  iteration order, which the standard leaves open.
\<close>

section \<open>Kinds, directions and states\<close>

definition kUnknownEvent :: u8 where "kUnknownEvent = 0"
definition kHeartBeatMessage :: u8 where "kHeartBeatMessage = 1"
definition kRapidMessage :: u8 where "kRapidMessage = 2"
definition kHttpMessage :: u8 where "kHttpMessage = 3"
definition kRedisMessage :: u8 where "kRedisMessage = 4"

lemmas kinds = kUnknownEvent_def kHeartBeatMessage_def kRapidMessage_def kHttpMessage_def kRedisMessage_def

definition kIoUnknownEvent :: u8 where "kIoUnknownEvent = 0"
definition kIoHandleEventMsg :: u8 where "kIoHandleEventMsg = 1"
definition kIoActiveCloseEvent :: u8 where "kIoActiveCloseEvent = 2"

definition kDirectionUnknown :: u8 where "kDirectionUnknown = 0"
definition kIncomingRequest :: u8 where "kIncomingRequest = 1"
definition kOutgoingRequest :: u8 where "kOutgoingRequest = 2"
definition kIncomingResponse :: u8 where "kIncomingResponse = 3"
definition kOutgoingResponse :: u8 where "kOutgoingResponse = 4"
definition kOnlySend :: u8 where "kOnlySend = 5"
definition kSendNoCareResponse :: u8 where "kSendNoCareResponse = 6"

lemmas directions = kDirectionUnknown_def kIncomingRequest_def kOutgoingRequest_def kIncomingResponse_def
  kOutgoingResponse_def kOnlySend_def kSendNoCareResponse_def

definition kStatusOK :: u8 where "kStatusOK = 0"
definition kStatusTimeout :: u8 where "kStatusTimeout = 1"
definition kStatusEncodeFail :: u8 where "kStatusEncodeFail = 2"
definition kInternalFailure :: u8 where "kInternalFailure = 3"
definition kInvokeError :: u8 where "kInvokeError = 4"

lemmas statuses = kStatusOK_def kStatusTimeout_def kStatusEncodeFail_def kInternalFailure_def kInvokeError_def

section \<open>Names\<close>

text \<open>\<open>type < 0 || type >= table size\<close> falls back to a default text.\<close>

definition name_of :: "string list \<Rightarrow> string \<Rightarrow> int \<Rightarrow> string" where
  "name_of strs dflt t = (if t < 0 \<or> t \<ge> int (length strs) then dflt else strs ! nat t)"

definition MessageType_ToString :: "int \<Rightarrow> string" where
  "MessageType_ToString = name_of
     [''unknown event'', ''heart beat message'', ''rapid protocol message'', ''http protocol message'', ''redis protocol message'']
     ''unknown event''"

definition ToIoEventString :: "int \<Rightarrow> string" where
  "ToIoEventString = name_of [''unknown io event'', ''io event'', ''io handle event msg'', ''io active close event''] ''unknown event''"

definition ToDirectionString :: "int \<Rightarrow> string" where
  "ToDirectionString = name_of
     [''direction unknown'', ''incoming request'', ''outgoing request'', ''incoming response'', ''outgoing response'',
      ''only send'', ''send no care response''] ''direction unknown''"

definition ToStatusString :: "int \<Rightarrow> string" where
  "ToStatusString = name_of [''status ok'', ''status time out'', ''status encode fail'', ''status internal failure''] ''status unknown''"

section \<open>Payloads\<close>

type_synonym dict = "(string \<times> string) list"

definition dict_find :: "string \<Rightarrow> dict \<Rightarrow> string option" where
  "dict_find k d = map_of d k"

text \<open>insert keeps an entry that is there; operator[] replaces it.\<close>

definition dict_insert :: "string \<Rightarrow> string \<Rightarrow> dict \<Rightarrow> dict" where
  "dict_insert k v d = (if dict_find k d = None then d @ [(k, v)] else d)"

definition dict_put :: "string \<Rightarrow> string \<Rightarrow> dict \<Rightarrow> dict" where
  "dict_put k v d = (if dict_find k d = None then d @ [(k, v)] else map (\<lambda>(j, w). (j, if j = k then v else w)) d)"

record http_request_info =
  hi_method :: string
  hi_url :: string
  hi_headers :: dict
  new_field :: string
  hi_body :: string
  is_parsed_complete :: bool

definition http_info_new :: http_request_info where
  "http_info_new = \<lparr>hi_method = [], hi_url = [], hi_headers = [], new_field = [], hi_body = [], is_parsed_complete = False\<rparr>"

text \<open>Swap exchanges four strings and copies the flag; new\_field stays.\<close>

definition info_Swap :: "http_request_info \<Rightarrow> http_request_info \<Rightarrow> http_request_info \<times> http_request_info" where
  "info_Swap this info =
     (this\<lparr>hi_method := hi_method info, hi_url := hi_url info, hi_headers := hi_headers info, hi_body := hi_body info,
           is_parsed_complete := is_parsed_complete info\<rparr>,
      info\<lparr>hi_method := hi_method this, hi_url := hi_url this, hi_headers := hi_headers this, hi_body := hi_body this\<rparr>)"

definition info_ReSet :: "http_request_info \<Rightarrow> http_request_info" where
  "info_ReSet i = i\<lparr>hi_method := [], hi_url := [], hi_headers := [], new_field := [], hi_body := []\<rparr>"

definition EraseHead :: "string \<Rightarrow> http_request_info \<Rightarrow> http_request_info" where
  "EraseHead key i = i\<lparr>hi_headers := filter (\<lambda>e. fst e \<noteq> key) (hi_headers i)\<rparr>"

record http_data =
  http_major :: u16
  http_minor :: u16
  status_code :: u16
  keep_alive :: bool
  encode_gzip :: bool
  http_info :: http_request_info

datatype payload =
    No_Payload
  | Heart_Data u64 int
  | Rapid_Data string int
  | Redis_Data "string list"
  | Http_Data http_data

section \<open>Messages\<close>

record context_base =
  monitor_id :: u64
  callback :: "nat option"

record message =
  type_id :: u8
  type_io_event :: u8
  direction :: u8
  status :: u8
  sequence_id :: u64
  birthtime :: u64
  event_mask :: int
  descriptor_id :: int
  handle_id :: int
  timer_out_id :: u64
  ctx :: "context_base option"
  coroutine_id :: int
  payload :: payload

definition message_new :: "u8 \<Rightarrow> payload \<Rightarrow> message" where
  "message_new t p =
     \<lparr>type_id = t, type_io_event = 0, direction = 0, status = kStatusOK, sequence_id = -1, birthtime = 0, event_mask = 0,
      descriptor_id = 0, handle_id = -1, timer_out_id = 0, ctx = None, coroutine_id = -1, payload = p\<rparr>"

text \<open>The default members of the derived classes; fields without an initialiser are given.\<close>

definition RapidMessage_new :: message where
  "RapidMessage_new = message_new kRapidMessage (Rapid_Data [] 0)"

definition RedisMessage_new :: message where
  "RedisMessage_new = message_new kRedisMessage (Redis_Data [])"

definition HttpMessage_new :: "http_data \<Rightarrow> message" where
  "HttpMessage_new junk = message_new kHttpMessage (Http_Data (junk\<lparr>http_info := http_info_new\<rparr>))"

definition HeartBeatMessage_new :: "u64 \<Rightarrow> int \<Rightarrow> message" where
  "HeartBeatMessage_new l h = message_new kHeartBeatMessage (Heart_Data l h)"

definition payload_sync :: "payload \<Rightarrow> bool" where
  "payload_sync p = (case p of No_Payload \<Rightarrow> False | Heart_Data _ _ \<Rightarrow> True | Rapid_Data _ _ \<Rightarrow> False
                     | Redis_Data _ \<Rightarrow> True | Http_Data _ \<Rightarrow> True)"

definition GetHeader :: "string \<Rightarrow> http_data \<Rightarrow> string option" where
  "GetHeader field h = dict_find field (hi_headers (http_info h))"

definition InitReply :: "http_data option \<Rightarrow> u16 \<Rightarrow> bool \<Rightarrow> bool \<Rightarrow> http_data \<Rightarrow> http_data" where
  "InitReply ev st gz ka h =
     h\<lparr>http_major := (case ev of Some e \<Rightarrow> http_major e | None \<Rightarrow> 1),
       http_minor := (case ev of Some e \<Rightarrow> http_minor e | None \<Rightarrow> (if ka then 1 else 0)),
       status_code := st,
       keep_alive := ((case ev of None \<Rightarrow> True | Some e \<Rightarrow> keep_alive e) \<and> ka),
       encode_gzip := ((case ev of None \<Rightarrow> True | Some e \<Rightarrow> encode_gzip e) \<and> gz)\<rparr>"

definition InitRequest :: "string \<Rightarrow> bool \<Rightarrow> bool \<Rightarrow> bool \<Rightarrow> http_data \<Rightarrow> http_data" where
  "InitRequest cmd http_1_1 gz ka h =
     h\<lparr>http_major := 1, http_minor := (if http_1_1 then 1 else 0), status_code := 0, keep_alive := ka, encode_gzip := gz,
       http_info := (http_info h)\<lparr>hi_method := cmd\<rparr>\<rparr>"

section \<open>Dumps\<close>

definition MessageBase_Dump :: "message \<Rightarrow> string" where
  "MessageBase_Dump m =
     ''{\"type\": \"MessageBase\", \"type_id\": '' @ MessageType_ToString (uint (type_id m)) @
     '', \"type_io_event\": '' @ ToIoEventString (uint (type_io_event m)) @
     '', \"direction\": '' @ ToDirectionString (uint (direction m)) @
     '', \"status\": '' @ ToStatusString (uint (status m)) @
     '', \"sequence_id\": '' @ dec (unat (sequence_id m)) @
     '', \"birthtime\": '' @ dec (unat (birthtime m)) @
     '', \"event_mask\": '' @ dec_int (event_mask m) @ ''}''"

definition EventMessage_Dump :: "message \<Rightarrow> string" where
  "EventMessage_Dump m =
     ''{\"type\": \"EventMessage\", \"descriptor_id\": '' @ dec_int (descriptor_id m) @
     '', \"handle_id\": '' @ dec_int (handle_id m) @
     '', \"timer_out_id\": '' @ dec (unat (timer_out_id m)) @
     '', \"coro_id\": '' @ dec_int (coroutine_id m) @
     '', \"messagebase\": '' @ MessageBase_Dump m @ ''}''"

lemma ToStatusString_misses_kInvokeError: "ToStatusString (uint kInvokeError) = ''status unknown''"
  by (simp add: ToStatusString_def name_of_def kInvokeError_def)

lemma ToIoEventString_shifted:
  "ToIoEventString (uint kIoHandleEventMsg) = ''io event''" "ToIoEventString (uint kIoActiveCloseEvent) = ''io handle event msg''"
  by (simp_all add: ToIoEventString_def name_of_def kIoHandleEventMsg_def kIoActiveCloseEvent_def)

section \<open>Dictionaries\<close>

lemma dict_find_put: "dict_find j (dict_put k v d) = (if j = k then Some v else dict_find j d)"
proof -
  have upd: "map_of (map (\<lambda>(i, w). (i, if i = k then v else w)) d) j =
      (if j = k then map_option (\<lambda>w. v) (map_of d j) else map_of d j)" for j
    by (induction d) auto
  show ?thesis
    by (cases "j = k") (auto simp: dict_put_def dict_find_def upd map_add_def split: option.splits)
qed

lemma dict_find_insert: "dict_find j (dict_insert k v d) = (if j = k \<and> dict_find k d = None then Some v else dict_find j d)"
  by (auto simp: dict_insert_def dict_find_def map_add_def split: option.splits)

end
