(* ===== verification/Protocol_Base.thy ===== *)
theory Protocol_Base
  imports Buffer Messages
begin

text \<open>
  What the protocols of src/src/protocol share: the factory of protocol\_base.cpp, the idiom that reserves
  space in a buffer, copies bytes to the write position and advances it, and the reading loop of
  Connecting::DecodeMsg (net/connect.cpp) with the contract a framing protocol offers it.
\<close>

section \<open>The factory\<close>

datatype protocol_kind = RapidProtocol | HttpProtocol | RedisProtocol

type_synonym protocol_table = "protocol_kind option list"

definition RegisterProtocol :: "int \<Rightarrow> protocol_kind \<Rightarrow> protocol_table \<Rightarrow> protocol_table" where
  "RegisterProtocol t p v =
     (let v' = (if t \<ge> int (length v) then v @ replicate (nat t + 1 - length v) None else v)
      in v'[nat t := Some p])"

definition ProtocolFactory_new :: protocol_table where
  "ProtocolFactory_new =
     RegisterProtocol (uint kRedisMessage) RedisProtocol
       (RegisterProtocol (uint kHttpMessage) HttpProtocol
         (RegisterProtocol (uint kRapidMessage) RapidProtocol []))"

text \<open>Clone makes a new object of the same class.\<close>

definition Create :: "int \<Rightarrow> protocol_table \<Rightarrow> protocol_kind option" where
  "Create t v = (if t \<le> 0 \<or> t \<ge> int (length v) then None else v ! nat t)"

definition kind_sync :: "protocol_kind \<Rightarrow> bool" where
  "kind_sync k = (case k of RapidProtocol \<Rightarrow> False | HttpProtocol \<Rightarrow> True | RedisProtocol \<Rightarrow> True)"

lemma factory_table: "ProtocolFactory_new = [None, None, Some RapidProtocol, Some HttpProtocol, Some RedisProtocol]"
  by code_simp

lemma factory_creates:
  "Create t ProtocolFactory_new =
     (if t = uint kRapidMessage then Some RapidProtocol else if t = uint kHttpMessage then Some HttpProtocol
      else if t = uint kRedisMessage then Some RedisProtocol else None)"
proof -
  consider "t \<le> 0" | "t = 1" | "t = 2" | "t = 3" | "t = 4" | "t \<ge> 5" by linarith
  then show ?thesis
    by cases (simp_all add: Create_def factory_table kinds nth_Cons')
qed

section \<open>Reserving and filling space in a buffer\<close>

text \<open>\<open>if (!out->EnsureSize(n)) return false; memcpy(out->GetWriting(), ...); return out->PourWriting(n);\<close>\<close>

definition pour :: "(nat \<Rightarrow> 'a list option) \<Rightarrow> 'a list \<Rightarrow> 'a buffer \<Rightarrow> (bool \<times> 'a buffer) option" where
  "pour malloc xs b =
     (case EnsureSize malloc (length xs) b of
        None \<Rightarrow> None
      | Some (ok, b') \<Rightarrow>
          if ok then Some (PourWriting (length xs) (b'\<lparr>blk := map_option (\<lambda>d. memcpy_at d (wpos b') xs) (blk b')\<rparr>))
          else Some (False, b'))"

lemma pour_spec:
  assumes inv: "buf_inv b" and m: "malloc_ok malloc" and lim: "GetReadingSize b + length xs \<le> buf_limit"
  shows "\<exists>ok b'. pour malloc xs b = Some (ok, b') \<and> buf_inv b' \<and> GetReading b' = GetReading b @ (if ok then xs else []) \<and>
     (\<not> ok \<longrightarrow> b' = b \<and> (\<exists>n. malloc n = None))"
proof -
  from EnsureSize_spec [OF inv m lim] obtain ok b' where
    b': "EnsureSize malloc (length xs) b = Some (ok, b')" "buf_inv b'" "GetReading b' = GetReading b"
        "ok \<longrightarrow> length xs \<le> GetWritingSize b' \<and> blk b' \<noteq> None" "\<not> ok \<longrightarrow> b' = b \<and> (\<exists>n. malloc n = None)"
    by blast
  show ?thesis
  proof (cases ok)
    case False
    with b' show ?thesis by (intro exI [of _ False] exI [of _ b']) (simp add: pour_def)
  next
    case True
    then obtain d where d: "blk b' = Some d" using b'(4) by auto
    have fits: "wpos b' + length xs \<le> length d" using b'(2,4) True d by (auto simp: buf_inv_def buf_defs)
    let ?w = "b'\<lparr>blk := Some (memcpy_at d (wpos b') xs)\<rparr>"
    have "PourWriting (length xs) ?w = (True, b'\<lparr>blk := Some (memcpy_at d (wpos b') xs), wpos := wpos b' + length xs\<rparr>)"
      using fits by (simp add: PourWriting_def GetCapacity_def)
    with put_content [OF b'(2) d fits] b' True d show ?thesis
      by (intro exI [of _ True]) (simp add: pour_def)
  qed
qed

sublocale allocator \<subseteq> pourq: byte_queue buf_inv GetReading "pour malloc" DrainReading buf_limit
proof unfold_locales
  fix b :: "'a buffer" and xs :: "'a list"
  assume inv: "buf_inv b" and lim: "length (GetReading b) + length xs \<le> buf_limit"
  have "GetReadingSize b + length xs \<le> buf_limit" using inv lim by (simp add: buf_inv_def)
  from pour_spec [OF inv malloc_documented this]
  show "\<exists>ok b'. pour malloc xs b = Some (ok, b') \<and> buf_inv b' \<and> GetReading b' = GetReading b @ (if ok then xs else [])"
    by blast
qed (simp_all add: buf_inv_DrainReading GetReading_DrainReading)

context allocator
begin

lemmas pour_content = pourq.write_all_content

end

lemma pour_all:
  assumes "malloc_ok malloc" "buf_inv b" "length (GetReading b) + length (concat cs) \<le> buf_limit"
    and "write_all (pour malloc) cs b = Some (True, b')"
  shows "buf_inv b' \<and> GetReading b' = GetReading b @ concat cs"
  by (rule allocator.pour_content [OF allocator.intro [OF assms(1)] assms(2-4)])

text \<open>When memory never runs out, nothing is refused.\<close>

lemma pour_all_total:
  "malloc_ok malloc \<Longrightarrow> \<forall>n. malloc n \<noteq> None \<Longrightarrow> buf_inv b \<Longrightarrow> length (GetReading b) + length (concat cs) \<le> buf_limit \<Longrightarrow>
     \<exists>b'. write_all (pour malloc) cs b = Some (True, b') \<and> buf_inv b' \<and> GetReading b' = GetReading b @ concat cs"
proof (induction cs arbitrary: b)
  case (Cons c cs)
  have "GetReadingSize b + length c \<le> buf_limit" using Cons.prems(3,4) by (simp add: buf_inv_def)
  from pour_spec [OF Cons.prems(3,1) this] Cons.prems(2) obtain b1 where
    b1: "pour malloc c b = Some (True, b1)" "buf_inv b1" "GetReading b1 = GetReading b @ c" by auto
  from Cons.IH [OF Cons.prems(1,2) b1(2)] Cons.prems(4) b1 show ?case by simp
qed simp

text \<open>Several messages encoded into the same buffer, until one is refused.\<close>

fun encode_all :: "('m \<Rightarrow> 'b \<Rightarrow> (bool \<times> 'b) option) \<Rightarrow> 'm list \<Rightarrow> 'b \<Rightarrow> (bool \<times> 'b) option" where
  "encode_all Encode [] b = Some (True, b)"
| "encode_all Encode (m # ms) b =
     (case Encode m b of
        None \<Rightarrow> None
      | Some (ok, b') \<Rightarrow> if ok then encode_all Encode ms b' else Some (False, b'))"

lemma encode_all_frames:
  "\<forall>m \<in> set ms. \<forall>b. Encode m b = pour malloc (frame m) b \<Longrightarrow>
     encode_all Encode ms b = write_all (pour malloc) (map frame ms) b"
  by (induction ms arbitrary: b) (auto split: option.split)

section \<open>The reading loop\<close>

text \<open>
  Connecting::DecodeMsg: decode until nothing comes or decoding failed; None is a loop that never
  ends. OnDecodeMessage of the connection acts on a state of its own.
\<close>

type_synonym ('b, 'm) decoder = "'b \<Rightarrow> bool \<Rightarrow> ('m option \<times> 'b \<times> bool) outcome"

partial_function (option) decode_loop ::
    "('b, 'm) decoder \<Rightarrow> ('m \<Rightarrow> 's \<Rightarrow> 's) \<Rightarrow> 'b \<Rightarrow> 's \<Rightarrow> (bool \<times> 'b \<times> 's) outcome option" where
  "decode_loop Decode OnDecodeMessage b s =
     (case Decode b False of
        Inl e \<Rightarrow> Some (Inl e)
      | Inr (msg, b', failed) \<Rightarrow>
          if failed then Some (Inr (True, b', s))
          else (case msg of
                  None \<Rightarrow> Some (Inr (False, b', s))
                | Some m \<Rightarrow> decode_loop Decode OnDecodeMessage b' (OnDecodeMessage m s)))"

definition DecodeMsg :: "('b, 'm) decoder \<Rightarrow> ('m \<Rightarrow> 's \<Rightarrow> 's) \<Rightarrow> 'b \<Rightarrow> 's \<Rightarrow> (int \<times> 'b \<times> 's) outcome option" where
  "DecodeMsg Decode OnDecodeMessage b s =
     map_option (map_sum id (\<lambda>(failed, b', s'). (if failed then -1 else 0, b', s'))) (decode_loop Decode OnDecodeMessage b s)"

text \<open>
  A framing protocol: a complete frame at the front is decoded and taken off, whatever follows, and an
  empty buffer yields nothing.
\<close>

locale framed_protocol =
  fixes inv :: "'b \<Rightarrow> bool"
    and content :: "'b \<Rightarrow> 'a list"
    and Decode :: "('b, 'm) decoder"
    and good :: "'m \<Rightarrow> bool"
    and frame :: "'m \<Rightarrow> 'a list"
    and seen :: "'m \<Rightarrow> 'm"
  assumes decode_frame: "inv b \<Longrightarrow> good m \<Longrightarrow> content b = frame m @ rest \<Longrightarrow>
      \<exists>b'. Decode b False = Inr (Some (seen m), b', False) \<and> inv b' \<and> content b' = rest"
    and decode_empty: "inv b \<Longrightarrow> content b = [] \<Longrightarrow> Decode b False = Inr (None, b, False)"
begin

text \<open>The loop delivers every message of a sequence of frames, in order, and ends with an empty buffer.\<close>

lemma decode_frames:
  "inv b \<Longrightarrow> \<forall>m \<in> set ms. good m \<Longrightarrow> content b = concat (map frame ms) \<Longrightarrow>
     \<exists>b'. decode_loop Decode f b s = Some (Inr (False, b', fold (\<lambda>m. f (seen m)) ms s)) \<and> inv b' \<and> content b' = []"
proof (induction ms arbitrary: b s)
  case Nil
  then show ?case using decode_empty [of b] by (subst decode_loop.simps) simp
next
  case (Cons m ms)
  from decode_frame [OF Cons.prems(1), of m "concat (map frame ms)"] Cons.prems obtain b1 where
    b1: "Decode b False = Inr (Some (seen m), b1, False)" "inv b1" "content b1 = concat (map frame ms)" by auto
  from Cons.IH [OF b1(2) _ b1(3), of "f (seen m) s"] Cons.prems(2) b1(1) show ?case
    by (subst decode_loop.simps) simp
qed

text \<open>Frames in front of bytes the decoder fails on: their messages are delivered, then the loop fails.\<close>

lemma decode_frames_then:
  "inv b \<Longrightarrow> \<forall>m \<in> set ms. good m \<Longrightarrow> content b = concat (map frame ms) @ rest \<Longrightarrow>
     \<exists>b'. decode_loop Decode f b s = decode_loop Decode f b' (fold (\<lambda>m. f (seen m)) ms s) \<and> inv b' \<and> content b' = rest"
proof (induction ms arbitrary: b s)
  case (Cons m ms)
  from decode_frame [OF Cons.prems(1), of m "concat (map frame ms) @ rest"] Cons.prems obtain b1 where
    b1: "Decode b False = Inr (Some (seen m), b1, False)" "inv b1" "content b1 = concat (map frame ms) @ rest" by auto
  from Cons.IH [OF b1(2) _ b1(3), of "f (seen m) s"] Cons.prems(2) b1(1) show ?case
    by (subst decode_loop.simps) simp
qed auto

end

end
