(* ===== verification/Rapid_Protocol.thy ===== *)
theory Rapid_Protocol
  imports Protocol_Base
begin

text \<open>
  The binary protocol of src/src/protocol/rapid: a header of 16 bytes in network byte order, then the
  body. Texts are character strings; the header's bytes are read and written through chars\_of and
  bytes\_of.
\<close>

unbundle bit_operations_syntax

section \<open>Network byte order\<close>

definition be16 :: "u16 \<Rightarrow> u8 list" where
  "be16 w = [ucast (drop_bit 8 w), ucast w]"

definition be32 :: "u32 \<Rightarrow> u8 list" where
  "be32 w = [ucast (drop_bit 24 w), ucast (drop_bit 16 w), ucast (drop_bit 8 w), ucast w]"

definition of_be :: "u8 list \<Rightarrow> 'a::len word" where
  "of_be bs = foldl (\<lambda>w b. push_bit 8 w OR ucast b) 0 bs"

lemma of_be16 [simp]: "of_be (be16 w) = w"
  unfolding of_be_def be16_def by (rule bit_word_eqI) (auto simp: bit_simps)

lemma of_be32 [simp]: "of_be (be32 w) = w"
proof (rule bit_word_eqI)
  fix n assume "n < LENGTH(32)"
  then consider "n < 8" | "8 \<le> n" "n < 16" | "16 \<le> n" "n < 24" | "24 \<le> n" "n < 32" by fastforce
  then show "bit (of_be (be32 w) :: u32) n \<longleftrightarrow> bit w n"
    by cases (auto simp: of_be_def be32_def bit_simps)
qed

lemma length_be [simp]: "length (be16 w) = 2" "length (be32 x) = 4"
  by (simp_all add: be16_def be32_def)

section \<open>The header\<close>

record rapid_head =
  magic :: u16
  version :: u8
  cmd :: u8
  sqid_high :: u32
  sqid_low :: u32
  head_size :: u32

definition kMagic :: u16 where "kMagic = 11111"
definition kMaxVersion :: u8 where "kMaxVersion = 10"
definition sizeof_head :: nat where "sizeof_head = 16"

definition Int64To32 :: "u64 \<Rightarrow> u32 \<times> u32" where
  "Int64To32 v = (ucast (drop_bit 32 v), ucast (v AND 0xffffffff))"

definition Int32To64 :: "u32 \<Rightarrow> u32 \<Rightarrow> u64" where
  "Int32To64 high low = push_bit 32 (ucast high) OR ucast low"

text \<open>The header's memory, with the fields converted by htons and htonl, and back by ntohs and ntohl.\<close>

definition head_bytes :: "rapid_head \<Rightarrow> u8 list" where
  "head_bytes h = be16 (magic h) @ [version h, cmd h] @ be32 (sqid_high h) @ be32 (sqid_low h) @ be32 (head_size h)"

definition head_of :: "u8 list \<Rightarrow> rapid_head" where
  "head_of bs =
     \<lparr>magic = of_be (take 2 bs), version = bs ! 2, cmd = bs ! 3, sqid_high = of_be (take 4 (drop 4 bs)),
      sqid_low = of_be (take 4 (drop 8 bs)), head_size = of_be (take 4 (drop 12 bs))\<rparr>"

lemma Int64_roundtrip: "Int64To32 v = (h, l) \<Longrightarrow> Int32To64 h l = v"
proof -
  have low: "(0xffffffff :: u64) = mask 32" by (simp add: mask_eq_exp_minus_1)
  have "bit (push_bit 32 (ucast (ucast (drop_bit 32 v) :: u32)) OR ucast (ucast (v AND mask 32) :: u32) :: u64) n \<longleftrightarrow> bit v n"
    if "n < 64" for n
    using that by (cases "n < 32") (auto simp: bit_simps not_less)
  then show "Int64To32 v = (h, l) \<Longrightarrow> ?thesis"
    unfolding Int64To32_def Int32To64_def low by (intro bit_word_eqI) auto
qed

lemma length_head_bytes [simp]: "length (head_bytes h) = sizeof_head"
  by (simp add: head_bytes_def sizeof_head_def)

lemma head_roundtrip: "head_of (head_bytes h @ rest) = h"
  by (simp add: head_of_def head_bytes_def nth_append)

section \<open>Decoding and encoding\<close>

definition rapid_Decode :: "(char buffer, message) decoder" where
  "rapid_Decode input failed =
     (let total = GetReadingSize input in
      if total < sizeof_head then Inr (None, input, failed)
      else
        let dat = GetReading input;
            header = head_of (bytes_of (take sizeof_head dat))
        in if magic header \<noteq> kMagic \<or> version header > kMaxVersion then Inr (None, ResetAll input, True)
           else
             let size = unat (head_size header)
             in if total < size \<or> size < sizeof_head
                then Inr (None, if total > 30 * 1024 * 1024 then DrainReading total input else input, True)
                else Inr (Some (RapidMessage_new
                            \<lparr>payload := Rapid_Data (take (size - sizeof_head) (drop sizeof_head dat)) (uint (cmd header)),
                             sequence_id := Int32To64 (sqid_high header) (sqid_low header)\<rparr>),
                          DrainReading size input, failed))"

text \<open>The bytes Encode puts into the reserved space.\<close>

definition rapid_frame :: "u64 \<Rightarrow> string \<Rightarrow> int \<Rightarrow> string" where
  "rapid_frame sqid body command =
     (case Int64To32 sqid of (high, low) \<Rightarrow>
        chars_of (head_bytes \<lparr>magic = kMagic, version = 0, cmd = word_of_int command, sqid_high = high, sqid_low = low,
                              head_size = of_nat (sizeof_head + length body)\<rparr>) @ body)"

text \<open>dynamic\_cast gives a null pointer when the object is no RapidMessage.\<close>

definition rapid_Encode :: "(nat \<Rightarrow> string option) \<Rightarrow> message \<Rightarrow> char buffer \<Rightarrow> (bool \<times> char buffer) option" where
  "rapid_Encode malloc pv output =
     (if type_id pv \<noteq> kRapidMessage then Some (False, output)
      else (case payload pv of
              Rapid_Data body command \<Rightarrow>
                if body = [] \<and> command = 0 then Some (False, output)
                else pour malloc (rapid_frame (sequence_id pv) body command) output
            | _ \<Rightarrow> Some (False, output)))"

definition rapid_HeartBeatRequest :: message where
  "rapid_HeartBeatRequest = RapidMessage_new\<lparr>type_id := kHeartBeatMessage\<rparr>"

definition rapid_HeartBeatResponse :: "message \<Rightarrow> message" where
  "rapid_HeartBeatResponse request = request"

section \<open>Rapid as a framing protocol\<close>

definition frame_of :: "message \<Rightarrow> string" where
  "frame_of m = (case payload m of Rapid_Data body command \<Rightarrow> rapid_frame (sequence_id m) body command | _ \<Rightarrow> [])"

text \<open>What survives the wire: the body, a command of one byte, the sequence id, a size of 32 bits.\<close>

definition rapid_good :: "message \<Rightarrow> bool" where
  "rapid_good m \<longleftrightarrow> type_id m = kRapidMessage \<and>
     (case payload m of
        Rapid_Data body command \<Rightarrow> 0 \<le> command \<and> command < 256 \<and> (body \<noteq> [] \<or> command \<noteq> 0) \<and> sizeof_head + length body < 2 ^ 32
      | _ \<Rightarrow> False)"

definition rapid_seen :: "message \<Rightarrow> message" where
  "rapid_seen m = RapidMessage_new\<lparr>payload := payload m, sequence_id := sequence_id m\<rparr>"

lemma take_frame:
  "take sizeof_head (rapid_frame q body c @ rest) = take sizeof_head (rapid_frame q body c)"
  "length (rapid_frame q body c) = sizeof_head + length body"
  "drop sizeof_head (rapid_frame q body c) = body"
  by (simp_all add: rapid_frame_def split: prod.split)

lemma head_of_frame:
  assumes "k \<ge> sizeof_head"
  shows "\<exists>high low. Int64To32 q = (high, low) \<and>
     head_of (bytes_of (take sizeof_head (take k (rapid_frame q body c)))) =
       \<lparr>magic = kMagic, version = 0, cmd = word_of_int c, sqid_high = high, sqid_low = low,
        head_size = of_nat (sizeof_head + length body)\<rparr>"
proof -
  obtain high low where hl: "Int64To32 q = (high, low)" by (cases "Int64To32 q")
  have "take sizeof_head (take k (rapid_frame q body c)) =
      chars_of (head_bytes \<lparr>magic = kMagic, version = 0, cmd = word_of_int c, sqid_high = high, sqid_low = low,
        head_size = of_nat (sizeof_head + length body)\<rparr>)"
    using assms by (simp add: rapid_frame_def hl min_absorb1)
  with hl show ?thesis using head_roundtrip [of _ "[]"] by simp
qed

lemma unat_of_nat_u32: "n < 2 ^ 32 \<Longrightarrow> unat (of_nat n :: u32) = n"
  by (simp add: unat_of_nat take_bit_nat_eq_self)

lemma uint_byte: "0 \<le> c \<Longrightarrow> c < 256 \<Longrightarrow> uint (word_of_int c :: u8) = c"
  by (simp add: uint_word_of_int)

interpretation rapid: framed_protocol buf_inv GetReading rapid_Decode rapid_good frame_of rapid_seen
proof unfold_locales
  fix b :: "char buffer" and m rest
  assume inv: "buf_inv b" and good: "rapid_good m" and con: "GetReading b = frame_of m @ rest"
  from good obtain body c where m: "payload m = Rapid_Data body c" and
    ok: "0 \<le> c" "c < 256" "sizeof_head + length body < 2 ^ 32"
    by (auto simp: rapid_good_def split: payload.splits)
  let ?f = "rapid_frame (sequence_id m) body c"
  have con: "GetReading b = ?f @ rest" using con by (simp add: frame_of_def m)
  have total: "GetReadingSize b = sizeof_head + length body + length rest"
    using arg_cong [OF con, of length] inv by (simp add: take_frame buf_inv_def)
  from head_of_frame [of "length ?f" "sequence_id m" body c] obtain high low where
    hl: "Int64To32 (sequence_id m) = (high, low)" and
    hd: "head_of (bytes_of (take sizeof_head ?f)) = \<lparr>magic = kMagic, version = 0, cmd = word_of_int c, sqid_high = high,
        sqid_low = low, head_size = of_nat (sizeof_head + length body)\<rparr>"
    by (auto simp: take_frame)
  have size: "unat (of_nat (sizeof_head + length body) :: u32) = sizeof_head + length body"
    by (rule unat_of_nat_u32 [OF ok(3)])
  have body: "take (sizeof_head + length body - sizeof_head) (drop sizeof_head (?f @ rest)) = body"
    using take_frame(2,3) [of "sequence_id m" body c] by simp
  have "rapid_Decode b False = Inr (Some (rapid_seen m), DrainReading (sizeof_head + length body) b, False)"
    unfolding rapid_Decode_def Let_def con take_frame(1) hd
    using size total body ok
    by (simp add: kMaxVersion_def rapid_seen_def m Int64_roundtrip [OF hl] uint_byte)
  moreover have "GetReading (DrainReading (sizeof_head + length body) b) = rest"
    using inv con by (simp add: buf_inv_def GetReading_DrainReading take_frame(2))
  ultimately show "\<exists>b'. rapid_Decode b False = Inr (Some (rapid_seen m), b', False) \<and> buf_inv b' \<and> GetReading b' = rest"
    using buf_inv_DrainReading [OF inv] by blast
next
  fix b :: "char buffer"
  assume "buf_inv b" "GetReading b = []"
  then have "GetReadingSize b = 0" using length_GetReading [of b] by (simp add: buf_inv_def)
  then show "rapid_Decode b False = Inr (None, b, False)" by (simp add: rapid_Decode_def sizeof_head_def)
qed

lemma rapid_Encode_frame: "rapid_good m \<Longrightarrow> rapid_Encode malloc m b = pour malloc (frame_of m) b"
  by (auto simp: rapid_good_def rapid_Encode_def frame_of_def split: payload.splits)

section \<open>Properties\<close>


definition ping :: "u64 \<Rightarrow> message" where
  "ping q = RapidMessage_new\<lparr>payload := Rapid_Data ''ping'' 7, sequence_id := q\<rparr>"

lemma ping_good: "rapid_good (ping q)"
  by (simp add: rapid_good_def ping_def RapidMessage_new_def message_new_def sizeof_head_def)

lemma ping_frame: "length (frame_of (ping q)) = 20"
  by (simp add: frame_of_def ping_def take_frame sizeof_head_def)


text \<open>
  A message of which the header has arrived but not the whole body is not left for the next read, as the
  trace text says: Decode reports failure. Only a message cut inside its header is waited for.
\<close>

lemma rapid_partial:
  assumes "rapid_good m" "buf_inv b" "k < length (frame_of m)" "GetReading b = take k (frame_of m)"
  shows "rapid_Decode b False =
     Inr (None, if sizeof_head \<le> k \<and> k > 30 * 1024 * 1024 then DrainReading k b else b, sizeof_head \<le> k)"
proof -
  from assms(1) obtain body c where m: "payload m = Rapid_Data body c" and size: "sizeof_head + length body < 2 ^ 32"
    by (auto simp: rapid_good_def split: payload.splits)
  let ?f = "rapid_frame (sequence_id m) body c"
  have con: "GetReading b = take k ?f" using assms(4) by (simp add: frame_of_def m)
  have k: "k < sizeof_head + length body" using assms(3) by (simp add: frame_of_def m take_frame)
  have total: "GetReadingSize b = k"
    using arg_cong [OF con, of length] assms(2) k by (simp add: buf_inv_def take_frame(2))
  show ?thesis
  proof (cases "sizeof_head \<le> k")
    case False
    then show ?thesis by (simp add: rapid_Decode_def total)
  next
    case True
    from head_of_frame [OF True, of "sequence_id m" body c] obtain high low where
      "head_of (bytes_of (take sizeof_head (take k ?f))) = \<lparr>magic = kMagic, version = 0, cmd = word_of_int c, sqid_high = high,
        sqid_low = low, head_size = of_nat (sizeof_head + length body)\<rparr>" by auto
    then show ?thesis
      using True k unat_of_nat_u32 [OF size]
      by (simp add: rapid_Decode_def Let_def total con kMaxVersion_def del: of_nat_add)
  qed
qed

section \<open>Outside the contract\<close>

text \<open>A heartbeat request of this protocol cannot be encoded by it.\<close>

lemma rapid_heartbeat_refused: "rapid_Encode malloc rapid_HeartBeatRequest b = Some (False, b)"
  by (simp add: rapid_Encode_def rapid_HeartBeatRequest_def kinds)

text \<open>A command outside a byte is cut: 256 arrives as 0.\<close>

lemma rapid_command_cut: "rapid_frame q body 256 = rapid_frame q body 0"
proof -
  have "(word_of_int 256 :: u8) = word_of_int 0" by code_simp
  then show ?thesis unfolding rapid_frame_def by (simp only:)
qed

end
