(* ===== verification/Connect.thy ===== *)
theory Connect
  imports Rapid_Protocol
begin

text \<open>
  The connection of src/src/net/connect.h and connect.cpp: reading from and writing to the socket, decoding,
  and the dispatch of events. What the system calls return is a script, consumed one result per call; behind
  its end every call would block (EAGAIN). The protocol object's own state travels with the
  incoming buffer. Counts are ints in the code: they wrap at 2 GiB.
\<close>

section \<open>System calls\<close>

datatype sock_errno = EINTR | EAGAIN | Other_Errno

datatype read_result = Read_Bytes string | Read_Error sock_errno

text \<open>A write takes at most the bytes it is given.\<close>

datatype write_result = Wrote nat | Write_Error sock_errno

section \<open>State\<close>

record 'p connecting =
  con_fd :: int
  inbuf :: "char buffer"
  outbuf :: "char buffer"
  protocol_state :: 'p
  connect_id :: int
  shut :: bool

type_synonym 'p proto_decoder = "('p \<times> char buffer, message) decoder"

text \<open>A protocol without state of its own.\<close>

definition stateless :: "(char buffer, message) decoder \<Rightarrow> unit proto_decoder" where
  "stateless Decode pb failed = map_sum id (\<lambda>(m, b', f). (m, ((), b'), f)) (Decode (snd pb) failed)"

definition kReadSize :: nat where "kReadSize = 8 * 1024"

definition max_send_buf_failed_size :: int where "max_send_buf_failed_size = 10 * 1024 * 1024 + 1"

definition EVENT_READ :: u16 where "EVENT_READ = 1"
definition EVENT_WRITE :: u16 where "EVENT_WRITE = 2"
definition EVENT_ERROR :: u16 where "EVENT_ERROR = 4"
definition EVENT_CONNECT_CLOSED :: u16 where "EVENT_CONNECT_CLOSED = 8"

text \<open>OnReadWriteClose shuts the socket down; nothing else happens to the connection.\<close>

definition OnReadWriteClose :: "('p, 'z) connecting_scheme \<Rightarrow> ('p, 'z) connecting_scheme" where
  "OnReadWriteClose c = c\<lparr>shut := True\<rparr>"

definition Clean :: "('p, 'z) connecting_scheme \<Rightarrow> ('p, 'z) connecting_scheme" where
  "Clean c = c\<lparr>con_fd := -1, inbuf := ResetAll (inbuf c), outbuf := ResetAll (outbuf c)\<rparr>"

section \<open>Reading\<close>

datatype read_end = Read_Decode | Read_Shutdown | Read_No_Memory

text \<open>The loop of OnRead; PourWriting after EnsureSize does not fail (pour\_spec).\<close>

fun read_loop :: "(nat \<Rightarrow> string option) \<Rightarrow> read_result list \<Rightarrow> char buffer \<Rightarrow>
    (read_end \<times> char buffer \<times> read_result list) option" where
  "read_loop malloc [] inb = Some (Read_Decode, inb, [])"
| "read_loop malloc (Read_Error e # rs) inb =
     (case e of
        EINTR \<Rightarrow> read_loop malloc rs inb
      | EAGAIN \<Rightarrow> Some (Read_Decode, inb, rs)
      | Other_Errno \<Rightarrow> Some (Read_Shutdown, inb, rs))"
| "read_loop malloc (Read_Bytes dat # rs) inb =
     (if dat = [] then Some (Read_Shutdown, inb, rs)
      else (case pour malloc dat inb of
              None \<Rightarrow> None
            | Some (ok, inb') \<Rightarrow>
                if \<not> ok then Some (Read_No_Memory, inb', rs)
                else if length dat = kReadSize then read_loop malloc rs inb'
                else Some (Read_Decode, inb', rs)))"

definition OnRead ::
    "(nat \<Rightarrow> string option) \<Rightarrow> 'p proto_decoder \<Rightarrow> (message \<Rightarrow> 's \<Rightarrow> 's) \<Rightarrow> read_result list \<Rightarrow>
     ('p, 'z) connecting_scheme \<Rightarrow> 's \<Rightarrow> (('p, 'z) connecting_scheme \<times> 's) outcome option" where
  "OnRead malloc Decode OnDecodeMessage script c s =
     (if con_fd c \<le> 0 then Some (Inr (c, s))
      else (case read_loop malloc script (inbuf c) of
              None \<Rightarrow> None
            | Some (Read_Shutdown, inb, rs) \<Rightarrow> Some (Inr (OnReadWriteClose (c\<lparr>inbuf := inb\<rparr>), s))
            | Some (Read_No_Memory, inb, rs) \<Rightarrow> Some (Inr (c\<lparr>inbuf := inb\<rparr>, s))
            | Some (Read_Decode, inb, rs) \<Rightarrow>
                map_option (map_sum id (\<lambda>(ret, (p, inb'), s').
                    let c' = c\<lparr>inbuf := inb', protocol_state := p\<rparr>
                    in (if ret \<noteq> 0 then OnReadWriteClose c' else c', s')))
                  (DecodeMsg Decode OnDecodeMessage (protocol_state c, inb) s)))"

section \<open>Writing\<close>

datatype write_end = Write_Done | Write_Again | Write_Shutdown

definition size_int :: "char buffer \<Rightarrow> int" where
  "size_int b = signed_take_bit 31 (int (GetReadingSize b))"

text \<open>
  The loop of OnWrite: how it ended, the bytes handed to the socket, and the outgoing buffer. When the
  first call of a round would block, everything pending is dropped.
\<close>

definition would_block :: "nat \<Rightarrow> char buffer \<Rightarrow> char buffer" where
  "would_block send out =
     (if send > 0
      then (if int (GetReadingSize out) > max_send_buf_failed_size then DrainReading (GetReadingSize out) out else out)
      else DrainReading (GetReadingSize out) out)"

fun write_loop :: "write_result list \<Rightarrow> char buffer \<Rightarrow> nat \<Rightarrow> int \<Rightarrow> string \<Rightarrow> write_end \<times> string \<times> char buffer" where
  "write_loop [] out send should_send_size sent =
     (if size_int out > 0 then (Write_Again, sent, would_block send out) else (Write_Done, sent, out))"
| "write_loop (r # rs) out send should_send_size sent =
     (if size_int out > 0 then
        (case r of
           Wrote n \<Rightarrow>
             let ret = min n (nat (size_int out)) in
             if ret > 0 then
               let out' = DrainReading ret out; sent' = sent @ take ret (GetReading out); send' = send + ret
               in if int send' \<ge> should_send_size then (Write_Done, sent', out')
                  else write_loop rs out' send' should_send_size sent'
             else (Write_Shutdown, sent, out)
         | Write_Error EINTR \<Rightarrow> write_loop rs out send should_send_size sent
         | Write_Error EAGAIN \<Rightarrow> (Write_Again, sent, would_block send out)
         | Write_Error Other_Errno \<Rightarrow> (Write_Shutdown, sent, out))
      else (Write_Done, sent, out))"

definition OnWrite :: "write_result list \<Rightarrow> ('p, 'z) connecting_scheme \<Rightarrow> string \<times> ('p, 'z) connecting_scheme" where
  "OnWrite script c =
     (if con_fd c \<le> 0 then ([], c)
      else (case write_loop script (outbuf c) 0 (size_int (outbuf c)) [] of
              (e, sent, out) \<Rightarrow>
                (sent, (if e = Write_Shutdown then OnReadWriteClose (c\<lparr>outbuf := out\<rparr>) else c\<lparr>outbuf := out\<rparr>))))"

section \<open>Events\<close>

text \<open>
  OnEvent: the fd leaves the event driver when the peer closed or an error is pending; then reading,
  writing, and writing once more. The scripts are those of the calls it makes. The first component of
  the result is whether the fd was deregistered.
\<close>

definition has_event :: "u16 \<Rightarrow> u16 \<Rightarrow> bool" where
  "has_event event kind \<longleftrightarrow> event AND kind \<noteq> 0"

definition OnEvent ::
    "(nat \<Rightarrow> string option) \<Rightarrow> 'p proto_decoder \<Rightarrow> (message \<Rightarrow> 's \<Rightarrow> 's) \<Rightarrow>
     read_result list \<Rightarrow> write_result list \<Rightarrow> write_result list \<Rightarrow> u16 \<Rightarrow>
     ('p, 'z) connecting_scheme \<Rightarrow> 's \<Rightarrow> (bool \<times> ('p, 'z) connecting_scheme \<times> 's) outcome option" where
  "OnEvent malloc Decode OnDecodeMessage reads writes1 writes2 event c s =
     (let closed = has_event event EVENT_CONNECT_CLOSED \<or> has_event event EVENT_ERROR;
          writes = (\<lambda>c. let c1 = (if has_event event EVENT_WRITE then snd (OnWrite writes1 c) else c)
                        in if closed then snd (OnWrite writes2 c1) else c1)
      in if has_event event EVENT_READ
         then map_option (map_sum id (\<lambda>(c', s'). (closed \<and> con_fd c \<ge> 0, writes c', s')))
                (OnRead malloc Decode OnDecodeMessage reads c s)
         else Some (Inr (closed \<and> con_fd c \<ge> 0, writes c, s)))"

section \<open>The reading loop\<close>

text \<open>Data that arrives in one go: full reads, then a last one.\<close>

definition one_burst :: "string list \<Rightarrow> bool" where
  "one_burst chunks \<longleftrightarrow> [] \<notin> set chunks \<and> (\<forall>c \<in> set (butlast chunks). length c = kReadSize)"

lemma read_loop_burst:
  "malloc_ok malloc \<Longrightarrow> \<forall>n. malloc n \<noteq> None \<Longrightarrow> buf_inv inb \<Longrightarrow> one_burst chunks \<Longrightarrow>
     length (GetReading inb) + length (concat chunks) \<le> buf_limit \<Longrightarrow>
     \<exists>inb' rs. read_loop malloc (map Read_Bytes chunks) inb = Some (Read_Decode, inb', rs) \<and> buf_inv inb' \<and>
       GetReading inb' = GetReading inb @ concat chunks"
proof (induction chunks arbitrary: inb)
  case (Cons c chunks)
  have "GetReadingSize inb + length c \<le> buf_limit" using Cons.prems(3,5) by (simp add: buf_inv_def)
  from pour_spec [OF Cons.prems(3,1) this] Cons.prems(2) obtain b1 where
    b1: "pour malloc c inb = Some (True, b1)" "buf_inv b1" "GetReading b1 = GetReading inb @ c" by auto
  have c: "c \<noteq> []" using Cons.prems(4) by (auto simp: one_burst_def)
  show ?case
  proof (cases "chunks = []")
    case True
    with b1 c show ?thesis by simp
  next
    case False
    then have "length c = kReadSize" "one_burst chunks" using Cons.prems(4) by (auto simp: one_burst_def)
    with Cons.IH [OF Cons.prems(1,2) b1(2)] Cons.prems(5) b1 c show ?thesis by simp
  qed
qed simp

text \<open>
  A protocol that frames messages in a character buffer keeps its contract when its state travels along,
  and OnRead delivers the messages of a burst.
\<close>

locale buffer_protocol = framed_protocol buf_inv GetReading Decode good frame seen
  for Decode :: "(char buffer, message) decoder" and good frame seen

sublocale buffer_protocol \<subseteq> conn: framed_protocol "\<lambda>pb. buf_inv (snd pb)" "\<lambda>pb. GetReading (snd pb)" "stateless Decode" good frame seen
proof unfold_locales
  fix pb :: "unit \<times> char buffer" and m rest
  assume "buf_inv (snd pb)" "good m" "GetReading (snd pb) = frame m @ rest"
  from decode_frame [OF this] obtain b' where
    "Decode (snd pb) False = Inr (Some (seen m), b', False)" "buf_inv b'" "GetReading b' = rest" by blast
  then show "\<exists>pb'. stateless Decode pb False = Inr (Some (seen m), pb', False) \<and> buf_inv (snd pb') \<and> GetReading (snd pb') = rest"
    by (simp add: stateless_def)
next
  fix pb :: "unit \<times> char buffer"
  assume "buf_inv (snd pb)" "GetReading (snd pb) = []"
  from decode_empty [OF this] show "stateless Decode pb False = Inr (None, pb, False)"
    by (cases pb) (simp add: stateless_def)
qed

context buffer_protocol
begin

lemma OnRead_burst:
  assumes "malloc_ok malloc" "\<forall>n. malloc n \<noteq> None" "buf_inv (inbuf c)" "0 < con_fd c" "one_burst chunks"
    and "length (GetReading (inbuf c) @ concat chunks) \<le> buf_limit" "\<forall>m \<in> set ms. good m"
    and con: "GetReading (inbuf c) @ concat chunks = concat (map frame ms) @ rest"
  shows "\<exists>b. OnRead malloc (stateless Decode) f (map Read_Bytes chunks) c s =
      map_option (map_sum id (\<lambda>(failed, (p, b'), s').
        let c' = c\<lparr>inbuf := b', protocol_state := ()\<rparr> in (if failed then OnReadWriteClose c' else c', s')))
        (decode_loop (stateless Decode) f ((), b) (fold (\<lambda>m. f (seen m)) ms s)) \<and>
     buf_inv b \<and> GetReading b = rest"
proof -
  have "length (GetReading (inbuf c)) + length (concat chunks) \<le> buf_limit" using assms(6) by simp
  from read_loop_burst [OF assms(1-3,5) this] obtain inb rs where
    inb: "read_loop malloc (map Read_Bytes chunks) (inbuf c) = Some (Read_Decode, inb, rs)" "buf_inv inb"
      "GetReading inb = concat (map frame ms) @ rest" unfolding con by blast
  from conn.decode_frames_then [of "((), inb)" ms rest f s] inb(2,3) assms(7) obtain b where
    b: "decode_loop (stateless Decode) f ((), inb) s = decode_loop (stateless Decode) f ((), b) (fold (\<lambda>m. f (seen m)) ms s)"
      "buf_inv b" "GetReading b = rest" by auto
  show ?thesis
    using assms(4) inb(1) b
    by (intro exI [of _ b]; cases "decode_loop (stateless Decode) f ((), b) (fold (\<lambda>m. f (seen m)) ms s)";
      cases "the (decode_loop (stateless Decode) f ((), b) (fold (\<lambda>m. f (seen m)) ms s))")
      (auto simp: OnRead_def DecodeMsg_def Let_def)
qed

end

interpretation rapid_con: buffer_protocol rapid_Decode rapid_good frame_of rapid_seen
  by unfold_locales

section \<open>The writing loop\<close>

lemma size_int_small: "buf_inv b \<Longrightarrow> GetReadingSize b < 2 ^ 31 \<Longrightarrow> size_int b = int (GetReadingSize b)"
  by (simp add: size_int_def signed_take_bit_int_eq_self)

definition drops :: "string \<Rightarrow> string \<Rightarrow> bool" where
  "drops sent left \<longleftrightarrow> sent = [] \<or> int (length left) > max_send_buf_failed_size"

lemma would_block_spec:
  assumes "buf_inv out" "length sent + GetReadingSize out < 2 ^ 31" "length sent = send"
  shows "buf_inv (would_block send out)"
    "GetReading (would_block send out) = (if drops sent (GetReading out) then [] else GetReading out)"
proof -
  show "buf_inv (would_block send out)" using assms(1) by (simp add: would_block_def buf_inv_DrainReading)
  have "length (GetReading out) = GetReadingSize out" using assms(1) by (simp add: buf_inv_def)
  with assms(3) show "GetReading (would_block send out) = (if drops sent (GetReading out) then [] else GetReading out)"
    by (auto simp: would_block_def drops_def GetReading_DrainReading)
qed

text \<open>How one round of the writing loop ended: what was sent, and what is left in the buffer.\<close>

definition round_ok :: "string \<Rightarrow> string \<Rightarrow> write_end \<Rightarrow> string \<Rightarrow> char buffer \<Rightarrow> bool" where
  "round_ok reading sent0 e sent out' \<longleftrightarrow> buf_inv out' \<and> (\<exists>new left. reading = new @ left \<and> sent = sent0 @ new \<and>
     GetReading out' = (if e = Write_Again \<and> drops sent left then [] else left) \<and>
     (e = Write_Done \<longrightarrow> left = []))"

lemma round_ok_end:
  "buf_inv out \<Longrightarrow> (e = Write_Done \<Longrightarrow> GetReadingSize out = 0) \<Longrightarrow> e \<noteq> Write_Again \<Longrightarrow>
     round_ok (GetReading out) sent0 e sent0 out"
  by (metis append_Nil append_Nil2 buf_inv_def length_0_conv length_GetReading round_ok_def)

lemma round_ok_block:
  "buf_inv out \<Longrightarrow> length sent0 + GetReadingSize out < 2 ^ 31 \<Longrightarrow> length sent0 = send \<Longrightarrow>
     round_ok (GetReading out) sent0 Write_Again sent0 (would_block send out)"
  unfolding round_ok_def using would_block_spec [of out sent0 send] by simp

lemma round_ok_step:
  assumes "round_ok (drop n reading) (sent0 @ take n reading) e sent out'"
  shows "round_ok reading sent0 e sent out'"
proof -
  from assms obtain new left where "buf_inv out'" "drop n reading = new @ left" "sent = (sent0 @ take n reading) @ new"
    "GetReading out' = (if e = Write_Again \<and> drops sent left then [] else left)" "e = Write_Done \<longrightarrow> left = []"
    unfolding round_ok_def by blast
  moreover from this(2) have "reading = (take n reading @ new) @ left" by (metis append.assoc append_take_drop_id)
  ultimately show ?thesis unfolding round_ok_def by (metis append.assoc)
qed

lemma write_loop_stream:
  "buf_inv out \<Longrightarrow> length sent0 + GetReadingSize out = whole \<Longrightarrow> whole < 2 ^ 31 \<Longrightarrow> length sent0 = send \<Longrightarrow>
     write_loop script out send (int whole) sent0 = (e, sent, out') \<Longrightarrow>
     round_ok (GetReading out) sent0 e sent out'"
proof (induction script arbitrary: out send sent0)
  case Nil
  then show ?case
    using round_ok_block [of out sent0 send] round_ok_end [of out Write_Done sent0]
    by (simp add: size_int_small split: if_splits)
next
  case (Cons r rs)
  have size: "size_int out = int (GetReadingSize out)" using Cons.prems by (simp add: size_int_small)
  show ?case
  proof (cases "GetReadingSize out = 0")
    case True
    with Cons.prems size round_ok_end [of out Write_Done sent0] show ?thesis by simp
  next
    case False
    show ?thesis
    proof (cases r)
      case (Wrote k)
      define n where "n = min k (GetReadingSize out)"
      let ?out = "DrainReading n out" and ?sent = "sent0 @ take n (GetReading out)"
      have b: "buf_inv ?out" "GetReading ?out = drop n (GetReading out)"
        using Cons.prems(1) by (simp_all add: buf_inv_DrainReading GetReading_DrainReading)
      have len: "length (GetReading out) = GetReadingSize out" "GetReadingSize ?out = length (GetReading ?out)"
        using Cons.prems(1) b(1) by (simp_all add: buf_inv_def)
      have l: "length ?sent = send + n" "length ?sent + GetReadingSize ?out = whole"
        using Cons.prems(2,4) b(2) len by (simp_all add: n_def)
      have n: "min k (nat (size_int out)) = n" using size by (simp add: n_def)
      have step: "(e, sent, out') = (if 0 < n then if whole \<le> send + n then (Write_Done, ?sent, ?out)
          else write_loop rs ?out (send + n) (int whole) ?sent else (Write_Shutdown, sent0, out))"
        using Cons.prems(5) False size unfolding Wrote write_loop.simps write_result.case n Let_def
        by (simp only: size of_nat_le_iff of_nat_0_less_iff neq0_conv if_True)
      consider "n = 0" | "0 < n" "whole \<le> send + n" | "0 < n" "send + n < whole" by linarith
      then show ?thesis
      proof cases
        case 1
        with step round_ok_end [of out Write_Shutdown sent0] Cons.prems(1) show ?thesis by simp
      next
        case 2
        then have e: "e = Write_Done" "sent = ?sent" "out' = ?out" using step by simp_all
        have "GetReadingSize ?out = 0" using 2 l by simp
        then show ?thesis
          using round_ok_end [of ?out Write_Done ?sent] b round_ok_step [of n "GetReading out" sent0] by (simp add: e)
      next
        case 3
        then have "write_loop rs ?out (send + n) (int whole) ?sent = (e, sent, out')" using step by simp
        from Cons.IH [OF b(1) l(2) Cons.prems(3) l(1) this] show ?thesis by (simp only: b(2) round_ok_step)
      qed
    next
      case (Write_Error err)
      then show ?thesis
        using Cons.prems False size Cons.IH [of out sent0 send] round_ok_block [of out sent0 send]
          round_ok_end [of out Write_Shutdown sent0] by (cases err) auto
    qed
  qed
qed


section \<open>Properties\<close>

text \<open>C17. Data that arrives in one burst behind what the incoming buffer holds: OnRead hands every complete
  message of the rapid protocol to OnDecodeMessage, in order. A rest that ends inside the header of the next message stays in
  the buffer and the connection stays open; a rest that ends inside its body shuts the connection down.\<close>

theorem rapid_OnRead:
  assumes "malloc_ok malloc" "\<forall>n. malloc n \<noteq> None" "buf_inv (inbuf c)" "0 < con_fd c" "one_burst chunks"
    and "length (GetReading (inbuf c) @ concat chunks) \<le> buf_limit" "\<forall>m \<in> set (nxt # ms). rapid_good m"
    and "GetReading (inbuf c) @ concat chunks = concat (map frame_of ms) @ take k (frame_of nxt)" "k < length (frame_of nxt)"
  shows "\<exists>inb. OnRead malloc (stateless rapid_Decode) f (map Read_Bytes chunks) c s =
      Some (Inr (c\<lparr>inbuf := inb, protocol_state := (), shut := shut c \<or> sizeof_head \<le> k\<rparr>,
                 fold (\<lambda>m. f (rapid_seen m)) ms s)) \<and>
     buf_inv inb \<and> (k \<le> 30 * 1024 * 1024 \<longrightarrow> GetReading inb = take k (frame_of nxt))"
proof -
  have good: "\<forall>m \<in> set ms. rapid_good m" "rapid_good nxt" using assms(7) by auto
  from rapid_con.OnRead_burst [OF assms(1-6) good(1) assms(8), of f s] obtain b where
    b: "OnRead malloc (stateless rapid_Decode) f (map Read_Bytes chunks) c s =
      map_option (map_sum id (\<lambda>(failed, (p, b'), s').
        let c' = c\<lparr>inbuf := b', protocol_state := ()\<rparr> in (if failed then OnReadWriteClose c' else c', s')))
        (decode_loop (stateless rapid_Decode) f ((), b) (fold (\<lambda>m. f (rapid_seen m)) ms s))"
      "buf_inv b" "GetReading b = take k (frame_of nxt)" by blast
  define b' where "b' = (if sizeof_head \<le> k \<and> k > 30 * 1024 * 1024 then DrainReading k b else b)"
  have "decode_loop (stateless rapid_Decode) f ((), b) x = Some (Inr (sizeof_head \<le> k, ((), b'), x))" for x
    using rapid_partial [OF good(2) b(2) assms(9) b(3)]
    by (subst decode_loop.simps) (simp add: stateless_def b'_def)
  moreover have "buf_inv b'" "k \<le> 30 * 1024 * 1024 \<longrightarrow> GetReading b' = take k (frame_of nxt)"
    using b(2,3) by (auto simp: b'_def buf_inv_DrainReading)
  ultimately show ?thesis
    using b(1) by (intro exI [of _ b']) (auto simp: OnReadWriteClose_def Let_def)
qed

definition fresh_connect :: "unit connecting" where
  "fresh_connect = \<lparr>con_fd = 5, inbuf = buf_new, outbuf = buf_new, protocol_state = (), connect_id = 1, shut = False\<rparr>"

theorem rapid_OnRead_witness:
  "\<exists>c. OnRead (malloc_fill CHR ''.'') (stateless rapid_Decode) (\<lambda>m l. l @ [sequence_id m])
       [Read_Bytes (frame_of (ping 1) @ take 17 (frame_of (ping 2)))] fresh_connect [] = Some (Inr (c, [1])) \<and> shut c"
proof -
  let ?chunk = "frame_of (ping 1) @ take 17 (frame_of (ping 2))"
  have one: "one_burst [?chunk]" by (simp add: one_burst_def) (metis length_0_conv ping_frame zero_neq_numeral)
  have lim: "length (GetReading (inbuf fresh_connect) @ concat [?chunk]) \<le> buf_limit"
    by (simp add: fresh_connect_def GetReading_new ping_frame buf_limit_def)
  have k: "17 < length (frame_of (ping 2))" by (simp add: ping_frame)
  have seen: "sequence_id (rapid_seen (ping q)) = q" for q by (simp add: rapid_seen_def ping_def)
  have "GetReading (inbuf fresh_connect) @ concat [?chunk] = concat (map frame_of [ping 1]) @ take 17 (frame_of (ping 2))"
    by (simp add: fresh_connect_def GetReading_new)
  from rapid_OnRead [OF malloc_ok_fill [of "CHR ''.''"] _ _ _ one lim _ this k, where f = "\<lambda>m l. l @ [sequence_id m]" and s = "[]"]
  show ?thesis by (auto simp: malloc_fill_def fresh_connect_def buf_inv_new ping_good seen sizeof_head_def)
qed

text \<open>C18. Whatever the socket's calls return, OnWrite sends a prefix of the outgoing buffer, in order and
  without gaps. The rest stays in the buffer, or is thrown away as a whole: when nothing could be sent in
  this call, or more than 10 MiB are left.\<close>

theorem OnWrite_prefix:
  assumes "buf_inv (outbuf c)" "GetReadingSize (outbuf c) < 2 ^ 31" "OnWrite script c = (sent, c')"
  shows "\<exists>left. GetReading (outbuf c) = sent @ left \<and> buf_inv (outbuf c') \<and>
     (GetReading (outbuf c') = left \<or>
      GetReading (outbuf c') = [] \<and> (sent = [] \<or> int (length left) > 10 * 1024 * 1024 + 1))"
proof (cases "con_fd c \<le> 0")
  case True
  with assms show ?thesis by (simp add: OnWrite_def)
next
  case False
  obtain e sent' out where
    loop: "write_loop script (outbuf c) 0 (int (GetReadingSize (outbuf c))) [] = (e, sent', out)" by (metis prod_cases3)
  then have res: "sent = sent'" "outbuf c' = out"
    using assms False by (auto simp: OnWrite_def size_int_small OnReadWriteClose_def)
  from write_loop_stream [OF assms(1) _ assms(2) _ loop] have "round_ok (GetReading (outbuf c)) [] e sent' out" by simp
  then show ?thesis unfolding round_ok_def drops_def max_send_buf_failed_size_def res by auto
qed

lemma write_loop_interrupted: "write_loop (replicate n (Write_Error EINTR) @ rs) out send should sent = write_loop rs out send should sent"
proof (induction n)
  case (Suc n)
  then show ?case by (cases rs) auto
qed simp


text \<open>
  A socket whose send buffer is full when OnWrite is called loses everything that waits to be sent, in
  the middle of the stream and without closing the connection.
\<close>

lemma OnWrite_would_block:
  assumes "buf_inv (outbuf c)" "0 < GetReadingSize (outbuf c)" "GetReadingSize (outbuf c) < 2 ^ 31" "0 < con_fd c"
  shows "\<exists>out. OnWrite (replicate n (Write_Error EINTR) @ Write_Error EAGAIN # rs) c = ([], c\<lparr>outbuf := out\<rparr>) \<and>
     GetReading out = []"
proof -
  have "size_int (outbuf c) = int (GetReadingSize (outbuf c))" using assms(1,3) by (simp add: size_int_small)
  moreover have "GetReading (would_block 0 (outbuf c)) = []"
    using assms(1) by (simp add: would_block_def GetReading_DrainReading buf_inv_def)
  ultimately show ?thesis 
    using assms(2,4) by (intro exI [of _ "would_block 0 (outbuf c)"]) (simp add: OnWrite_def write_loop_interrupted)
qed

theorem OnWrite_prefix_witness:
  "\<exists>out c' left. OnWrite [Wrote 3, Write_Error EAGAIN] (fresh_connect\<lparr>outbuf := out\<rparr>) = (''pin'', c') \<and>
     GetReading out = ''ping'' \<and> ''ping'' = ''pin'' @ left \<and> GetReading (outbuf c') = left"
proof -
  from pour_all_total [OF malloc_ok_fill _ buf_inv_new, of "CHR ''.''" "[''ping'']"] obtain out where
    out: "buf_inv out" "GetReading out = ''ping''"
    by (auto simp: buf_limit_def GetReading_new malloc_fill_def)
  have size: "GetReadingSize out = 4" "size_int out = 4"
    using out length_GetReading [of out] by (simp_all add: buf_inv_def size_int_small)
  have out3: "GetReading (DrainReading 3 out) = ''g''" "buf_inv (DrainReading 3 out)"
    using out by (simp_all add: GetReading_DrainReading buf_inv_DrainReading)
  then have size3: "GetReadingSize (DrainReading 3 out) = 1" "size_int (DrainReading 3 out) = 1"
    using length_GetReading [of "DrainReading 3 out"] by (simp_all add: buf_inv_def size_int_small)
  obtain c' where run: "OnWrite [Wrote 3, Write_Error EAGAIN] (fresh_connect\<lparr>outbuf := out\<rparr>) = (''pin'', c')"
    using out size size3 by (simp add: OnWrite_def fresh_connect_def Let_def)
  have "GetReadingSize out < 2 ^ 31" using size by simp
  from OnWrite_prefix [OF _ _ run] out this obtain left where
    "''ping'' = ''pin'' @ left" "GetReading (outbuf c') = left \<or> length left > 10" by fastforce
  with run out(2) show ?thesis by auto
qed

end
