(* ===== verification/Event_Driver.thy ===== *)
theory Event_Driver
  imports Connect "HOL-Library.Sublist"
begin

text \<open>
  The event driver of a thread: src/src/event/event\_data.h, event\_data.cpp, event\_driver.h,
  event\_driver.cpp. FdEvents are objects at addresses (\<open>events\<close>); fd2data\_ is the table of their addresses, indexed by
  file descriptor; \<open>epoll\<close> is the kernel's interest set: for each descriptor the address it was given and
  the events it watches. Whether malloc, realloc and epoll\_ctl succeed is an argument.
\<close>

section \<open>State\<close>

record fd_event =
  fe_fd :: int
  fe_handler :: nat
  fe_event :: u16
  fe_closed :: bool

record event_driver =
  fd2data :: "nat option list"
  fd2data_size :: int
  closed_list :: "nat list"
  closed_size :: nat
  events :: "nat \<rightharpoonup> fd_event"
  next_event :: nat
  maxfd :: int
  inloop :: bool
  epoll :: "int \<rightharpoonup> nat \<times> u32"

definition EPOLLIN :: u32 where "EPOLLIN = 0x001"
definition EPOLLOUT :: u32 where "EPOLLOUT = 0x004"
definition EPOLLERR :: u32 where "EPOLLERR = 0x008"
definition EPOLLHUP :: u32 where "EPOLLHUP = 0x010"
definition EPOLLRDHUP :: u32 where "EPOLLRDHUP = 0x2000"
definition EPOLLET :: u32 where "EPOLLET = 0x80000000"

definition event_in :: u32 where "event_in = EPOLLIN OR EPOLLHUP OR EPOLLERR OR EPOLLRDHUP OR EPOLLET"
definition event_out :: u32 where "event_out = EPOLLOUT OR EPOLLHUP OR EPOLLERR OR EPOLLRDHUP OR EPOLLET"

definition incr_fd2data :: int where "incr_fd2data = 4096"
definition init_fd2data :: int where "init_fd2data = 40960"

text \<open>The constructor, InitEventData (whose malloc succeeds) and Init.\<close>

definition InitEventData :: event_driver where
  "InitEventData =
     \<lparr>fd2data = replicate (nat (init_fd2data + 1)) None, fd2data_size = init_fd2data, closed_list = [], closed_size = 0,
      events = Map.empty, next_event = 1, maxfd = -1, inloop = False, epoll = Map.empty\<rparr>"

section \<open>The table\<close>

text \<open>\<open>while (data_size_tmp < fd) data_size_tmp += incr_fd2data;\<close>\<close>

function size_for :: "int \<Rightarrow> int \<Rightarrow> int" where
  "size_for data_size_tmp fd = (if data_size_tmp < fd then size_for (data_size_tmp + incr_fd2data) fd else data_size_tmp)"
  by pat_completeness auto
termination
  by (relation "measure (\<lambda>(t, fd). nat (fd - t))") (auto simp: incr_fd2data_def)

declare size_for.simps [simp del]

definition ReInitEventData :: "bool \<Rightarrow> int \<Rightarrow> event_driver \<Rightarrow> bool \<times> event_driver" where
  "ReInitEventData realloc_ok fd d =
     (let data_size_tmp = size_for (fd2data_size d + incr_fd2data) fd
      in if \<not> realloc_ok then (False, d)
         else (True, d\<lparr>fd2data := fd2data d @ replicate (nat (data_size_tmp - fd2data_size d)) None, fd2data_size := data_size_tmp\<rparr>))"

text \<open>Reading and writing a slot of the table; outside it, the fault.\<close>

definition slot_in :: "int \<Rightarrow> event_driver \<Rightarrow> bool" where
  "slot_in fd d \<longleftrightarrow> 0 \<le> fd \<and> fd < int (length (fd2data d))"

definition get_slot :: "int \<Rightarrow> event_driver \<Rightarrow> nat option outcome" where
  "get_slot fd d = (if slot_in fd d then Inr (fd2data d ! nat fd) else Inl Out_Of_Bounds)"

definition set_slot :: "int \<Rightarrow> nat option \<Rightarrow> event_driver \<Rightarrow> event_driver outcome" where
  "set_slot fd p d = (if slot_in fd d then Inr (d\<lparr>fd2data := (fd2data d)[nat fd := p]\<rparr>) else Inl Out_Of_Bounds)"

definition at_event :: "nat \<Rightarrow> event_driver \<Rightarrow> fd_event outcome" where
  "at_event p d = (case events d p of None \<Rightarrow> Inl Use_After_Free | Some e \<Rightarrow> Inr e)"

text \<open>Objects go to the closed list; the flag is set through the table. A failing realloc leaves the object alone.\<close>

definition ReInitClosed :: "bool \<Rightarrow> int \<Rightarrow> event_driver \<Rightarrow> (bool \<times> event_driver) outcome" where
  "ReInitClosed realloc_ok fd d =
     (if length (closed_list d) \<ge> closed_size d \<and> \<not> realloc_ok then Inr (False, d)
      else let d1 = (if length (closed_list d) \<ge> closed_size d then d\<lparr>closed_size := closed_size d + 1\<rparr> else d)
           in outcome_bind (get_slot fd d1) (\<lambda>p.
                case p of
                  None \<Rightarrow> Inr (True, d1)
                | Some a \<Rightarrow> outcome_bind (at_event a d1) (\<lambda>e.
                    Inr (True, d1\<lparr>closed_list := closed_list d1 @ [a], events := (events d1)(a \<mapsto> e\<lparr>fe_closed := True\<rparr>)\<rparr>))))"

definition RemoveClosed :: "event_driver \<Rightarrow> event_driver" where
  "RemoveClosed d =
     d\<lparr>events := (\<lambda>a. if a \<in> set (closed_list d) \<and> (\<exists>e. events d a = Some e \<and> fe_closed e) then None else events d a), closed_list := []\<rparr>"

section \<open>Registration\<close>

definition grow :: "bool \<Rightarrow> int \<Rightarrow> event_driver \<Rightarrow> bool \<times> event_driver" where
  "grow realloc_ok fd d = (if fd > maxfd d \<and> fd > fd2data_size d then ReInitEventData realloc_ok fd d else (True, d))"

definition Add :: "bool \<Rightarrow> bool \<Rightarrow> int \<Rightarrow> nat \<Rightarrow> event_driver \<Rightarrow> (int \<times> event_driver) outcome" where
  "Add realloc_ok ctl_ok fd ezfd d =
     (if fd > 0 \<and> fd < fd2data_size d \<and> fd2data d ! nat fd \<noteq> None then Inr (-1, d)
      else let p = next_event d;
               d1 = d\<lparr>events := (events d)(p \<mapsto> \<lparr>fe_fd = fd, fe_handler = ezfd, fe_event = 0, fe_closed = False\<rparr>), next_event := Suc p\<rparr>;
               (grown, d2) = grow realloc_ok fd d1
           in if \<not> grown then Inr (-2, d2\<lparr>events := (events d2)(p := None)\<rparr>)
              else let d3 = (if fd > maxfd d2 then d2\<lparr>maxfd := fd\<rparr> else d2)
                   in outcome_bind (set_slot fd (Some p) d3) (\<lambda>d4.
                        if \<not> ctl_ok
                        then outcome_bind (set_slot fd None (d4\<lparr>events := (events d4)(p := None)\<rparr>)) (\<lambda>d5. Inr (-3, d5))
                        else Inr (0, d4\<lparr>epoll := (epoll d4)(fd \<mapsto> (p, 0))\<rparr>)))"

definition Del :: "bool \<Rightarrow> int \<Rightarrow> event_driver \<Rightarrow> (int \<times> event_driver) outcome" where
  "Del realloc_ok fd d =
     (if fd < 0 \<or> fd > maxfd d then Inr (-2, d)
      else outcome_bind (get_slot fd d) (\<lambda>p.
        case p of
          None \<Rightarrow> Inr (-2, d)
        | Some a \<Rightarrow>
            outcome_bind
              (if inloop d then map_sum id snd (ReInitClosed realloc_ok fd d) else Inr (d\<lparr>events := (events d)(a := None)\<rparr>)) (\<lambda>d1.
            outcome_bind (set_slot fd None d1) (\<lambda>d2. Inr (0, d2\<lparr>epoll := (epoll d2)(fd := None)\<rparr>)))))"

definition Mod :: "bool \<Rightarrow> int \<Rightarrow> event_driver \<Rightarrow> (int \<times> event_driver) outcome" where
  "Mod ctl_ok fd d =
     outcome_bind (get_slot fd d) (\<lambda>p.
       case p of
         None \<Rightarrow> Inr (-1, d)
       | Some a \<Rightarrow>
           outcome_bind (at_event a d) (\<lambda>e.
             if \<not> ctl_ok then Inr (-2, d)
             else Inr (0, d\<lparr>epoll := (epoll d)(fd \<mapsto>
               (a, (if has_event (fe_event e) EVENT_READ then event_in else 0) OR (if has_event (fe_event e) EVENT_WRITE then event_out else 0)))\<rparr>)))"

text \<open>Modr, Modw and Modrw: set or clear bits of the object's events, then Mod.\<close>

definition mod_bits :: "u16 \<Rightarrow> bool \<Rightarrow> int \<Rightarrow> bool \<Rightarrow> event_driver \<Rightarrow> (int \<times> event_driver) outcome" where
  "mod_bits bits ctl_ok fd on d =
     (if fd < 0 \<or> fd > maxfd d then Inr (-1, d)
      else outcome_bind (get_slot fd d) (\<lambda>p.
        case p of
          None \<Rightarrow> Inr (-1, d)
        | Some a \<Rightarrow>
            outcome_bind (at_event a d) (\<lambda>e.
              Mod ctl_ok fd (d\<lparr>events := (events d)(a \<mapsto>
                e\<lparr>fe_event := (if on then fe_event e OR bits else fe_event e AND NOT bits)\<rparr>)\<rparr>))))"

definition Modr :: "bool \<Rightarrow> int \<Rightarrow> bool \<Rightarrow> event_driver \<Rightarrow> (int \<times> event_driver) outcome" where
  "Modr = mod_bits EVENT_READ"

definition Modw :: "bool \<Rightarrow> int \<Rightarrow> bool \<Rightarrow> event_driver \<Rightarrow> (int \<times> event_driver) outcome" where
  "Modw = mod_bits EVENT_WRITE"

definition Modrw :: "bool \<Rightarrow> int \<Rightarrow> bool \<Rightarrow> event_driver \<Rightarrow> (int \<times> event_driver) outcome" where
  "Modrw = mod_bits (EVENT_READ OR EVENT_WRITE)"

section \<open>One round of events\<close>

text \<open>The events a watcher is told: what it watches of what the kernel reports, and closing and errors always.\<close>

definition told :: "u16 \<Rightarrow> u32 \<Rightarrow> u16" where
  "told watched reported =
     (if has_event watched EVENT_READ \<and> reported AND EPOLLIN \<noteq> 0 then EVENT_READ else 0) OR
     (if has_event watched EVENT_WRITE \<and> reported AND EPOLLOUT \<noteq> 0 then EVENT_WRITE else 0) OR
     (if reported AND EPOLLRDHUP \<noteq> 0 then EVENT_CONNECT_CLOSED else 0) OR
     (if reported AND (EPOLLERR OR EPOLLHUP) \<noteq> 0 then EVENT_ERROR else 0)"

definition expected_event :: "u16 \<Rightarrow> u32 \<Rightarrow> bool" where
  "expected_event watched reported \<longleftrightarrow>
     has_event watched EVENT_READ \<and> reported AND EPOLLIN \<noteq> 0 \<or> has_event watched EVENT_WRITE \<and> reported AND EPOLLOUT \<noteq> 0 \<or>
     reported AND EPOLLRDHUP \<noteq> 0 \<or> reported AND (EPOLLERR OR EPOLLHUP) \<noteq> 0"

text \<open>
  The loop of Poll over what epoll\_wait returned. A handler acts on the driver; the calls made so far are
  collected: handler, descriptor, events.
\<close>

type_synonym handler_fun = "nat \<Rightarrow> int \<Rightarrow> u16 \<Rightarrow> event_driver \<Rightarrow> event_driver outcome"

fun poll_loop :: "handler_fun \<Rightarrow> (nat option \<times> u32) list \<Rightarrow> (nat \<times> int \<times> u16) list \<Rightarrow> event_driver \<Rightarrow>
    (int \<times> (nat \<times> int \<times> u16) list \<times> event_driver) outcome" where
  "poll_loop handler [] calls d = Inr (0, calls, d\<lparr>inloop := False\<rparr>)"
| "poll_loop handler ((dat, reported) # evs) calls d =
     (case dat of
        None \<Rightarrow> Inr (-1, calls, d)
      | Some p \<Rightarrow>
          outcome_bind (at_event p d) (\<lambda>e.
            if \<not> expected_event (fe_event e) reported then poll_loop handler evs calls d
            else let ev = told (fe_event e) reported
                 in outcome_bind (handler (fe_handler e) (fe_fd e) ev d) (poll_loop handler evs (calls @ [(fe_handler e, fe_fd e, ev)]))))"

text \<open>Poll behind the timers. Without events it returns with inloop\_ still set.\<close>

definition Poll :: "handler_fun \<Rightarrow> (nat option \<times> u32) list \<Rightarrow> event_driver \<Rightarrow> (int \<times> (nat \<times> int \<times> u16) list \<times> event_driver) outcome" where
  "Poll handler evs d =
     (if evs = [] then Inr (0, [], d\<lparr>inloop := True\<rparr>) else poll_loop handler evs [] (d\<lparr>inloop := True\<rparr>))"


section \<open>Invariant\<close>

definition driver_inv :: "event_driver \<Rightarrow> bool" where
  "driver_inv d \<longleftrightarrow> int (length (fd2data d)) = fd2data_size d + 1 \<and> maxfd d \<le> fd2data_size d \<and>
     (\<forall>i < length (fd2data d). \<forall>a. fd2data d ! i = Some a \<longrightarrow> (\<exists>e. events d a = Some e \<and> fe_fd e = int i \<and> \<not> fe_closed e)) \<and>
     (\<forall>fd a w. epoll d fd = Some (a, w) \<longrightarrow> (\<exists>e. events d a = Some e \<and> fe_fd e = fd \<and> \<not> fe_closed e)) \<and>
     (\<forall>a e. events d a = Some e \<longrightarrow> a < next_event d) \<and>
     distinct (closed_list d) \<and> (\<forall>a \<in> set (closed_list d). \<exists>e. events d a = Some e \<and> fe_closed e)"

text \<open>
  What an operation inside the loop leaves alone: an object that exists keeps existing, with its
  descriptor and handler.
\<close>

definition keeps_objects :: "event_driver \<Rightarrow> event_driver \<Rightarrow> bool" where
  "keeps_objects d d' \<longleftrightarrow> (\<forall>a e. events d a = Some e \<longrightarrow>
     (\<exists>e'. events d' a = Some e' \<and> fe_fd e' = fe_fd e \<and> fe_handler e' = fe_handler e))"

lemma keeps_objects_refl [simp]: "keeps_objects d d"
  by (simp add: keeps_objects_def)

lemma keeps_objects_trans: "keeps_objects d d1 \<Longrightarrow> keeps_objects d1 d2 \<Longrightarrow> keeps_objects d d2"
  unfolding keeps_objects_def by metis

lemma size_for_ge: "fd \<le> size_for t fd \<and> t \<le> size_for t fd"
  by (induction t fd rule: size_for.induct) (subst (1 2) size_for.simps, auto simp: incr_fd2data_def)

lemma driver_inv_Init: "driver_inv InitEventData"
  by (simp add: driver_inv_def InitEventData_def init_fd2data_def)

lemma ReInitEventData_inv:
  assumes "driver_inv d" "ReInitEventData r fd d = (ok, d')"
  shows "driver_inv d' \<and> events d' = events d \<and> next_event d' = next_event d \<and> epoll d' = epoll d \<and> inloop d' = inloop d \<and>
     maxfd d' = maxfd d \<and> closed_list d' = closed_list d \<and> (ok \<longrightarrow> fd \<le> fd2data_size d') \<and> set (fd2data d') \<subseteq> insert None (set (fd2data d))"
proof -
  let ?t = "size_for (fd2data_size d + incr_fd2data) fd"
  have t: "fd \<le> ?t" "fd2data_size d \<le> ?t" using size_for_ge [of fd "fd2data_size d + incr_fd2data"] by (simp_all add: incr_fd2data_def)
  then show ?thesis
    using assms by (auto simp: ReInitEventData_def driver_inv_def Let_def nth_append split: if_splits)
qed

lemma set_slot_in: "slot_in fd d \<Longrightarrow> set_slot fd p d = Inr (d\<lparr>fd2data := (fd2data d)[nat fd := p]\<rparr>)"
  by (simp add: set_slot_def)

lemma driver_inv_object:
  "driver_inv d \<Longrightarrow> i < length (fd2data d) \<Longrightarrow> fd2data d ! i = Some a \<Longrightarrow> \<exists>e. events d a = Some e \<and> fe_fd e = int i \<and> \<not> fe_closed e"
  "driver_inv d \<Longrightarrow> epoll d fd = Some (a, w) \<Longrightarrow> \<exists>e. events d a = Some e \<and> fe_fd e = fd \<and> \<not> fe_closed e"
  "driver_inv d \<Longrightarrow> a \<in> set (closed_list d) \<Longrightarrow> \<exists>e. events d a = Some e \<and> fe_closed e"
  unfolding driver_inv_def by blast+

text \<open>An address nobody knows, and the elementary changes that keep the invariant.\<close>

definition unknown :: "nat \<Rightarrow> event_driver \<Rightarrow> bool" where
  "unknown p d \<longleftrightarrow> Some p \<notin> set (fd2data d) \<and> p \<notin> set (closed_list d) \<and> (\<forall>fd w. epoll d fd \<noteq> Some (p, w))"

lemma unknown_next: "driver_inv d \<Longrightarrow> unknown (next_event d) d \<and> events d (next_event d) = None"
proof -
  assume inv: "driver_inv d"
  then have new: "events d (next_event d) = None" by (cases "events d (next_event d)") (auto simp: driver_inv_def)
  have "Some (next_event d) \<notin> set (fd2data d)" using inv new unfolding driver_inv_def by (metis in_set_conv_nth option.simps(3))
  moreover have "next_event d \<notin> set (closed_list d)" using inv new unfolding driver_inv_def by (metis option.simps(3))
  moreover have "epoll d fd \<noteq> Some (next_event d, w)" for fd w using inv new unfolding driver_inv_def by (metis option.simps(3))
  ultimately show ?thesis using new by (simp add: unknown_def)
qed

lemma events_new_inv:
  assumes "driver_inv d"
  shows "driver_inv (d\<lparr>events := (events d)(next_event d \<mapsto> e), next_event := Suc (next_event d)\<rparr>)"
proof -
  let ?p = "next_event d"
  have live: "((events d)(?p \<mapsto> e)) a = Some x" if "events d a = Some x" for a x
    using that unknown_next [OF assms] by auto
  have "a < Suc ?p" if "((events d)(?p \<mapsto> e)) a = Some x" for a x
    using that assms by (fastforce simp: driver_inv_def split: if_splits)
  with assms live show ?thesis unfolding driver_inv_def by simp blast
qed

lemma maxfd_inv: "driver_inv d \<Longrightarrow> mx \<le> fd2data_size d \<Longrightarrow> driver_inv (d\<lparr>maxfd := mx\<rparr>)"
  by (simp add: driver_inv_def)

lemma slot_some_inv:
  "driver_inv d \<Longrightarrow> slot_in fd d \<Longrightarrow> events d p = Some e \<Longrightarrow> fe_fd e = fd \<Longrightarrow> \<not> fe_closed e \<Longrightarrow>
     driver_inv (d\<lparr>fd2data := (fd2data d)[nat fd := Some p]\<rparr>)"
proof -
  assume a: "driver_inv d" "slot_in fd d" "events d p = Some e" "fe_fd e = fd" "\<not> fe_closed e"
  have "\<exists>e. events d b = Some e \<and> fe_fd e = int i \<and> \<not> fe_closed e"
    if "i < length (fd2data d)" "(fd2data d)[nat fd := Some p] ! i = Some b" for i b
  proof (cases "i = nat fd")
    case True
    with that a show ?thesis by (auto simp: slot_in_def)
  next
    case False
    with that a(1) show ?thesis by (simp add: driver_inv_def)
  qed
  with a(1) show ?thesis by (simp add: driver_inv_def)
qed

lemma slot_none_inv: "driver_inv d \<Longrightarrow> driver_inv (d\<lparr>fd2data := (fd2data d)[i := None]\<rparr>)"
proof -
  assume inv: "driver_inv d"
  have "fd2data d ! j = Some b" if "j < length (fd2data d)" "(fd2data d)[i := None] ! j = Some b" for j b
    using that by (cases "j = i") simp_all
  with inv show ?thesis by (simp add: driver_inv_def)
qed

lemma epoll_inv:
  "driver_inv d \<Longrightarrow> events d p = Some e \<Longrightarrow> fe_fd e = fd \<Longrightarrow> \<not> fe_closed e \<Longrightarrow> driver_inv (d\<lparr>epoll := (epoll d)(fd \<mapsto> (p, w))\<rparr>)"
  by (auto simp: driver_inv_def)

lemma epoll_none_inv: "driver_inv d \<Longrightarrow> driver_inv (d\<lparr>epoll := (epoll d)(fd := None)\<rparr>)"
  by (auto simp: driver_inv_def)

lemma forget_inv:
  assumes "driver_inv d" "unknown p d" shows "driver_inv (d\<lparr>events := (events d)(p := None)\<rparr>)"
proof -
  have "\<And>i. i < length (fd2data d) \<Longrightarrow> fd2data d ! i \<noteq> Some p" using assms(2) unfolding unknown_def by (metis nth_mem)
  with assms show ?thesis by (auto simp: driver_inv_def unknown_def)
qed

lemma event_change_inv:
  assumes "driver_inv d" "events d a = Some e" "fe_fd e' = fe_fd e" "fe_closed e' = fe_closed e"
  shows "driver_inv (d\<lparr>events := (events d)(a \<mapsto> e')\<rparr>)"
proof -
  let ?ev = "(events d)(a \<mapsto> e')"
  have key: "\<exists>y. ?ev b = Some y \<and> fe_fd y = fe_fd x \<and> fe_closed y = fe_closed x" if "events d b = Some x" for b x
    using that assms(2-4) by auto
  show ?thesis
    unfolding driver_inv_def
  proof (intro conjI allI impI ballI)
    fix i b assume "i < length (fd2data (d\<lparr>events := ?ev\<rparr>))" "fd2data (d\<lparr>events := ?ev\<rparr>) ! i = Some b"
    then obtain x where "events d b = Some x" "fe_fd x = int i" "\<not> fe_closed x"
      using driver_inv_object(1) [OF assms(1), of i b] by auto
    with key [of b x] show "\<exists>e. events (d\<lparr>events := ?ev\<rparr>) b = Some e \<and> fe_fd e = int i \<and> \<not> fe_closed e" by auto
  next
    fix fd b w assume "epoll (d\<lparr>events := ?ev\<rparr>) fd = Some (b, w)"
    then obtain x where "events d b = Some x" "fe_fd x = fd" "\<not> fe_closed x" using driver_inv_object(2) [OF assms(1), of fd b w] by auto
    with key [of b x] show "\<exists>e. events (d\<lparr>events := ?ev\<rparr>) b = Some e \<and> fe_fd e = fd \<and> \<not> fe_closed e" by auto
  next
    fix b x assume "events (d\<lparr>events := ?ev\<rparr>) b = Some x"
    then show "b < next_event (d\<lparr>events := ?ev\<rparr>)" using assms(1,2) by (auto simp: driver_inv_def split: if_splits)
  next
    fix b assume "b \<in> set (closed_list (d\<lparr>events := ?ev\<rparr>))"
    then obtain x where "events d b = Some x" "fe_closed x" using driver_inv_object(3) [OF assms(1), of b] by auto
    with key [of b x] show "\<exists>e. events (d\<lparr>events := ?ev\<rparr>) b = Some e \<and> fe_closed e" by auto
  qed (use assms(1) in \<open>simp_all add: driver_inv_def\<close>)
qed

lemma inloop_inv [simp]: "driver_inv (d\<lparr>inloop := b\<rparr>) = driver_inv d"
  by (simp add: driver_inv_def)

section \<open>The operations\<close>

lemma Add_inv:
  assumes inv: "driver_inv d" and fd: "0 \<le> fd"
  shows "\<exists>r d'. Add realloc_ok ctl_ok fd ezfd d = Inr (r, d') \<and> driver_inv d' \<and> inloop d' = inloop d \<and> keeps_objects d d'"
proof (cases "fd > 0 \<and> fd < fd2data_size d \<and> fd2data d ! nat fd \<noteq> None")
  case True
  with inv show ?thesis by (simp add: Add_def)
next
  case False
  let ?p = "next_event d"
  let ?e = "\<lparr>fe_fd = fd, fe_handler = ezfd, fe_event = 0, fe_closed = False\<rparr>"
  let ?d1 = "d\<lparr>events := (events d)(?p \<mapsto> ?e), next_event := Suc ?p\<rparr>"
  note new = unknown_next [OF inv]
  note inv1 = events_new_inv [OF inv, of ?e]
  have keep: "keeps_objects d d'" if "\<And>a. a \<noteq> ?p \<Longrightarrow> events d' a = events d a" for d'
    using that new by (metis keeps_objects_def option.distinct(1))
  obtain grown d2 where g: "grow realloc_ok fd ?d1 = (grown, d2)"
    by fastforce
  have d2: "driver_inv d2" "events d2 = (events d)(?p \<mapsto> ?e)" "inloop d2 = inloop d" "epoll d2 = epoll d"
      "closed_list d2 = closed_list d" "set (fd2data d2) \<subseteq> insert None (set (fd2data d))" "grown \<Longrightarrow> fd > maxfd d2 \<longrightarrow> fd \<le> fd2data_size d2"
    using g inv1 ReInitEventData_inv [OF inv1, of realloc_ok fd grown d2] by (auto simp: grow_def split: if_splits)
  have unk: "unknown ?p d2" using new d2(4-6) by (auto simp: unknown_def)
  have forget: "driver_inv (d2\<lparr>events := (events d2)(?p := None)\<rparr>)" by (rule forget_inv [OF d2(1) unk])
  show ?thesis
  proof (cases grown)
    case no: False
    have "Add realloc_ok ctl_ok fd ezfd d = Inr (-2, d2\<lparr>events := (events d2)(?p := None)\<rparr>)"
      using False g no by (simp add: Add_def Let_def)
    with forget d2(2,3) show ?thesis by (auto intro!: keep)
  next
    case yes: True
    define d3 where "d3 = (if fd > maxfd d2 then d2\<lparr>maxfd := fd\<rparr> else d2)"
    have d3: "driver_inv d3" "events d3 = events d2" "inloop d3 = inloop d2" "unknown ?p d3" "fd2data d3 = fd2data d2"
      using d2(1,7) yes unk by (auto simp: d3_def unknown_def intro!: maxfd_inv)
    have "fd \<le> maxfd d3" by (simp add: d3_def)
    then have "fd < int (length (fd2data d3))" using d3(1) by (simp add: driver_inv_def)
    with fd have slot: "slot_in fd d3" by (simp add: slot_in_def)
    let ?d4 = "d3\<lparr>fd2data := (fd2data d3)[nat fd := Some ?p]\<rparr>"
    have d4: "driver_inv ?d4" by (rule slot_some_inv [OF d3(1) slot, of _ ?e]) (simp_all add: d3(2) d2(2))
    have set4: "set_slot fd (Some ?p) d3 = Inr ?d4" by (rule set_slot_in [OF slot])
    show ?thesis
    proof (cases ctl_ok)
      case True
      have "driver_inv (?d4\<lparr>epoll := (epoll ?d4)(fd \<mapsto> (?p, 0))\<rparr>)"
        by (rule epoll_inv [OF d4, of _ ?e]) (simp_all add: d3(2) d2(2))
      moreover have "Add realloc_ok ctl_ok fd ezfd d = Inr (0, ?d4\<lparr>epoll := (epoll ?d4)(fd \<mapsto> (?p, 0))\<rparr>)"
        using False g yes True set4 by (simp add: Add_def Let_def d3_def)
      ultimately show ?thesis using d2(2,3) d3(2,3) by (auto intro!: keep)
    next
      case no_ctl: False
      let ?d5 = "d3\<lparr>events := (events d3)(?p := None), fd2data := (fd2data d3)[nat fd := None]\<rparr>"
      have "?d4\<lparr>events := (events ?d4)(?p := None), fd2data := (fd2data (?d4\<lparr>events := (events ?d4)(?p := None)\<rparr>))[nat fd := None]\<rparr> = ?d5"
        by simp
      moreover have "slot_in fd (?d4\<lparr>events := (events ?d4)(?p := None)\<rparr>)" using slot by (simp add: slot_in_def)
      ultimately have "set_slot fd None (?d4\<lparr>events := (events ?d4)(?p := None)\<rparr>) = Inr ?d5" by (simp add: set_slot_in)
      then have "Add realloc_ok ctl_ok fd ezfd d = Inr (-3, ?d5)"
        using False g yes no_ctl set4 by (simp add: Add_def Let_def d3_def)
      moreover have "driver_inv ?d5" using slot_none_inv [OF forget_inv [OF d3(1,4)], of "nat fd"] by simp
      ultimately show ?thesis using d2(2,3) d3(2,3) by (auto intro!: keep)
    qed
  qed
qed

lemma slot_below_maxfd: "driver_inv d \<Longrightarrow> 0 \<le> fd \<Longrightarrow> fd \<le> maxfd d \<Longrightarrow> slot_in fd d"
  by (simp add: driver_inv_def slot_in_def)

lemma slot_object:
  assumes "driver_inv d" "slot_in fd d" "fd2data d ! nat fd = Some a"
  shows "\<exists>e. events d a = Some e \<and> fe_fd e = fd \<and> \<not> fe_closed e"
proof -
  have "nat fd < length (fd2data d)" "int (nat fd) = fd" using assms(2) by (auto simp: slot_in_def)
  with assms(1,3) show ?thesis by (fastforce simp: driver_inv_def)
qed

lemma mod_bits_inv:
  assumes inv: "driver_inv d"
  shows "\<exists>r d'. mod_bits bits ctl_ok fd on d = Inr (r, d') \<and> driver_inv d' \<and> inloop d' = inloop d \<and> keeps_objects d d'"
proof (cases "fd < 0 \<or> fd > maxfd d \<or> fd2data d ! nat fd = None")
  case True
  then show ?thesis
    using inv slot_below_maxfd [OF inv, of fd] by (auto simp: mod_bits_def get_slot_def)
next
  case False
  then have slot: "slot_in fd d" using slot_below_maxfd [OF inv] by simp
  from False obtain a where a: "fd2data d ! nat fd = Some a" by auto
  from slot_object [OF inv slot a] obtain e where e: "events d a = Some e" "fe_fd e = fd" "\<not> fe_closed e" by blast
  define e' where "e' = e\<lparr>fe_event := (if on then fe_event e OR bits else fe_event e AND NOT bits)\<rparr>"
  define d1 where "d1 = d\<lparr>events := (events d)(a \<mapsto> e')\<rparr>"
  have d1: "driver_inv d1" unfolding d1_def by (rule event_change_inv [OF inv e(1)]) (simp_all add: e'_def)
  have run: "mod_bits bits ctl_ok fd on d = Mod ctl_ok fd d1"
    using False slot a e by (simp add: mod_bits_def get_slot_def at_event_def d1_def e'_def)
  have k: "keeps_objects d (d1\<lparr>epoll := w\<rparr>)" "keeps_objects d d1" for w using e(1) by (auto simp: keeps_objects_def d1_def e'_def)
  define w where "w = (if has_event (fe_event e') EVENT_READ then event_in else 0) OR (if has_event (fe_event e') EVENT_WRITE then event_out else 0)"
  have "Mod ctl_ok fd d1 = Inr (if ctl_ok then (0, d1\<lparr>epoll := (epoll d1)(fd \<mapsto> (a, w))\<rparr>) else (-2, d1))"
    using slot a by (simp add: Mod_def get_slot_def at_event_def d1_def slot_in_def w_def)
  moreover have "driver_inv (d1\<lparr>epoll := (epoll d1)(fd \<mapsto> (a, w))\<rparr>)"
    by (rule epoll_inv [OF d1, of _ e']) (simp_all add: d1_def e'_def e(2,3))
  ultimately show ?thesis using run d1 k by (auto simp: d1_def)
qed


lemma cut_loose:
  assumes inv: "driver_inv d" and slot: "slot_in fd d" and a: "fd2data d ! nat fd = Some a" "events d a = Some e" "fe_fd e = fd" "\<not> fe_closed e"
  shows "driver_inv (d\<lparr>fd2data := (fd2data d)[nat fd := None], epoll := (epoll d)(fd := None)\<rparr>)"
    and "unknown a (d\<lparr>fd2data := (fd2data d)[nat fd := None], epoll := (epoll d)(fd := None)\<rparr>)"
proof -
  show "driver_inv (d\<lparr>fd2data := (fd2data d)[nat fd := None], epoll := (epoll d)(fd := None)\<rparr>)"
    using epoll_none_inv [OF slot_none_inv [OF inv, of "nat fd"], of fd] by simp
  have "i = nat fd" if "i < length (fd2data d)" "fd2data d ! i = Some a" for i
    using driver_inv_object(1) [OF inv that] a(2,3) by auto
  then have "Some a \<notin> set ((fd2data d)[nat fd := None])"
    unfolding in_set_conv_nth by (metis length_list_update nth_list_update_eq nth_list_update_neq option.distinct(1))
  moreover have "a \<notin> set (closed_list d)" using driver_inv_object(3) [OF inv, of a] a(2,4) by auto
  moreover have "fd' = fd" if "epoll d fd' = Some (a, w)" for fd' w using driver_inv_object(2) [OF inv that] a(2,3) by auto
  ultimately show "unknown a (d\<lparr>fd2data := (fd2data d)[nat fd := None], epoll := (epoll d)(fd := None)\<rparr>)"
    by (auto simp: unknown_def)
qed

lemma closed_add_inv:
  assumes inv: "driver_inv d" and a: "unknown a d" "events d a = Some e"
  shows "driver_inv (d\<lparr>closed_list := closed_list d @ [a], events := (events d)(a \<mapsto> e\<lparr>fe_closed := True\<rparr>)\<rparr>)"
proof -
  have table: "b \<noteq> a" if "i < length (fd2data d)" "fd2data d ! i = Some b" for i b
    using a(1) that unfolding unknown_def by (metis nth_mem)
  have "b < next_event d" if "((events d)(a \<mapsto> e\<lparr>fe_closed := True\<rparr>)) b = Some x" for b x
    using that inv a(2) by (auto simp: driver_inv_def split: if_splits)
  with inv a table show ?thesis unfolding driver_inv_def unknown_def by auto
qed

lemma Del_inv:
  assumes inv: "driver_inv d"
  shows "\<exists>r d'. Del realloc_ok fd d = Inr (r, d') \<and> driver_inv d' \<and> inloop d' = inloop d \<and> (inloop d \<longrightarrow> keeps_objects d d')"
proof (cases "fd < 0 \<or> fd > maxfd d \<or> fd2data d ! nat fd = None")
  case True
  then show ?thesis using inv slot_below_maxfd [OF inv, of fd] by (auto simp: Del_def get_slot_def)
next
  case False
  then have slot: "slot_in fd d" using slot_below_maxfd [OF inv] by simp
  from False obtain a where a: "fd2data d ! nat fd = Some a" by auto
  from slot_object [OF inv slot a] obtain e where e: "events d a = Some e" "fe_fd e = fd" "\<not> fe_closed e" by blast
  let ?d0 = "d\<lparr>fd2data := (fd2data d)[nat fd := None], epoll := (epoll d)(fd := None)\<rparr>"
  note d0 = cut_loose [OF inv slot a e]
  have slot': "slot_in fd (d\<lparr>events := x, closed_list := y, closed_size := z\<rparr>)" "slot_in fd (d\<lparr>events := x\<rparr>)" for x y z
    using slot by (simp_all add: slot_in_def)
  show ?thesis
  proof (cases "inloop d")
    case False
    have "Del realloc_ok fd d = Inr (0, ?d0\<lparr>events := (events d)(a := None)\<rparr>)"
      using False \<open>\<not> (fd < 0 \<or> fd > maxfd d \<or> fd2data d ! nat fd = None)\<close> slot a slot'(2)
      by (simp add: Del_def get_slot_def set_slot_def)
    with forget_inv [OF d0] False show ?thesis by simp
  next
    case True
    note run = \<open>\<not> (fd < 0 \<or> fd > maxfd d \<or> fd2data d ! nat fd = None)\<close> True slot a
    show ?thesis
    proof (cases "length (closed_list d) \<ge> closed_size d \<and> \<not> realloc_ok")
      case no_room: True
      have "Del realloc_ok fd d = Inr (0, ?d0)"
        using run no_room by (simp add: Del_def get_slot_def set_slot_def ReInitClosed_def)
      with d0(1) show ?thesis by (simp add: keeps_objects_def)
    next
      case room: False
      define z where "z = (if length (closed_list d) \<ge> closed_size d then closed_size d + 1 else closed_size d)"
      define d1 where "d1 = d\<lparr>closed_size := z\<rparr>"
      have d1: "(if length (closed_list d) \<ge> closed_size d then d\<lparr>closed_size := closed_size d + 1\<rparr> else d) = d1"
        by (simp add: d1_def z_def)
      have get: "get_slot fd d1 = Inr (Some a)" "at_event a d1 = Inr e" using slot a e by (simp_all add: get_slot_def at_event_def d1_def slot_in_def)
      have "ReInitClosed realloc_ok fd d = Inr (True, d1\<lparr>closed_list := closed_list d1 @ [a], events := (events d1)(a \<mapsto> e\<lparr>fe_closed := True\<rparr>)\<rparr>)"
        unfolding ReInitClosed_def Let_def d1 get using room by (simp only: if_False get outcome_bind.simps option.case)
      moreover have "slot_in fd (d1\<lparr>closed_list := x, events := y\<rparr>)" for x y using slot by (simp add: d1_def slot_in_def)
      ultimately have "Del realloc_ok fd d = Inr (0, ?d0\<lparr>closed_size := z, closed_list := closed_list d @ [a], events := (events d)(a \<mapsto> e\<lparr>fe_closed := True\<rparr>)\<rparr>)"
        using run by (simp add: Del_def get_slot_def set_slot_def d1_def)
      moreover have "driver_inv (?d0\<lparr>closed_size := z, closed_list := closed_list d @ [a], events := (events d)(a \<mapsto> e\<lparr>fe_closed := True\<rparr>)\<rparr>)"
      proof -
        have "driver_inv (x\<lparr>closed_size := z\<rparr>) = driver_inv x" for x :: event_driver by (simp add: driver_inv_def)
        with closed_add_inv [OF d0, of e] e(1) show ?thesis by (simp add: driver_inv_def)
      qed
      ultimately show ?thesis using e(1) by (auto simp: keeps_objects_def)
    qed
  qed
qed

section \<open>A round with handlers that register and deregister\<close>

datatype driver_op =
    Op_Add bool bool int nat
  | Op_Del bool int
  | Op_Modr bool int bool
  | Op_Modw bool int bool
  | Op_Modrw bool int bool

fun driver_exec :: "driver_op \<Rightarrow> event_driver \<Rightarrow> event_driver outcome" where
  "driver_exec (Op_Add r c fd h) d = map_sum id snd (Add r c fd h d)"
| "driver_exec (Op_Del r fd) d = map_sum id snd (Del r fd d)"
| "driver_exec (Op_Modr c fd on) d = map_sum id snd (Modr c fd on d)"
| "driver_exec (Op_Modw c fd on) d = map_sum id snd (Modw c fd on d)"
| "driver_exec (Op_Modrw c fd on) d = map_sum id snd (Modrw c fd on d)"

fun driver_run :: "driver_op list \<Rightarrow> event_driver \<Rightarrow> event_driver outcome" where
  "driver_run [] d = Inr d"
| "driver_run (op # ops) d = outcome_bind (driver_exec op d) (driver_run ops)"

fun real_fd :: "driver_op \<Rightarrow> bool" where
  "real_fd (Op_Add r c fd h) = (0 \<le> fd)"
| "real_fd _ = True"

lemma driver_exec_inv:
  assumes "driver_inv d" "real_fd op"
  shows "\<exists>d'. driver_exec op d = Inr d' \<and> driver_inv d' \<and> inloop d' = inloop d \<and> (inloop d \<longrightarrow> keeps_objects d d')"
proof (cases op)
  case (Op_Add r c fd h)
  with Add_inv [OF assms(1), of fd r c h] assms(2) show ?thesis by auto
next
  case (Op_Del r fd)
  with Del_inv [OF assms(1), of r fd] show ?thesis by auto
next
  case (Op_Modr c fd on)
  with mod_bits_inv [OF assms(1), of EVENT_READ c fd on] show ?thesis by (auto simp: Modr_def)
next
  case (Op_Modw c fd on)
  with mod_bits_inv [OF assms(1), of EVENT_WRITE c fd on] show ?thesis by (auto simp: Modw_def)
next
  case (Op_Modrw c fd on)
  with mod_bits_inv [OF assms(1), of "EVENT_READ OR EVENT_WRITE" c fd on] show ?thesis by (auto simp: Modrw_def)
qed

lemma driver_run_inv:
  "driver_inv d \<Longrightarrow> \<forall>op \<in> set ops. real_fd op \<Longrightarrow>
     \<exists>d'. driver_run ops d = Inr d' \<and> driver_inv d' \<and> inloop d' = inloop d \<and> (inloop d \<longrightarrow> keeps_objects d d')"
proof (induction ops arbitrary: d)
  case (Cons op ops)
  from driver_exec_inv [OF Cons.prems(1), of op] Cons.prems(2) obtain d1 where
    d1: "driver_exec op d = Inr d1" "driver_inv d1" "inloop d1 = inloop d" "inloop d \<longrightarrow> keeps_objects d d1" by auto
  from Cons.IH [OF d1(2)] Cons.prems(2) obtain d' where
    "driver_run ops d1 = Inr d'" "driver_inv d'" "inloop d' = inloop d1" "inloop d1 \<longrightarrow> keeps_objects d1 d'" by auto
  with d1 show ?case by (auto intro: keeps_objects_trans)
qed simp

text \<open>Handlers: what the handler, called with a descriptor and events, does to the driver, which it may look at.\<close>

type_synonym reactions = "nat \<Rightarrow> int \<Rightarrow> u16 \<Rightarrow> event_driver \<Rightarrow> driver_op list"

definition reacting :: "reactions \<Rightarrow> handler_fun" where
  "reacting react h fd ev d = driver_run (react h fd ev d) d"

definition real_reactions :: "reactions \<Rightarrow> bool" where
  "real_reactions react \<longleftrightarrow> (\<forall>h fd ev d. \<forall>op \<in> set (react h fd ev d). real_fd op)"

lemma poll_loop_safe:
  assumes react: "real_reactions react"
  shows "driver_inv d \<Longrightarrow> inloop d \<Longrightarrow> \<forall>(p, r) \<in> set evs. \<exists>a e. p = Some a \<and> events d a = Some e \<Longrightarrow>
     \<exists>more d'. poll_loop (reacting react) evs calls d = Inr (0, calls @ more, d') \<and> driver_inv d' \<and> \<not> inloop d' \<and>
       subseq (map (\<lambda>(h, fd, ev). (h, fd)) more)
         (map (\<lambda>(p, r). (fe_handler (the (events d (the p))), fe_fd (the (events d (the p))))) evs)"
proof (induction evs arbitrary: d calls)
  case (Cons x evs)
  obtain p r where x: "x = (p, r)" by fastforce
  from Cons.prems(3) x obtain a e where a: "p = Some a" "events d a = Some e" by auto
  show ?case
  proof (cases "expected_event (fe_event e) r")
    case False
    from Cons.IH [OF Cons.prems(1,2), of calls] Cons.prems(3) obtain more d' where
      "poll_loop (reacting react) evs calls d = Inr (0, calls @ more, d')" "driver_inv d'" "\<not> inloop d'"
      "subseq (map (\<lambda>(h, fd, ev). (h, fd)) more)
         (map (\<lambda>(p, r). (fe_handler (the (events d (the p))), fe_fd (the (events d (the p))))) evs)" by auto
    with False x a show ?thesis by (auto simp: at_event_def)
  next
    case True
    let ?ev = "told (fe_event e) r"
    from driver_run_inv [OF Cons.prems(1), of "react (fe_handler e) (fe_fd e) ?ev d"] react Cons.prems(2) obtain d1 where
      d1: "reacting react (fe_handler e) (fe_fd e) ?ev d = Inr d1" "driver_inv d1" "inloop d1" "keeps_objects d d1"
      by (auto simp: real_reactions_def reacting_def)
    have live: "\<forall>(p, r) \<in> set evs. \<exists>a e. p = Some a \<and> events d1 a = Some e"
      using Cons.prems(3) d1(4) by (fastforce simp: keeps_objects_def)
    from Cons.IH [OF d1(2,3) live, of "calls @ [(fe_handler e, fe_fd e, ?ev)]"] obtain more d' where
      more: "poll_loop (reacting react) evs (calls @ [(fe_handler e, fe_fd e, ?ev)]) d1 =
          Inr (0, calls @ (fe_handler e, fe_fd e, ?ev) # more, d')" "driver_inv d'" "\<not> inloop d'"
      "subseq (map (\<lambda>(h, fd, ev). (h, fd)) more)
         (map (\<lambda>(p, r). (fe_handler (the (events d1 (the p))), fe_fd (the (events d1 (the p))))) evs)" by auto
    have same: "map (\<lambda>(p, r). (fe_handler (the (events d1 (the p))), fe_fd (the (events d1 (the p))))) evs =
        map (\<lambda>(p, r). (fe_handler (the (events d (the p))), fe_fd (the (events d (the p))))) evs"
    proof (rule map_cong [OF refl])
      fix y assume y: "y \<in> set evs"
      obtain q s where qs: "y = (q, s)" by fastforce
      from Cons.prems(3) y qs obtain b f where "q = Some b" "events d b = Some f" by fastforce
      with d1(4) qs show "(case y of (p, r) \<Rightarrow> (fe_handler (the (events d1 (the p))), fe_fd (the (events d1 (the p))))) =
          (case y of (p, r) \<Rightarrow> (fe_handler (the (events d (the p))), fe_fd (the (events d (the p)))))"
        by (fastforce simp: keeps_objects_def)
    qed
    show ?thesis
      using more True x a d1(1) unfolding same
      by (intro exI [of _ "(fe_handler e, fe_fd e, ?ev) # more"] exI [of _ d']) (simp add: at_event_def Let_def)
  qed
qed simp


lemma RemoveClosed_inv:
  assumes inv: "driver_inv d" shows "driver_inv (RemoveClosed d)"
proof -
  have stay: "events (RemoveClosed d) a = Some e" if "events d a = Some e" "\<not> fe_closed e" for a e
    using that by (simp add: RemoveClosed_def)
  have "a < next_event d" if "events (RemoveClosed d) a = Some e" for a e
    using that inv by (simp add: RemoveClosed_def driver_inv_def split: if_splits)
  moreover have "\<exists>e. events (RemoveClosed d) a = Some e \<and> fe_fd e = int i \<and> \<not> fe_closed e"
    if "i < length (fd2data d)" "fd2data d ! i = Some a" for i a
    using driver_inv_object(1) [OF inv that] stay by blast
  moreover have "\<exists>e. events (RemoveClosed d) a = Some e \<and> fe_fd e = fd \<and> \<not> fe_closed e" if "epoll d fd = Some (a, w)" for fd a w
    using driver_inv_object(2) [OF inv that] stay by blast
  ultimately show ?thesis using inv by (simp add: driver_inv_def RemoveClosed_def)
qed

text \<open>What epoll\_wait returns: pointers the kernel has been given for some descriptor.\<close>

definition from_kernel :: "event_driver \<Rightarrow> (nat option \<times> u32) list \<Rightarrow> bool" where
  "from_kernel d evs \<longleftrightarrow> (\<forall>(p, r) \<in> set evs. \<exists>a. p = Some a \<and> (\<exists>fd w. epoll d fd = Some (a, w)))"

lemma from_kernel_simps:
  "from_kernel d []"
  "from_kernel d ((Some a, r) # evs) \<longleftrightarrow> (\<exists>fd w. epoll d fd = Some (a, w)) \<and> from_kernel d evs"
  by (auto simp: from_kernel_def)

lemma from_kernel_live: "driver_inv d \<Longrightarrow> from_kernel d evs \<Longrightarrow> \<forall>(p, r) \<in> set evs. \<exists>a e. p = Some a \<and> events d a = Some e"
  unfolding from_kernel_def using driver_inv_object(2) by fastforce

lemma Poll_round:
  assumes inv: "driver_inv d" and react: "real_reactions react" and evs: "from_kernel d evs"
  shows "\<exists>calls d'. Poll (reacting react) evs d = Inr (0, calls, d') \<and> driver_inv d' \<and> (evs \<noteq> [] \<longrightarrow> \<not> inloop d') \<and>
     subseq (map (\<lambda>(h, fd, ev). (h, fd)) calls)
       (map (\<lambda>(p, r). (fe_handler (the (events d (the p))), fe_fd (the (events d (the p))))) evs)"
proof (cases "evs = []")
  case True
  with inv show ?thesis by (simp add: Poll_def)
next
  case False
  have "driver_inv (d\<lparr>inloop := True\<rparr>)" "inloop (d\<lparr>inloop := True\<rparr>)" using inv by simp_all
  with poll_loop_safe [of react "d\<lparr>inloop := True\<rparr>" evs "[]"] react from_kernel_live [OF inv evs] False
  show ?thesis by (simp add: Poll_def)
qed

text \<open>The states a driver gets into: operations with descriptors of the kernel, and rounds whose handlers use them.\<close>

inductive driver_reach :: "event_driver \<Rightarrow> bool" where
  started: "driver_reach InitEventData"
| operated: "driver_reach d \<Longrightarrow> real_fd op \<Longrightarrow> driver_exec op d = Inr d' \<Longrightarrow> driver_reach d'"
| cleaned: "driver_reach d \<Longrightarrow> driver_reach (RemoveClosed d)"
| polled: "driver_reach d \<Longrightarrow> from_kernel d evs \<Longrightarrow> real_reactions react \<Longrightarrow>
    Poll (reacting react) evs d = Inr (r, calls, d') \<Longrightarrow> driver_reach d'"

lemma driver_reach_inv: "driver_reach d \<Longrightarrow> driver_inv d"
proof (induction rule: driver_reach.induct)
  case (operated d op d')
  with driver_exec_inv [of d op] show ?case by auto
next
  case (polled d evs react r calls d')
  with Poll_round [of d react evs] show ?case by auto
qed (simp_all add: driver_inv_Init RemoveClosed_inv)

section \<open>One round, evaluated\<close>

text \<open>Descriptors 5 and 6 registered for reading; the handler of 5 takes 6 away, which is reported in the same round.\<close>

definition two_watched :: event_driver where
  "two_watched =
     InitEventData\<lparr>fd2data := ((fd2data InitEventData)[5 := Some 1])[6 := Some 2],
       events := [1 \<mapsto> \<lparr>fe_fd = 5, fe_handler = 10, fe_event = 1, fe_closed = False\<rparr>, 2 \<mapsto> \<lparr>fe_fd = 6, fe_handler = 20, fe_event = 1, fe_closed = False\<rparr>],
       next_event := 3, maxfd := 6, epoll := [5 \<mapsto> (1, event_in), 6 \<mapsto> (2, event_in)]\<rparr>"

definition takes_six_away :: reactions where
  "takes_six_away h fd ev d = (if fd = 5 then [Op_Del True 6] else [])"

lemma two_watched_run:
  "driver_run [Op_Add True True 5 10, Op_Add True True 6 20, Op_Modr True 5 True, Op_Modr True 6 True] InitEventData = Inr two_watched"
  by (simp add: Add_def grow_def Let_def set_slot_def slot_in_def InitEventData_def init_fd2data_def Modr_def mod_bits_def get_slot_def
      at_event_def Mod_def EVENT_READ_def EVENT_WRITE_def has_event_def two_watched_def fun_upd_twist numeral_2_eq_2)

lemma two_watched_reach: "driver_reach two_watched"
proof -
  have "driver_run ops d = Inr d' \<Longrightarrow> driver_reach d \<Longrightarrow> \<forall>op \<in> set ops. real_fd op \<Longrightarrow> driver_reach d'" for ops d d'
    by (induction ops arbitrary: d) (auto simp: outcome_bind_Inr_iff intro: driver_reach.operated)
  from this [OF two_watched_run driver_reach.started] show ?thesis by simp
qed

section \<open>Properties\<close>

text \<open>C22. Whatever has been registered, changed and taken away, inside or outside a round, the driver is well formed: every used slot of
  the table holds a living FdEvent of its own descriptor that is not closed, every pointer the kernel has been given is a living
  FdEvent of that descriptor that is not on the closed list, and the closed list holds living, closed objects, each once. So the
  table, the kernel and the closed list never hold a dangling pointer, and RemoveClosed frees no object in use and none twice.\<close>

theorem event_driver_well_formed:
  assumes "driver_reach d"
  shows "(\<forall>i < length (fd2data d). \<forall>a. fd2data d ! i = Some a \<longrightarrow> (\<exists>e. events d a = Some e \<and> fe_fd e = int i \<and> \<not> fe_closed e)) \<and>
     (\<forall>fd a w. epoll d fd = Some (a, w) \<longrightarrow> (\<exists>e. events d a = Some e \<and> fe_fd e = fd \<and> \<not> fe_closed e)) \<and>
     distinct (closed_list d) \<and> (\<forall>a \<in> set (closed_list d). \<exists>e. events d a = Some e \<and> fe_closed e) \<and>
     int (length (fd2data d)) = fd2data_size d + 1 \<and> maxfd d \<le> fd2data_size d"
  using driver_reach_inv [OF assms] unfolding driver_inv_def by blast

theorem event_driver_well_formed_witness:
  "distinct (closed_list two_watched) \<and> maxfd two_watched \<le> fd2data_size two_watched \<and>
     epoll two_watched 6 = Some (2, event_in) \<and> (\<exists>e. events two_watched 2 = Some e \<and> fe_fd e = 6 \<and> \<not> fe_closed e)"
proof -
  have "epoll two_watched 6 = Some (2, event_in)" by (simp add: two_watched_def)
  with event_driver_well_formed [OF two_watched_reach] show ?thesis by blast
qed

text \<open>C23. A round of events is safe however the handlers it calls add, change and delete registrations, their own and those of events
  still to come: Poll reaches its end without using a freed FdEvent or leaving the table, and calls the handlers of a subsequence
  of the reported events, in the kernel's order, each with the descriptor it was registered for.\<close>

theorem event_driver_round:
  assumes "driver_reach d" "from_kernel d evs" "real_reactions react"
  shows "\<exists>calls d'. Poll (reacting react) evs d = Inr (0, calls, d') \<and> driver_reach d' \<and>
     subseq (map (\<lambda>(h, fd, ev). (h, fd)) calls)
       (map (\<lambda>(p, r). (fe_handler (the (events d (the p))), fe_fd (the (events d (the p))))) evs)"
  using Poll_round [OF driver_reach_inv [OF assms(1)] assms(3,2)] driver_reach.polled [OF assms(1,2,3)] by blast

theorem event_driver_round_witness:
  "\<exists>calls d'. Poll (reacting takes_six_away) [(Some 1, EPOLLIN), (Some 2, EPOLLIN)] two_watched = Inr (0, calls, d') \<and>
     subseq (map (\<lambda>(h, fd, ev). (h, fd)) calls) [(10, 5), (20, 6)]"
proof -
  have "epoll two_watched 5 = Some (1, event_in)" "epoll two_watched 6 = Some (2, event_in)" by (simp_all add: two_watched_def)
  then have k: "from_kernel two_watched [(Some 1, EPOLLIN), (Some 2, EPOLLIN)]"
    unfolding from_kernel_simps(2) using from_kernel_simps(1) by blast
  have r: "real_reactions takes_six_away" by (simp add: real_reactions_def takes_six_away_def)
  have m: "map (\<lambda>(p, r). (fe_handler (the (events two_watched (the p))), fe_fd (the (events two_watched (the p)))))
      [(Some 1, EPOLLIN), (Some 2, EPOLLIN)] = [(10, 5), (20, 6)]" by (simp add: two_watched_def)
  from event_driver_round [OF two_watched_reach k r] show ?thesis unfolding m by blast
qed

section \<open>What the driver does at its edges\<close>

text \<open>Add of -1 writes before the table: only fds above 0 are looked at, and only fds above maxfd\_ make it grow.\<close>

lemma Add_negative: "Add realloc_ok ctl_ok (-1) h InitEventData = Inl Out_Of_Bounds"
  by (simp add: Add_def grow_def Let_def set_slot_def slot_in_def InitEventData_def)

text \<open>A round without events leaves inloop\_ set: a Del after it puts the object on the closed list and does not free it.\<close>

lemma idle_round_stays_in_loop: "Poll handler [] d = Inr (0, [], d') \<Longrightarrow> inloop d'"
  by (auto simp: Poll_def)

lemma Del_after_idle_round:
  "Poll handler [] two_watched = Inr (0, [], d') \<Longrightarrow> \<exists>d''. Del True 5 d' = Inr (0, d'') \<and> closed_list d'' = [1] \<and> events d'' 1 \<noteq> None"
  by (auto simp: Poll_def two_watched_def InitEventData_def init_fd2data_def Del_def get_slot_def slot_in_def ReInitClosed_def Let_def
      at_event_def set_slot_def numeral_2_eq_2)

text \<open>A handler taken away in a round is still called in it: closed\_ is not looked at.\<close>

lemma deregistered_handler_called:
  "Poll (reacting takes_six_away) [(Some 1, EPOLLIN), (Some 2, EPOLLIN)] two_watched = Inr (r, calls, d') \<Longrightarrow>
     calls = [(10, 5, EVENT_READ), (20, 6, EVENT_READ)] \<and> epoll d' 6 = None"
  by (auto simp: Poll_def reacting_def takes_six_away_def two_watched_def InitEventData_def init_fd2data_def Del_def get_slot_def slot_in_def ReInitClosed_def
      Let_def at_event_def set_slot_def expected_event_def told_def has_event_def EVENT_READ_def EVENT_WRITE_def EVENT_CONNECT_CLOSED_def EVENT_ERROR_def
      EPOLLIN_def EPOLLOUT_def EPOLLRDHUP_def EPOLLERR_def EPOLLHUP_def)

end
