(* ===== verification/Service.thy ===== *)
theory Service
  imports Messages "HOL-Library.Sublist"
begin

text \<open>
  The queues between the I/O threads and the service threads, and the dispatch of a message in a service thread:
  src/src/service/service\_manager.cpp, service\_handle.cpp, handle\_data.h. A queue is the
  list of its messages, the oldest first; the locks around a swap or an emplace make each a single step.
  The counters id\_hs and id\_task are thread local: the calling thread's counter is passed in and out.
\<close>

section \<open>Handing messages to the service threads\<close>

definition GetServiceHandleId :: "nat \<Rightarrow> message \<Rightarrow> u32 \<Rightarrow> (u32 \<times> u32) outcome" where
  "GetServiceHandleId handles msg id_hs =
     (if handle_id msg \<ge> 0 \<and> handle_id msg < signed_take_bit 31 (int handles) then Inr (word_of_int (handle_id msg), id_hs)
      else if handles = 0 then Inl Division_By_Zero
      else Inr (word_of_nat (unat id_hs mod handles), id_hs + 1))"

text \<open>\<open>service_handle_data_.at(id)\<close> throws outside the vector.\<close>

definition SendToServiceHandle :: "message \<Rightarrow> u32 \<Rightarrow> message list list \<Rightarrow> (u32 \<times> message list list) outcome" where
  "SendToServiceHandle msg id_hs queues =
     outcome_bind (GetServiceHandleId (length queues) msg id_hs) (\<lambda>(id, id_hs').
       if unat id < length queues then Inr (id_hs', queues[unat id := queues ! unat id @ [msg]])
       else Inl Out_Of_Range_Exception)"

definition SendTaskToServiceHandle :: "'t \<Rightarrow> u32 \<Rightarrow> 't list list \<Rightarrow> (u32 \<times> 't list list) outcome" where
  "SendTaskToServiceHandle task id_task queues =
     (if queues = [] then Inl Division_By_Zero
      else let tid = unat id_task mod length queues in Inr (id_task + 1, queues[tid := queues ! tid @ [task]]))"

section \<open>A service thread\<close>

definition INNER_QUERY_SEND_PROTECT_TIME :: u64 where "INNER_QUERY_SEND_PROTECT_TIME = 100"

text \<open>
  What handling a message does: it is destroyed, given to one of the four virtual functions an
  application overrides, or to the callback of its context after the monitor was told the outcome.
\<close>

datatype service_action =
    Destroy_Message message
  | On_Http_Request message
  | On_Http_Response message
  | On_Rapid_Request message
  | On_Rapid_Response message
  | Mark_End u64 bool
  | Run_Callback nat message

definition response_message :: "(message \<Rightarrow> service_action) \<Rightarrow> message \<Rightarrow> service_action list" where
  "response_message OnResponse msg =
     (case ctx msg of
        None \<Rightarrow> [OnResponse msg]
      | Some c \<Rightarrow>
          (case callback c of
             None \<Rightarrow> [OnResponse msg]
           | Some f \<Rightarrow> [Mark_End (monitor_id c) (status msg = kStatusOK), Run_Callback f msg]))"

definition HttpRequestMessage :: "message \<Rightarrow> service_action list" where
  "HttpRequestMessage msg = [On_Http_Request msg]"

definition HttpResponseMessage :: "message \<Rightarrow> service_action list" where
  "HttpResponseMessage = response_message On_Http_Response"

definition RapidRequestMessage :: "message \<Rightarrow> service_action list" where
  "RapidRequestMessage msg = [On_Rapid_Request msg]"

definition RapidResponseMessage :: "message \<Rightarrow> service_action list" where
  "RapidResponseMessage = response_message On_Rapid_Response"

definition Handle :: "u64 \<Rightarrow> message \<Rightarrow> service_action list outcome" where
  "Handle now msg =
     (if direction msg = kIncomingRequest \<and> now - birthtime msg > INNER_QUERY_SEND_PROTECT_TIME
      then Inr [Destroy_Message msg]
      else if type_id msg = kHttpMessage
      then (case payload msg of
              Http_Data _ \<Rightarrow> Inr (if direction msg = kIncomingRequest then HttpRequestMessage msg else HttpResponseMessage msg)
            | _ \<Rightarrow> Inl Bad_Cast)
      else if type_id msg = kRapidMessage
      then (case payload msg of
              Rapid_Data _ _ \<Rightarrow> Inr (if direction msg = kIncomingRequest then RapidRequestMessage msg else RapidResponseMessage msg)
            | _ \<Rightarrow> Inl Bad_Cast)
      else Inr [Destroy_Message msg])"

text \<open>One round of Run over a non-empty queue: the queue is swapped out and its messages are handled in order.\<close>

fun handle_batch :: "u64 list \<Rightarrow> message list \<Rightarrow> service_action list outcome" where
  "handle_batch _ [] = Inr []"
| "handle_batch nows (msg # temp) =
     outcome_bind (Handle (case nows of [] \<Rightarrow> 0 | now # _ \<Rightarrow> now) msg) (\<lambda>acts.
       map_sum id ((@) acts) (handle_batch (tl nows) temp))"

definition service_round :: "bool \<Rightarrow> u64 list \<Rightarrow> message list \<Rightarrow> (message list \<times> service_action list) outcome" where
  "service_round is_run nows data =
     (if is_run \<and> data \<noteq> [] then map_sum id (Pair []) (handle_batch nows data) else Inr (data, []))"

text \<open>The default handlers of an application that overrides none.\<close>

definition default_action :: "service_action \<Rightarrow> service_action" where
  "default_action act =
     (case act of
        On_Http_Request m \<Rightarrow> Destroy_Message m
      | On_Http_Response m \<Rightarrow> Destroy_Message m
      | On_Rapid_Request m \<Rightarrow> Destroy_Message m
      | On_Rapid_Response m \<Rightarrow> Destroy_Message m
      | _ \<Rightarrow> act)"

section \<open>Messages reach a queue\<close>

lemma u32_mod:
  assumes "n < 2 ^ 31" shows "unat (word_of_nat (unat (ix :: u32) mod n) :: u32) = unat ix mod n"
proof (cases "n = 0")
  case False
  then have "unat ix mod n < n" by simp
  then have "unat ix mod n < 2 ^ 32" using assms by simp
  then show ?thesis by (simp add: unat_of_nat take_bit_nat_eq_self)
qed simp

lemma handle_id_word: "0 \<le> i \<Longrightarrow> i < 2 ^ 31 \<Longrightarrow> unat (word_of_int i :: u32) = nat i"
  by (simp add: unsigned_of_int take_bit_int_eq_self)

text \<open>The queue a message goes to, and the counter afterwards.\<close>

definition own_handle :: "nat \<Rightarrow> message \<Rightarrow> bool" where
  "own_handle handles msg \<longleftrightarrow> 0 \<le> handle_id msg \<and> handle_id msg < int handles"

lemma SendToServiceHandle_lands:
  assumes "queues \<noteq> []" "length queues < 2 ^ 31"
  shows "SendToServiceHandle msg id_hs queues =
     Inr (if own_handle (length queues) msg then id_hs else id_hs + 1,
          let i = (if own_handle (length queues) msg then nat (handle_id msg) else unat id_hs mod length queues)
          in queues[i := queues ! i @ [msg]])"
proof -
  have cast: "signed_take_bit 31 (int (length queues)) = int (length queues)"
    using assms(2) by (simp add: signed_take_bit_int_eq_self)
  have pos: "0 < length queues" using assms(1) by simp
  show ?thesis
  proof (cases "own_handle (length queues) msg")
    case True
    then have "unat (word_of_int (handle_id msg) :: u32) = nat (handle_id msg)" "nat (handle_id msg) < length queues"
      using assms(2) by (auto simp: own_handle_def handle_id_word)
    with True show ?thesis
      by (simp add: SendToServiceHandle_def GetServiceHandleId_def cast own_handle_def Let_def)
  next
    case False
    then show ?thesis
      using pos u32_mod [OF assms(2), of id_hs] assms(1)
      by (auto simp: SendToServiceHandle_def GetServiceHandleId_def cast own_handle_def Let_def)
  qed
qed

text \<open>A list of messages sent by one thread.\<close>

fun send_all :: "message list \<Rightarrow> u32 \<Rightarrow> message list list \<Rightarrow> (u32 \<times> message list list) outcome" where
  "send_all [] id_hs queues = Inr (id_hs, queues)"
| "send_all (m # ms) id_hs queues = outcome_bind (SendToServiceHandle m id_hs queues) (\<lambda>(i, q). send_all ms i q)"

text \<open>How many of the numbers from \<open>c\<close> on, \<open>n\<close> of them, leave the rest \<open>i\<close>.\<close>

definition turns :: "nat \<Rightarrow> nat \<Rightarrow> nat \<Rightarrow> nat \<Rightarrow> nat" where
  "turns k c n i = length (filter (\<lambda>x. x mod k = i) [c ..< c + n])"

lemma turns_Suc: "turns k c (Suc n) i = (if c mod k = i then 1 else 0) + turns k (Suc c) n i"
proof -
  have "[c ..< c + Suc n] = c # [Suc c ..< Suc c + n]" by (simp add: upt_conv_Cons del: upt_Suc)
  then show ?thesis by (simp add: turns_def del: upt_Suc)
qed

lemma turns_div:
  assumes "i < k" shows "turns k 0 n i = (n + (k - 1 - i)) div k"
proof (induction n)
  case 0
  show ?case using assms by (simp add: turns_def)
next
  case (Suc n)
  have "Suc (n + (k - 1 - i)) mod k = 0 \<longleftrightarrow> n mod k = i"
  proof -
    have "k * (n div k) + n mod k = n" by simp
    then have "Suc (n + (k - 1 - i)) = k * (n div k) + (n mod k + (k - i))" using assms by linarith
    then have "Suc (n + (k - 1 - i)) mod k = (n mod k + (k - i)) mod k" by (metis mod_mult_self4)
    also have "\<dots> = 0 \<longleftrightarrow> n mod k = i"
    proof -
      have r: "n mod k < k" using assms by simp
      show ?thesis
      proof (cases "n mod k < i")
        case True
        then have "0 < n mod k + (k - i)" "n mod k + (k - i) < k" using assms by linarith+
        with True assms show ?thesis by simp
      next
        case False
        then have "n mod k + (k - i) = k + (n mod k - i)" using assms by linarith
        moreover have "n mod k - i < k" using r by linarith
        ultimately have "(n mod k + (k - i)) mod k = n mod k - i" by (simp only: mod_add_self1 mod_less)
        with False show ?thesis by (simp only:) linarith
      qed
    qed
    finally show ?thesis .
  qed
  moreover have "turns k 0 (Suc n) i = turns k 0 n i + (if n mod k = i then 1 else 0)" by (simp add: turns_def)
  ultimately show ?case using Suc by (simp add: div_Suc)
qed

lemma turns_from: "turns k 0 (c + n) i = turns k 0 c i + turns k c n i"
proof -
  have "[0 ..< c + n] = [0 ..< c] @ [c ..< c + n]" by (metis add_leE le_add1 le0 upt_add_eq_append)
  then show ?thesis by (simp add: turns_def)
qed

lemma turns_bounds:
  assumes "i < k" shows "n div k \<le> turns k c n i \<and> turns k c n i \<le> n div k + 1"
proof -
  have "turns k c n i = (c + n + (k - 1 - i)) div k - (c + (k - 1 - i)) div k"
    using turns_from [of k c n i] by (simp add: turns_div [OF assms])
  moreover have "(x + n) div k = x div k + n div k + (x mod k + n mod k) div k" for x by (rule div_add1_eq)
  moreover have "(x mod k + n mod k) div k \<le> 1" for x
  proof -
    have "x mod k + n mod k < 2 * k" using assms by (simp add: add_strict_mono mult_2)
    then have "(x mod k + n mod k) div k < 2" by (rule less_mult_imp_div_less)
    then show ?thesis by simp
  qed
  moreover have "c + n + (k - 1 - i) = (c + (k - 1 - i)) + n" by simp
  ultimately show ?thesis by (metis (no_types, lifting) add.assoc add_diff_cancel_left' add_le_cancel_left le_add1)
qed


lemma unat_Suc_u32: "unat (ix :: u32) + 1 < 2 ^ 32 \<Longrightarrow> unat (ix + 1) = Suc (unat ix)"
  by (simp add: unat_word_ariths)

lemma send_all_turns:
  assumes "i < length queues" "length queues < 2 ^ 31"
  shows "\<forall>m \<in> set ms. \<not> own_handle (length queues) m \<Longrightarrow> unat ix + length ms < 2 ^ 32 \<Longrightarrow>
     \<exists>queues' new. send_all ms ix queues = Inr (ix + word_of_nat (length ms), queues') \<and> length queues' = length queues \<and>
       queues' ! i = queues ! i @ new \<and> subseq new ms \<and> length new = turns (length queues) (unat ix) (length ms) i"
  using assms
proof (induction ms arbitrary: ix queues)
  case Nil
  then show ?case by (simp add: turns_def)
next
  case (Cons m ms)
  define at where "at = unat ix mod length queues"
  define q1 where "q1 = queues[at := queues ! at @ [m]]"
  have at: "at < length queues" using Cons.prems(3) by (cases "length queues") (simp_all add: at_def)
  have step: "SendToServiceHandle m ix queues = Inr (ix + 1, q1)"
  proof -
    have "queues \<noteq> []" using Cons.prems(3) by auto
    with SendToServiceHandle_lands [of queues m ix] Cons.prems show ?thesis by (simp add: q1_def at_def Let_def)
  qed
  have next_ix: "unat (ix + 1) = Suc (unat ix)" using Cons.prems(2) by (intro unat_Suc_u32) simp
  have len: "length q1 = length queues" by (simp add: q1_def)
  from Cons.IH [of q1 "ix + 1"] Cons.prems len next_ix obtain queues' new where
    q: "send_all ms (ix + 1) q1 = Inr (ix + 1 + word_of_nat (length ms), queues')" "length queues' = length queues"
      "queues' ! i = q1 ! i @ new" "subseq new ms" "length new = turns (length queues) (Suc (unat ix)) (length ms) i" by auto
  have q1: "q1 ! i = queues ! i @ (if unat ix mod length queues = i then [m] else [])"
    using at Cons.prems(3) by (auto simp: q1_def at_def nth_list_update)
  show ?case
    by (rule exI [of _ queues'], rule exI [of _ "(if unat ix mod length queues = i then [m] else []) @ new"])
      (use q q1 step list_emb_Cons [OF q(4), of m] in \<open>simp add: turns_Suc add.assoc\<close>)
qed

section \<open>Properties\<close>

text \<open>C19. Messages without a handler of their own are dealt out evenly: of the messages a thread sends in sequence, each
  of the service threads gets its share, rounded down or up, appended to its queue in the order they were sent; no
  message is lost and no index leaves the vectors. (While the thread's 32-bit counter does not wrap around.)\<close>

theorem service_threads_share:
  assumes "i < length queues" "length queues < 2 ^ 31" "\<forall>m \<in> set ms. \<not> own_handle (length queues) m"
    and "unat id_hs + length ms < 2 ^ 32"
  shows "\<exists>queues' new. send_all ms id_hs queues = Inr (id_hs + word_of_nat (length ms), queues') \<and>
     length queues' = length queues \<and> queues' ! i = queues ! i @ new \<and> subseq new ms \<and>
     length ms div length queues \<le> length new \<and> length new \<le> length ms div length queues + 1"
proof -
  from send_all_turns [OF assms(1,2,3,4)] turns_bounds [OF assms(1), of "length ms" "unat id_hs"]
  show ?thesis by metis
qed

theorem service_threads_share_witness:
  "\<exists>queues' new. send_all [RapidMessage_new, RedisMessage_new, RapidMessage_new] 0 [[], []] = Inr (3, queues') \<and>
     queues' ! 0 = new \<and> subseq new [RapidMessage_new, RedisMessage_new, RapidMessage_new] \<and> 1 \<le> length new \<and> length new \<le> 2"
proof -
  have own: "\<not> own_handle 2 RapidMessage_new" "\<not> own_handle 2 RedisMessage_new"
    by (simp_all add: own_handle_def RapidMessage_new_def RedisMessage_new_def message_new_def)
  let ?ms = "[RapidMessage_new, RedisMessage_new, RapidMessage_new]"
  have len: "length ?ms = 3" "length [[], [] :: message list] = 2" by simp_all
  have "\<forall>m \<in> set ?ms. \<not> own_handle (length [[], [] :: message list]) m" using own unfolding len by simp
  moreover have "0 < length [[], [] :: message list]" "length [[], [] :: message list] < 2 ^ 31" "unat (0 :: u32) + length ?ms < 2 ^ 32"
    unfolding len by simp_all
  ultimately show ?thesis
    using service_threads_share [of 0 "[[], []]" ?ms 0] unfolding len by (auto simp del: send_all.simps)
qed

text \<open>A response of the redis protocol has no case in the dispatch: it is destroyed, its callback is not run.\<close>

lemma redis_response_destroyed: "direction m \<noteq> kIncomingRequest \<Longrightarrow> type_id m = kRedisMessage \<Longrightarrow> Handle now m = Inr [Destroy_Message m]"
  by (simp add: Handle_def kinds)

end
