(* ===== verification/Io_Threads.thy ===== *)
theory Io_Threads
  imports Event_Driver Service
begin

text \<open>
  The I/O threads: src/src/event/event\_notifier.cpp, event\_loop\_thread.cpp, net\_thread\_mgr/io\_threads.h, io\_threads.cpp and the
  part of service/service\_manager.cpp that sends to them. Every I/O thread has an event driver and a queue of
  messages. A handler or connection is its address, a 64-bit number. What write and epoll\_ctl answer is an argument.
\<close>

section \<open>Waking a thread up\<close>

record event_notifier =
  event_fd :: int
  event_thread_id :: u32
  has_wake :: bool

definition EventNotifier_new :: event_notifier where
  "EventNotifier_new = \<lparr>event_fd = -1, event_thread_id = 0, has_wake = False\<rparr>"

text \<open>\<open>new_fd\<close> is what eventfd returns. Only the answer -1 of Add is taken for a failure.\<close>

definition InitWakeup ::
    "int \<Rightarrow> nat \<Rightarrow> bool \<Rightarrow> bool \<Rightarrow> bool \<Rightarrow> event_notifier \<Rightarrow> event_driver \<Rightarrow> (int \<times> event_notifier \<times> event_driver) outcome" where
  "InitWakeup new_fd wfd realloc_ok add_ok mod_ok n d =
     (if event_fd n \<noteq> -1 then Inr (0, n, d)
      else if new_fd = -1 then Inr (-1, n, d)
      else outcome_bind (Add realloc_ok add_ok new_fd wfd d) (\<lambda>(r, d1).
             if r = -1 then Inr (-1, n, d1)
             else outcome_bind (Modr mod_ok new_fd True d1) (\<lambda>(r', d2).
                    Inr (0, n\<lparr>has_wake := True, event_fd := new_fd\<rparr>, d2))))"

text \<open>The thread itself needs no waking; \<open>written\<close> is what write answers.\<close>

definition Wakeup :: "u32 \<Rightarrow> int \<Rightarrow> event_notifier \<Rightarrow> int" where
  "Wakeup this_thread written n =
     (if event_thread_id n = this_thread then 0
      else if event_fd n = -1 then -1
      else if written \<noteq> 8 then -2 else 0)"

section \<open>The threads\<close>

record io_threads =
  drivers :: "event_driver list"
  io_queues :: "message list list"

text \<open>\<open>(uint64_t)((void*)ezfd) % event_threads_.size()\<close>\<close>

definition thread_index :: "u64 \<Rightarrow> nat \<Rightarrow> nat outcome" where
  "thread_index ezfd threads = (if threads = 0 then Inl Division_By_Zero else Inr (unat ezfd mod threads))"

definition on_driver ::
    "nat \<Rightarrow> (event_driver \<Rightarrow> (int \<times> event_driver) outcome) \<Rightarrow> io_threads \<Rightarrow> (int \<times> io_threads) outcome" where
  "on_driver idx act t =
     (if idx < length (drivers t) then map_sum id (\<lambda>(r, d). (r, t\<lparr>drivers := (drivers t)[idx := d]\<rparr>)) (act (drivers t ! idx))
      else Inl Out_Of_Bounds)"

text \<open>What the system answers to the calls of one registration.\<close>

record add_answers =
  realloc_ans :: bool
  add_ans :: bool
  modr_ans :: bool
  modw_ans :: bool
  wake_ans :: int

definition AddModrw :: "add_answers \<Rightarrow> u64 \<Rightarrow> int \<Rightarrow> bool \<Rightarrow> io_threads \<Rightarrow> (int \<times> nat \<times> io_threads) outcome" where
  "AddModrw ans ezfd fd on t =
     outcome_bind (thread_index ezfd (length (drivers t))) (\<lambda>idx.
     outcome_bind (on_driver idx (Add (realloc_ans ans) (add_ans ans) fd (unat ezfd)) t) (\<lambda>(r, t1).
       if r \<noteq> 0 then Inr (-1, idx, t1)
       else outcome_bind (on_driver idx (Modr (modr_ans ans) fd on) t1) (\<lambda>(r, t2).
         if r \<noteq> 0 then Inr (-2, idx, t2)
         else outcome_bind (on_driver idx (Modw (modw_ans ans) fd on) t2) (\<lambda>(r, t3).
           if r \<noteq> 0 then Inr (-3, idx, t3) else Inr (wake_ans ans, idx, t3)))))"

definition AddModr :: "add_answers \<Rightarrow> u64 \<Rightarrow> int \<Rightarrow> bool \<Rightarrow> io_threads \<Rightarrow> (int \<times> nat \<times> io_threads) outcome" where
  "AddModr ans ezfd fd on t =
     outcome_bind (thread_index ezfd (length (drivers t))) (\<lambda>idx.
     outcome_bind (on_driver idx (Add (realloc_ans ans) (add_ans ans) fd (unat ezfd)) t) (\<lambda>(r, t1).
       if r \<noteq> 0 then Inr (-1, idx, t1)
       else outcome_bind (on_driver idx (Modr (modr_ans ans) fd on) t1) (\<lambda>(r, t2).
         if r \<noteq> 0 then Inr (-2, idx, t2) else Inr (wake_ans ans, idx, t2))))"

definition EventDel :: "bool \<Rightarrow> u64 \<Rightarrow> int \<Rightarrow> io_threads \<Rightarrow> (int \<times> io_threads) outcome" where
  "EventDel realloc_ok ezfd fd t =
     outcome_bind (thread_index ezfd (length (drivers t))) (\<lambda>idx.
       map_sum id (\<lambda>(r, t'). (if r \<noteq> 0 then -1 else 0, t')) (on_driver idx (Del realloc_ok fd) t))"

text \<open>A message goes to the thread its connection's address selects, one without connection to the next thread in turn.\<close>

definition PutMessageToHandle :: "message \<Rightarrow> u32 \<Rightarrow> io_threads \<Rightarrow> (u32 \<times> io_threads) outcome" where
  "PutMessageToHandle msg id_io t =
     (let n = length (io_queues t) in
      if n = 0 then Inl Division_By_Zero
      else let (id, id_io') = (if descriptor_id msg \<noteq> 0 then (unat (word_of_int (descriptor_id msg) :: u64) mod n, id_io)
                               else (unat id_io mod n, id_io + 1))
           in Inr (id_io', t\<lparr>io_queues := (io_queues t)[id := io_queues t ! id @ [msg]]\<rparr>))"

definition SendToNetThread :: "message \<Rightarrow> u32 \<Rightarrow> io_threads \<Rightarrow> (u32 \<times> io_threads) outcome" where
  "SendToNetThread msg = PutMessageToHandle (msg\<lparr>type_io_event := kIoHandleEventMsg\<rparr>)"

definition SendCloseToNetThread :: "message \<Rightarrow> u32 \<Rightarrow> io_threads \<Rightarrow> (u32 \<times> io_threads) outcome" where
  "SendCloseToNetThread msg = PutMessageToHandle (msg\<lparr>type_io_event := kIoActiveCloseEvent\<rparr>)"

definition Reply :: "message \<Rightarrow> u32 \<Rightarrow> io_threads \<Rightarrow> (u32 \<times> io_threads) outcome" where
  "Reply msg = SendToNetThread (msg\<lparr>direction := kOutgoingResponse\<rparr>)"

section \<open>A registration leaves its mark in one driver\<close>

text \<open>What the table and the object say after a successful Add, and after Modr and Modw.\<close>

definition registered :: "u64 \<Rightarrow> int \<Rightarrow> event_driver \<Rightarrow> bool" where
  "registered ezfd fd d \<longleftrightarrow> slot_in fd d \<and> 0 \<le> fd \<and> fd \<le> maxfd d \<and>
     (\<exists>p e. fd2data d ! nat fd = Some p \<and> events d p = Some e \<and> fe_fd e = fd \<and> fe_handler e = unat ezfd)"

lemma Add_0:
  assumes fd: "0 \<le> fd" and r: "Add r c fd (unat ezfd) d = Inr (0, d')"
  shows "registered ezfd fd d'"
proof -
  let ?d1 = "d\<lparr>events := (events d)(next_event d \<mapsto> \<lparr>fe_fd = fd, fe_handler = unat ezfd, fe_event = 0, fe_closed = False\<rparr>), next_event := Suc (next_event d)\<rparr>"
  obtain grown d2 where g: "grow r fd ?d1 = (grown, d2)" by fastforce
  then have d2: "events d2 = events ?d1" by (auto simp: grow_def ReInitEventData_def Let_def split: if_splits)
  define d3 where "d3 = (if fd > maxfd d2 then d2\<lparr>maxfd := fd\<rparr> else d2)"
  have d3: "events d3 = events ?d1" "fd \<le> maxfd d3" by (auto simp: d3_def d2)
  from r have ok: "slot_in fd d3" "d' = d3\<lparr>fd2data := (fd2data d3)[nat fd := Some (next_event d)], epoll := (epoll d3)(fd \<mapsto> (next_event d, 0))\<rparr>"
    by (auto simp: Add_def Let_def g d3_def set_slot_def outcome_bind_Inr_iff split: if_splits)
  then show ?thesis using fd d3 by (auto simp: registered_def slot_in_def)
qed

text \<open>Setting bits of a registered descriptor succeeds when epoll\_ctl does: the kernel then watches the object.\<close>

definition watched_by :: "u64 \<Rightarrow> u16 \<Rightarrow> int \<Rightarrow> event_driver \<Rightarrow> bool" where
  "watched_by ezfd bits fd d \<longleftrightarrow>
     (\<exists>p w e. epoll d fd = Some (p, w) \<and> events d p = Some e \<and> fe_fd e = fd \<and> fe_handler e = unat ezfd \<and>
       (\<forall>k. k \<noteq> 0 \<and> k AND bits = k \<longrightarrow> has_event (fe_event e) k))"

lemma mod_bits_0:
  assumes reg: "registered ezfd fd d" and r: "mod_bits bits c fd True d = Inr (0, d')"
  shows "registered ezfd fd d' \<and> watched_by ezfd bits fd d'"
proof -
  from reg obtain p e where p: "slot_in fd d" "0 \<le> fd" "fd \<le> maxfd d" "fd2data d ! nat fd = Some p" "events d p = Some e"
      "fe_fd e = fd" "fe_handler e = unat ezfd" by (auto simp: registered_def)
  define e' where "e' = e\<lparr>fe_event := fe_event e OR bits\<rparr>"
  define d1 where "d1 = d\<lparr>events := (events d)(p \<mapsto> e')\<rparr>"
  have "mod_bits bits c fd True d = Mod c fd d1"
    using p by (simp add: mod_bits_def get_slot_def at_event_def d1_def e'_def)
  with r p obtain w where d': "d' = d1\<lparr>epoll := (epoll d1)(fd \<mapsto> (p, w))\<rparr>"
    by (auto simp: Mod_def get_slot_def at_event_def d1_def slot_in_def split: if_splits)
  have "has_event (fe_event e OR bits) k" if "k \<noteq> 0" "k AND bits = k" for k
  proof -
    have "(fe_event e OR bits) AND k = k" using that(2) by (simp add: bit_eq_iff bit_simps) blast
    with that(1) show ?thesis by (simp add: has_event_def)
  qed
  then show ?thesis
    using p by (auto simp: d' d1_def e'_def registered_def watched_by_def slot_in_def)
qed

lemma watched_by_less: "watched_by ezfd bits fd d \<Longrightarrow> bits' AND bits = bits' \<Longrightarrow> watched_by ezfd bits' fd d"
proof -
  assume w: "watched_by ezfd bits fd d" "bits' AND bits = bits'"
  have "k AND bits = k" if "k AND bits' = k" for k
    using that w(2) by (simp add: bit_eq_iff bit_simps) blast
  with w(1) show ?thesis unfolding watched_by_def by blast
qed

section \<open>The thread of a connection\<close>

lemma on_driver_Inr:
  "on_driver idx act t = Inr (r, t') \<longleftrightarrow>
     idx < length (drivers t) \<and> (\<exists>d. act (drivers t ! idx) = Inr (r, d) \<and> t' = t\<lparr>drivers := (drivers t)[idx := d]\<rparr>)"
  by (cases "act (drivers t ! idx)") (auto simp: on_driver_def)

lemma AddModr_0:
  assumes "0 \<le> fd" "wake_ans ans = 0" "AddModr ans ezfd fd True t = Inr (0, idx, t')"
  shows "idx = unat ezfd mod length (drivers t) \<and> idx < length (drivers t) \<and> length (drivers t') = length (drivers t) \<and>
     io_queues t' = io_queues t \<and> registered ezfd fd (drivers t' ! idx) \<and> watched_by ezfd EVENT_READ fd (drivers t' ! idx) \<and>
     (\<forall>j < length (drivers t). j \<noteq> idx \<longrightarrow> drivers t' ! j = drivers t ! j)"
proof -
  from assms(3) obtain t1 t2 where
    i: "idx = unat ezfd mod length (drivers t)" "length (drivers t) \<noteq> 0"
    and a: "on_driver idx (Add (realloc_ans ans) (add_ans ans) fd (unat ezfd)) t = Inr (0, t1)"
    and m: "on_driver idx (Modr (modr_ans ans) fd True) t1 = Inr (0, t2)" and t': "t' = t2"
    by (auto simp: AddModr_def thread_index_def outcome_bind_Inr_iff split: if_splits)
  from a obtain d1 where d1: "idx < length (drivers t)" "Add (realloc_ans ans) (add_ans ans) fd (unat ezfd) (drivers t ! idx) = Inr (0, d1)"
      "t1 = t\<lparr>drivers := (drivers t)[idx := d1]\<rparr>" by (auto simp: on_driver_Inr)
  from m d1 obtain d2 where d2: "Modr (modr_ans ans) fd True d1 = Inr (0, d2)" "t2 = t\<lparr>drivers := (drivers t)[idx := d2]\<rparr>"
    by (auto simp: on_driver_Inr)
  have "registered ezfd fd d2 \<and> watched_by ezfd EVENT_READ fd d2"
    using mod_bits_0 [OF Add_0 [OF assms(1) d1(2)]] d2(1) by (simp add: Modr_def)
  then show ?thesis using i d1(1) d2(2) t' by simp
qed

text \<open>\<open>(int64_t)((void*)con)\<close>\<close>

definition descriptor_of :: "u64 \<Rightarrow> int" where
  "descriptor_of ezfd = sint ezfd"

lemma descriptor_back: "(word_of_int (descriptor_of ezfd) :: u64) = ezfd"
  by (simp add: descriptor_of_def)

lemma descriptor_null: "descriptor_of ezfd = 0 \<longleftrightarrow> ezfd = 0"
  by (metis descriptor_back descriptor_of_def sint_0 word_of_int_0)

lemma PutMessage_connection:
  assumes "ezfd \<noteq> 0" "descriptor_id msg = descriptor_of ezfd" "length (io_queues t) = n" "n \<noteq> 0"
  shows "PutMessageToHandle msg id_io t =
     Inr (id_io, t\<lparr>io_queues := (io_queues t)[unat ezfd mod n := io_queues t ! (unat ezfd mod n) @ [msg]]\<rparr>)"
  using assms by (simp add: PutMessageToHandle_def Let_def descriptor_back descriptor_null)

section \<open>Properties\<close>

text \<open>C26. A connection lives on one thread: when AddModr registered a connection (or any handler) with the I/O threads, exactly the
  driver chosen by its address watches its descriptor, for reading, with an FdEvent of that handler; the other drivers are untouched;
  and every message later sent to the network for that connection, replies and close requests included, is appended to the queue
  of the same thread. So a connection's buffers are only ever used by one thread.\<close>

theorem connection_on_one_thread:
  assumes "length (io_queues t) = length (drivers t)" "ezfd \<noteq> 0" "0 \<le> fd" "wake_ans ans = 0"
    and "AddModr ans ezfd fd True t = Inr (0, idx, t')" "descriptor_id msg = descriptor_of ezfd"
  shows "watched_by ezfd EVENT_READ fd (drivers t' ! idx) \<and> (\<forall>j < length (drivers t). j \<noteq> idx \<longrightarrow> drivers t' ! j = drivers t ! j) \<and>
     Reply msg id_io t' =
       Inr (id_io, t'\<lparr>io_queues := (io_queues t')[idx := io_queues t' ! idx @ [msg\<lparr>direction := kOutgoingResponse, type_io_event := kIoHandleEventMsg\<rparr>]]\<rparr>) \<and>
     SendToNetThread msg id_io t' = Inr (id_io, t'\<lparr>io_queues := (io_queues t')[idx := io_queues t' ! idx @ [msg\<lparr>type_io_event := kIoHandleEventMsg\<rparr>]]\<rparr>) \<and>
     SendCloseToNetThread msg id_io t' = Inr (id_io, t'\<lparr>io_queues := (io_queues t')[idx := io_queues t' ! idx @ [msg\<lparr>type_io_event := kIoActiveCloseEvent\<rparr>]]\<rparr>)"
proof -
  from AddModr_0 [OF assms(3,4,5)] have t': "idx = unat ezfd mod length (drivers t)" "idx < length (drivers t)" "io_queues t' = io_queues t"
      "watched_by ezfd EVENT_READ fd (drivers t' ! idx)" "\<forall>j < length (drivers t). j \<noteq> idx \<longrightarrow> drivers t' ! j = drivers t ! j" by blast+
  have "length (io_queues t') = length (drivers t)" "length (drivers t) \<noteq> 0" using t' assms(1) by auto
  from PutMessage_connection [OF assms(2) _ this, of "msg\<lparr>direction := y, type_io_event := x\<rparr>" for x y]
    PutMessage_connection [OF assms(2) _ this, of "msg\<lparr>type_io_event := x\<rparr>" for x] assms(6) t'
  show ?thesis by (simp add: Reply_def SendToNetThread_def SendCloseToNetThread_def)
qed

definition all_ok :: add_answers where
  "all_ok = \<lparr>realloc_ans = True, add_ans = True, modr_ans = True, modw_ans = True, wake_ans = 0\<rparr>"

definition two_threads :: io_threads where
  "two_threads = \<lparr>drivers = [InitEventData, InitEventData], io_queues = [[], []]\<rparr>"

lemma one_added: "\<exists>d1 d2. Add True True 5 17 InitEventData = Inr (0, d1) \<and> Modr True 5 True d1 = Inr (0, d2)"
  by (simp add: Add_def grow_def Let_def set_slot_def slot_in_def InitEventData_def init_fd2data_def Modr_def mod_bits_def get_slot_def
      at_event_def Mod_def)

theorem connection_on_one_thread_witness:
  "\<exists>t'. AddModr all_ok 17 5 True two_threads = Inr (0, 1, t') \<and> watched_by 17 EVENT_READ 5 (drivers t' ! 1) \<and> drivers t' ! 0 = InitEventData \<and>
     (\<exists>t''. Reply (RapidMessage_new\<lparr>descriptor_id := 17\<rparr>) 0 t' = Inr (0, t'') \<and> length (io_queues t'' ! 1) = 1)"
proof -
  from one_added obtain d1 d2 where d: "Add True True 5 17 InitEventData = Inr (0, d1)" "Modr True 5 True d1 = Inr (0, d2)" by blast
  define t' where "t' = two_threads\<lparr>drivers := [InitEventData, d2]\<rparr>"
  have len: "length (drivers two_threads) = 2" by (simp add: two_threads_def)
  have i: "thread_index 17 (length (drivers two_threads)) = Inr 1" unfolding len by (simp add: thread_index_def)
  have a: "on_driver 1 (Add True True 5 17) two_threads = Inr (0, two_threads\<lparr>drivers := [InitEventData, d1]\<rparr>)"
    using d(1) by (simp add: on_driver_def two_threads_def)
  have m: "on_driver 1 (Modr True 5 True) (two_threads\<lparr>drivers := [InitEventData, d1]\<rparr>) = Inr (0, t')"
    using d(2) by (simp add: on_driver_def two_threads_def t'_def)
  have run: "AddModr all_ok 17 5 True two_threads = Inr (0, 1, t')"
    unfolding AddModr_def i by (simp add: all_ok_def a [unfolded One_nat_def] m [unfolded One_nat_def])
  have "descriptor_id (RapidMessage_new\<lparr>descriptor_id := 17\<rparr>) = descriptor_of 17" by (simp add: descriptor_of_def)
  from connection_on_one_thread [OF _ _ _ _ run this, of 0] run show ?thesis
    by (simp add: two_threads_def all_ok_def t'_def)
qed

section \<open>Edges\<close>

text \<open>Objects from the allocator are aligned to 16 bytes: with 1, 2, 4, 8 or 16 threads all of them go to the first.\<close>

lemma aligned_connections_share_a_thread:
  assumes "16 dvd unat ezfd" "threads dvd 16"
  shows "thread_index ezfd threads = Inr 0"
proof -
  have "threads dvd unat ezfd" using assms dvd_trans by blast
  moreover have "threads \<noteq> 0" using assms(2) by (intro notI) simp
  ultimately show ?thesis by (simp add: thread_index_def)
qed

text \<open>InitWakeup takes every answer of Add but -1 for success: the descriptor is kept though nothing watches it.\<close>

lemma InitWakeup_misses_failure:
  assumes "Add realloc_ok False new_fd wfd d = Inr (-3, d1)" "new_fd \<noteq> -1" "Modr mod_ok new_fd True d1 = Inr (-1, d2)"
  shows "\<exists>n. InitWakeup new_fd wfd realloc_ok False mod_ok EventNotifier_new d = Inr (0, n, d2) \<and> event_fd n = new_fd"
  using assms by (simp add: InitWakeup_def EventNotifier_new_def)

end
