(* ===== verification/Server.thy ===== *)
theory Server
  imports Io_Threads
begin

text \<open>
  The server side: src/src/net/connect_manager.h and connect_manager.cpp (released connections are deleted late),
  net/server_connect.cpp and the accepting of connections in net_thread_mgr/acceptor_thread.cpp. A connection is an
  object at an address; the clock is an argument. The list a std::unordered_map is iterated in is left open.
\<close>

section \<open>The manager of released connections\<close>

record 'p release_mgr =
  con_objects :: "u64 \<rightharpoonup> 'p connecting"
  connected_list :: "(int \<times> u64) list"
  delay_list :: "(int \<times> int \<times> u64) list"
  connect_squency :: int
  del_time :: int
  closed_socks :: "int list"

definition delay_delete_times :: int where "delay_delete_times = 90"
definition delete_interval_times :: int where "delete_interval_times = 10"

definition release_mgr_new :: "'p release_mgr" where
  "release_mgr_new = \<lparr>con_objects = Map.empty, connected_list = [], delay_list = [], connect_squency = 0, del_time = 0, closed_socks = []\<rparr>"

text \<open>\<open>int cur_time = time(NULL);\<close>\<close>

definition cur_time :: "int \<Rightarrow> int" where
  "cur_time now = signed_take_bit 31 now"

text \<open>Deleting a connection closes its socket; deleting it twice is the fault.\<close>

definition delete_con :: "u64 \<Rightarrow> 'p release_mgr \<Rightarrow> 'p release_mgr outcome" where
  "delete_con a m =
     (case con_objects m a of
        None \<Rightarrow> Inl Use_After_Free
      | Some c \<Rightarrow> Inr (m\<lparr>con_objects := (con_objects m)(a := None),
                        closed_socks := closed_socks m @ (if con_fd c > 0 then [con_fd c] else [])\<rparr>))"

definition expired :: "int \<Rightarrow> int \<times> int \<times> u64 \<Rightarrow> bool" where
  "expired now e \<longleftrightarrow> cur_time now - fst (snd e) > delay_delete_times"

fun purge :: "int \<Rightarrow> (int \<times> int \<times> u64) list \<Rightarrow> 'p release_mgr \<Rightarrow> 'p release_mgr outcome" where
  "purge now [] m = Inr m"
| "purge now (e # ls) m =
     (if expired now e then outcome_bind (delete_con (snd (snd e)) m) (purge now ls) else purge now ls m)"

definition DeleteDalayCon :: "int \<Rightarrow> 'p release_mgr \<Rightarrow> 'p release_mgr outcome" where
  "DeleteDalayCon now m =
     (if cur_time now - del_time m > delete_interval_times \<and> delay_list m \<noteq> []
      then map_sum id (\<lambda>m'. m'\<lparr>delay_list := filter (\<lambda>e. \<not> expired now e) (delay_list m), del_time := cur_time now\<rparr>)
             (purge now (delay_list m) m)
      else Inr m)"

definition list_insert :: "'k \<Rightarrow> 'v \<Rightarrow> ('k \<times> 'v) list \<Rightarrow> bool \<times> ('k \<times> 'v) list" where
  "list_insert k v l = (if map_of l k = None then (True, l @ [(k, v)]) else (False, l))"

definition AddConnect :: "int \<Rightarrow> u64 \<Rightarrow> 'p release_mgr \<Rightarrow> 'p release_mgr outcome" where
  "AddConnect now a m =
     outcome_bind (DeleteDalayCon now m) (\<lambda>m1.
       let seq = signed_take_bit 63 ((if connect_squency m1 < 0 then 0 else connect_squency m1) + 1) in
       (case con_objects m1 a of
          None \<Rightarrow> Inl Use_After_Free
        | Some c \<Rightarrow> Inr (m1\<lparr>connect_squency := seq, con_objects := (con_objects m1)(a \<mapsto> c\<lparr>connect_id := seq\<rparr>),
                           connected_list := snd (list_insert seq a (connected_list m1))\<rparr>)))"

definition SetRelease :: "int \<Rightarrow> u64 \<Rightarrow> 'p release_mgr \<Rightarrow> (bool \<times> 'p release_mgr) outcome" where
  "SetRelease now a m =
     (case con_objects m a of
        None \<Rightarrow> Inl Use_After_Free
      | Some c \<Rightarrow>
          if map_of (connected_list m) (connect_id c) = None then Inr (False, m)
          else let m1 = m\<lparr>connected_list := filter (\<lambda>e. fst e \<noteq> connect_id c) (connected_list m)\<rparr>;
                   (ok, l) = list_insert (connect_id c) (now, a) (delay_list m1)
               in Inr (ok, m1\<lparr>delay_list := l\<rparr>))"

fun delete_all :: "(int \<times> u64) list \<Rightarrow> 'p release_mgr \<Rightarrow> 'p release_mgr outcome" where
  "delete_all [] m = Inr m"
| "delete_all (e # es) m = outcome_bind (delete_con (snd e) m) (delete_all es)"

text \<open>The destructor, after its sleep.\<close>

definition Release :: "int \<Rightarrow> 'p release_mgr \<Rightarrow> 'p release_mgr outcome" where
  "Release now m =
     outcome_bind (DeleteDalayCon now m) (\<lambda>m1. map_sum id (\<lambda>m2. m2\<lparr>connected_list := []\<rparr>) (delete_all (connected_list m1) m1))"

section \<open>A server's connection\<close>

definition server_Destroy :: "int \<Rightarrow> u64 \<Rightarrow> 'p release_mgr \<Rightarrow> (bool \<times> 'p release_mgr) outcome" where
  "server_Destroy now a m = SetRelease now a m"

definition server_OnClose :: "int \<Rightarrow> u64 \<Rightarrow> 'p release_mgr \<Rightarrow> (bool \<times> 'p release_mgr) outcome" where
  "server_OnClose now a m =
     (case con_objects m a of
        None \<Rightarrow> Inl Use_After_Free
      | Some c \<Rightarrow> server_Destroy now a (m\<lparr>con_objects := (con_objects m)(a \<mapsto> Clean c), closed_socks := closed_socks m @ [con_fd c]\<rparr>))"

text \<open>IoThreadDataRun::HandleIoActiveCloseEvent for a message with this descriptor.\<close>

definition HandleIoActiveCloseEvent :: "int \<Rightarrow> message \<Rightarrow> 'p release_mgr \<Rightarrow> 'p release_mgr outcome" where
  "HandleIoActiveCloseEvent now msg m =
     (if descriptor_id msg = 0 then Inr m
      else map_sum id snd (server_Destroy now (word_of_int (descriptor_id msg)) m))"

text \<open>
  ServerConnect::OnDecodeMessage. A heartbeat is answered into the outgoing buffer, everything else goes to the service
  threads as a request of this connection.
\<close>

definition server_request :: "u64 \<Rightarrow> u64 \<Rightarrow> message \<Rightarrow> message" where
  "server_request now self msg =
     msg\<lparr>birthtime := now, status := kStatusOK, direction := kIncomingRequest, descriptor_id := descriptor_of self\<rparr>"

definition server_OnDecodeMessage ::
    "(message \<Rightarrow> message outcome) \<Rightarrow> (message \<Rightarrow> char buffer \<Rightarrow> (bool \<times> char buffer) option outcome) \<Rightarrow> u64 \<Rightarrow> u64 \<Rightarrow>
     message \<Rightarrow> u32 \<Rightarrow> 'p connecting \<Rightarrow> message list list \<Rightarrow> (u32 \<times> 'p connecting \<times> message list list) run" where
  "server_OnDecodeMessage HeartBeatResponse Encode now self msg id_hs c queues =
     (if type_id msg = kHeartBeatMessage
      then (case outcome_bind (HeartBeatResponse msg) (\<lambda>response. Encode response (outbuf c)) of
              Inl e \<Rightarrow> Some (Inl e)
            | Inr None \<Rightarrow> None
            | Inr (Some (ok, out)) \<Rightarrow> yields (id_hs, c\<lparr>outbuf := out\<rparr>, queues))
      else Some (map_sum id (\<lambda>(i, q). (i, c, q)) (SendToServiceHandle (server_request now self msg) id_hs queues)))"

section \<open>Accepting\<close>

text \<open>
  One turn of the loop of AcceptClient for each result of accept: the socket, the address new returned, the answers of
  the system to the registration and the time. A registration that fails deletes the connection and ends the loop.
\<close>

record accepted =
  acc_sock :: int
  acc_addr :: u64
  acc_ans :: add_answers
  acc_time :: int

definition accept_con :: "'p \<Rightarrow> int \<Rightarrow> 'p connecting" where
  "accept_con p sock = \<lparr>con_fd = sock, inbuf = buf_new, outbuf = buf_new, protocol_state = p, connect_id = -1, shut = False\<rparr>"

fun accept_loop :: "'p \<Rightarrow> accepted list \<Rightarrow> io_threads \<Rightarrow> 'p release_mgr \<Rightarrow> (io_threads \<times> 'p release_mgr) outcome" where
  "accept_loop p [] t m = Inr (t, m)"
| "accept_loop p (x # xs) t m =
     (if acc_sock x \<le> 0 then Inr (t, m)
      else let m1 = m\<lparr>con_objects := (con_objects m)(acc_addr x \<mapsto> accept_con p (acc_sock x))\<rparr>
           in outcome_bind (AddModr (acc_ans x) (acc_addr x) (acc_sock x) True t) (\<lambda>(r, idx, t').
                if r \<noteq> 0 then map_sum id (Pair t') (delete_con (acc_addr x) m1)
                else outcome_bind (AddConnect (acc_time x) (acc_addr x) m1) (accept_loop p xs t')))"

text \<open>The listening sockets with the protocol and port of each.\<close>

definition acceptor_OnEvent ::
    "(int \<rightharpoonup> int \<times> int) \<Rightarrow> (int \<Rightarrow> 'p) \<Rightarrow> int \<Rightarrow> accepted list \<Rightarrow> io_threads \<Rightarrow> 'p release_mgr \<Rightarrow> (io_threads \<times> 'p release_mgr) outcome" where
  "acceptor_OnEvent listened_fd_list protocol_of fd script t m =
     (case listened_fd_list fd of None \<Rightarrow> Inr (t, m) | Some (cate, port) \<Rightarrow> accept_loop (protocol_of cate) script t m)"

section \<open>Invariant\<close>

text \<open>
  Every connection the manager knows lives under the id it is known by, in one list, once; no id is in use that is still
  to be given out.
\<close>

definition mgr_entries :: "'p release_mgr \<Rightarrow> (int \<times> u64) list" where
  "mgr_entries m = connected_list m @ map (\<lambda>(i, t, a). (i, a)) (delay_list m)"

definition release_inv :: "'p release_mgr \<Rightarrow> bool" where
  "release_inv m \<longleftrightarrow> distinct (map fst (mgr_entries m)) \<and> distinct (map snd (mgr_entries m)) \<and>
     (\<forall>(i, a) \<in> set (mgr_entries m). \<exists>c. con_objects m a = Some c \<and> connect_id c = i \<and> 0 < i \<and> i \<le> connect_squency m) \<and>
     0 \<le> connect_squency m"

lemma release_inv_new: "release_inv release_mgr_new"
  by (simp add: release_inv_def mgr_entries_def release_mgr_new_def)


lemma pairs_iff: "(i, a) \<in> set (map (\<lambda>(i, t, a). (i, a)) ls) \<longleftrightarrow> (\<exists>t. (i, t, a) \<in> set ls)"
  by (induction ls) auto

lemma mgr_entries_iff: "(i, a) \<in> set (mgr_entries m) \<longleftrightarrow> (i, a) \<in> set (connected_list m) \<or> (\<exists>t. (i, t, a) \<in> set (delay_list m))"
  unfolding mgr_entries_def set_append Un_iff pairs_iff ..

lemma release_invD:
  "release_inv m \<Longrightarrow> (i, a) \<in> set (mgr_entries m) \<Longrightarrow> \<exists>c. con_objects m a = Some c \<and> connect_id c = i \<and> 0 < i \<and> i \<le> connect_squency m"
  unfolding release_inv_def by blast

definition gone :: "int \<Rightarrow> (int \<times> int \<times> u64) list \<Rightarrow> u64 set" where
  "gone now ls = (snd \<circ> snd) ` {e \<in> set ls. expired now e}"

lemma gone_simps [simp]:
  "gone now [] = {}" "gone now (e # ls) = (if expired now e then insert (snd (snd e)) (gone now ls) else gone now ls)"
  by (auto simp: gone_def)

lemma purge_spec:
  "distinct (map (snd \<circ> snd) ls) \<Longrightarrow> \<forall>e \<in> set ls. con_objects m (snd (snd e)) \<noteq> None \<Longrightarrow>
     \<exists>socks. purge now ls m =
       Inr (m\<lparr>con_objects := (\<lambda>a. if a \<in> gone now ls then None else con_objects m a), closed_socks := closed_socks m @ socks\<rparr>)"
proof (induction ls arbitrary: m)
  case Nil
  show ?case by (rule exI [of _ "[]"]) simp
next
  case (Cons e ls)
  show ?case
  proof (cases "expired now e")
    case False
    with Cons.IH [of m] Cons.prems show ?thesis by simp
  next
    case True
    from Cons.prems(2) obtain c where c: "con_objects m (snd (snd e)) = Some c" by auto
    define m1 where "m1 = m\<lparr>con_objects := (con_objects m)(snd (snd e) := None), closed_socks := closed_socks m @ (if con_fd c > 0 then [con_fd c] else [])\<rparr>"
    have "snd (snd d) \<noteq> snd (snd e)" if "d \<in> set ls" for d
      using Cons.prems(1) imageI [OF that, of "snd \<circ> snd"] by (simp add: comp_def) (metis)
    then have "\<forall>d \<in> set ls. con_objects m1 (snd (snd d)) \<noteq> None" using Cons.prems(2) by (simp add: m1_def)
    from Cons.IH [OF _ this] Cons.prems(1) obtain socks where
      "purge now ls m1 = Inr (m1\<lparr>con_objects := (\<lambda>a. if a \<in> gone now ls then None else con_objects m1 a), closed_socks := closed_socks m1 @ socks\<rparr>)"
      by auto
    then have "purge now (e # ls) m =
        Inr (m\<lparr>con_objects := (\<lambda>a. if a \<in> gone now (e # ls) then None else con_objects m a),
               closed_socks := closed_socks m @ ((if con_fd c > 0 then [con_fd c] else []) @ socks)\<rparr>)"
      using True c by (simp add: delete_con_def m1_def fun_eq_iff)
    then show ?thesis by blast
  qed
qed

text \<open>The entries of the delay list seen as pairs, and what filtering does to them.\<close>

lemma delayed_pairs: "map snd (map (\<lambda>(i, t, a). (i, a)) ls) = map (snd \<circ> snd) ls"
  by (simp add: case_prod_beta comp_def)

lemma gone_unlisted:
  assumes "distinct (map snd (mgr_entries m))" "(i, a) \<in> set (connected_list m @ map (\<lambda>(i, t, a). (i, a)) (filter (\<lambda>e. \<not> expired now e) (delay_list m)))"
  shows "a \<notin> gone now (delay_list m)"
proof
  assume "a \<in> gone now (delay_list m)"
  then obtain e where e: "e \<in> set (delay_list m)" "expired now e" "snd (snd e) = a" by (auto simp: gone_def)
  have d: "distinct (map snd (connected_list m) @ map (snd \<circ> snd) (delay_list m))"
    using assms(1) unfolding mgr_entries_def map_append delayed_pairs .
  have "(i, a) \<in> set (connected_list m) \<or> (\<exists>t. (i, t, a) \<in> set (filter (\<lambda>e. \<not> expired now e) (delay_list m)))"
    using assms(2) unfolding set_append Un_iff pairs_iff .
  then consider "(i, a) \<in> set (connected_list m)" | t where "(i, t, a) \<in> set (delay_list m)" "\<not> expired now (i, t, a)" by auto
  then show False
  proof cases
    case 1
    then have "a \<in> set (map snd (connected_list m))" by force
    moreover have "a \<in> set (map (snd \<circ> snd) (delay_list m))" using e(1,3) by force
    ultimately show False using d unfolding distinct_append by blast
  next
    case 2
    from d have "inj_on (snd \<circ> snd) (set (delay_list m))" by (simp add: distinct_map)
    from inj_onD [OF this, of e "(i, t, a)"] e 2 show False by auto
  qed
qed

lemma distinct_map_append_filter:
  "distinct (map f (xs @ map g ys)) \<Longrightarrow> distinct (map f (xs @ map g (filter P ys)))"
  by (induction ys) auto

lemma DeleteDalayCon_spec:
  assumes inv: "release_inv m"
  shows "\<exists>m'. DeleteDalayCon now m = Inr m' \<and> release_inv m' \<and> connected_list m' = connected_list m \<and> connect_squency m' = connect_squency m \<and>
     (\<forall>e \<in> set (delay_list m). e \<in> set (delay_list m') \<or> expired now e) \<and> set (delay_list m') \<subseteq> set (delay_list m) \<and>
     (\<forall>a. con_objects m' a = con_objects m a \<or> a \<in> gone now (delay_list m) \<and> con_objects m' a = None) \<and>
     (cur_time now - del_time m > delete_interval_times \<longrightarrow> (\<forall>a \<in> gone now (delay_list m). con_objects m' a = None))"
proof (cases "cur_time now - del_time m > delete_interval_times \<and> delay_list m \<noteq> []")
  case False
  then have "DeleteDalayCon now m = Inr m" by (auto simp: DeleteDalayCon_def)
  with inv False show ?thesis by auto
next
  case True
  have d: "distinct (map (snd \<circ> snd) (delay_list m))"
    using inv by (simp add: release_inv_def mgr_entries_def case_prod_beta comp_def)
  have "con_objects m (snd (snd e)) \<noteq> None" if "e \<in> set (delay_list m)" for e
    using release_invD [OF inv, of "fst e" "snd (snd e)"] that unfolding mgr_entries_iff by (metis option.distinct(1) prod.collapse)
  then have "\<forall>e \<in> set (delay_list m). con_objects m (snd (snd e)) \<noteq> None" by blast
  from purge_spec [OF d this, of now] obtain socks where
    p: "purge now (delay_list m) m =
       Inr (m\<lparr>con_objects := (\<lambda>a. if a \<in> gone now (delay_list m) then None else con_objects m a), closed_socks := closed_socks m @ socks\<rparr>)" by blast
  define m' where "m' = m\<lparr>con_objects := (\<lambda>a. if a \<in> gone now (delay_list m) then None else con_objects m a), closed_socks := closed_socks m @ socks,
      delay_list := filter (\<lambda>e. \<not> expired now e) (delay_list m), del_time := cur_time now\<rparr>"
  have run: "DeleteDalayCon now m = Inr m'" using True p by (simp add: DeleteDalayCon_def m'_def)
  have entries: "mgr_entries m' = connected_list m @ map (\<lambda>(i, t, a). (i, a)) (filter (\<lambda>e. \<not> expired now e) (delay_list m))"
    by (simp add: mgr_entries_def m'_def)
  have sub: "set (mgr_entries m') \<subseteq> set (mgr_entries m)" unfolding entries mgr_entries_def set_append set_map
    by (intro Un_mono order.refl image_mono) (auto simp: m'_def)
  have dist: "distinct (map f (mgr_entries m'))" if "distinct (map f (mgr_entries m))" for f :: "int \<times> u64 \<Rightarrow> 'b"
    using distinct_map_append_filter [OF that [unfolded mgr_entries_def]] unfolding entries .
  have "\<exists>c. con_objects m' a = Some c \<and> connect_id c = i \<and> 0 < i \<and> i \<le> connect_squency m'" if "(i, a) \<in> set (mgr_entries m')" for i a
  proof -
    have "a \<notin> gone now (delay_list m)"
      using gone_unlisted [of m i a now] that inv unfolding entries release_inv_def by blast
    moreover have "\<exists>c. con_objects m a = Some c \<and> connect_id c = i \<and> 0 < i \<and> i \<le> connect_squency m"
      using that sub inv unfolding release_inv_def by blast
    ultimately show ?thesis by (simp add: m'_def)
  qed
  moreover have "distinct (map fst (mgr_entries m'))" "distinct (map snd (mgr_entries m'))" "0 \<le> connect_squency m'"
    using inv dist [of fst] dist [of snd] unfolding release_inv_def by (simp_all add: m'_def del: distinct_map)
  ultimately have "release_inv m'" unfolding release_inv_def by blast
  note inv' = this
  have fields: "connected_list m' = connected_list m" "connect_squency m' = connect_squency m" "delay_list m' = filter (\<lambda>e. \<not> expired now e) (delay_list m)"
    "con_objects m' = (\<lambda>a. if a \<in> gone now (delay_list m) then None else con_objects m a)" by (simp_all add: m'_def)
  show ?thesis
    by (intro exI [of _ m'] conjI run inv') (simp_all add: fields)
qed

lemma map_of_None_keys: "map_of l k = None \<longleftrightarrow> k \<notin> fst ` set l"
  by (rule map_of_eq_None_iff)

lemma AddConnect_spec:
  assumes inv: "release_inv m" and c: "con_objects m a = Some c" "a \<notin> snd ` set (mgr_entries m)" and room: "connect_squency m < 2 ^ 63 - 1"
  shows "\<exists>m1 m'. DeleteDalayCon now m = Inr m1 \<and> AddConnect now a m = Inr m' \<and> release_inv m' \<and> connect_squency m' = connect_squency m + 1 \<and>
     connected_list m' = connected_list m @ [(connect_squency m + 1, a)] \<and> delay_list m' = delay_list m1 \<and>
     con_objects m' = (con_objects m1)(a \<mapsto> c\<lparr>connect_id := connect_squency m + 1\<rparr>)"
proof -
  from DeleteDalayCon_spec [OF inv, of now] obtain m1 where
    m1: "DeleteDalayCon now m = Inr m1" "release_inv m1" "connected_list m1 = connected_list m" "connect_squency m1 = connect_squency m"
      "set (delay_list m1) \<subseteq> set (delay_list m)" "con_objects m1 a = con_objects m a \<or> a \<in> gone now (delay_list m)" by blast
  have unlisted: "(i, a) \<notin> set (mgr_entries m)" for i using c(2) by force
  have "a \<notin> gone now (delay_list m)" using unlisted unfolding mgr_entries_iff by (auto simp: gone_def)
  with m1(6) c(1) have a: "con_objects m1 a = Some c" by simp
  let ?s = "connect_squency m + 1"
  have pos: "0 \<le> connect_squency m" using inv by (simp add: release_inv_def)
  have s: "signed_take_bit 63 ?s = ?s" using pos room by (intro signed_take_bit_int_eq_self) simp_all
  have new: "?s \<notin> fst ` set (mgr_entries m1)" using release_invD [OF m1(2)] by (fastforce simp: m1(4))
  have "(i, a) \<notin> set (mgr_entries m1)" for i using unlisted m1(3,5) unfolding mgr_entries_iff by auto
  then have old: "a \<notin> snd ` set (mgr_entries m1)" by auto
  define m' where "m' = m1\<lparr>connect_squency := ?s, con_objects := (con_objects m1)(a \<mapsto> c\<lparr>connect_id := ?s\<rparr>), connected_list := connected_list m @ [(?s, a)]\<rparr>"
  have "map_of (connected_list m1) ?s = None" using new by (simp add: map_of_None_keys mgr_entries_def image_Un)
  then have run: "AddConnect now a m = Inr m'"
    using m1(1) a pos by (simp add: AddConnect_def m1(3,4) Let_def s list_insert_def m'_def)
  have set': "set (mgr_entries m') = insert (?s, a) (set (mgr_entries m1))" by (simp add: mgr_entries_def m'_def m1(3))
  have "mset (mgr_entries m') = add_mset (?s, a) (mset (mgr_entries m1))" by (simp add: mgr_entries_def m'_def m1(3))
  then have "mset (map f (mgr_entries m')) = mset (map f ((?s, a) # mgr_entries m1))" for f :: "int \<times> u64 \<Rightarrow> 'b" by simp
  then have dist: "distinct (map f (mgr_entries m')) = distinct (map f ((?s, a) # mgr_entries m1))" for f :: "int \<times> u64 \<Rightarrow> 'b"
    by (rule mset_eq_imp_distinct_iff)
  have "\<exists>d. con_objects m' b = Some d \<and> connect_id d = i \<and> 0 < i \<and> i \<le> connect_squency m'" if "(i, b) \<in> set (mgr_entries m')" for i b
  proof (cases "b = a")
    case True
    with that old set' have "i = ?s" by (metis Pair_inject image_eqI insertE snd_conv)
    with True pos show ?thesis by (simp add: m'_def)
  next
    case False
    with that set' have "(i, b) \<in> set (mgr_entries m1)" by auto
    from release_invD [OF m1(2) this] False show ?thesis by (auto simp: m'_def m1(4))
  qed
  moreover have "distinct (map fst (mgr_entries m'))" "distinct (map snd (mgr_entries m'))"
    using m1(2) new old unfolding dist by (simp_all add: release_inv_def)
  moreover have "0 \<le> connect_squency m'" using pos by (simp add: m'_def)
  ultimately have "release_inv m'" unfolding release_inv_def by blast
  with m1(1) run show ?thesis by (auto simp: m'_def)
qed

lemma delayed_ids: "map fst (map (\<lambda>(i, t, a). (i, a)) ls) = map fst ls"
  by (simp add: case_prod_beta comp_def)

lemma ids_apart: "release_inv m \<Longrightarrow> fst ` set (connected_list m) \<inter> fst ` set (delay_list m) = {}"
  unfolding release_inv_def mgr_entries_def map_append delayed_ids distinct_append set_map by blast

lemma SetRelease_spec:
  assumes inv: "release_inv m" and l: "(i, a) \<in> set (connected_list m)"
  shows "\<exists>m'. SetRelease now a m = Inr (True, m') \<and> release_inv m' \<and> con_objects m' = con_objects m \<and> connect_squency m' = connect_squency m \<and>
     del_time m' = del_time m \<and> connected_list m' = filter (\<lambda>e. fst e \<noteq> i) (connected_list m) \<and> delay_list m' = delay_list m @ [(i, now, a)]"
proof -
  have "(i, a) \<in> set (mgr_entries m)" using l by (simp add: mgr_entries_def)
  from release_invD [OF inv this] obtain c where c: "con_objects m a = Some c" "connect_id c = i" by blast
  define m' where "m' = m\<lparr>connected_list := filter (\<lambda>e. fst e \<noteq> i) (connected_list m), delay_list := delay_list m @ [(i, now, a)]\<rparr>"
  obtain xs ys where split: "connected_list m = xs @ (i, a) # ys" using split_list [OF l] by blast
  have dfst: "distinct (map fst (mgr_entries m))" and dsnd: "distinct (map snd (mgr_entries m))" using inv by (simp_all add: release_inv_def)
  have "i \<notin> fst ` set xs" "i \<notin> fst ` set ys" using dfst by (auto simp: mgr_entries_def split)
  then have "filter (\<lambda>e. fst e \<noteq> i) xs = xs" "filter (\<lambda>e. fst e \<noteq> i) ys = ys" by (force simp: filter_id_conv)+
  then have rest: "filter (\<lambda>e. fst e \<noteq> i) (connected_list m) = xs @ ys" by (simp add: split)
  have "i \<in> fst ` set (connected_list m)" using l by force
  then have "i \<notin> fst ` set (delay_list m)" using ids_apart [OF inv] by blast
  then have free: "map_of (delay_list m) i = None" by (simp add: map_of_None_keys)
  have "map_of (connected_list m) i \<noteq> None" using \<open>i \<in> fst ` set (connected_list m)\<close> by (simp add: map_of_None_keys)
  then have run: "SetRelease now a m = Inr (True, m')"
    using c free by (simp add: SetRelease_def list_insert_def m'_def)
  have "connected_list m' = xs @ ys" "delay_list m' = delay_list m @ [(i, now, a)]" by (simp_all add: m'_def rest)
  then have "mset (mgr_entries m') = mset (mgr_entries m)" unfolding mgr_entries_def by (simp add: split)
  note perm = this
  have dist: "distinct (map f (mgr_entries m')) = distinct (map f (mgr_entries m))" for f :: "int \<times> u64 \<Rightarrow> 'b"
    by (rule mset_eq_imp_distinct_iff) (simp add: perm)
  have set': "set (mgr_entries m') = set (mgr_entries m)" using mset_eq_setD [OF perm] .
  have "release_inv m'" using inv unfolding release_inv_def dist set' by (simp add: m'_def)
  then show ?thesis using run by (auto simp: m'_def)
qed

lemma SetRelease_twice:
  assumes inv: "release_inv m" and l: "(i, t, a) \<in> set (delay_list m)"
  shows "SetRelease now a m = Inr (False, m)"
proof -
  have "(i, a) \<in> set (mgr_entries m)" using l by (force simp: mgr_entries_iff)
  from release_invD [OF inv this] obtain c where c: "con_objects m a = Some c" "connect_id c = i" by blast
  have "i \<in> fst ` set (delay_list m)" using l by force
  then have "i \<notin> fst ` set (connected_list m)" using ids_apart [OF inv] by blast
  then have "map_of (connected_list m) i = None" by (simp add: map_of_None_keys)
  with c show ?thesis by (simp add: SetRelease_def)
qed

section \<open>What happens to the manager\<close>

text \<open>
  A connection is accepted, a connection the program holds is released (by its own thread or by a message, so perhaps
  twice), or the manager looks at its list. The time of each is its own.
\<close>

datatype mgr_op = M_accept int u64 int | M_release int u64 | M_tick int

fun op_time :: "mgr_op \<Rightarrow> int" where
  "op_time (M_accept now a sock) = now"
| "op_time (M_release now a) = now"
| "op_time (M_tick now) = now"

fun mgr_run :: "'p \<Rightarrow> mgr_op \<Rightarrow> 'p release_mgr \<Rightarrow> 'p release_mgr outcome" where
  "mgr_run p (M_accept now a sock) m = AddConnect now a (m\<lparr>con_objects := (con_objects m)(a \<mapsto> accept_con p sock)\<rparr>)"
| "mgr_run p (M_release now a) m = map_sum id snd (server_Destroy now a m)"
| "mgr_run p (M_tick now) m = DeleteDalayCon now m"

fun op_legal :: "mgr_op \<Rightarrow> 'p release_mgr \<Rightarrow> bool" where
  "op_legal (M_accept now a sock) m \<longleftrightarrow> con_objects m a = None \<and> connect_squency m < 2 ^ 63 - 1"
| "op_legal (M_release now a) m \<longleftrightarrow> a \<in> snd ` set (mgr_entries m)"
| "op_legal (M_tick now) m \<longleftrightarrow> True"

inductive mgr_runs :: "'p \<Rightarrow> mgr_op list \<Rightarrow> 'p release_mgr \<Rightarrow> 'p release_mgr \<Rightarrow> bool" for p where
  mgr_done: "mgr_runs p [] m m"
| mgr_next: "op_legal x m \<Longrightarrow> mgr_run p x m = Inr m1 \<Longrightarrow> mgr_runs p xs m1 m2 \<Longrightarrow> mgr_runs p (x # xs) m m2"

inductive_cases mgr_runs_ConsE: "mgr_runs p (x # xs) m m2"

text \<open>A legal operation runs, and keeps what is not expired.\<close>

definition delayed_at :: "int \<Rightarrow> int \<Rightarrow> u64 \<Rightarrow> 'p connecting \<Rightarrow> 'p release_mgr \<Rightarrow> bool" where
  "delayed_at i t a c m \<longleftrightarrow> con_objects m a = Some c \<and> (i, t, a) \<in> set (delay_list m)"

lemma gone_only_expired:
  assumes "release_inv m" "(i, t, a) \<in> set (delay_list m)" "\<not> expired now (i, t, a)"
  shows "a \<notin> gone now (delay_list m)"
proof (rule gone_unlisted)
  show "distinct (map snd (mgr_entries m))" using assms(1) by (simp add: release_inv_def)
  show "(i, a) \<in> set (connected_list m @ map (\<lambda>(i, t, a). (i, a)) (filter (\<lambda>e. \<not> expired now e) (delay_list m)))"
    using assms(2,3) unfolding set_append Un_iff pairs_iff by auto
qed

lemma DeleteDalayCon_keeps:
  assumes "release_inv m" "delayed_at i t a c m" "\<not> expired now (i, t, a)" "DeleteDalayCon now m = Inr m'"
  shows "delayed_at i t a c m'"
proof -
  from assms(2) have d: "con_objects m a = Some c" "(i, t, a) \<in> set (delay_list m)" by (simp_all add: delayed_at_def)
  from DeleteDalayCon_spec [OF assms(1), of now] assms(4) have
    l: "\<forall>e \<in> set (delay_list m). e \<in> set (delay_list m') \<or> expired now e" and
    ob: "con_objects m' a = con_objects m a \<or> a \<in> gone now (delay_list m) \<and> con_objects m' a = None" by auto
  from bspec [OF l d(2)] ob d(1) gone_only_expired [OF assms(1) d(2) assms(3)] assms(3) show ?thesis by (simp add: delayed_at_def)
qed

lemma accept_object:
  assumes inv: "release_inv m" and free: "con_objects m a = None"
  shows "release_inv (m\<lparr>con_objects := (con_objects m)(a \<mapsto> c)\<rparr>) \<and> a \<notin> snd ` set (mgr_entries (m\<lparr>con_objects := (con_objects m)(a \<mapsto> c)\<rparr>))"
proof -
  have entries: "mgr_entries (m\<lparr>con_objects := (con_objects m)(a \<mapsto> c)\<rparr>) = mgr_entries m" by (simp add: mgr_entries_def)
  have new: "(i, a) \<notin> set (mgr_entries m)" for i using release_invD [OF inv, of i a] free by auto
  then have "\<exists>d. ((con_objects m)(a \<mapsto> c)) b = Some d \<and> connect_id d = i \<and> 0 < i \<and> i \<le> connect_squency m" if "(i, b) \<in> set (mgr_entries m)" for i b
    using that release_invD [OF inv that] by auto
  with inv have "release_inv (m\<lparr>con_objects := (con_objects m)(a \<mapsto> c)\<rparr>)" unfolding release_inv_def entries by (simp del: fun_upd_apply) blast
  then show ?thesis using new unfolding entries by auto
qed

lemma mgr_run_ok:
  assumes inv: "release_inv m" and op: "op_legal x m"
  shows "\<exists>m'. mgr_run p x m = Inr m' \<and> release_inv m' \<and>
     (\<forall>i t a c. delayed_at i t a c m \<longrightarrow> \<not> expired (op_time x) (i, t, a) \<longrightarrow> delayed_at i t a c m')"
proof (cases x)
  case (M_tick now)
  then show ?thesis using DeleteDalayCon_spec [OF inv, of now] DeleteDalayCon_keeps [OF inv] by auto
next
  case (M_release now a)
  with op obtain i where "(i, a) \<in> set (mgr_entries m)" by force
  then consider "(i, a) \<in> set (connected_list m)" | t where "(i, t, a) \<in> set (delay_list m)" unfolding mgr_entries_iff by blast
  then show ?thesis
  proof cases
    case 1
    from SetRelease_spec [OF inv this, of now] show ?thesis by (auto simp: M_release server_Destroy_def delayed_at_def)
  next
    case 2
    from SetRelease_twice [OF inv this, of now] inv show ?thesis by (auto simp: M_release server_Destroy_def delayed_at_def)
  qed
next
  case (M_accept now a sock)
  define mm where "mm = m\<lparr>con_objects := (con_objects m)(a \<mapsto> accept_con p sock)\<rparr>"
  have free: "con_objects m a = None" and room: "connect_squency mm < 2 ^ 63 - 1" using op by (simp_all add: M_accept mm_def)
  have inv_mm: "release_inv mm" and "a \<notin> snd ` set (mgr_entries mm)" using accept_object [OF inv free] unfolding mm_def by blast+
  moreover have "con_objects mm a = Some (accept_con p sock)" by (simp add: mm_def)
  ultimately obtain m1 m' where r: "DeleteDalayCon now mm = Inr m1" "AddConnect now a mm = Inr m'" "release_inv m'" "delay_list m' = delay_list m1"
      "con_objects m' = (con_objects m1)(a \<mapsto> (accept_con p sock)\<lparr>connect_id := connect_squency mm + 1\<rparr>)"
    using AddConnect_spec [OF _ _ _ room, of a _ now] by blast
  have "delayed_at i t b c m'" if "delayed_at i t b c m" "\<not> expired now (i, t, b)" for i t b c
  proof -
    have "b \<noteq> a" using that(1) free by (auto simp: delayed_at_def)
    with that(1) have "delayed_at i t b c mm" by (simp add: delayed_at_def mm_def)
    from DeleteDalayCon_keeps [OF inv_mm this that(2) r(1)] \<open>b \<noteq> a\<close> show ?thesis by (simp add: delayed_at_def r(4,5))
  qed
  with r(2,3) show ?thesis by (auto simp: M_accept mm_def)
qed

lemma mgr_runs_keep:
  "mgr_runs p xs m m' \<Longrightarrow> release_inv m \<Longrightarrow> delayed_at i t a c m \<Longrightarrow> \<forall>x \<in> set xs. \<not> expired (op_time x) (i, t, a) \<Longrightarrow>
     release_inv m' \<and> delayed_at i t a c m'"
proof (induction rule: mgr_runs.induct)
  case (mgr_next x m m1 xs m2)
  from mgr_run_ok [OF mgr_next.prems(1) mgr_next.hyps(1), of p] mgr_next.hyps(2)
  have "release_inv m1" "delayed_at i t a c m \<longrightarrow> \<not> expired (op_time x) (i, t, a) \<longrightarrow> delayed_at i t a c m1" by auto
  with mgr_next.IH mgr_next.prems show ?case by simp
qed simp

lemma cur_time_le: "0 \<le> t \<Longrightarrow> cur_time t \<le> t"
  unfolding cur_time_def using signed_take_bit_int_greater_eq_self_iff [of t 31]
  by (cases "t < 2 ^ 31") (simp_all add: signed_take_bit_int_eq_self signed_take_bit_int_less_eq_self_iff)

lemma cur_time_id: "0 \<le> t \<Longrightarrow> t < 2 ^ 31 \<Longrightarrow> cur_time t = t"
  unfolding cur_time_def by (simp add: signed_take_bit_int_eq_self)

text \<open>C27. A connection that is released is still there, in the list of connections to delete, after anything the program does
  to the manager in the next 90 seconds: other connections accepted and released, the same one released again, the list
  looked through. A message that was on its way to it finds the object.\<close>

theorem released_connection_kept:
  assumes "release_inv m" "(i, a) \<in> set (connected_list m)" "con_objects m a = Some c"
    "SetRelease t a m = Inr (ok, m1)" "mgr_runs p xs m1 m2" "\<forall>x \<in> set xs. 0 \<le> op_time x \<and> op_time x \<le> t + 90"
  shows "ok \<and> con_objects m2 a = Some c \<and> (i, t, a) \<in> set (delay_list m2)"
proof -
  from SetRelease_spec [OF assms(1,2), of t] assms(3,4) have r: "ok" "release_inv m1" "delayed_at i t a c m1" by (auto simp: delayed_at_def)
  have "\<forall>x \<in> set xs. \<not> expired (op_time x) (i, t, a)"
    using assms(6) cur_time_le by (fastforce simp: expired_def delay_delete_times_def)
  from mgr_runs_keep [OF assms(5) r(2,3) this] r(1) show ?thesis by (simp add: delayed_at_def)
qed

theorem released_connection_kept_witness:
  "\<exists>m2. mgr_runs (0::nat) [M_tick 1085, M_release 1090 5]
      (release_mgr_new\<lparr>con_objects := [5 \<mapsto> (accept_con 0 7)\<lparr>connect_id := 1\<rparr>], delay_list := [(1, 1000, 5)], connect_squency := 1\<rparr>) m2 \<and>
    con_objects m2 5 = Some ((accept_con 0 7)\<lparr>connect_id := 1\<rparr>) \<and> (1, 1000, 5) \<in> set (delay_list m2)"
proof -
  define c :: "nat connecting" where "c = (accept_con 0 7)\<lparr>connect_id := 1\<rparr>"
  define m where "m = release_mgr_new\<lparr>con_objects := [5 \<mapsto> c], connected_list := [(1, 5)], connect_squency := 1\<rparr>"
  define m1 where "m1 = release_mgr_new\<lparr>con_objects := [5 \<mapsto> c], delay_list := [(1, 1000, 5)], connect_squency := 1\<rparr>"
  have inv: "release_inv m" by (simp add: release_inv_def mgr_entries_def m_def release_mgr_new_def c_def)
  have r: "SetRelease 1000 5 m = Inr (True, m1)"
    by (simp add: SetRelease_def m_def m1_def release_mgr_new_def c_def list_insert_def)
  have t: "cur_time 1085 = 1085" by (simp add: cur_time_id)
  have "mgr_run 0 (M_tick 1085) m1 = Inr (m1\<lparr>del_time := 1085\<rparr>)"
    by (simp add: DeleteDalayCon_def m1_def release_mgr_new_def t delete_interval_times_def expired_def delay_delete_times_def)
  moreover have "mgr_run 0 (M_release 1090 5) (m1\<lparr>del_time := 1085\<rparr>) = Inr (m1\<lparr>del_time := 1085\<rparr>)"
    by (simp add: server_Destroy_def SetRelease_def m1_def release_mgr_new_def c_def)
  moreover have "op_legal (M_release 1090 5) (m1\<lparr>del_time := 1085\<rparr>)" by (simp add: mgr_entries_def m1_def release_mgr_new_def)
  ultimately have run: "mgr_runs 0 [M_tick 1085, M_release 1090 5] m1 (m1\<lparr>del_time := 1085\<rparr>)"
    by - (rule mgr_next, simp, assumption, rule mgr_next, assumption, assumption, rule mgr_done)
  have "(1, 5) \<in> set (connected_list m)" "con_objects m 5 = Some c" by (simp_all add: m_def)
  from released_connection_kept [OF inv this r run] run show ?thesis unfolding m1_def c_def by auto
qed

text \<open>And once the 90 seconds are over it is deleted, by the first look that is not too soon after the last.\<close>

lemma released_connection_deleted:
  assumes "release_inv m" "(i, t, a) \<in> set (delay_list m)" "t + 90 < now" "del_time m + 10 < now" "0 \<le> now" "now < 2 ^ 31"
  shows "\<exists>m'. DeleteDalayCon now m = Inr m' \<and> con_objects m' a = None"
proof -
  have "expired now (i, t, a)" "cur_time now - del_time m > delete_interval_times"
    using assms(3-6) by (simp_all add: expired_def cur_time_id delay_delete_times_def delete_interval_times_def)
  moreover from this(1) have "a \<in> gone now (delay_list m)" using assms(2) by (force simp: gone_def)
  ultimately show ?thesis using DeleteDalayCon_spec [OF assms(1), of now] by blast
qed

text \<open>From 2038 to 2106 nothing is deleted: the time is kept in an int.\<close>

lemma no_deletion_after_2038:
  assumes "2 ^ 31 \<le> now" "now < 2 ^ 32" "0 \<le> del_time m"
  shows "DeleteDalayCon now m = Inr m"
proof -
  have "(2 ^ 31 + now) mod 2 ^ 32 = (now - 2 ^ 31 + 2 ^ 32) mod 2 ^ 32" by simp
  also have "\<dots> = now - 2 ^ 31" using assms(1,2) unfolding mod_add_self2 by (intro mod_pos_pos_trivial) simp_all
  finally have "cur_time now = now - 2 ^ 32"
    unfolding cur_time_def signed_take_bit_eq_take_bit_shift take_bit_eq_mod by (simp add: add.commute)
  with assms(2,3) show ?thesis by (simp add: DeleteDalayCon_def delete_interval_times_def)
qed

section \<open>Accepting keeps the invariant\<close>

lemma accept_loop_inv:
  "release_inv m \<Longrightarrow> connect_squency m + int (length xs) < 2 ^ 63 \<Longrightarrow> distinct (map acc_addr xs) \<Longrightarrow> \<forall>x \<in> set xs. con_objects m (acc_addr x) = None \<Longrightarrow>
     accept_loop p xs t m = Inr (t', m') \<Longrightarrow> release_inv m' \<and> length (connected_list m) \<le> length (connected_list m')"
proof (induction xs arbitrary: t m)
  case (Cons x xs)
  define m1 where "m1 = m\<lparr>con_objects := (con_objects m)(acc_addr x \<mapsto> accept_con p (acc_sock x))\<rparr>"
  have m1: "connected_list m1 = connected_list m" "connect_squency m1 = connect_squency m" by (simp_all add: m1_def)
  have free: "con_objects m (acc_addr x) = None" using Cons.prems(4) by simp
  have inv1: "release_inv m1" and new: "acc_addr x \<notin> snd ` set (mgr_entries m1)" using accept_object [OF Cons.prems(1) free] unfolding m1_def by blast+
  have room: "connect_squency m1 < 2 ^ 63 - 1" using Cons.prems(2) by (simp add: m1_def)
  have obj: "con_objects m1 (acc_addr x) = Some (accept_con p (acc_sock x))" by (simp add: m1_def)
  show ?case
  proof (cases "acc_sock x \<le> 0")
    case True
    with Cons.prems(1,5) show ?thesis by simp
  next
    case False
    then obtain r idx t1 where a: "AddModr (acc_ans x) (acc_addr x) (acc_sock x) True t = Inr (r, idx, t1)"
      using Cons.prems(5) by (auto simp: outcome_bind_Inr_iff Let_def)
    show ?thesis
    proof (cases "r = 0")
      case True
      from AddConnect_spec [OF inv1 obj new room, of "acc_time x"] obtain m2 m3 where
        m3: "DeleteDalayCon (acc_time x) m1 = Inr m2" "AddConnect (acc_time x) (acc_addr x) m1 = Inr m3" "release_inv m3" "connect_squency m3 = connect_squency m + 1"
          "connected_list m3 = connected_list m @ [(connect_squency m + 1, acc_addr x)]"
          "con_objects m3 = (con_objects m2)(acc_addr x \<mapsto> (accept_con p (acc_sock x))\<lparr>connect_id := connect_squency m + 1\<rparr>)"
        unfolding m1 by blast
      have "con_objects m3 (acc_addr y) = None" if "y \<in> set xs" for y
      proof -
        have "acc_addr y \<in> acc_addr ` set xs" using that by (rule imageI)
        moreover have "acc_addr x \<notin> acc_addr ` set xs" using Cons.prems(3) by simp
        ultimately have y: "acc_addr y \<noteq> acc_addr x" by metis
        have "con_objects m (acc_addr y) = None" using that Cons.prems(4) by simp
        with y have "con_objects m1 (acc_addr y) = None" by (simp add: m1_def)
        moreover from DeleteDalayCon_spec [OF inv1, of "acc_time x"] m3(1)
        have "con_objects m2 (acc_addr y) = con_objects m1 (acc_addr y) \<or> con_objects m2 (acc_addr y) = None" by auto
        ultimately have "con_objects m2 (acc_addr y) = None" by simp
        with y show ?thesis by (simp add: m3(6))
      qed
      moreover have "accept_loop p xs t1 m3 = Inr (t', m')"
        using Cons.prems(5) False True a m3(2) by (simp add: Let_def m1_def)
      ultimately have "release_inv m' \<and> length (connected_list m3) \<le> length (connected_list m')"
        using Cons.IH [OF m3(3)] Cons.prems(2,3) by (simp add: m3(4))
      then show ?thesis by (simp add: m3(5))
    next
      case False': False
      have "m' = m\<lparr>closed_socks := closed_socks m @ [acc_sock x]\<rparr>"
        using Cons.prems(5) False False' a free by (auto simp: Let_def delete_con_def accept_con_def fun_upd_idem)
      with Cons.prems(1) show ?thesis by (simp add: release_inv_def mgr_entries_def)
    qed
  qed
qed simp

section \<open>Edges\<close>

text \<open>
  A descriptor whose registration was not removed cannot be registered again: a connection released by an active close
  keeps its slot, and the next connection the system gives the same number is refused and closed.
\<close>

lemma Add_taken:
  assumes "registered h fd d" "0 < fd" "fd < fd2data_size d"
  shows "Add realloc_ok ctl_ok fd h' d = Inr (-1, d)"
  using assms by (auto simp: Add_def registered_def)

lemma mod_bits_registered:
  assumes reg: "registered h fd d" and r: "mod_bits bits c fd on d = Inr (r, d')"
  shows "registered h fd d'"
proof -
  from reg obtain p e where p: "slot_in fd d" "0 \<le> fd" "fd \<le> maxfd d" "fd2data d ! nat fd = Some p" "events d p = Some e"
      "fe_fd e = fd" "fe_handler e = unat h" by (auto simp: registered_def)
  define d1 where "d1 = d\<lparr>events := (events d)(p \<mapsto> e\<lparr>fe_event := (if on then fe_event e OR bits else fe_event e AND NOT bits)\<rparr>)\<rparr>"
  have "mod_bits bits c fd on d = Mod c fd d1"
    using p by (simp add: mod_bits_def get_slot_def at_event_def d1_def)
  with r p have "fd2data d' = fd2data d1 \<and> events d' = events d1 \<and> maxfd d' = maxfd d1 \<and> fd2data_size d' = fd2data_size d1"
    by (auto simp: Mod_def get_slot_def at_event_def d1_def slot_in_def split: if_splits)
  with p show ?thesis by (auto simp: registered_def slot_in_def d1_def)
qed

text \<open>
  A registration that fails half way is not taken back: Add succeeded, Modr did not, the connection is deleted, and the
  table still holds the FdEvent of the deleted handler.
\<close>

lemma failed_accept_leaves_handler:
  assumes "0 < acc_sock x" "thread_index (acc_addr x) (length (drivers t)) = Inr idx" "idx < length (drivers t)"
    "Add (realloc_ans (acc_ans x)) (add_ans (acc_ans x)) (acc_sock x) (unat (acc_addr x)) (drivers t ! idx) = Inr (0, d1)"
    "Modr (modr_ans (acc_ans x)) (acc_sock x) True d1 = Inr (r, d2)" "r \<noteq> 0"
  shows "\<exists>t' m'. accept_loop p (x # xs) t m = Inr (t', m') \<and> con_objects m' (acc_addr x) = None \<and>
     registered (acc_addr x) (acc_sock x) (drivers t' ! idx)"
proof -
  define t1 where "t1 = t\<lparr>drivers := (drivers t)[idx := d1]\<rparr>"
  have "registered (acc_addr x) (acc_sock x) d2"
    using mod_bits_registered [OF Add_0 [OF _ assms(4)]] assms(1,5) by (simp add: Modr_def)
  moreover have "on_driver idx (Add (realloc_ans (acc_ans x)) (add_ans (acc_ans x)) (acc_sock x) (unat (acc_addr x))) t = Inr (0, t1)"
    using assms(3,4) by (simp add: on_driver_def t1_def)
  moreover have "on_driver idx (Modr (modr_ans (acc_ans x)) (acc_sock x) True) t1 = Inr (r, t\<lparr>drivers := (drivers t)[idx := d2]\<rparr>)"
    using assms(3,5) by (simp add: on_driver_def t1_def)
  ultimately show ?thesis using assms(1-3,6) by (simp add: AddModr_def delete_con_def)
qed

end
