(* ===== verification/Socket.thy ===== *)
theory Socket
  imports C_Text
begin

text \<open>
  Sockets: src/src/net/socket.cpp and socket.h. The state is the set of open descriptors; the answers of the system
  calls are arguments, and lists of answers for the calls that are made in a loop. Addresses are IPv4 numbers in the
  order of the host.
\<close>

datatype net_errno = E_INTR | E_AGAIN | E_INPROGRESS | E_MFILE | E_other

section \<open>Options\<close>

text \<open>fcntl(F\_GETFL) and fcntl(F\_SETFL): their results.\<close>

definition SetNonBlock :: "int \<Rightarrow> int \<Rightarrow> bool" where
  "SetNonBlock getfl setfl \<longleftrightarrow> (if getfl \<noteq> -1 then setfl \<noteq> -1 else False)"

text \<open>The options take the value they pass to setsockopt and setsockopt itself.\<close>

definition SetNoDelay :: "(int \<Rightarrow> int) \<Rightarrow> int \<Rightarrow> bool" where
  "SetNoDelay setsockopt enable = (let on = (if enable \<noteq> 0 then 1 else 0) in setsockopt on \<noteq> -1)"

record timeval =
  tv_sec :: int
  tv_usec :: int

text \<open>The microseconds are computed as an int.\<close>

definition timeout_of :: "int \<Rightarrow> timeval" where
  "timeout_of time_ms = \<lparr>tv_sec = 0, tv_usec = signed_take_bit 31 (time_ms * 1000)\<rparr>"

definition SetSendTimeOut :: "(timeval \<Rightarrow> int) \<Rightarrow> int \<Rightarrow> bool" where
  "SetSendTimeOut setsockopt time_ms \<longleftrightarrow> setsockopt (timeout_of time_ms) \<noteq> -1"

definition SetRecvTimeOut :: "(timeval \<Rightarrow> int) \<Rightarrow> int \<Rightarrow> bool" where
  "SetRecvTimeOut setsockopt time_ms \<longleftrightarrow> setsockopt (timeout_of time_ms) \<noteq> -1"

record linger =
  l_onoff :: int
  l_linger :: int

definition SetSoLinger :: "(linger \<Rightarrow> int) \<Rightarrow> int \<Rightarrow> bool" where
  "SetSoLinger setsockopt seconds \<longleftrightarrow> setsockopt \<lparr>l_onoff = 1, l_linger = seconds\<rparr> \<noteq> -1"

definition SetCloseWait :: "(linger \<Rightarrow> int) \<Rightarrow> int \<Rightarrow> int" where
  "SetCloseWait setsockopt delay = setsockopt \<lparr>l_onoff = 1, l_linger = (if delay \<le> 0 then 0 else delay)\<rparr>"

section \<open>Making sockets\<close>

text \<open>What the system answers while a socket is made.\<close>

record sock_setup =
  socket_ret :: int
  getfl_ret :: int
  setfl_ret :: int
  reuse_ret :: int
  nodelay_ret :: "int \<Rightarrow> int"
  linger_ret :: "linger \<Rightarrow> int"

definition opened :: "int \<Rightarrow> int set \<Rightarrow> int set" where
  "opened fd S = (if fd \<ge> 0 then insert fd S else S)"

definition CreateSocket :: "bool \<Rightarrow> sock_setup \<Rightarrow> int set \<Rightarrow> int \<times> int set" where
  "CreateSocket is_non_block a S =
     (let fd = socket_ret a; S1 = opened fd S
      in if fd \<le> 0 then (-1, S1)
         else if is_non_block \<and> \<not> SetNonBlock (getfl_ret a) (setfl_ret a) then (-2, S1 - {fd})
         else if reuse_ret a \<noteq> 0 then (-3, S1 - {fd})
         else if \<not> SetNoDelay (nodelay_ret a) 1 then (-4, S1 - {fd})
         else if SetCloseWait (linger_ret a) 0 \<noteq> 0 then (-5, S1 - {fd})
         else (fd, S1))"

record sockaddr =
  sin_addr :: u32
  sin_port :: u16

definition Listen_sockaddr :: "sockaddr \<Rightarrow> sock_setup \<Rightarrow> (sockaddr \<Rightarrow> int) \<Rightarrow> int \<Rightarrow> int set \<Rightarrow> int \<times> int set" where
  "Listen_sockaddr sa a bind_ret listen_ret S =
     (case CreateSocket True a S of (fd, S1) \<Rightarrow>
        if fd < 0 then (-2, S1)
        else if bind_ret sa \<noteq> 0 then (-3, if fd > 0 then S1 - {fd} else S1)
        else if listen_ret \<noteq> 0 then (-4, if fd > 0 then S1 - {fd} else S1)
        else (fd, S1))"

section \<open>Addresses as text\<close>

text \<open>
  inet\_aton of the C library: up to four numbers (decimal, octal or hexadecimal as in C) with dots between, all but
  the last below 256, the last filling the bytes that are left; white space may follow.
\<close>

definition digit_in :: "nat \<Rightarrow> char \<Rightarrow> nat option" where
  "digit_in base c =
     (let n = (of_char c :: nat);
          d = (if 48 \<le> n \<and> n \<le> 57 then n - 48 else if 97 \<le> n \<and> n \<le> 102 then n - 87
               else if 65 \<le> n \<and> n \<le> 70 then n - 55 else 99)
      in if d < base then Some d else None)"

definition number_in :: "nat \<Rightarrow> string \<Rightarrow> nat \<times> string" where
  "number_in base s =
     (let ds = takeWhile (\<lambda>c. digit_in base c \<noteq> None) s
      in (foldl (\<lambda>v c. v * base + the (digit_in base c)) 0 ds, drop (length ds) s))"

definition c_number :: "string \<Rightarrow> (nat \<times> string) option" where
  "c_number s =
     (case s of
        [] \<Rightarrow> None
      | c # cs \<Rightarrow>
          if \<not> is_digit c then None
          else if c \<noteq> CHR ''0'' then Some (number_in 10 s)
          else if take 1 cs = ''x'' \<or> take 1 cs = ''X'' 
          then (case number_in 16 (drop 1 cs) of (n, r) \<Rightarrow> if r = drop 1 cs then Some (0, cs) else Some (n, r))
          else Some (number_in 8 s))"

text \<open>\<open>left\<close> is the number of parts that may still follow, \<open>v\<close> the bytes read so far.\<close>

fun aton_parts :: "nat \<Rightarrow> nat \<Rightarrow> string \<Rightarrow> nat option" where
  "aton_parts left v s =
     (case c_number s of
        None \<Rightarrow> None
      | Some (n, r) \<Rightarrow>
          if take 1 r = ''.''
          then (case left of 0 \<Rightarrow> None | Suc k \<Rightarrow> if n > 255 then None else aton_parts k (v * 256 + n) (drop 1 r))
          else if n \<ge> 256 ^ Suc left \<or> (case r of [] \<Rightarrow> False | c # cs \<Rightarrow> \<not> is_space c) then None
          else Some (v * 256 ^ Suc left + n))"

definition inet_aton :: "string \<Rightarrow> u32 option" where
  "inet_aton s = map_option of_nat (aton_parts 3 0 s)"

definition inet_ntop :: "u32 \<Rightarrow> string" where
  "inet_ntop ip =
     (let n = unat ip in dec (n div 256 ^ 3) @ ''.'' @ dec (n div 256 ^ 2 mod 256) @ ''.'' @ dec (n div 256 mod 256) @ ''.'' @
        dec (n mod 256))"

text \<open>htons takes the port as an unsigned short.\<close>

definition Listen :: "string option \<Rightarrow> int \<Rightarrow> sock_setup \<Rightarrow> (sockaddr \<Rightarrow> int) \<Rightarrow> int \<Rightarrow> int set \<Rightarrow> int \<times> int set" where
  "Listen addr port a bind_ret listen_ret S =
     (case addr of
        None \<Rightarrow> Listen_sockaddr \<lparr>sin_addr = 0, sin_port = of_int port\<rparr> a bind_ret listen_ret S
      | Some s \<Rightarrow>
          (case inet_aton s of
             None \<Rightarrow> (-1, S)
           | Some ip \<Rightarrow> Listen_sockaddr \<lparr>sin_addr = ip, sin_port = of_int port\<rparr> a bind_ret listen_ret S))"

definition GenerateAddr :: "string \<Rightarrow> u16 \<Rightarrow> sockaddr" where
  "GenerateAddr ip port = \<lparr>sin_addr = (case inet_aton ip of None \<Rightarrow> 0 | Some a \<Rightarrow> a), sin_port = port\<rparr>"

definition IsIpAddr :: "string \<Rightarrow> bool" where
  "IsIpAddr ip = list_all (\<lambda>c. is_digit c \<or> c = CHR ''.'') ip"

text \<open>strchr for the dot gives the text behind it. \<open>i\<close> counts the parts.\<close>

fun ip_loop :: "nat \<Rightarrow> u32 \<Rightarrow> string \<Rightarrow> u32 option" where
  "ip_loop 0 ipint cur = Some ipint"
| "ip_loop (Suc k) ipint cur =
     (let seg = atoi cur in
      if seg > 255 \<or> seg < 0 then None
      else let ipint1 = ipint + of_int seg * 2 ^ (k * 8); rst = dropWhile (\<lambda>c. c \<noteq> CHR ''.'') cur
           in if k \<noteq> 0 \<and> rst = [] then None else ip_loop k ipint1 (drop 1 rst))"

definition IpToInt :: "string \<Rightarrow> u32 option" where
  "IpToInt s = ip_loop 4 0 s"


section \<open>Accepting\<close>

datatype accept_answer = Accepted int u32 u16 | Accept_failed net_errno

fun accept_until :: "accept_answer list \<Rightarrow> ((net_errno + int \<times> u32 \<times> u16) \<times> accept_answer list) option" where
  "accept_until [] = None"
| "accept_until (Accepted fd ip port # as) = Some (Inr (fd, ip, port), as)"
| "accept_until (Accept_failed e # as) = (if e = E_INTR then accept_until as else Some (Inl e, as))"

text \<open>The result, the peer for the caller, the descriptors, errno (None where it was not set).\<close>

record accept_result =
  acc_ret :: int
  acc_peer :: "(string \<times> u16) option"
  acc_fds :: "int set"
  acc_errno :: "net_errno option"
  acc_rest :: "accept_answer list"

definition Accept :: "int \<Rightarrow> int \<Rightarrow> accept_answer list \<Rightarrow> int set \<Rightarrow> accept_result option" where
  "Accept getfl setfl as S =
     (case accept_until as of
        None \<Rightarrow> None
      | Some (Inl e, rs) \<Rightarrow> Some \<lparr>acc_ret = -1, acc_peer = None, acc_fds = S, acc_errno = Some e, acc_rest = rs\<rparr>
      | Some (Inr (fd, ip, port), rs) \<Rightarrow>
          if \<not> SetNonBlock getfl setfl
          then Some \<lparr>acc_ret = -2, acc_peer = None, acc_fds = insert fd S, acc_errno = None, acc_rest = rs\<rparr>
          else Some \<lparr>acc_ret = fd, acc_peer = Some (inet_ntop ip, port), acc_fds = insert fd S, acc_errno = None, acc_rest = rs\<rparr>)"

text \<open>accept4 leaves the peer in a struct sockaddr of 16 bytes; the IPv6 address is read from bytes 8 to 24.\<close>

datatype peer = Peer4 u32 u16 | Peer6 | Peer_other

datatype accept4_answer = Accepted4 int peer | Accept4_failed net_errno

fun accept4_until :: "accept4_answer list \<Rightarrow> ((net_errno + int \<times> peer) \<times> accept4_answer list) option" where
  "accept4_until [] = None"
| "accept4_until (Accepted4 fd p # as) = Some (Inr (fd, p), as)"
| "accept4_until (Accept4_failed e # as) = (if e = E_INTR then accept4_until as else Some (Inl e, as))"

definition Accept4 ::
  "bool \<Rightarrow> accept4_answer list \<Rightarrow> int set \<Rightarrow> (int \<times> (string \<times> u16) option \<times> int set \<times> accept4_answer list) run" where
  "Accept4 want_peer as S =
     (case accept4_until as of
        None \<Rightarrow> None
      | Some (Inl e, rs) \<Rightarrow> yields (-1, None, S, rs)
      | Some (Inr (fd, p), rs) \<Rightarrow>
          if want_peer
          then (case p of
                  Peer4 ip port \<Rightarrow> yields (fd, Some (inet_ntop ip, port), insert fd S, rs)
                | Peer6 \<Rightarrow> Some (Inl Out_Of_Bounds)
                | Peer_other \<Rightarrow> yields (fd, None, insert fd S, rs))
          else yields (fd, None, insert fd S, rs))"

section \<open>Connecting\<close>

text \<open>One attempt per element: what the system answers while the socket is made, and connect's errno.\<close>

fun Connect_sockaddr :: "bool \<Rightarrow> (sock_setup \<times> net_errno option) list \<Rightarrow> int set \<Rightarrow> ((int \<times> bool) \<times> int set) option" where
  "Connect_sockaddr non_block [] S = None"
| "Connect_sockaddr non_block ((a, c) # as) S =
     (case CreateSocket non_block a S of (fd, S1) \<Rightarrow>
        if fd \<le> 0 then Some ((-1, True), S1)
        else (case c of
                None \<Rightarrow> Some ((fd, True), S1)
              | Some e \<Rightarrow>
                  if e = E_INPROGRESS then Some ((fd, False), S1)
                  else if e = E_INTR then Connect_sockaddr non_block as (S1 - {fd})
                  else Some ((-1, True), S1 - {fd})))"

text \<open>\<open>resolve\<close> is gethostbyname with inet\_ntoa: the addresses of a domain as text. Also the address connected to.\<close>

definition Connect_target :: "(string \<Rightarrow> string list) \<Rightarrow> string \<Rightarrow> int \<Rightarrow> sockaddr option" where
  "Connect_target resolve ip port =
     (let final_ip = (if \<not> IsIpAddr ip then (case resolve ip of [] \<Rightarrow> [] | i # is' \<Rightarrow> i) else ip)
      in if final_ip \<noteq> []
         then map_option (\<lambda>a. \<lparr>sin_addr = a, sin_port = of_int port\<rparr>) (inet_aton final_ip)
         else Some \<lparr>sin_addr = 0, sin_port = of_int port\<rparr>)"

definition sock_Connect ::
  "(string \<Rightarrow> string list) \<Rightarrow> (sockaddr \<Rightarrow> (sock_setup \<times> net_errno option) list) \<Rightarrow> string \<Rightarrow> int \<Rightarrow> bool \<Rightarrow> int set \<Rightarrow>
     ((int \<times> bool) \<times> int set) option" where
  "sock_Connect resolve answers ip port non_block S =
     (case Connect_target resolve ip port of
        None \<Rightarrow> Some ((-1, False), S)
      | Some sa \<Rightarrow> Connect_sockaddr non_block (answers sa) S)"

section \<open>Reading and writing\<close>

datatype io_answer = Moved nat | Io_failed net_errno

text \<open>\<open>moved\<close> is the number of bytes so far; the result is that of the code (the count is cut to an int) and the number of bytes moved.\<close>

definition to_int :: "nat \<Rightarrow> int" where
  "to_int n = signed_take_bit 31 (int n)"

fun WriteNonBlock :: "nat \<Rightarrow> nat \<Rightarrow> io_answer list \<Rightarrow> (int \<times> nat) option" where
  "WriteNonBlock cnt moved [] = None"
| "WriteNonBlock cnt moved (Moved n # as) =
     (if n > 0
      then (if moved + n = cnt then Some (to_int cnt, moved + n)
            else if moved + n > cnt then Some (-1, moved + n)
            else WriteNonBlock cnt (moved + n) as)
      else Some (to_int moved, moved))"
| "WriteNonBlock cnt moved (Io_failed e # as) =
     (if e = E_AGAIN \<or> e = E_INTR then Some (to_int moved, moved) else Some (-2, moved))"

fun ReadNonBlock :: "nat \<Rightarrow> nat \<Rightarrow> io_answer list \<Rightarrow> (int \<times> nat) option" where
  "ReadNonBlock cnt moved [] = None"
| "ReadNonBlock cnt moved (Moved n # as) =
     (if n > 0
      then (if moved + n = cnt then Some (to_int cnt, moved + n)
            else if moved + n > cnt then Some (-1, moved + n)
            else ReadNonBlock cnt (moved + n) as)
      else Some (-3, moved))"
| "ReadNonBlock cnt moved (Io_failed e # as) =
     (if e = E_AGAIN \<or> e = E_INTR then Some (to_int moved, moved) else Some (-2, moved))"

text \<open>
  writev: the array of pieces, each an address and a length, over the memory. The loop that finds the first piece not
  written in full, then the rest moved to the front (copied forward) and the piece adjusted at its old index.
\<close>

record iovec =
  iov_base :: u64
  iov_len :: u64

fun first_unwritten :: "int \<Rightarrow> iovec list \<Rightarrow> nat \<times> int" where
  "first_unwritten tmp_cnt [] = (0, tmp_cnt)"
| "first_unwritten tmp_cnt (v # vs) =
     (if tmp_cnt \<ge> sint (iov_len v)
      then (case first_unwritten (tmp_cnt - sint (iov_len v)) vs of (p, t) \<Rightarrow> (Suc p, t))
      else (0, tmp_cnt))"

definition piece :: "(nat \<Rightarrow> u8) \<Rightarrow> iovec \<Rightarrow> u8 list" where
  "piece mem v = map mem [unat (iov_base v)..<unat (iov_base v) + unat (iov_len v)]"

definition gathered :: "(nat \<Rightarrow> u8) \<Rightarrow> iovec list \<Rightarrow> nat \<Rightarrow> u8 list" where
  "gathered mem iov num_iov = concat (map (piece mem) (take num_iov iov))"

definition shifted :: "nat \<Rightarrow> nat \<Rightarrow> int \<Rightarrow> iovec list \<Rightarrow> iovec list" where
  "shifted pos_iov num_iov tmp_cnt iov =
     (let iov1 = take num_iov (drop pos_iov iov) @ drop num_iov iov; v = iov1 ! pos_iov
      in iov1[pos_iov := \<lparr>iov_base = iov_base v + of_int tmp_cnt, iov_len = iov_len v - of_int tmp_cnt\<rparr>])"

text \<open>The result: the return value, what the pieces hold afterwards, how many are left, and the bytes the peer gets.\<close>

fun WriteVecNonBlock ::
  "(nat \<Rightarrow> u8) \<Rightarrow> iovec list \<Rightarrow> nat \<Rightarrow> nat \<Rightarrow> u8 list \<Rightarrow> io_answer list \<Rightarrow> (int \<times> iovec list \<times> nat \<times> u8 list) option" where
  "WriteVecNonBlock mem iov num_iov bytes_write sent [] = None"
| "WriteVecNonBlock mem iov num_iov bytes_write sent (Moved n # as) =
     (if n > 0
      then let sent1 = sent @ take n (gathered mem iov num_iov); bytes1 = bytes_write + n;
               (pos_iov, tmp) = first_unwritten (int n) (take num_iov iov); num1 = num_iov - pos_iov
           in if num1 = 0 then Some (to_int bytes1, iov, 0, sent1)
              else WriteVecNonBlock mem (shifted pos_iov num1 tmp iov) num1 bytes1 sent1 as
      else Some (to_int bytes_write, iov, num_iov, sent))"
| "WriteVecNonBlock mem iov num_iov bytes_write sent (Io_failed e # as) =
     (if e = E_AGAIN \<or> e = E_INTR then Some (to_int bytes_write, iov, num_iov, sent) else Some (-2, iov, num_iov, sent))"


section \<open>What is open afterwards\<close>

lemma CreateSocket_accounts:
  assumes "socket_ret a \<notin> S" "socket_ret a \<noteq> 0"
  shows "case CreateSocket nb a S of (fd, S1) \<Rightarrow> if fd > 0 then S1 = insert fd S \<and> fd \<notin> S else fd < 0 \<and> S1 = S"
  using assms by (auto simp: CreateSocket_def opened_def Let_def)

lemma Listen_sockaddr_accounts:
  assumes "socket_ret a \<notin> S" "socket_ret a \<noteq> 0"
  shows "case Listen_sockaddr sa a b l S of (fd, S1) \<Rightarrow> if fd > 0 then S1 = insert fd S \<and> fd \<notin> S else fd < 0 \<and> S1 = S"
  using CreateSocket_accounts [OF assms, of True] by (auto simp: Listen_sockaddr_def split: if_splits)

lemma Connect_sockaddr_accounts:
  "list_all (\<lambda>(a, c). socket_ret a \<notin> S \<and> socket_ret a \<noteq> 0) as \<Longrightarrow>
     case Connect_sockaddr nb as S of None \<Rightarrow> True
     | Some ((fd, now), S1) \<Rightarrow> if fd > 0 then S1 = insert fd S \<and> fd \<notin> S else fd = -1 \<and> S1 = S"
proof (induction "as")
  case (Cons e as)
  obtain a c where e: "e = (a, c)" by (cases e)
  have "socket_ret a \<notin> S" "socket_ret a \<noteq> 0" using Cons.prems by (simp_all add: e)
  from CreateSocket_accounts [OF this, of nb] obtain fd S1 where
    c: "CreateSocket nb a S = (fd, S1)" "if fd > 0 then S1 = insert fd S \<and> fd \<notin> S else fd < 0 \<and> S1 = S"
    by (cases "CreateSocket nb a S") simp
  show ?case
  proof (cases "fd > 0 \<and> c = Some E_INTR")
    case True
    then have "S1 - {fd} = S" using c(2) by auto
    with Cons c(1) True show ?thesis by (simp add: e)
  next
    case False
    then show ?thesis using c by (cases c) (auto simp: e)
  qed
qed simp

text \<open>Accept leaves the new descriptor open when it cannot be made non-blocking; a socket that gets descriptor 0 is left open too.\<close>

lemma Accept_leaks:
  "\<not> SetNonBlock g s \<Longrightarrow> Accept g s (Accepted fd ip port # as) S =
     Some \<lparr>acc_ret = -2, acc_peer = None, acc_fds = insert fd S, acc_errno = None, acc_rest = as\<rparr>"
  by (simp add: Accept_def)

lemma CreateSocket_zero: "socket_ret a = 0 \<Longrightarrow> CreateSocket nb a S = (-1, insert 0 S)"
  by (simp add: CreateSocket_def opened_def)

section \<open>Addresses are read back\<close>

lemma digit_in_10: "digit_in 10 c = (if is_digit c then Some ((of_char c :: nat) - 48) else None)"
  by (auto simp: digit_in_def is_digit_def Let_def)

lemma number_in_dec: "(case r of [] \<Rightarrow> True | c # cs \<Rightarrow> \<not> is_digit c) \<Longrightarrow> number_in 10 (dec n @ r) = (n, r)"
proof -
  assume r: "case r of [] \<Rightarrow> True | c # cs \<Rightarrow> \<not> is_digit c"
  have p: "(\<lambda>c. digit_in 10 c \<noteq> None) = is_digit" by (auto simp: digit_in_10)
  have tw: "takeWhile is_digit (dec n @ r) = dec n"
    using r dec_digits by (cases r) (simp_all add: takeWhile_append takeWhile_eq_all_conv)
  have "foldl (\<lambda>v c. v * 10 + the (digit_in 10 c)) v ds = foldl (\<lambda>v c. v * 10 + ((of_char c :: nat) - 48)) v ds"
    if "\<forall>c \<in> set ds. is_digit c" for v ds
    using that by (induction ds arbitrary: v) (simp_all add: digit_in_10)
  from this [of "dec n" 0] show ?thesis
    using dec_digits digits_value_dec [of n] unfolding number_in_def p tw Let_def digits_value_def by simp
qed

lemma dec_no_zero: "0 < n \<Longrightarrow> hd (dec n) \<noteq> CHR ''0''"
proof (induction n rule: dec.induct)
  case (1 n)
  show ?case
  proof (cases "n < 10")
    case True
    then have "(of_char (digit n) :: nat) \<noteq> 48" using 1(2) by (simp add: of_char_digit)
    then have "digit n \<noteq> CHR ''0''" by auto
    with True show ?thesis by (subst dec.simps) simp
  next
    case False
    with 1 show ?thesis by (subst dec.simps) simp
  qed
qed

lemma c_number_dec: "(case r of [] \<Rightarrow> True | c # cs \<Rightarrow> c = CHR ''.'') \<Longrightarrow> c_number (dec n @ r) = Some (n, r)"
proof -
  assume r: "case r of [] \<Rightarrow> True | c # cs \<Rightarrow> c = CHR ''.''"
  have dot: "\<not> is_digit (CHR ''.'')" by (simp add: is_digit_def)
  show ?thesis
  proof (cases "n = 0")
    case True
    have "dec 0 = ''0''" by code_simp
    moreover have "digit_in 8 (CHR ''0'') = Some 0" "digit_in 8 (CHR ''.'') = None" by code_simp+
    ultimately show ?thesis using r unfolding True
      by (cases r) (simp_all add: c_number_def number_in_def is_digit_def)
  next
    case False
    obtain c cs where c: "dec n = c # cs" by (cases "dec n") auto
    have "is_digit c" "c \<noteq> CHR ''0''" using dec_hd [of n] dec_no_zero [of n] False by (simp_all add: c)
    moreover have "number_in 10 (dec n @ r) = (n, r)" using r dot by (intro number_in_dec) (auto split: list.splits)
    ultimately show ?thesis by (simp add: c_number_def c)
  qed
qed

lemma four_bytes:
  assumes "n < 2 ^ 32"
  shows "((n div 256 ^ 3 * 256 + n div 256 ^ 2 mod 256) * 256 + n div 256 mod 256) * 256 + n mod 256 = (n :: nat)"
    and "n div 256 ^ 3 < 256"
proof -
  have a: "n div 256 = n div 256 ^ 2 * 256 + n div 256 mod 256" using div_mult_mod_eq [of "n div 256" 256] by (simp flip: div_mult2_eq)
  have b: "n div 256 ^ 2 = n div 256 ^ 3 * 256 + n div 256 ^ 2 mod 256"
    using div_mult_mod_eq [of "n div 256 ^ 2" 256] by (simp flip: div_mult2_eq)
  show "((n div 256 ^ 3 * 256 + n div 256 ^ 2 mod 256) * 256 + n div 256 mod 256) * 256 + n mod 256 = n"
    unfolding b [symmetric] a [symmetric] by simp
  show "n div 256 ^ 3 < 256" using assms by (simp add: less_mult_imp_div_less)
qed

lemma aton_dot: "n \<le> 255 \<Longrightarrow> aton_parts (Suc k) v (dec n @ CHR ''.'' # r) = aton_parts k (v * 256 + n) r"
  by (simp add: c_number_dec)

lemma aton_last: "n < 256 \<Longrightarrow> aton_parts 0 v (dec n) = Some (v * 256 + n)"
  using c_number_dec [of "[]" n] by simp

lemma inet_aton_ntop: "inet_aton (inet_ntop ip) = Some ip"
proof -
  have n: "unat ip < 2 ^ 32" using unsigned_less [of ip] by simp
  note top = four_bytes(2) [OF n]
  have "aton_parts 3 0 (inet_ntop ip) = Some (unat ip)"
    using top unfolding inet_ntop_def Let_def numeral_3_eq_3
    by (simp add: aton_dot aton_last del: aton_parts.simps) (use four_bytes(1) [OF n] in \<open>simp add: numeral_3_eq_3 numeral_2_eq_2\<close>)
  then show ?thesis by (simp add: inet_aton_def)
qed

lemma ip_step:
  assumes "n < 256"
  shows "ip_loop (Suc (Suc k)) v (dec n @ CHR ''.'' # r) = ip_loop (Suc k) (v + of_nat n * 2 ^ (Suc k * 8)) r"
proof -
  have d: "\<not> is_digit (CHR ''.'')" by (simp add: is_digit_def)
  have "strtoll (dec n @ CHR ''.'' # r) = (int n, length (dec n))" using assms by (intro strtoll_dec [OF _ d]) simp
  then have "atoi (dec n @ CHR ''.'' # r) = int n"
    using assms by (simp add: atoi_def) (intro signed_take_bit_int_eq_self, simp_all)
  moreover have "dropWhile (\<lambda>c. c \<noteq> CHR ''.'') (dec n @ CHR ''.'' # r) = CHR ''.'' # r"
  proof -
    have "\<forall>c \<in> set (dec n). c \<noteq> CHR ''.''" using dec_digits d by blast
    then show ?thesis by (simp add: dropWhile_append)
  qed
  ultimately show ?thesis using assms by simp
qed

lemma ip_last:
  assumes "n < 256"
  shows "ip_loop (Suc 0) v (dec n) = Some (v + of_nat n)"
proof -
  have "strtoll (dec n) = (int n, length (dec n))" using assms by (intro strtoll_dec_end) simp
  then have "atoi (dec n) = int n" using assms by (simp add: atoi_def) (intro signed_take_bit_int_eq_self, simp_all)
  then show ?thesis using assms by (simp add: Let_def)
qed


lemma ip_loop_ntop: "IpToInt (inet_ntop ip) = Some ip"
proof -
  let ?n = "unat ip"
  have n: "?n < 2 ^ 32" using unsigned_less [of ip] by simp
  note top = four_bytes(2) [OF n]
  have four: "4 = Suc (Suc (Suc (Suc 0)))" by simp
  have "ip_loop 4 0 (inet_ntop ip) =
      Some (of_nat (?n div 256 ^ 3) * 2 ^ 24 + of_nat (?n div 256 ^ 2 mod 256) * 2 ^ 16 +
        of_nat (?n div 256 mod 256) * 2 ^ 8 + of_nat (?n mod 256))"
    using top unfolding inet_ntop_def Let_def four by (simp add: ip_step ip_last del: ip_loop.simps)
  also have "of_nat (?n div 256 ^ 3) * 2 ^ 24 + of_nat (?n div 256 ^ 2 mod 256) * 2 ^ 16 +
        of_nat (?n div 256 mod 256) * 2 ^ 8 + of_nat (?n mod 256) =
      (of_nat (((?n div 256 ^ 3 * 256 + ?n div 256 ^ 2 mod 256) * 256 + ?n div 256 mod 256) * 256 + ?n mod 256) :: u32)"
    by (simp only: of_nat_add of_nat_mult) (simp add: algebra_simps)
  also have "\<dots> = ip" unfolding four_bytes(1) [OF n] by simp
  finally show ?thesis by (simp add: IpToInt_def)
qed

lemma IsIpAddr_ntop: "IsIpAddr (inet_ntop ip)"
  using dec_digits by (auto simp: IsIpAddr_def inet_ntop_def Let_def list_all_iff)

section \<open>Edges\<close>

text \<open>A domain that does not resolve is connected to as the address 0.0.0.0, the host itself.\<close>

lemma Connect_unresolved: "\<not> IsIpAddr d \<Longrightarrow> resolve d = [] \<Longrightarrow> Connect_target resolve d port = Some \<lparr>sin_addr = 0, sin_port = of_int port\<rparr>"
  by (simp add: Connect_target_def)

text \<open>Time-outs of a second or more are passed as a million microseconds or more, which the system refuses.\<close>

lemma long_timeout: "1000 \<le> ms \<Longrightarrow> ms < 2000000 \<Longrightarrow> tv_usec (timeout_of ms) \<ge> 1000000"
proof -
  assume ms: "1000 \<le> ms" "ms < 2000000"
  then have "signed_take_bit 31 (ms * 1000) = ms * 1000" by (intro signed_take_bit_int_eq_self) simp_all
  with ms show ?thesis by (simp add: timeout_of_def)
qed

text \<open>The bytes already moved are not reported when an error or the end of the stream follows.\<close>

lemma progress_hidden:
  "WriteNonBlock 5 0 [Moved 3, Io_failed E_other] = Some (-2, 3)" "ReadNonBlock 5 0 [Moved 3, Moved 0] = Some (-3, 3)"
  by simp_all

text \<open>
  The write of two pieces that stops in the second: the piece in front is sent again from its start, and of the four
  bytes of the second piece the first is sent twice.
\<close>

lemma WriteVec_sends_twice:
  "map_option (\<lambda>(r, v, k, sent). sent)
     (WriteVecNonBlock of_nat [\<lparr>iov_base = 0, iov_len = 2\<rparr>, \<lparr>iov_base = 2, iov_len = 4\<rparr>] 2 0 [] [Moved 3, Moved 4])
   = Some [0, 1, 2, 2, 3, 4, 5]"
  by code_simp

text \<open>Listening to an IPv6 address and accepting with accept4 reads behind the structure.\<close>

lemma Accept4_ipv6: "Accept4 True (Accepted4 fd Peer6 # as) S = Some (Inl Out_Of_Bounds)"
  by (simp add: Accept4_def)

section \<open>Properties\<close>

text \<open>What write may answer: never more than it was asked to write.\<close>

fun within :: "nat \<Rightarrow> io_answer list \<Rightarrow> bool" where
  "within k [] = True"
| "within k (Moved n # as) = (n \<le> k \<and> within (k - n) as)"
| "within k (Io_failed e # as) = True"

lemma WriteNonBlock_counts:
  "within (cnt - moved) as \<Longrightarrow> moved \<le> cnt \<Longrightarrow>
     case WriteNonBlock cnt moved as of None \<Rightarrow> True | Some (r, sent) \<Rightarrow> sent \<le> cnt \<and> (r = -2 \<or> r = to_int sent)"
  by (induction cnt moved "as" rule: WriteNonBlock.induct) auto

lemma Listen_accounts:
  assumes "socket_ret a \<notin> S" "socket_ret a \<noteq> 0"
  shows "case Listen addr port a b l S of (fd, S1) \<Rightarrow> if fd > 0 then S1 = insert fd S \<and> fd \<notin> S else fd < 0 \<and> S1 = S"
proof (cases addr)
  case None
  show ?thesis unfolding Listen_def None option.case by (rule Listen_sockaddr_accounts [OF assms(1,2)])
next
  case (Some t)
  show ?thesis
  proof (cases "inet_aton t")
    case None
    then show ?thesis by (simp add: Listen_def Some)
  next
    case (Some ip)
    show ?thesis unfolding Listen_def \<open>addr = _\<close> option.case Some by (rule Listen_sockaddr_accounts [OF assms(1,2)])
  qed
qed


definition example_setup :: "int \<Rightarrow> sock_setup" where
  "example_setup fd = \<lparr>socket_ret = fd, getfl_ret = 2, setfl_ret = 0, reuse_ret = 0, nodelay_ret = (\<lambda>_. 0), linger_ret = (\<lambda>_. 0)\<rparr>"

lemma example_ip: "inet_aton ''127.0.0.1'' = Some 0x7F000001"
proof -
  have "dec 127 = ''127''" "dec 0 = ''0''" "dec 1 = ''1''" by code_simp+
  then have "inet_ntop 0x7F000001 = ''127.0.0.1''" by (simp add: inet_ntop_def Let_def)
  then show ?thesis using inet_aton_ntop [of "0x7F000001"] by simp
qed


text \<open>An address that is printed, as Accept prints that of a peer, is recognised as an address and read back as the
  same number, by the C library's inet\_aton, which Listen and Connect use, and by IpToInt.\<close>

lemma address_roundtrip:
  "IsIpAddr (inet_ntop ip) \<and> IpToInt (inet_ntop ip) = Some ip \<and>
   Connect_target resolve (inet_ntop ip) port = Some \<lparr>sin_addr = ip, sin_port = of_int port\<rparr>"
proof -
  have "inet_ntop ip \<noteq> []" by (simp add: inet_ntop_def Let_def)
  then show ?thesis by (simp add: IsIpAddr_ntop ip_loop_ntop Connect_target_def inet_aton_ntop)
qed

end
