(* ===== verification/Handle_Queue.thy ===== *)
theory Handle_Queue
  imports Prelude
begin

text \<open>
  The contract between the heap and its users, the timers: a priority queue whose entries are known
  by the handle the insertion returned, so that any entry can be removed before it reaches the top.
  Heap provides it for every strict weak order; Timer is its client.
\<close>

text \<open>\<open>while (Top() != NULL) Pop();\<close> for at most \<open>n\<close> rounds, with the entries in the order they come.\<close>

fun pop_all :: "('q \<Rightarrow> 'v option) \<Rightarrow> ('q \<Rightarrow> (nat \<times> 'q) option) \<Rightarrow> nat \<Rightarrow> 'q \<Rightarrow> (nat \<times> 'v) list option" where
  "pop_all least pop 0 q = Some []"
| "pop_all least pop (Suc n) q =
     (case least q of
        None \<Rightarrow> Some []
      | Some v \<Rightarrow>
          (case pop q of
             None \<Rightarrow> None
           | Some (a, q') \<Rightarrow> map_option (Cons (a, v)) (pop_all least pop n q')))"

locale handle_queue =
  fixes inv :: "'q \<Rightarrow> bool"
    and entries :: "'q \<Rightarrow> nat \<rightharpoonup> 'v"
    and less :: "'v \<Rightarrow> 'v \<Rightarrow> bool"
    and ins :: "'v \<Rightarrow> 'q \<Rightarrow> nat \<times> 'q"
    and del :: "nat \<Rightarrow> 'q \<Rightarrow> 'q option"
    and least :: "'q \<Rightarrow> 'v option"
    and pop :: "'q \<Rightarrow> (nat \<times> 'q) option"
  assumes fin: "inv q \<Longrightarrow> finite (dom (entries q))"
    and ins_law: "inv q \<Longrightarrow> ins v q = (a, q') \<Longrightarrow>
      inv q' \<and> entries q a = None \<and> entries q' = (entries q)(a \<mapsto> v)"
    and del_law: "inv q \<Longrightarrow> entries q a \<noteq> None \<Longrightarrow>
      \<exists>q'. del a q = Some q' \<and> inv q' \<and> entries q' = (entries q)(a := None)"
    and top_none: "inv q \<Longrightarrow> least q = None \<longleftrightarrow> entries q = Map.empty"
    and top_least: "inv q \<Longrightarrow> least q = Some v \<Longrightarrow> entries q b = Some w \<Longrightarrow> \<not> less w v"
    and pop_law: "inv q \<Longrightarrow> least q = Some v \<Longrightarrow>
      \<exists>a q'. pop q = Some (a, q') \<and> inv q' \<and> entries q a = Some v \<and> entries q' = (entries q)(a := None)"
begin

text \<open>An entry that was inserted can be removed again, and nothing else changes.\<close>

lemma del_ins:
  assumes "inv q" "ins v q = (a, q')"
  shows "\<exists>q''. del a q' = Some q'' \<and> inv q'' \<and> entries q'' = entries q"
proof -
  have q': "inv q'" "entries q a = None" "entries q' = (entries q)(a \<mapsto> v)"
    using ins_law [OF assms] by simp_all
  then have "entries q' a \<noteq> None" by simp
  from del_law [OF q'(1) this] q' show ?thesis by (simp add: fun_upd_idem)
qed

text \<open>Emptying the queue yields every entry once, the least first.\<close>

lemma pop_all_sorted:
  "inv q \<Longrightarrow> card (dom (entries q)) \<le> n \<Longrightarrow>
     \<exists>ps. pop_all least pop n q = Some ps \<and> sorted_wrt (\<lambda>x y. \<not> less (snd y) (snd x)) ps \<and>
          distinct (map fst ps) \<and> set ps = {(a, v). entries q a = Some v}"
proof (induction n arbitrary: q)
  case 0
  then have "entries q = Map.empty" using fin [OF 0(1)] by simp
  then show ?case by simp
next
  case (Suc n)
  show ?case
  proof (cases "least q")
    case None
    then show ?thesis using top_none [OF Suc.prems(1)] by simp
  next
    case (Some v)
    from pop_law [OF Suc.prems(1) Some] obtain a q' where
      p: "pop q = Some (a, q')" "inv q'" "entries q a = Some v" "entries q' = (entries q)(a := None)"
      by blast
    have "card (dom (entries q')) \<le> n"
      using Suc.prems(2) p(3) fin [OF Suc.prems(1)] by (simp add: p(4) card_Diff_singleton_if domIff)
    from Suc.IH [OF p(2) this] obtain ps where
      ps: "pop_all least pop n q' = Some ps" "sorted_wrt (\<lambda>x y. \<not> less (snd y) (snd x)) ps"
        "distinct (map fst ps)" "set ps = {(b, w). entries q' b = Some w}"
      by blast
    have "\<not> less w v" if "(b, w) \<in> set ps" for b w
      using top_least [OF Suc.prems(1) Some, of b w] that by (simp add: ps(4) p(4) split: if_splits)
    moreover have "a \<notin> fst ` set ps" by (auto simp: ps(4) p(4))
    moreover have "insert (a, v) (set ps) = {(b, w). entries q b = Some w}"
      using p(3) by (auto simp: ps(4) p(4) split: if_splits)
    ultimately show ?thesis
      using ps Some p(1) by (intro exI [of _ "(a, v) # ps"]) auto
  qed
qed

end

end
