(* ===== verification/Heap.thy ===== *)
theory Heap
  imports Handle_Queue
begin

text \<open>
  The indexed binary heap of src/src/common/heap.h (HeapBase), the priority queue under the timers
  of an I/O thread. A node has an address; heap\_items\_ is the list \<open>items\<close> of addresses, whose
  entry 0 is not in use and whose length is size\_container\_; \<open>node_index\<close> and \<open>node_val\<close> are the
  fields of the HeapItem at an address. Erased nodes stay in the array behind num\_items\_ and are
  reused, so a sign (an address) can be live, free, or live again.
\<close>

section \<open>State and operations\<close>

record 'v heap =
  init_size_heap :: nat
  num_items :: nat
  items :: "nat list"
  node_index :: "nat \<Rightarrow> nat"
  node_val :: "nat \<Rightarrow> 'v"
  next_node :: nat
  init_done :: bool

text \<open>HeapCategory is used as the bool template argument Order: false is kMinHeap.\<close>

definition Compare :: "bool \<Rightarrow> ('v \<Rightarrow> 'k::linorder) \<Rightarrow> 'v \<Rightarrow> 'v \<Rightarrow> bool" where
  "Compare Order feature v1 v2 =
     (if Order = False then feature v1 < feature v2 else feature v1 > feature v2)"

definition heap_new :: "nat \<Rightarrow> 'v \<Rightarrow> 'v heap" where
  "heap_new init_size v0 =
     \<lparr>init_size_heap = init_size, num_items = 0, items = [], node_index = (\<lambda>_. 0),
      node_val = (\<lambda>_. v0), next_node = 1, init_done = False\<rparr>"

definition InitHeap :: "'v heap \<Rightarrow> bool \<times> 'v heap" where
  "InitHeap h =
     (if \<not> init_done h
      then (True, h\<lparr>num_items := 0, items := [next_node h ..< next_node h + init_size_heap h],
                    next_node := next_node h + init_size_heap h, init_done := True\<rparr>)
      else (False, h))"

definition Resize :: "'v heap \<Rightarrow> 'v heap" where
  "Resize h =
     h\<lparr>items := items h @ [next_node h ..< next_node h + length (items h)],
       next_node := next_node h + length (items h)\<rparr>"

text \<open>\<open>heap_items_[i] = a; heap_items_[i]->index = i\<close>\<close>

definition put_node :: "nat \<Rightarrow> nat \<Rightarrow> 'v heap \<Rightarrow> 'v heap" where
  "put_node i a h = h\<lparr>items := (items h)[i := a], node_index := (node_index h)(a := i)\<rparr>"

text \<open>The upward loop of Insert and of AdjustNode: parents move down into the hole.\<close>

function up_loop :: "('v \<Rightarrow> 'v \<Rightarrow> bool) \<Rightarrow> nat \<Rightarrow> nat \<Rightarrow> 'v heap \<Rightarrow> nat \<times> 'v heap" where
  "up_loop cmp node iter h =
     (if iter > 1 \<and> cmp (node_val h node) (node_val h (items h ! (iter div 2)))
      then up_loop cmp node (iter div 2) (put_node iter (items h ! (iter div 2)) h)
      else (iter, h))"
  by pat_completeness auto
termination
  by (relation "measure (\<lambda>(cmp, node, iter, h). iter)") auto

text \<open>
  The downward loop of AdjustNode: the smaller child moves up into the hole. Started at index 0 it
  need not end, hence the option.
\<close>

partial_function (option) down_loop ::
    "('v \<Rightarrow> 'v \<Rightarrow> bool) \<Rightarrow> nat \<Rightarrow> nat \<Rightarrow> 'v heap \<Rightarrow> (nat \<times> 'v heap) option" where
  "down_loop cmp node pos h =
     (if 2 * pos \<le> num_items h
      then
        let m = (if 2 * pos = num_items h \<or>
                    cmp (node_val h (items h ! (2 * pos))) (node_val h (items h ! (2 * pos + 1)))
                 then 2 * pos else 2 * pos + 1)
        in if cmp (node_val h node) (node_val h (items h ! m)) then Some (pos, h)
           else down_loop cmp node m (put_node pos (items h ! m) h)
      else Some (pos, h))"

definition AdjustNode :: "('v \<Rightarrow> 'v \<Rightarrow> bool) \<Rightarrow> nat \<Rightarrow> 'v heap \<Rightarrow> 'v heap option" where
  "AdjustNode cmp index h =
     (if index > num_items h then Some h
      else
        let node = items h ! index
        in if index > 1 \<and> cmp (node_val h node) (node_val h (items h ! (index div 2)))
           then Some (let (i, h') = up_loop cmp node index h in put_node i node h')
           else map_option (\<lambda>(i, h'). put_node i node h') (down_loop cmp node index h))"

definition Insert :: "('v \<Rightarrow> 'v \<Rightarrow> bool) \<Rightarrow> 'v \<Rightarrow> 'v heap \<Rightarrow> nat \<times> 'v heap" where
  "Insert cmp v h =
     (let h1 = (if num_items h + 1 = length (items h) then Resize h else h);
          h2 = h1\<lparr>num_items := num_items h1 + 1\<rparr>;
          new_item = items h2 ! num_items h2;
          h3 = h2\<lparr>node_val := (node_val h2)(new_item := v)\<rparr>;
          (iter, h4) = up_loop cmp new_item (num_items h3) h3
      in (new_item, put_node iter new_item h4))"

definition Update :: "('v \<Rightarrow> 'v \<Rightarrow> bool) \<Rightarrow> nat \<Rightarrow> 'v \<Rightarrow> 'v heap \<Rightarrow> 'v heap option" where
  "Update cmp sign v h =
     AdjustNode cmp (node_index h sign) (h\<lparr>node_val := (node_val h)(sign := v)\<rparr>)"

definition UpdateTop :: "('v \<Rightarrow> 'v \<Rightarrow> bool) \<Rightarrow> 'v \<Rightarrow> 'v heap \<Rightarrow> 'v heap option" where
  "UpdateTop cmp v h =
     (if num_items h = 0 then Some h
      else AdjustNode cmp 1 (h\<lparr>node_val := (node_val h)(items h ! 1 := v)\<rparr>))"

definition Refresh :: "('v \<Rightarrow> 'v \<Rightarrow> bool) \<Rightarrow> nat \<Rightarrow> 'v heap \<Rightarrow> 'v heap option" where
  "Refresh cmp sign h = AdjustNode cmp (node_index h sign) h"

definition RefreshTop :: "('v \<Rightarrow> 'v \<Rightarrow> bool) \<Rightarrow> 'v heap \<Rightarrow> 'v heap option" where
  "RefreshTop cmp h = AdjustNode cmp 1 h"

definition Top :: "'v heap \<Rightarrow> 'v option" where
  "Top h = (if 0 \<noteq> num_items h then Some (node_val h (items h ! 1)) else None)"

definition Erase :: "('v \<Rightarrow> 'v \<Rightarrow> bool) \<Rightarrow> nat \<Rightarrow> 'v heap \<Rightarrow> 'v heap option" where
  "Erase cmp sign h =
     (if num_items h = 0 then Some h
      else
        let i = node_index h sign;
            n = num_items h;
            h1 = h\<lparr>items := (items h)[i := items h ! n]\<rparr>;
            h2 = h1\<lparr>items := (items h1)[n := sign], num_items := n - 1\<rparr>;
            h3 = h2\<lparr>node_index := (node_index h2)(items h2 ! i := i)\<rparr>
        in AdjustNode cmp (node_index h3 sign) h3)"

definition Pop :: "('v \<Rightarrow> 'v \<Rightarrow> bool) \<Rightarrow> 'v heap \<Rightarrow> (nat \<times> 'v heap) option" where
  "Pop cmp h = map_option (\<lambda>h'. (items h ! 1, h')) (Erase cmp (items h ! 1) h)"

definition heap_Clear :: "'v heap \<Rightarrow> 'v heap" where
  "heap_Clear h = h\<lparr>num_items := 0\<rparr>"

definition heap_Size :: "'v heap \<Rightarrow> nat" where
  "heap_Size h = num_items h"

definition Item :: "nat \<Rightarrow> 'v heap \<Rightarrow> 'v" where
  "Item sign h = node_val h sign"

text \<open>SimpleKVHeap::Insert: the value of a node is the pair, its feature the first component.\<close>

definition KV_Insert :: "bool \<Rightarrow> 'k::linorder \<Rightarrow> 'v \<Rightarrow> ('k \<times> 'v) heap \<Rightarrow> nat \<times> ('k \<times> 'v) heap" where
  "KV_Insert Order k v h = Insert (Compare Order fst) (k, v) h"

declare up_loop.simps [simp del]

section \<open>Invariant and abstraction\<close>

text \<open>
  The signs of the live nodes, and the map from live signs to values that the heap stands for.
\<close>

definition live :: "'v heap \<Rightarrow> nat set" where
  "live h = (\<lambda>j. items h ! j) ` {1..num_items h}"

definition heap_map :: "'v heap \<Rightarrow> nat \<rightharpoonup> 'v" where
  "heap_map h = (\<lambda>a. if a \<in> live h then Some (node_val h a) else None)"

definition heap_shape :: "'v heap \<Rightarrow> bool" where
  "heap_shape h \<longleftrightarrow> num_items h < length (items h) \<and> distinct (items h) \<and>
     (\<forall>a \<in> set (items h). a < next_node h) \<and> (\<forall>j \<in> {1..num_items h}. node_index h (items h ! j) = j)"

definition heap_order :: "('v \<Rightarrow> 'v \<Rightarrow> bool) \<Rightarrow> 'v heap \<Rightarrow> bool" where
  "heap_order cmp h \<longleftrightarrow>
     (\<forall>j \<in> {2..num_items h}. \<not> cmp (node_val h (items h ! j)) (node_val h (items h ! (j div 2))))"

definition heap_inv :: "('v \<Rightarrow> 'v \<Rightarrow> bool) \<Rightarrow> 'v heap \<Rightarrow> bool" where
  "heap_inv cmp h \<longleftrightarrow> heap_shape h \<and> heap_order cmp h"

section \<open>The hole in the array\<close>

text \<open>
  While a loop of AdjustNode runs, the entry at the hole is stale and the node to be placed is in
  no entry: \<open>slot\<close> is the array with the node put into the hole.
\<close>

definition slot :: "'v heap \<Rightarrow> nat \<Rightarrow> nat \<Rightarrow> nat \<Rightarrow> nat" where
  "slot h pos node j = (if j = pos then node else items h ! j)"

definition hole :: "'v heap \<Rightarrow> nat \<Rightarrow> nat \<Rightarrow> bool" where
  "hole h node pos \<longleftrightarrow> 1 \<le> pos \<and> pos \<le> num_items h \<and> num_items h < length (items h) \<and>
     inj_on (slot h pos node) {..<length (items h)} \<and>
     (\<forall>j < length (items h). slot h pos node j < next_node h) \<and>
     (\<forall>j \<in> {1..num_items h}. j \<noteq> pos \<longrightarrow> node_index h (slot h pos node j) = j)"

text \<open>What a loop may change: the arrangement of the nodes in the live part of the array.\<close>

definition rearranged :: "'v heap \<Rightarrow> 'v heap \<Rightarrow> bool" where
  "rearranged h h' \<longleftrightarrow> num_items h' = num_items h \<and> length (items h') = length (items h) \<and>
     node_val h' = node_val h \<and> next_node h' = next_node h \<and>
     init_size_heap h' = init_size_heap h \<and> init_done h' = init_done h"

lemma rearranged_refl [simp]: "rearranged h h"
  by (simp add: rearranged_def)

lemma rearranged_trans: "rearranged h h1 \<Longrightarrow> rearranged h1 h2 \<Longrightarrow> rearranged h h2"
  by (simp add: rearranged_def)

lemma rearranged_put_node [simp]: "rearranged h (put_node i a h)"
  by (simp add: rearranged_def put_node_def)

lemma rearrangedD:
  assumes "rearranged h h'"
  shows "num_items h' = num_items h" "length (items h') = length (items h)" "node_val h' = node_val h"
    "next_node h' = next_node h" "init_size_heap h' = init_size_heap h" "init_done h' = init_done h"
  using assms by (simp_all add: rearranged_def)

lemma slot_move:
  assumes "hole h node pos" "q \<in> {1..num_items h}" "q \<noteq> pos"
  shows "slot (put_node pos (items h ! q) h) q node =
           (slot h pos node)(pos := slot h pos node q, q := node)"
  using assms by (auto simp: slot_def put_node_def hole_def fun_eq_iff)

lemma hole_move:
  assumes hole: "hole h node pos" and q: "q \<in> {1..num_items h}" "q \<noteq> pos"
  shows "hole (put_node pos (items h ! q) h) node q"
    and "slot (put_node pos (items h ! q) h) q node ` {1..num_items h} = slot h pos node ` {1..num_items h}"
proof -
  let ?h = "put_node pos (items h ! q) h" and ?f = "slot h pos node"
  note move = slot_move [OF hole q]
  have node: "?f pos = node" by (simp add: slot_def)
  have sq: "?f q = items h ! q" using q(2) by (simp add: slot_def)
  have swap: "slot ?h q node = ?f \<circ> exchange pos q"
    using q(2) by (auto simp: move fun_eq_iff exchange_def node)
  have pos: "pos \<in> {1..num_items h}" and len: "num_items h < length (items h)"
    using hole by (auto simp: hole_def)
  have im: "exchange pos q ` {1..num_items h} = {1..num_items h}"
    using pos q(1) by (simp add: exchange_image)
  then show "slot ?h q node ` {1..num_items h} = ?f ` {1..num_items h}"
    by (metis swap image_comp)
  have im2: "exchange pos q ` {..<length (items h)} = {..<length (items h)}"
    using pos q(1) len by (intro exchange_image) auto
  have inj: "inj_on (slot ?h q node) {..<length (items h)}"
    unfolding swap using hole im2 by (intro comp_inj_on inj_exchange) (auto simp: hole_def)
  have less: "slot ?h q node j < next_node h" if "j < length (items h)" for j
  proof -
    have "exchange pos q j < length (items h)" using im2 that by blast
    then show ?thesis using hole by (simp add: swap hole_def)
  qed
  have ix: "node_index ?h (slot ?h q node j) = j" if j: "j \<in> {1..num_items h}" "j \<noteq> q" for j
  proof (cases "j = pos")
    case True
    then have "slot ?h q node j = items h ! q" using j(2) by (simp add: move sq)
    then show ?thesis using True by (simp only:) (simp add: put_node_def)
  next
    case False
    have "?f j \<noteq> ?f q"
      using hole j q(1) len by (auto simp: hole_def inj_on_def)
    then have "node_index ?h (?f j) = node_index h (?f j)" by (simp add: put_node_def sq)
    then show ?thesis using hole j False by (simp add: move hole_def)
  qed
  show "hole ?h node q"
    using hole q inj less ix by (simp add: hole_def put_node_def)
qed

text \<open>Putting the node into the hole ends the loop with a well-shaped heap.\<close>

lemma items_put_node:
  "pos < length (items h) \<Longrightarrow> j < length (items h) \<Longrightarrow> items (put_node pos node h) ! j = slot h pos node j"
  by (simp add: put_node_def slot_def nth_list_update_if)

lemma shape_put_node:
  assumes "hole h node pos"
  shows "heap_shape (put_node pos node h)" and "live (put_node pos node h) = slot h pos node ` {1..num_items h}"
proof -
  let ?h = "put_node pos node h"
  have pos: "pos < length (items h)" "num_items h < length (items h)" using assms by (auto simp: hole_def)
  have len: "length (items ?h) = length (items h)" by (simp add: put_node_def)
  have num: "num_items ?h = num_items h" "next_node ?h = next_node h" by (simp_all add: put_node_def)
  note nth = items_put_node [OF pos(1)]
  have "distinct (items ?h)"
    using assms by (auto simp: distinct_conv_nth len nth hole_def inj_on_def)
  moreover have "\<forall>a \<in> set (items ?h). a < next_node h"
    using assms by (auto simp: in_set_conv_nth len nth hole_def)
  moreover have "node_index ?h (slot h pos node j) = j" if "j \<in> {1..num_items h}" for j
  proof (cases "j = pos")
    case True
    then show ?thesis by (simp add: put_node_def slot_def)
  next
    case False
    have "slot h pos node j \<noteq> slot h pos node pos"
      using assms that False pos by (auto simp: hole_def inj_on_def)
    then show ?thesis using assms that False by (simp add: put_node_def hole_def slot_def)
  qed
  ultimately show "heap_shape ?h"
    using pos by (simp add: heap_shape_def nth num len)
  have "live ?h = (\<lambda>j. items ?h ! j) ` {1..num_items h}" by (simp add: live_def put_node_def)
  also have "\<dots> = slot h pos node ` {1..num_items h}"
    by (rule image_cong) (use pos nth in auto)
  finally show "live ?h = slot h pos node ` {1..num_items h}" .
qed

lemma hole_of_shape:
  assumes "heap_shape h" "i \<in> {1..num_items h}"
  shows "hole h (items h ! i) i" and "slot h i (items h ! i) = (\<lambda>j. items h ! j)"
proof -
  show slot: "slot h i (items h ! i) = (\<lambda>j. items h ! j)" by (auto simp: slot_def)
  show "hole h (items h ! i) i"
    using assms by (auto simp: hole_def slot heap_shape_def inj_on_def nth_eq_iff_index_eq)
qed

section \<open>Heap order along the loops\<close>

text \<open>
  The order over a view \<open>g\<close> of the array, from positions to values: complete, or with the pair
  above (going up), respectively the pairs below (going down), the hole still open. In both cases
  the children of the hole are already in order with its parent.
\<close>

definition full_order :: "('v \<Rightarrow> 'v \<Rightarrow> bool) \<Rightarrow> (nat \<Rightarrow> 'v) \<Rightarrow> nat \<Rightarrow> bool" where
  "full_order cmp g n \<longleftrightarrow> (\<forall>j \<in> {2..n}. \<not> cmp (g j) (g (j div 2)))"

definition around :: "('v \<Rightarrow> 'v \<Rightarrow> bool) \<Rightarrow> (nat \<Rightarrow> 'v) \<Rightarrow> nat \<Rightarrow> nat \<Rightarrow> bool" where
  "around cmp g n pos \<longleftrightarrow> (1 < pos \<longrightarrow> (\<forall>j \<in> {2..n}. j div 2 = pos \<longrightarrow> \<not> cmp (g j) (g (pos div 2))))"

definition up_order :: "('v \<Rightarrow> 'v \<Rightarrow> bool) \<Rightarrow> (nat \<Rightarrow> 'v) \<Rightarrow> nat \<Rightarrow> nat \<Rightarrow> bool" where
  "up_order cmp g n pos \<longleftrightarrow> (\<forall>j \<in> {2..n}. j \<noteq> pos \<longrightarrow> \<not> cmp (g j) (g (j div 2))) \<and> around cmp g n pos"

definition down_order :: "('v \<Rightarrow> 'v \<Rightarrow> bool) \<Rightarrow> (nat \<Rightarrow> 'v) \<Rightarrow> nat \<Rightarrow> nat \<Rightarrow> bool" where
  "down_order cmp g n pos \<longleftrightarrow>
     (\<forall>j \<in> {2..n}. j div 2 \<noteq> pos \<longrightarrow> \<not> cmp (g j) (g (j div 2))) \<and> around cmp g n pos"

lemmas order_defs = full_order_def up_order_def down_order_def around_def

definition view :: "'v heap \<Rightarrow> nat \<Rightarrow> nat \<Rightarrow> nat \<Rightarrow> 'v" where
  "view h pos node j = node_val h (slot h pos node j)"

lemma view_move:
  assumes "hole h node pos" "q \<in> {1..num_items h}" "q \<noteq> pos"
  shows "view (put_node pos (items h ! q) h) q node =
           (view h pos node)(pos := view h pos node q, q := view h pos node pos)"
proof (rule ext)
  fix j
  have "view (put_node pos (items h ! q) h) q node j = node_val h (slot (put_node pos (items h ! q) h) q node j)"
    by (simp add: view_def put_node_def)
  also have "\<dots> = ((view h pos node)(pos := view h pos node q, q := view h pos node pos)) j"
    unfolding slot_move [OF assms] by (simp add: view_def slot_def)
  finally show "view (put_node pos (items h ! q) h) q node j =
      ((view h pos node)(pos := view h pos node q, q := view h pos node pos)) j" .
qed

text \<open>The result of a loop: the node can be placed, and then the heap is in order.\<close>

definition placed :: "('v \<Rightarrow> 'v \<Rightarrow> bool) \<Rightarrow> nat \<Rightarrow> nat \<Rightarrow> 'v heap \<Rightarrow> nat \<times> 'v heap \<Rightarrow> bool" where
  "placed cmp node pos h r \<longleftrightarrow> hole (snd r) node (fst r) \<and> rearranged h (snd r) \<and>
     full_order cmp (view (snd r) (fst r) node) (num_items h) \<and>
     slot (snd r) (fst r) node ` {1..num_items h} = slot h pos node ` {1..num_items h}"

lemma placed_step:
  assumes "hole h node pos" "q \<in> {1..num_items h}" "q \<noteq> pos"
    and "placed cmp node q (put_node pos (items h ! q) h) r"
  shows "placed cmp node pos h r"
proof -
  have "num_items (put_node pos (items h ! q) h) = num_items h" by (simp add: put_node_def)
  then show ?thesis
    using assms(4) hole_move(2) [OF assms(1-3)] rearranged_trans [OF rearranged_put_node [of h pos "items h ! q"]]
    by (auto simp: placed_def)
qed

lemma placed_inv:
  assumes "placed cmp node pos h (i, h')"
  shows "heap_inv cmp (put_node i node h')" "rearranged h (put_node i node h')"
    "live (put_node i node h') = slot h pos node ` {1..num_items h}"
proof -
  from assms have h: "hole h' node i" "rearranged h h'" "full_order cmp (view h' i node) (num_items h)"
    "slot h' i node ` {1..num_items h} = slot h pos node ` {1..num_items h}"
    by (simp_all add: placed_def)
  have n: "num_items h' = num_items h" "i < length (items h')" "num_items h' < length (items h')"
    using h(1,2) by (auto simp: hole_def rearranged_def)
  have "node_val (put_node i node h') (items (put_node i node h') ! j) = view h' i node j"
    if "j < length (items h')" for j
    using items_put_node [OF n(2) that, of node] by (simp add: view_def) (simp add: put_node_def)
  then have "heap_order cmp (put_node i node h')"
    using h(3) n by (auto simp: heap_order_def full_order_def) (simp_all add: put_node_def)
  then show "heap_inv cmp (put_node i node h')"
    using shape_put_node(1) [OF h(1)] by (simp add: heap_inv_def)
  show "rearranged h (put_node i node h')"
    using h(2) rearranged_put_node rearranged_trans by blast
  show "live (put_node i node h') = slot h pos node ` {1..num_items h}"
    using shape_put_node(2) [OF h(1)] h(4) n(1) by simp
qed

text \<open>What the heap relies on from Compare: a strict weak order.\<close>

locale node_order =
  fixes cmp :: "'v \<Rightarrow> 'v \<Rightarrow> bool"
  assumes cmp_asym: "cmp a b \<Longrightarrow> \<not> cmp b a"
    and cmp_negtrans: "\<not> cmp a b \<Longrightarrow> \<not> cmp b c \<Longrightarrow> \<not> cmp a c"
begin

lemma up_order_step:
  assumes ord: "up_order cmp g n pos" and pos: "1 < pos" "pos \<le> n" and c: "cmp (g pos) (g (pos div 2))"
  shows "up_order cmp (g(pos := g (pos div 2), pos div 2 := g pos)) n (pos div 2)"
proof -
  let ?p = "pos div 2"
  let ?g = "g(pos := g ?p, ?p := g pos)"
  have p: "?p \<noteq> pos" "0 < ?p" using pos by auto
  have pairs: "\<not> cmp (?g j) (?g (j div 2))" if j: "j \<in> {2..n}" "j \<noteq> ?p" for j
  proof (cases "j = pos")
    case True
    then show ?thesis using p cmp_asym [OF c] by simp
  next
    case False
    have old: "\<not> cmp (g j) (g (j div 2))" using ord j False by (simp add: up_order_def)
    consider "j div 2 = ?p" | "j div 2 = pos" | "j div 2 \<noteq> ?p" "j div 2 \<noteq> pos" by blast
    then show ?thesis
    proof cases
      case 1
      then have "\<not> cmp (g j) (g pos)"
        using old cmp_negtrans [OF _ cmp_asym [OF c]] by simp
      with 1 False j show ?thesis by simp
    next
      case 2
      then have "\<not> cmp (g j) (g ?p)" using ord j pos by (auto simp: up_order_def around_def)
      with 2 False j p show ?thesis by simp
    next
      case 3
      with old False j show ?thesis by simp
    qed
  qed
  have "\<not> cmp (?g j) (?g (?p div 2))" if j: "j \<in> {2..n}" "j div 2 = ?p" and gp: "1 < ?p" for j
  proof -
    have q: "?p div 2 \<noteq> ?p" "?p div 2 \<noteq> pos" "j \<noteq> ?p" using gp j by auto
    have top: "\<not> cmp (g ?p) (g (?p div 2))" using ord gp pos p by (auto simp: up_order_def)
    show ?thesis
    proof (cases "j = pos")
      case True
      then show ?thesis using q top p by simp
    next
      case False
      then have "\<not> cmp (g j) (g ?p)" using ord j by (auto simp: up_order_def)
      from cmp_negtrans [OF this top] show ?thesis using False q by simp
    qed
  qed
  with pairs show ?thesis by (simp add: up_order_def around_def)
qed

lemma down_order_step:
  assumes ord: "down_order cmp g n pos" and pos: "1 \<le> pos" and m: "m \<in> {2..n}" "m div 2 = pos"
    and least: "\<And>j. j \<in> {2..n} \<Longrightarrow> j div 2 = pos \<Longrightarrow> \<not> cmp (g j) (g m)" and c: "\<not> cmp (g pos) (g m)"
  shows "down_order cmp (g(pos := g m, m := g pos)) n m"
proof -
  let ?g = "g(pos := g m, m := g pos)"
  have neq: "m \<noteq> pos" using m pos by auto
  have pairs: "\<not> cmp (?g j) (?g (j div 2))" if j: "j \<in> {2..n}" "j div 2 \<noteq> m" for j
  proof (cases "j div 2 = pos")
    case True
    then have "j \<noteq> pos" using pos by auto
    with True show ?thesis using least [OF j(1) True] c neq by auto
  next
    case False
    have old: "\<not> cmp (g j) (g (j div 2))" using ord j False by (simp add: down_order_def)
    have jm: "j \<noteq> m" using False m by auto
    show ?thesis
    proof (cases "j = pos")
      case True
      then have "1 < pos" using j by auto
      then have "\<not> cmp (g m) (g (pos div 2))" using ord m by (auto simp: down_order_def around_def)
      with True False j jm show ?thesis by simp
    next
      case False
      with old \<open>j div 2 \<noteq> pos\<close> jm j show ?thesis by simp
    qed
  qed
  have "\<not> cmp (?g j) (?g (m div 2))" if j: "j \<in> {2..n}" "j div 2 = m" for j
  proof -
    have "j \<noteq> m" "j \<noteq> pos" using j m pos by auto
    then show ?thesis using ord j m neq by (auto simp: down_order_def)
  qed
  with pairs show ?thesis by (simp add: down_order_def around_def)
qed

lemma down_order_done:
  assumes "down_order cmp g n pos" and "\<And>j. j \<in> {2..n} \<Longrightarrow> j div 2 = pos \<Longrightarrow> \<not> cmp (g j) (g pos)"
  shows "full_order cmp g n"
  using assms by (auto simp: down_order_def full_order_def)

lemma up_order_done:
  assumes "up_order cmp g n pos" and "\<not> (1 < pos \<and> cmp (g pos) (g (pos div 2)))"
  shows "full_order cmp g n"
proof -
  have "\<not> cmp (g j) (g (j div 2))" if "j \<in> {2..n}" for j
    using assms that by (cases "j = pos") (auto simp: up_order_def)
  then show ?thesis by (simp add: full_order_def)
qed

text \<open>The smaller child, as AdjustNode chooses it.\<close>

lemma smaller_child:
  assumes "2 * pos \<le> n" "1 \<le> (pos :: nat)"
    and "m = (if 2 * pos = n \<or> cmp (g (2 * pos)) (g (2 * pos + 1)) then 2 * pos else 2 * pos + 1)"
  shows "m \<in> {2..n}" "m div 2 = pos" "m \<noteq> pos"
    and "j \<in> {2..n} \<Longrightarrow> j div 2 = pos \<Longrightarrow> \<not> cmp (g j) (g m)"
proof -
  have irrefl: "\<not> cmp a a" for a using cmp_asym [of a a] by blast
  show "m \<in> {2..n}" "m div 2 = pos" "m \<noteq> pos" using assms by auto
  assume j: "j \<in> {2..n}" "j div 2 = pos"
  then have "j = 2 * pos \<or> j = 2 * pos + 1" by auto
  then show "\<not> cmp (g j) (g m)" using assms j irrefl cmp_asym by auto
qed

lemma up_loop_placed:
  "hole h node pos \<Longrightarrow> up_order cmp (view h pos node) (num_items h) pos \<Longrightarrow>
     placed cmp node pos h (up_loop cmp node pos h)"
proof (induction pos arbitrary: h rule: less_induct)
  case (less pos)
  note hole = less.prems(1)
  show ?case
  proof (cases "1 < pos \<and> cmp (node_val h node) (node_val h (items h ! (pos div 2)))")
    case True
    let ?q = "pos div 2"
    have q: "?q \<in> {1..num_items h}" "?q \<noteq> pos" "?q < pos"
      using True hole by (auto simp: hole_def)
    have "cmp (view h pos node pos) (view h pos node ?q)"
      using True q(2) by (simp add: view_def slot_def del: atLeastAtMost_iff)
    with less.prems(2) have
      "up_order cmp (view (put_node pos (items h ! ?q) h) ?q node) (num_items h) ?q"
      unfolding view_move [OF hole q(1,2)] using True hole by (intro up_order_step) (auto simp: hole_def)
    then have "placed cmp node ?q (put_node pos (items h ! ?q) h) (up_loop cmp node ?q (put_node pos (items h ! ?q) h))"
      using less.IH [OF q(3) hole_move(1) [OF hole q(1,2)]] by (simp add: put_node_def)
    from placed_step [OF hole q(1,2) this] show ?thesis
      using True by (simp add: up_loop.simps [of cmp node pos])
  next
    case False
    then have "\<not> (1 < pos \<and> cmp (view h pos node pos) (view h pos node (pos div 2)))"
      by (auto simp: view_def slot_def)
    with less.prems have "full_order cmp (view h pos node) (num_items h)"
      by (intro up_order_done) auto
    then have "placed cmp node pos h (pos, h)" using hole by (simp add: placed_def)
    then show ?thesis
      unfolding up_loop.simps [of cmp node pos h] by (simp only: if_not_P [OF False])
  qed
qed

lemma down_loop_placed:
  "hole h node pos \<Longrightarrow> down_order cmp (view h pos node) (num_items h) pos \<Longrightarrow>
     \<exists>r. down_loop cmp node pos h = Some r \<and> placed cmp node pos h r"
proof (induction "num_items h - pos" arbitrary: h pos rule: less_induct)
  case less
  note hole = less.prems(1)
  have pos: "1 \<le> pos" "pos \<le> num_items h" using hole by (auto simp: hole_def)
  let ?g = "view h pos node"
  have at_pos: "?g pos = node_val h node" by (simp add: view_def slot_def)
  have off: "?g j = node_val h (items h ! j)" if "j \<noteq> pos" for j
    using that by (simp add: view_def slot_def)
  show ?case
  proof (cases "2 * pos \<le> num_items h")
    case False
    then have "full_order cmp ?g (num_items h)"
      using less.prems(2) by (intro down_order_done) auto
    then have "placed cmp node pos h (pos, h)" using hole by (simp add: placed_def)
    then show ?thesis using False by (simp add: down_loop.simps)
  next
    case True
    define m where "m = (if 2 * pos = num_items h \<or> cmp (?g (2 * pos)) (?g (2 * pos + 1))
                         then 2 * pos else 2 * pos + 1)"
    note child = smaller_child [OF True pos(1) m_def]
    have m_code: "m = (if 2 * pos = num_items h \<or>
          cmp (node_val h (items h ! (2 * pos))) (node_val h (items h ! (2 * pos + 1)))
        then 2 * pos else 2 * pos + 1)"
      using pos by (simp add: m_def off)
    have unfold: "down_loop cmp node pos h =
        (if cmp (?g pos) (?g m) then Some (pos, h) else down_loop cmp node m (put_node pos (items h ! m) h))"
      unfolding down_loop.simps [of cmp node pos h] Let_def m_code [symmetric] at_pos off [OF child(3)]
      using True by (simp only: if_True)
    show ?thesis
    proof (cases "cmp (?g pos) (?g m)")
      case c: True
      have "\<not> cmp (?g j) (?g pos)" if "j \<in> {2..num_items h}" "j div 2 = pos" for j
        using child(4) [OF that] cmp_asym [OF c] cmp_negtrans by blast
      then have "full_order cmp ?g (num_items h)"
        using less.prems(2) by (intro down_order_done)
      then have "placed cmp node pos h (pos, h)" using hole by (simp add: placed_def)
      then show ?thesis using c by (simp add: unfold)
    next
      case c: False
      let ?h = "put_node pos (items h ! m) h"
      have m: "m \<in> {1..num_items h}" "m \<noteq> pos" using child by auto
      have num: "num_items ?h = num_items h" by (simp add: put_node_def)
      have "down_order cmp (view ?h m node) (num_items h) m"
        unfolding view_move [OF hole m]
        by (rule down_order_step [OF less.prems(2) pos(1) child(1,2) child(4) c])
      moreover have "num_items ?h - m < num_items h - pos" using child num pos by auto
      ultimately obtain r where "down_loop cmp node m ?h = Some r" "placed cmp node m ?h r"
        using less.hyps [of ?h m] hole_move(1) [OF hole m] num by auto
      with placed_step [OF hole m] c show ?thesis by (auto simp: unfold)
    qed
  qed
qed

end

section \<open>Every operation keeps the invariant and acts on the map\<close>

text \<open>Order everywhere except between node \<open>i\<close> and its neighbours: what AdjustNode repairs.\<close>

definition near_order :: "('v \<Rightarrow> 'v \<Rightarrow> bool) \<Rightarrow> (nat \<Rightarrow> 'v) \<Rightarrow> nat \<Rightarrow> nat \<Rightarrow> bool" where
  "near_order cmp g n i \<longleftrightarrow>
     (\<forall>j \<in> {2..n}. j \<noteq> i \<longrightarrow> j div 2 \<noteq> i \<longrightarrow> \<not> cmp (g j) (g (j div 2))) \<and> around cmp g n i"

definition vals :: "'v heap \<Rightarrow> nat \<Rightarrow> 'v" where
  "vals h j = node_val h (items h ! j)"

lemma heap_inv_vals: "heap_inv cmp h \<longleftrightarrow> heap_shape h \<and> full_order cmp (vals h) (num_items h)"
  by (simp add: heap_inv_def heap_order_def full_order_def vals_def)

lemma live_indexD:
  assumes "heap_shape h" "a \<in> live h"
  shows "node_index h a \<in> {1..num_items h}" "items h ! node_index h a = a"
  using assms by (auto simp: heap_shape_def live_def)

lemma not_in_live:
  assumes "heap_shape h" "num_items h < k" "k < length (items h)"
  shows "items h ! k \<notin> live h"
  using assms by (auto simp: heap_shape_def live_def nth_eq_iff_index_eq)

lemma heap_map_rearranged:
  "rearranged h h' \<Longrightarrow> live h' = live h \<Longrightarrow> heap_map h' = heap_map h"
  by (simp add: heap_map_def rearranged_def fun_eq_iff)

lemma heap_shape_Resize:
  assumes "heap_shape h"
  shows "heap_shape (Resize h)" "live (Resize h) = live h"
proof -
  show "heap_shape (Resize h)" using assms by (auto simp: heap_shape_def Resize_def nth_append)
  show "live (Resize h) = live h"
    unfolding live_def using assms by (intro image_cong) (auto simp: heap_shape_def Resize_def nth_append)
qed

lemma heap_inv_Resize:
  assumes "heap_inv cmp h"
  shows "heap_inv cmp (Resize h)" "heap_map (Resize h) = heap_map h"
proof -
  have shape: "heap_shape h" and ord: "full_order cmp (vals h) (num_items h)"
    using assms by (simp_all add: heap_inv_vals)
  have "vals (Resize h) j = vals h j" if "j \<le> num_items h" for j
    using that shape by (simp add: Resize_def vals_def nth_append heap_shape_def)
  then have "full_order cmp (vals (Resize h)) (num_items h)"
    using ord by (auto simp: full_order_def)
  then show "heap_inv cmp (Resize h)"
    using heap_shape_Resize(1) [OF shape] by (simp add: heap_inv_vals) (simp add: Resize_def)
  show "heap_map (Resize h) = heap_map h"
    unfolding heap_map_def heap_shape_Resize(2) [OF shape] by (auto simp: Resize_def fun_eq_iff)
qed

context node_order
begin

lemma near_order_change:
  assumes "full_order cmp g n" "n' \<le> n" "\<And>j. j \<noteq> i \<Longrightarrow> j \<in> {1..n'} \<Longrightarrow> g' j = g j"
  shows "near_order cmp g' n' i"
proof -
  have "\<not> cmp (g' j) (g' (i div 2))" if j: "j \<in> {2..n'}" "j div 2 = i" "1 < i" for j
  proof -
    have "i \<in> {2..n}" "j \<in> {2..n}" using j assms(2) by auto
    then have "\<not> cmp (g j) (g i)" "\<not> cmp (g i) (g (i div 2))"
      using assms(1) j(2) by (auto simp: full_order_def)
    then have "\<not> cmp (g j) (g (i div 2))" by (rule cmp_negtrans)
    moreover have "g' j = g j" "g' (i div 2) = g (i div 2)"
      using j by (auto intro!: assms(3))
    ultimately show ?thesis by simp
  qed
  moreover have "\<not> cmp (g' j) (g' (j div 2))" if j: "j \<in> {2..n'}" "j \<noteq> i" "j div 2 \<noteq> i" for j
  proof -
    have "g' j = g j" "g' (j div 2) = g (j div 2)" using j by (auto intro!: assms(3))
    then show ?thesis using j assms(1,2) by (simp add: full_order_def)
  qed
  ultimately show ?thesis by (simp add: near_order_def around_def)
qed

lemma AdjustNode_spec:
  assumes shape: "heap_shape h" and i: "i \<in> {1..num_items h}" and near: "near_order cmp (vals h) (num_items h) i"
  shows "\<exists>h'. AdjustNode cmp i h = Some h' \<and> heap_inv cmp h' \<and> rearranged h h' \<and> live h' = live h"
proof -
  let ?node = "items h ! i" and ?n = "num_items h"
  note hole = hole_of_shape [OF shape i]
  have view: "view h i ?node = vals h" by (rule ext) (simp add: view_def hole(2) vals_def)
  have live: "slot h i ?node ` {1..?n} = live h" by (simp add: live_def hole(2))
  have finish: "heap_inv cmp (put_node k ?node h') \<and> rearranged h (put_node k ?node h') \<and>
      live (put_node k ?node h') = live h" if "placed cmp ?node i h (k, h')" for k h'
    using placed_inv [OF that] live by simp
  show ?thesis
  proof (cases "i > 1 \<and> cmp (node_val h ?node) (node_val h (items h ! (i div 2)))")
    case True
    then have c: "cmp (vals h i) (vals h (i div 2))" by (simp add: vals_def)
    have "\<not> cmp (vals h j) (vals h (j div 2))" if j: "j \<in> {2..?n}" "j \<noteq> i" for j
    proof (cases "j div 2 = i")
      case below: True
      then have "\<not> cmp (vals h j) (vals h (i div 2))"
        using near j True by (simp add: near_order_def around_def)
      with below show ?thesis using cmp_negtrans cmp_asym [OF c] by blast
    next
      case False
      then show ?thesis using near j by (simp add: near_order_def)
    qed
    then have "up_order cmp (view h i ?node) ?n i"
      using near by (simp add: up_order_def near_order_def view)
    from up_loop_placed [OF hole(1) this] obtain k h' where
      "up_loop cmp ?node i h = (k, h')" "placed cmp ?node i h (k, h')"
      by (metis surj_pair)
    with finish True i show ?thesis by (simp add: AdjustNode_def)
  next
    case False
    have "\<not> cmp (vals h j) (vals h (j div 2))" if j: "j \<in> {2..?n}" "j div 2 \<noteq> i" for j
      using False near j by (cases "j = i") (auto simp: near_order_def vals_def)
    then have "down_order cmp (view h i ?node) ?n i"
      using near by (simp add: down_order_def near_order_def view)
    from down_loop_placed [OF hole(1) this] obtain k h' where
      run: "down_loop cmp ?node i h = Some (k, h')" "placed cmp ?node i h (k, h')"
      by (metis surj_pair)
    have "AdjustNode cmp i h = Some (put_node k ?node h')"
      unfolding AdjustNode_def Let_def if_not_P [OF False] using run i by simp
    with finish run show ?thesis by blast
  qed
qed

lemma Refresh_spec:
  assumes "heap_shape h" "full_order cmp g (num_items h)" "a \<in> live h"
    and "\<And>j. j \<noteq> node_index h a \<Longrightarrow> vals h j = g j"
  shows "\<exists>h'. Refresh cmp a h = Some h' \<and> heap_inv cmp h' \<and> heap_map h' = heap_map h"
proof -
  have "near_order cmp (vals h) (num_items h) (node_index h a)"
    using assms(4) by (intro near_order_change [OF assms(2)]) auto
  from AdjustNode_spec [OF assms(1) live_indexD(1) [OF assms(1,3)] this] show ?thesis
    using heap_map_rearranged by (auto simp: Refresh_def)
qed

lemma Update_spec:
  assumes inv: "heap_inv cmp h" and a: "a \<in> live h"
  shows "\<exists>h'. Update cmp a v h = Some h' \<and> heap_inv cmp h' \<and> heap_map h' = (heap_map h)(a \<mapsto> v)"
proof -
  let ?h = "h\<lparr>node_val := (node_val h)(a := v)\<rparr>" and ?i = "node_index h a"
  have shape: "heap_shape h" using inv by (simp add: heap_inv_def)
  have shape': "heap_shape ?h" using shape by (simp add: heap_shape_def)
  have live': "live ?h = live h" by (simp add: live_def)
  note i = live_indexD [OF shape a]
  have "vals ?h j = vals h j" if "j \<noteq> ?i" "j \<in> {1..num_items h}" for j
    using that i shape by (auto simp: vals_def heap_shape_def)
  then have "near_order cmp (vals ?h) (num_items h) ?i"
    using inv by (intro near_order_change [of "vals h" "num_items h"]) (simp_all add: heap_inv_vals)
  moreover have "?i \<in> {1..num_items ?h}" using i by simp
  ultimately obtain h' where h': "AdjustNode cmp ?i ?h = Some h'" "heap_inv cmp h'" "rearranged ?h h'" "live h' = live h"
    using AdjustNode_spec [OF shape', of ?i] live' by auto
  have "heap_map h' = heap_map ?h" using h' live' by (intro heap_map_rearranged) simp_all
  also have "\<dots> = (heap_map h)(a \<mapsto> v)" using a by (auto simp: heap_map_def live' fun_eq_iff)
  finally show ?thesis using h' by (auto simp: Update_def)
qed

lemma Erase_spec:
  assumes inv: "heap_inv cmp h" and a: "a \<in> live h"
  shows "\<exists>h'. Erase cmp a h = Some h' \<and> heap_inv cmp h' \<and> heap_map h' = (heap_map h)(a := None) \<and>
              num_items h' = num_items h - 1"
proof -
  let ?n = "num_items h" and ?i = "node_index h a"
  have shape: "heap_shape h" and ord: "full_order cmp (vals h) ?n"
    using inv by (simp_all add: heap_inv_vals)
  note i = live_indexD [OF shape a]
  define xs where "xs = (items h)[?i := items h ! ?n, ?n := a]"
  define h2 where "h2 = h\<lparr>items := xs, num_items := ?n - 1, node_index := (node_index h)(xs ! ?i := ?i)\<rparr>"
  have h2 [simp]: "items h2 = xs" "num_items h2 = ?n - 1" "node_index h2 = (node_index h)(xs ! ?i := ?i)"
    "node_val h2 = node_val h" "next_node h2 = next_node h" "length xs = length (items h)"
    by (simp_all add: h2_def xs_def)
  have n: "0 < ?n" "?n < length (items h)" using i shape by (auto simp: heap_shape_def)
  have xs: "xs ! j = (if j = ?i then items h ! ?n else if j = ?n then a else items h ! j)" if "j < length (items h)" for j
    using that i(2) by (auto simp: nth_list_update_if xs_def)
  have run: "Erase cmp a h = AdjustNode cmp ?i h2"
    using n(1) by (simp add: Erase_def Let_def h2_def xs_def)
  have ex: "xs = map (\<lambda>j. items h ! exchange ?i ?n j) [0..<length (items h)]"
    by (rule nth_equalityI) (use xs i(2) in \<open>auto simp: exchange_def\<close>)
  have dist: "distinct xs" and sub: "set xs = set (items h)"
  proof -
    have im: "exchange ?i ?n ` {..<length (items h)} = {..<length (items h)}"
      using i(1) n by (intro exchange_image) auto
    have "inj_on (\<lambda>j. items h ! exchange ?i ?n j) {..<length (items h)}"
      using comp_inj_on [OF inj_exchange [of ?i ?n "{..<length (items h)}"], of "(!) (items h)"] shape
      by (simp add: im comp_def inj_on_nth heap_shape_def)
    then show "distinct xs" unfolding ex by (simp add: distinct_map atLeast0LessThan)
    have "set xs = (!) (items h) ` exchange ?i ?n ` {..<length (items h)}"
      unfolding ex by (auto simp: image_image atLeast0LessThan)
    then show "set xs = set (items h)" by (auto simp: im set_conv_nth)
  qed
  have index: "node_index h2 (xs ! j) = j" if j: "j \<in> {1..?n - 1}" for j
  proof -
    have jl: "j < length xs" "?i < length xs" using j n i by auto
    show ?thesis
    proof (cases "j = ?i")
      case True
      then show ?thesis by simp
    next
      case False
      then have "xs ! j \<noteq> xs ! ?i" using dist jl by (simp add: nth_eq_iff_index_eq)
      moreover have "xs ! j = items h ! j" using False j jl xs by auto
      moreover have "node_index h (items h ! j) = j" using shape j by (auto simp: heap_shape_def)
      ultimately show ?thesis by simp
    qed
  qed
  have shape': "heap_shape h2"
    using n dist sub index shape by (auto simp: heap_shape_def simp del: list_update_swap fun_upd_apply)
  have live': "live h2 = live h - {a}"
  proof -
    have "live h = (\<lambda>j. xs ! j) ` {1..?n}"
    proof -
      have "(\<lambda>j. xs ! j) ` {1..?n} = (\<lambda>j. items h ! exchange ?i ?n j) ` {1..?n}"
        using n xs i(2) by (intro image_cong) (auto simp: exchange_def)
      also have "\<dots> = (!) (items h) ` exchange ?i ?n ` {1..?n}" by (simp add: image_image)
      also have "\<dots> = live h" using i(1) n by (simp add: exchange_image live_def)
      finally show ?thesis by simp
    qed
    also have "{1..?n} = insert ?n {1..?n - 1}" using n by auto
    finally have all: "live h = insert a (live h2)" using n by (simp add: live_def xs_def)
    have "xs ! ?n \<notin> live h2"
      using not_in_live [OF shape', of ?n] n by simp
    then have "a \<notin> live h2" using n by (simp add: xs_def)
    with all show ?thesis by auto
  qed
  have map': "heap_map h2 = (heap_map h)(a := None)"
    by (simp add: heap_map_def live' fun_eq_iff)
  have same: "vals h2 j = vals h j" if "j \<noteq> ?i" "j \<in> {1..?n - 1}" for j
    using that xs [of j] n by (auto simp: vals_def)
  show ?thesis
  proof (cases "?i = ?n")
    case True
    have "\<not> cmp (vals h2 j) (vals h2 (j div 2))" if j: "j \<in> {2..?n - 1}" for j
    proof -
      have "vals h2 j = vals h j" "vals h2 (j div 2) = vals h (j div 2)"
        using j True by (auto intro!: same)
      then show ?thesis using ord j by (auto simp: full_order_def)
    qed
    then have "full_order cmp (vals h2) (?n - 1)" by (simp add: full_order_def)
    then have "heap_inv cmp h2" using shape' by (simp add: heap_inv_vals)
    moreover have "AdjustNode cmp ?i h2 = Some h2" using True n by (simp add: AdjustNode_def)
    ultimately show ?thesis using run map' by auto
  next
    case False
    then have i': "?i \<in> {1..num_items h2}" using i by auto
    have "near_order cmp (vals h2) (num_items h2) ?i"
      by (rule near_order_change [OF ord]) (use same in auto)
    from AdjustNode_spec [OF shape' i' this] obtain h' where
      h': "AdjustNode cmp ?i h2 = Some h'" "heap_inv cmp h'" "rearranged h2 h'" "live h' = live h2" by blast
    have "heap_map h' = heap_map h2" using h' by (intro heap_map_rearranged)
    then show ?thesis using run map' h' by (auto simp: rearranged_def)
  qed
qed

lemma Insert_spec:
  assumes inv: "heap_inv cmp h" and run: "Insert cmp v h = (a, h')"
  shows "heap_inv cmp h' \<and> a \<notin> live h \<and> heap_map h' = (heap_map h)(a \<mapsto> v) \<and> num_items h' = num_items h + 1"
proof -
  let ?h1 = "if num_items h + 1 = length (items h) then Resize h else h"
  have h1: "heap_inv cmp ?h1" "heap_map ?h1 = heap_map h" "live ?h1 = live h" "num_items ?h1 = num_items h"
    "num_items h + 1 < length (items ?h1)"
    using inv heap_inv_Resize [OF inv] heap_shape_Resize [of h]
    by (auto simp: heap_inv_def) (auto simp: Resize_def heap_shape_def)
  define h1 where "h1 = ?h1"
  note h1 = h1 [folded h1_def]
  let ?n = "num_items h" and ?new = "items h1 ! Suc (num_items h)"
  let ?h = "h1\<lparr>num_items := Suc ?n, node_val := (node_val h1)(?new := v)\<rparr>"
  have shape: "heap_shape h1" using h1 by (simp add: heap_inv_def)
  have fresh: "?new \<notin> live h1"
    using not_in_live [OF shape, of "Suc ?n"] h1 by simp
  have sl: "slot ?h (Suc ?n) ?new = (\<lambda>j. items h1 ! j)" by (auto simp: slot_def)
  have hole: "hole ?h ?new (Suc ?n)"
    using shape h1(4,5) by (auto simp: hole_def sl heap_shape_def inj_on_def nth_eq_iff_index_eq)
  have old: "view ?h (Suc ?n) ?new j = vals h1 j" if "j \<in> {1..?n}" for j
  proof -
    have "items h1 ! j \<noteq> ?new"
      using that h1(4,5) shape by (auto simp: heap_shape_def nth_eq_iff_index_eq)
    then show ?thesis by (simp add: view_def sl vals_def)
  qed
  have "\<not> cmp (view ?h (Suc ?n) ?new j) (view ?h (Suc ?n) ?new (j div 2))" if j: "j \<in> {2..Suc ?n}" "j \<noteq> Suc ?n" for j
  proof -
    have "view ?h (Suc ?n) ?new j = vals h1 j" "view ?h (Suc ?n) ?new (j div 2) = vals h1 (j div 2)"
      using j by (auto intro!: old)
    then show ?thesis using h1(1,4) j by (simp add: heap_inv_vals full_order_def)
  qed
  then have "up_order cmp (view ?h (Suc ?n) ?new) (num_items ?h) (Suc ?n)"
    by (auto simp: up_order_def around_def)
  from up_loop_placed [OF hole this] obtain k h2 where
    k: "up_loop cmp ?new (Suc ?n) ?h = (k, h2)" "placed cmp ?new (Suc ?n) ?h (k, h2)"
    by (metis surj_pair)
  have res: "a = ?new" "h' = put_node k ?new h2"
    using run k(1) unfolding Insert_def h1_def [symmetric] Let_def by (auto simp: h1(4))
  have live': "live h' = insert ?new (live h)"
  proof -
    have "{1..Suc ?n} = insert (Suc ?n) {1..?n}" by auto
    then show ?thesis
      using placed_inv(3) [OF k(2)] by (simp add: res sl h1(3) [symmetric]) (simp add: live_def h1(4))
  qed
  have val: "node_val h' = (node_val h)(?new := v)"
    using placed_inv(2) [OF k(2)] by (simp add: res rearranged_def) (simp add: h1_def Resize_def)
  have "heap_map h' = (heap_map h)(a \<mapsto> v)"
    using fresh by (auto simp: heap_map_def live' val res(1) h1(3) fun_eq_iff)
  then show ?thesis
    using placed_inv(1,2) [OF k(2)] fresh h1(3) res by (simp add: rearranged_def)
qed

lemma Top_least:
  assumes inv: "heap_inv cmp h" and j: "j \<in> {1..num_items h}"
  shows "\<not> cmp (vals h j) (vals h 1)"
  using j
proof (induction j rule: less_induct)
  case (less j)
  show ?case
  proof (cases "j = 1")
    case True
    then show ?thesis using cmp_asym [of "vals h 1" "vals h 1"] by auto
  next
    case False
    then have "\<not> cmp (vals h (j div 2)) (vals h 1)" using less by (intro less.IH) auto
    moreover have "\<not> cmp (vals h j) (vals h (j div 2))"
      using inv less.prems False by (auto simp: heap_inv_vals full_order_def)
    ultimately show ?thesis using cmp_negtrans by blast
  qed
qed

lemma Top_None: "Top h = None \<longleftrightarrow> live h = {}"
  by (simp add: Top_def live_def)

lemma Top_Some:
  assumes "heap_inv cmp h" "Top h = Some v"
  shows "heap_map h (items h ! 1) = Some v" "heap_map h b = Some w \<Longrightarrow> \<not> cmp w v"
proof -
  have n: "0 < num_items h" "v = vals h 1" using assms(2) by (auto simp: Top_def vals_def split: if_splits)
  then have "items h ! 1 \<in> live h" by (auto simp: live_def)
  then show "heap_map h (items h ! 1) = Some v" using n by (simp add: heap_map_def vals_def)
  assume "heap_map h b = Some w"
  then obtain j where "j \<in> {1..num_items h}" "w = vals h j"
    by (auto simp: heap_map_def live_def vals_def split: if_splits)
  then show "\<not> cmp w v" using Top_least [OF assms(1)] n by simp
qed

lemma Pop_spec:
  assumes inv: "heap_inv cmp h" and top: "Top h = Some v"
  shows "\<exists>h' a. Pop cmp h = Some (a, h') \<and> heap_inv cmp h' \<and> heap_map h a = Some v \<and>
           heap_map h' = (heap_map h)(a := None) \<and> num_items h' = num_items h - 1"
proof -
  have m: "heap_map h (items h ! 1) = Some v" by (rule Top_Some [OF inv top])
  then have "items h ! 1 \<in> live h" by (auto simp: heap_map_def split: if_splits)
  from Erase_spec [OF inv this] m show ?thesis by (auto simp: Pop_def)
qed

end

section \<open>The heap as a queue with handles\<close>

sublocale node_order \<subseteq> hq: handle_queue "heap_inv cmp" heap_map cmp "Insert cmp" "Erase cmp" Top "Pop cmp"
proof unfold_locales
  fix q :: "'v heap"
  assume inv: "heap_inv cmp q"
  show "finite (dom (heap_map q))"
    by (rule finite_subset [of _ "live q"]) (auto simp: heap_map_def live_def split: if_splits)
  show "Top q = None \<longleftrightarrow> heap_map q = Map.empty"
    by (auto simp: Top_None heap_map_def fun_eq_iff)
  show "heap_inv cmp q' \<and> heap_map q a = None \<and> heap_map q' = (heap_map q)(a \<mapsto> v)"
    if "Insert cmp v q = (a, q')" for v a q'
    using Insert_spec [OF inv that] by (simp add: heap_map_def)
  show "\<exists>q'. Erase cmp a q = Some q' \<and> heap_inv cmp q' \<and> heap_map q' = (heap_map q)(a := None)"
    if "heap_map q a \<noteq> None" for a
    using Erase_spec [OF inv, of a] that by (auto simp: heap_map_def split: if_splits)
  fix v
  assume top: "Top q = Some v"
  show "\<not> cmp w v" if "heap_map q b = Some w" for b w by (rule Top_Some(2) [OF inv top that])
  show "\<exists>a q'. Pop cmp q = Some (a, q') \<and> heap_inv cmp q' \<and> heap_map q a = Some v \<and> heap_map q' = (heap_map q)(a := None)"
    using Pop_spec [OF inv top] by blast
qed

interpretation by_feature: node_order "Compare Order feature"
  by unfold_locales (auto simp: Compare_def split: if_splits)

lemma heap_inv_InitHeap [inv_intros]:
  assumes "0 < init_size" "InitHeap (heap_new init_size v0) = (r, h)"
  shows "r \<and> heap_inv cmp h \<and> heap_map h = Map.empty"
  using assms by (auto simp: InitHeap_def heap_new_def heap_inv_def heap_shape_def heap_order_def heap_map_def live_def)

lemma heap_inv_Clear [inv_intros]:
  "heap_inv cmp h \<Longrightarrow> heap_inv cmp (heap_Clear h) \<and> heap_map (heap_Clear h) = Map.empty"
  by (auto simp: heap_Clear_def heap_inv_def heap_shape_def heap_order_def heap_map_def live_def)

lemma card_heap_map: "heap_inv cmp h \<Longrightarrow> card (dom (heap_map h)) = num_items h"
proof -
  assume "heap_inv cmp h"
  then have "inj_on (\<lambda>j. items h ! j) {1..num_items h}"
    by (intro inj_on_inverseI [of _ "node_index h"]) (simp add: heap_inv_def heap_shape_def)
  moreover have "dom (heap_map h) = live h" by (auto simp: heap_map_def split: if_splits)
  ultimately show ?thesis by (simp add: live_def card_image)
qed

lemma UpdateTop_is_Update:
  assumes "heap_inv cmp h" "num_items h \<noteq> 0"
  shows "UpdateTop cmp v h = Update cmp (items h ! 1) v h" "items h ! 1 \<in> live h"
proof -
  show "items h ! 1 \<in> live h" using assms(2) by (auto simp: live_def)
  have "node_index h (items h ! 1) = 1" using assms by (simp add: heap_inv_def heap_shape_def)
  then show "UpdateTop cmp v h = Update cmp (items h ! 1) v h"
    using assms(2) by (simp add: UpdateTop_def Update_def)
qed

section \<open>Properties\<close>


text \<open>C3. Popping a heap until it is empty terminates and yields every live entry exactly once, the
  first one first in the heap's order.\<close>

theorem heap_pops_sorted:
  fixes feature :: "'v \<Rightarrow> 'k::linorder"
  assumes "heap_inv (Compare Order feature) h"
  shows "\<exists>ps. pop_all Top (Pop (Compare Order feature)) (num_items h) h = Some ps \<and>
     sorted_wrt (\<lambda>x y. if Order then feature (snd y) \<le> feature (snd x) else feature (snd x) \<le> feature (snd y)) ps \<and>
     distinct (map fst ps) \<and> set ps = {(a, v). heap_map h a = Some v}"
proof -
  have eq: "(\<lambda>x y. \<not> Compare Order feature (snd y) (snd x)) =
     (\<lambda>x y :: nat \<times> 'v. if Order then feature (snd y) \<le> feature (snd x) else feature (snd x) \<le> feature (snd y))"
    by (auto simp: Compare_def fun_eq_iff)
  show ?thesis
    by (rule by_feature.hq.pop_all_sorted [OF assms, unfolded eq]) (simp add: card_heap_map [OF assms])
qed

definition sample_heap :: "nat heap" where
  "sample_heap = \<lparr>init_size_heap = 4, num_items = 3, items = [1, 2, 3, 4], node_index = (\<lambda>a. a - 1),
     node_val = (\<lambda>_. 0)(2 := 3, 3 := 7, 4 := 5), next_node = 5, init_done = True\<rparr>"

lemma sample_heap_inv: "heap_inv (Compare False (\<lambda>v. v)) sample_heap"
proof -
  have "{Suc 0..3} = {1, 2, 3}" "{2..3} = {2, 3::nat}" by auto
  then show ?thesis
    by (simp add: heap_inv_def heap_shape_def heap_order_def sample_heap_def Compare_def nth_Cons')
qed


lemma heap_pops_sorted_witness:
  "\<exists>ps. pop_all Top (Pop (Compare False (\<lambda>v. v))) 3 sample_heap = Some ps \<and> length ps = 3 \<and> snd (hd ps) = 3"
proof -
  let ?c = "Compare False (\<lambda>v::nat. v)"
  from heap_pops_sorted [OF sample_heap_inv] obtain ps where
    ps: "pop_all Top (Pop ?c) (num_items sample_heap) sample_heap = Some ps" "distinct (map fst ps)"
      "set ps = {(a, v). heap_map sample_heap a = Some v}"
    by blast
  have n: "num_items sample_heap = Suc 2" by (simp add: sample_heap_def)
  have "fst ` set ps = dom (heap_map sample_heap)" by (auto simp: ps(3) image_iff)
  then have "card (set (map fst ps)) = 3"
    using card_heap_map [OF sample_heap_inv] by (simp add: n)
  then have len: "length ps = 3" using distinct_card [OF ps(2)] by simp
  have "Top sample_heap = Some 3" by (simp add: Top_def sample_heap_def)
  then have "snd (hd ps) = 3" using ps(1) [unfolded n pop_all.simps] len by (auto split: option.splits prod.splits)
  with ps(1) len show ?thesis by (simp add: n)
qed

end
