(* ===== verification/Timer.thy ===== *)
theory Timer
  imports Heap
begin

text \<open>
  The timer of an I/O thread, src/src/event/timer/timer.h and timer.cpp: a min-heap of TimerData
  ordered by the time-out, whose handles are the timer ids. The clock (Time::GetCurrentClockTime)
  is an argument of each operation. A callback is a function on the client's state and the heap,
  because OnTimer may itself add and cancel timers.
\<close>

section \<open>State and operations\<close>

record ('p, 'd) timer_data =
  time_out_ms :: u64
  time_proc :: "'p option"
  function_data :: 'd
  coro_id :: int

type_synonym ('p, 'd) timer = "('p, 'd) timer_data heap"

text \<open>GetTimeOut reads the unsigned time-out as int64\_t; the heap is a min-heap on it.\<close>

definition GetTimeOut :: "('p, 'd) timer_data \<Rightarrow> int" where
  "GetTimeOut tm = sint (time_out_ms tm)"

abbreviation timer_less :: "('p, 'd) timer_data \<Rightarrow> ('p, 'd) timer_data \<Rightarrow> bool" where
  "timer_less \<equiv> Compare False GetTimeOut"

definition timer_new :: "('p, 'd) timer_data \<Rightarrow> ('p, 'd) timer" where
  "timer_new v0 = snd (InitHeap (heap_new 4096 v0))"

definition AddTimer :: "u64 \<Rightarrow> u64 \<Rightarrow> ('p, 'd) timer_data \<Rightarrow> ('p, 'd) timer \<Rightarrow> nat \<times> ('p, 'd) timer" where
  "AddTimer cur_time_ms after_ms data h = Insert timer_less (data\<lparr>time_out_ms := cur_time_ms + after_ms\<rparr>) h"

definition DelTimer :: "nat \<Rightarrow> ('p, 'd) timer \<Rightarrow> (int \<times> ('p, 'd) timer) option" where
  "DelTimer i h = map_option (Pair 0) (Erase timer_less i h)"

text \<open>The loop condition of the three ProcessTimer functions.\<close>

definition due :: "u64 \<Rightarrow> ('p, 'd) timer_data \<Rightarrow> bool" where
  "due cur_time_ms td \<longleftrightarrow> cur_time_ms \<ge> time_out_ms td \<and> time_proc td \<noteq> None"

text \<open>ProcessTimer calls OnTimer first and pops afterwards.\<close>

partial_function (option) process_loop ::
    "(('p, 'd) timer_data \<Rightarrow> 'w \<Rightarrow> ('p, 'd) timer \<Rightarrow> 'w \<times> ('p, 'd) timer) \<Rightarrow> u64 \<Rightarrow>
     'w \<Rightarrow> ('p, 'd) timer \<Rightarrow> ('w \<times> ('p, 'd) timer) option" where
  "process_loop OnTimer cur_time_ms w h =
     (case Top h of
        None \<Rightarrow> Some (w, h)
      | Some td \<Rightarrow>
          if due cur_time_ms td
          then (case OnTimer td w h of (w', h1) \<Rightarrow>
                (case Pop timer_less h1 of
                   None \<Rightarrow> None
                 | Some (i, h2) \<Rightarrow> process_loop OnTimer cur_time_ms w' h2))
          else Some (w, h))"

definition ProcessTimer ::
    "(('p, 'd) timer_data \<Rightarrow> 'w \<Rightarrow> ('p, 'd) timer \<Rightarrow> 'w \<times> ('p, 'd) timer) \<Rightarrow> u64 \<Rightarrow>
     'w \<Rightarrow> ('p, 'd) timer \<Rightarrow> ('w \<times> ('p, 'd) timer) option" where
  "ProcessTimer OnTimer cur_time_ms w h =
     (if 0 = heap_Size h then Some (w, h) else process_loop OnTimer cur_time_ms w h)"

text \<open>ProcessTimerTest is ProcessTimer and collects the ids it popped.\<close>

partial_function (option) process_test_loop ::
    "(('p, 'd) timer_data \<Rightarrow> 'w \<Rightarrow> ('p, 'd) timer \<Rightarrow> 'w \<times> ('p, 'd) timer) \<Rightarrow> u64 \<Rightarrow>
     nat list \<Rightarrow> 'w \<Rightarrow> ('p, 'd) timer \<Rightarrow> (nat list \<times> 'w \<times> ('p, 'd) timer) option" where
  "process_test_loop OnTimer cur_time_ms ids w h =
     (case Top h of
        None \<Rightarrow> Some (ids, w, h)
      | Some td \<Rightarrow>
          if due cur_time_ms td
          then (case OnTimer td w h of (w', h1) \<Rightarrow>
                (case Pop timer_less h1 of
                   None \<Rightarrow> None
                 | Some (i, h2) \<Rightarrow> process_test_loop OnTimer cur_time_ms (ids @ [i]) w' h2))
          else Some (ids, w, h))"

definition ProcessTimerTest ::
    "(('p, 'd) timer_data \<Rightarrow> 'w \<Rightarrow> ('p, 'd) timer \<Rightarrow> 'w \<times> ('p, 'd) timer) \<Rightarrow> u64 \<Rightarrow>
     nat list \<Rightarrow> 'w \<Rightarrow> ('p, 'd) timer \<Rightarrow> (nat list \<times> 'w \<times> ('p, 'd) timer) option" where
  "ProcessTimerTest OnTimer cur_time_ms ids w h =
     (if 0 = heap_Size h then Some (ids, w, h) else process_test_loop OnTimer cur_time_ms ids w h)"

text \<open>ProcessTimerCoro pops first and calls OnTimerCoro afterwards.\<close>

partial_function (option) process_coro_loop ::
    "(('p, 'd) timer_data \<Rightarrow> 'w \<Rightarrow> ('p, 'd) timer \<Rightarrow> 'w \<times> ('p, 'd) timer) \<Rightarrow> u64 \<Rightarrow>
     'w \<Rightarrow> ('p, 'd) timer \<Rightarrow> ('w \<times> ('p, 'd) timer) option" where
  "process_coro_loop OnTimerCoro cur_time_ms w h =
     (case Top h of
        None \<Rightarrow> Some (w, h)
      | Some td \<Rightarrow>
          if due cur_time_ms td
          then (case Pop timer_less h of
                  None \<Rightarrow> None
                | Some (i, h1) \<Rightarrow>
                    (case OnTimerCoro td w h1 of (w', h2) \<Rightarrow>
                       process_coro_loop OnTimerCoro cur_time_ms w' h2))
          else Some (w, h))"

definition ProcessTimerCoro ::
    "(('p, 'd) timer_data \<Rightarrow> 'w \<Rightarrow> ('p, 'd) timer \<Rightarrow> 'w \<times> ('p, 'd) timer) \<Rightarrow> u64 \<Rightarrow>
     'w \<Rightarrow> ('p, 'd) timer \<Rightarrow> ('w \<times> ('p, 'd) timer) option" where
  "ProcessTimerCoro OnTimerCoro cur_time_ms w h =
     (if 0 = heap_Size h then Some (w, h) else process_coro_loop OnTimerCoro cur_time_ms w h)"

definition timer_Clear :: "('p, 'd) timer \<Rightarrow> ('p, 'd) timer" where
  "timer_Clear h = heap_Clear h"

section \<open>Well-formed timers\<close>

text \<open>
  Every pending timer has a receiver, and time-outs stay in the range where the signed order of
  the heap and the unsigned test of the loops agree.
\<close>

definition timer_inv :: "('p, 'd) timer \<Rightarrow> bool" where
  "timer_inv h \<longleftrightarrow> heap_inv timer_less h \<and>
     (\<forall>i td. heap_map h i = Some td \<longrightarrow> time_proc td \<noteq> None \<and> time_out_ms td < 2 ^ 63)"

definition due_ids :: "u64 \<Rightarrow> ('p, 'd) timer \<Rightarrow> nat set" where
  "due_ids now h = {i. \<exists>td. heap_map h i = Some td \<and> due now td}"

lemma timer_heap_inv: "timer_inv h \<Longrightarrow> heap_inv timer_less h"
  by (simp add: timer_inv_def)

lemma small_sint: "(x :: u64) < 2 ^ 63 \<Longrightarrow> sint x = uint x"
proof -
  assume "x < 2 ^ 63"
  then have "uint x < 2 ^ 63" by (simp add: word_less_def)
  moreover have "- (2 ^ 63) \<le> uint x" by (rule order_trans [OF _ uint_nonnegative]) simp
  ultimately show ?thesis by (simp add: sint_uint signed_take_bit_int_eq_self)
qed

lemma timer_inv_AddTimer [inv_intros]:
  assumes "timer_inv h" "time_proc data \<noteq> None" "cur + after < 2 ^ 63" "AddTimer cur after data h = (i, h')"
  shows "timer_inv h'" "heap_map h i = None" "heap_map h' = (heap_map h)(i \<mapsto> data\<lparr>time_out_ms := cur + after\<rparr>)"
  using by_feature.hq.ins_law [OF timer_heap_inv [OF assms(1)] assms(4) [unfolded AddTimer_def]] assms(1-3)
  by (auto simp: timer_inv_def)

lemma timer_inv_DelTimer [inv_intros]:
  assumes "timer_inv h" "heap_map h i \<noteq> None"
  shows "\<exists>h'. DelTimer i h = Some (0, h') \<and> timer_inv h' \<and> heap_map h' = (heap_map h)(i := None)"
proof -
  from by_feature.hq.del_law [OF timer_heap_inv [OF assms(1)] assms(2)] obtain h' where
    "Erase timer_less i h = Some h'" "heap_inv timer_less h'" "heap_map h' = (heap_map h)(i := None)"
    by blast
  then show ?thesis using assms(1) by (auto simp: DelTimer_def timer_inv_def)
qed

lemma timer_Pop:
  assumes "timer_inv h" "Top h = Some td"
  shows "\<exists>i h'. Pop timer_less h = Some (i, h') \<and> timer_inv h' \<and> heap_map h i = Some td \<and>
           heap_map h' = (heap_map h)(i := None)"
proof -
  from by_feature.hq.pop_law [OF timer_heap_inv [OF assms(1)] assms(2)] obtain i h' where
    "Pop timer_less h = Some (i, h')" "heap_inv timer_less h'" "heap_map h i = Some td"
    "heap_map h' = (heap_map h)(i := None)"
    by blast
  then show ?thesis using assms(1) by (auto simp: timer_inv_def)
qed

lemma Top_not_due:
  assumes inv: "timer_inv h" and top: "\<And>td. Top h = Some td \<Longrightarrow> \<not> due now td"
  shows "due_ids now h = {}"
proof (cases "Top h")
  case None
  then show ?thesis using by_feature.hq.top_none [OF timer_heap_inv [OF inv]] by (simp add: due_ids_def)
next
  case (Some td)
  from timer_Pop [OF inv Some] obtain i where i: "heap_map h i = Some td" by blast
  have "time_proc td \<noteq> None" using inv i by (simp add: timer_inv_def)
  then have late: "now < time_out_ms td" using top [OF Some] by (simp add: due_def)
  have "\<not> due now t" if "heap_map h j = Some t" for j t
  proof -
    have "GetTimeOut td \<le> GetTimeOut t"
      using by_feature.hq.top_least [OF timer_heap_inv [OF inv] Some that] by (simp add: Compare_def)
    then have "time_out_ms td \<le> time_out_ms t"
      using inv i that by (simp add: timer_inv_def GetTimeOut_def small_sint word_le_def)
    then have "now < time_out_ms t" by (rule order.strict_trans2 [OF late])
    then show ?thesis unfolding due_def by (blast dest: leD)
  qed
  then show ?thesis by (auto simp: due_ids_def)
qed

lemma due_ids_del: "heap_map h' = (heap_map h)(i := None) \<Longrightarrow> due_ids now h' = due_ids now h - {i}"
  by (auto simp: due_ids_def)

lemma finite_due_ids: "timer_inv h \<Longrightarrow> finite (due_ids now h)"
  by (rule finite_subset [OF _ by_feature.hq.fin [OF timer_heap_inv, of h]]) (auto simp: due_ids_def)

text \<open>
  A callback that keeps the timers well formed and makes no further timer due: it may add timers
  that expire later than \<open>now\<close> and cancel pending ones.
\<close>

definition no_new_due ::
    "(('p, 'd) timer_data \<Rightarrow> 'w \<Rightarrow> ('p, 'd) timer \<Rightarrow> 'w \<times> ('p, 'd) timer) \<Rightarrow> u64 \<Rightarrow> bool" where
  "no_new_due cb now \<longleftrightarrow> (\<forall>td w h. timer_inv h \<longrightarrow>
     timer_inv (snd (cb td w h)) \<and> due_ids now (snd (cb td w h)) \<subseteq> due_ids now h)"

lemma process_coro_loop_ends:
  assumes cb: "no_new_due cb now"
  shows "timer_inv h \<Longrightarrow>
    \<exists>w' h'. process_coro_loop cb now w h = Some (w', h') \<and> timer_inv h' \<and> due_ids now h' = {}"
proof (induction "card (due_ids now h)" arbitrary: h w rule: less_induct)
  case less
  note inv = less.prems
  show ?case
  proof (cases "\<exists>td. Top h = Some td \<and> due now td")
    case False
    then have "process_coro_loop cb now w h = Some (w, h)"
      by (subst process_coro_loop.simps) (auto split: option.splits)
    with False Top_not_due [OF inv] inv show ?thesis by blast
  next
    case True
    then obtain td where td: "Top h = Some td" "due now td" by blast
    from timer_Pop [OF inv td(1)] obtain i h1 where
      i: "Pop timer_less h = Some (i, h1)" "timer_inv h1" "heap_map h i = Some td"
        "heap_map h1 = (heap_map h)(i := None)"
      by blast
    obtain w2 h2 where c: "cb td w h1 = (w2, h2)" by (cases "cb td w h1")
    have h2: "timer_inv h2" "due_ids now h2 \<subseteq> due_ids now h - {i}"
      using cb [unfolded no_new_due_def, rule_format, OF i(2), of td w] due_ids_del [OF i(4)]
      by (simp_all add: c)
    have "i \<in> due_ids now h" using i(3) td(2) by (auto simp: due_ids_def)
    then have "card (due_ids now h2) < card (due_ids now h)"
      using h2(2) by (intro psubset_card_mono [OF finite_due_ids [OF inv]]) auto
    from less.hyps [OF this h2(1), of w2] show ?thesis
      by (subst process_coro_loop.simps) (simp add: td i(1) c)
  qed
qed

text \<open>
  Callbacks that leave the timers alone: the loop hands the due timers to them one after the other.
\<close>

definition passively :: "(('p, 'd) timer_data \<Rightarrow> 'w \<Rightarrow> 'w) \<Rightarrow> ('p, 'd) timer_data \<Rightarrow> 'w \<Rightarrow> ('p, 'd) timer \<Rightarrow> 'w \<times> ('p, 'd) timer" where
  "passively act td w h = (act td w, h)"

definition fired ::
    "u64 \<Rightarrow> ('p, 'd) timer \<Rightarrow> (nat \<times> ('p, 'd) timer_data) list \<Rightarrow> bool" where
  "fired now h ps \<longleftrightarrow> distinct (map fst ps) \<and> sorted_wrt (\<lambda>x y. time_out_ms (snd x) \<le> time_out_ms (snd y)) ps \<and>
     set ps = {(i, td). heap_map h i = Some td \<and> due now td}"

lemma fired_step:
  assumes inv: "timer_inv h" and top: "Top h = Some td" "due now td" and i: "heap_map h i = Some td"
    and h1: "timer_inv h1" "heap_map h1 = (heap_map h)(i := None)" and ps: "fired now h1 ps"
  shows "fired now h ((i, td) # ps)"
proof -
  have "time_out_ms td \<le> time_out_ms t" if "(j, t) \<in> set ps" for j t
  proof -
    have j: "heap_map h j = Some t" using that ps by (simp add: fired_def h1(2) split: if_splits)
    have "GetTimeOut td \<le> GetTimeOut t"
      using by_feature.hq.top_least [OF timer_heap_inv [OF inv] top(1) j] by (simp add: Compare_def)
    then show ?thesis
      using inv i j by (simp add: timer_inv_def GetTimeOut_def small_sint word_le_def)
  qed
  moreover have "i \<notin> fst ` set ps" using ps by (auto simp: fired_def h1(2))
  moreover have "insert (i, td) (set ps) = {(j, t). heap_map h j = Some t \<and> due now t}"
    using ps i top(2) by (auto simp: fired_def h1(2) split: if_splits)
  ultimately show ?thesis using ps by (auto simp: fired_def)
qed

lemma process_loops_passive:
  "timer_inv h \<Longrightarrow> \<exists>ps h'. fired now h ps \<and> timer_inv h' \<and>
     heap_map h' = (\<lambda>i. if i \<in> due_ids now h then None else heap_map h i) \<and>
     process_loop (passively act) now w h = Some (fold act (map snd ps) w, h') \<and>
     process_coro_loop (passively act) now w h = Some (fold act (map snd ps) w, h') \<and>
     process_test_loop (passively act) now ids w h = Some (ids @ map fst ps, fold act (map snd ps) w, h')"
proof (induction "card (due_ids now h)" arbitrary: h w ids rule: less_induct)
  case less
  note inv = less.prems
  note unfold = process_loop.simps process_coro_loop.simps process_test_loop.simps
  show ?case
  proof (cases "\<exists>td. Top h = Some td \<and> due now td")
    case False
    then have none: "due_ids now h = {}" using Top_not_due [OF inv] by blast
    then have "fired now h []" by (auto simp: fired_def due_ids_def)
    moreover have "process_loop (passively act) now w h = Some (w, h)"
      "process_coro_loop (passively act) now w h = Some (w, h)"
      "process_test_loop (passively act) now ids w h = Some (ids, w, h)"
      using False by (subst unfold, auto split: option.splits)+
    ultimately show ?thesis using none inv by (intro exI [of _ "[]"] exI [of _ h]) simp
  next
    case True
    then obtain td where td: "Top h = Some td" "due now td" by blast
    from timer_Pop [OF inv td(1)] obtain i h1 where
      i: "Pop timer_less h = Some (i, h1)" "timer_inv h1" "heap_map h i = Some td"
        "heap_map h1 = (heap_map h)(i := None)"
      by blast
    have "i \<in> due_ids now h" using i(3) td(2) by (auto simp: due_ids_def)
    then have "card (due_ids now h1) < card (due_ids now h)"
      by (intro psubset_card_mono [OF finite_due_ids [OF inv]]) (auto simp: due_ids_del [OF i(4)])
    from less.hyps [OF this i(2), of "act td w" "ids @ [i]"] obtain ps h' where
      ps: "fired now h1 ps" "timer_inv h'"
        "heap_map h' = (\<lambda>j. if j \<in> due_ids now h1 then None else heap_map h1 j)"
        "process_loop (passively act) now (act td w) h1 = Some (fold act (map snd ps) (act td w), h')"
        "process_coro_loop (passively act) now (act td w) h1 = Some (fold act (map snd ps) (act td w), h')"
        "process_test_loop (passively act) now (ids @ [i]) (act td w) h1 =
           Some ((ids @ [i]) @ map fst ps, fold act (map snd ps) (act td w), h')"
      by blast
    have "heap_map h' = (\<lambda>j. if j \<in> due_ids now h then None else heap_map h j)"
      using \<open>i \<in> due_ids now h\<close> by (auto simp: ps(3) i(4) due_ids_del [OF i(4)] fun_eq_iff)
    moreover have "fired now h ((i, td) # ps)"
      by (rule fired_step [OF inv td i(3,2,4) ps(1)])
    moreover have "process_loop (passively act) now w h = Some (fold act (map snd ((i, td) # ps)) w, h')"
      by (subst process_loop.simps) (simp add: td i(1) ps(4) passively_def [of act td w h])
    moreover have "process_coro_loop (passively act) now w h = Some (fold act (map snd ((i, td) # ps)) w, h')"
      by (subst process_coro_loop.simps) (simp add: td i(1) ps(5) passively_def [of act td w h1])
    moreover have "process_test_loop (passively act) now ids w h =
        Some (ids @ map fst ((i, td) # ps), fold act (map snd ((i, td) # ps)) w, h')"
      by (subst process_test_loop.simps) (simp add: td i(1) ps(6) [simplified] passively_def [of act td w h])
    ultimately show ?thesis using ps(2) by blast
  qed
qed

text \<open>
  Callbacks that cancel the very timer that is firing, as AsyncSequence::OnTimer and SyncSequence::OnTimer do.
  The timer is gone when the loop pops, so Pop takes out the next one, which has not fired: of the
  timers the loop takes out, only every other one fires.
\<close>

definition cancelling ::
    "(('p, 'd) timer_data \<Rightarrow> nat) \<Rightarrow> (('p, 'd) timer_data \<Rightarrow> 'w \<Rightarrow> 'w) \<Rightarrow> ('p, 'd) timer_data \<Rightarrow> 'w \<Rightarrow> ('p, 'd) timer \<Rightarrow> 'w \<times> ('p, 'd) timer" where
  "cancelling id_of act td w h = (act td w, snd (the (DelTimer (id_of td) h)))"

fun every_other :: "'a list \<Rightarrow> 'a list" where
  "every_other [] = []"
| "every_other [x] = [x]"
| "every_other (x # y # xs) = x # every_other xs"

lemma set_every_other: "set (every_other xs) \<subseteq> set xs"
  by (induction xs rule: every_other.induct) auto

lemma Top_earliest:
  assumes inv: "timer_inv h" and top: "Top h = Some td" and j: "heap_map h j = Some t"
  shows "time_out_ms td \<le> time_out_ms t"
proof -
  from timer_Pop [OF inv top] obtain i where i: "heap_map h i = Some td" by blast
  have "GetTimeOut td \<le> GetTimeOut t"
    using by_feature.hq.top_least [OF timer_heap_inv [OF inv] top j] by (simp add: Compare_def)
  then show ?thesis
    using inv i j by (simp add: timer_inv_def GetTimeOut_def small_sint word_le_def)
qed

lemma no_timer_left:
  assumes "timer_inv h"
  shows "num_items h = 0 \<longleftrightarrow> heap_map h = Map.empty"
  using by_feature.hq.top_none [OF timer_heap_inv [OF assms]] by (auto simp: Top_def split: if_splits)

lemma Erase_none: "num_items h = 0 \<Longrightarrow> Erase cmp i h = Some h" and Pop_none: "num_items h = 0 \<Longrightarrow> Pop cmp h = Some (items h ! 1, h)"
  by (simp_all add: Erase_def Pop_def)

text \<open>What is taken out first of a list of timers taken out in the order of their time-outs.\<close>

definition taken_out :: "('p, 'd) timer \<Rightarrow> ('p, 'd) timer \<Rightarrow> (nat \<times> ('p, 'd) timer_data) list \<Rightarrow> bool" where
  "taken_out h h' rs \<longleftrightarrow> distinct (map fst rs) \<and> sorted_wrt (\<lambda>x y. time_out_ms (snd x) \<le> time_out_ms (snd y)) rs \<and>
     (\<forall>x \<in> set rs. heap_map h (fst x) = Some (snd x)) \<and> heap_map h' = heap_map h |` (- fst ` set rs) \<and> timer_inv h'"

lemma taken_out_first:
  assumes inv: "timer_inv h" and top: "Top h = Some td" and i: "heap_map h i = Some td"
    and h1: "heap_map h1 = (heap_map h)(i := None)" and rs: "taken_out h1 h' rs"
  shows "taken_out h h' ((i, td) # rs)"
proof -
  have old: "fst x \<noteq> i \<and> heap_map h (fst x) = Some (snd x)" if "x \<in> set rs" for x
    using rs that by (auto simp: taken_out_def h1 split: if_splits)
  then have "time_out_ms td \<le> time_out_ms (snd x)" if "x \<in> set rs" for x using Top_earliest [OF inv top] that by blast
  moreover have "i \<notin> fst ` set rs" using old by auto
  moreover have "heap_map h' = heap_map h |` (- insert i (fst ` set rs))"
    using rs by (auto simp: taken_out_def h1 restrict_map_def fun_eq_iff)
  ultimately show ?thesis using rs old i by (auto simp: taken_out_def)
qed

lemma process_loop_cancelling:
  "timer_inv h \<Longrightarrow> \<forall>i td. heap_map h i = Some td \<longrightarrow> id_of td = i \<Longrightarrow>
     \<exists>rs h'. taken_out h h' rs \<and> (odd (length rs) \<longrightarrow> heap_map h' = Map.empty) \<and> due_ids now h' = {} \<and> (\<forall>x \<in> set (every_other rs). due now (snd x)) \<and>
       process_loop (cancelling id_of act) now w h = Some (fold act (map snd (every_other rs)) w, h')"
proof (induction "card (dom (heap_map h))" arbitrary: h w rule: less_induct)
  case less
  note inv = less.prems(1)
  have fin: "finite (dom (heap_map h))" by (rule by_feature.hq.fin [OF timer_heap_inv [OF inv]])
  show ?case
  proof (cases "\<exists>td. Top h = Some td \<and> due now td")
    case False
    then have "process_loop (cancelling id_of act) now w h = Some (w, h)"
      by (subst process_loop.simps) (auto split: option.splits)
    moreover have "due_ids now h = {}" using False Top_not_due [OF inv] by blast
    ultimately show ?thesis using inv by (intro exI [of _ "[]"] exI [of _ h]) (simp add: taken_out_def restrict_map_def)
  next
    case True
    then obtain td where td: "Top h = Some td" "due now td" by blast
    from timer_Pop [OF inv td(1)] obtain i where i: "heap_map h i = Some td" by blast
    from timer_inv_DelTimer [OF inv, of i] i obtain h1 where
      h1: "DelTimer i h = Some (0, h1)" "timer_inv h1" "heap_map h1 = (heap_map h)(i := None)" by auto
    have cb: "cancelling id_of act td w h = (act td w, h1)" using less.prems(2) i h1(1) by (simp add: cancelling_def)
    show ?thesis
    proof (cases "Top h1")
      case None
      then have empty: "num_items h1 = 0" by (simp add: Top_def split: if_splits)
      have "process_loop (cancelling id_of act) now (act td w) h1 = Some (act td w, h1)"
        by (subst process_loop.simps) (simp add: None)
      then have "process_loop (cancelling id_of act) now w h = Some (act td w, h1)"
        by (subst process_loop.simps) (simp add: td cb Pop_none [OF empty])
      moreover have "taken_out h h1 [(i, td)]"
        by (rule taken_out_first [OF inv td(1) i h1(3)]) (simp add: taken_out_def h1(2) restrict_map_def)
      moreover have "heap_map h1 = Map.empty" "due_ids now h1 = {}" using empty no_timer_left [OF h1(2)] by (simp_all add: due_ids_def)
      ultimately show ?thesis using td(2) by (intro exI [of _ "[(i, td)]"] exI [of _ h1]) simp
    next
      case (Some v)
      from timer_Pop [OF h1(2) Some] obtain k h2 where
        k: "Pop timer_less h1 = Some (k, h2)" "timer_inv h2" "heap_map h1 k = Some v" "heap_map h2 = (heap_map h1)(k := None)" by blast
      have "dom (heap_map h2) \<subset> dom (heap_map h)" using i k(3) by (auto simp: k(4) h1(3) split: if_splits)
      then have "card (dom (heap_map h2)) < card (dom (heap_map h))" by (rule psubset_card_mono [OF fin])
      moreover have "\<forall>i td. heap_map h2 i = Some td \<longrightarrow> id_of td = i" using less.prems(2) by (simp add: k(4) h1(3))
      ultimately obtain rs h' where
        rs: "taken_out h2 h' rs" "odd (length rs) \<longrightarrow> heap_map h' = Map.empty" "due_ids now h' = {}" "\<forall>x \<in> set (every_other rs). due now (snd x)"
          "process_loop (cancelling id_of act) now (act td w) h2 = Some (fold act (map snd (every_other rs)) (act td w), h')"
        using less.hyps [OF _ k(2), of "act td w"] by blast
      have "process_loop (cancelling id_of act) now w h = Some (fold act (map snd (every_other ((i, td) # (k, v) # rs))) w, h')"
        by (subst process_loop.simps) (simp add: td cb k(1) rs(5))
      moreover have "taken_out h h' ((i, td) # (k, v) # rs)"
        by (rule taken_out_first [OF inv td(1) i h1(3) taken_out_first [OF h1(2) Some k(3,4) rs(1)]])
      ultimately show ?thesis using rs(2-4) td(2) by (intro exI [of _ "(i, td) # (k, v) # rs"] exI [of _ h']) simp
    qed
  qed
qed

lemma timer_inv_new [inv_intros]: "timer_inv (timer_new v0) \<and> heap_map (timer_new v0) = Map.empty"
proof -
  obtain r h where run: "InitHeap (heap_new 4096 v0) = (r, h)" by (cases "InitHeap (heap_new 4096 v0)")
  from heap_inv_InitHeap [OF _ this, of timer_less] show ?thesis
    by (simp add: timer_new_def run timer_inv_def)
qed

lemma ProcessTimer_loop:
  assumes "timer_inv h"
  shows "ProcessTimer cb now w h = process_loop cb now w h"
    and "ProcessTimerCoro cb now w h = process_coro_loop cb now w h"
    and "ProcessTimerTest cb now ids w h = process_test_loop cb now ids w h"
proof -
  have top: "Top h = None" if "0 = heap_Size h" using that by (simp add: Top_def heap_Size_def)
  show "ProcessTimer cb now w h = process_loop cb now w h"
    using top by (simp add: ProcessTimer_def process_loop.simps)
  show "ProcessTimerCoro cb now w h = process_coro_loop cb now w h"
    using top by (simp add: ProcessTimerCoro_def process_coro_loop.simps)
  show "ProcessTimerTest cb now ids w h = process_test_loop cb now ids w h"
    using top by (simp add: ProcessTimerTest_def process_test_loop.simps)
qed

section \<open>Properties\<close>

text \<open>C4. With callbacks that do not touch the timers, ProcessTimer, ProcessTimerCoro and ProcessTimerTest
  return, hand exactly the due timers to their callbacks, each once and in the order of their
  time-outs, and remove exactly these; ProcessTimerTest reports their ids in that order. With callbacks
  that cancel their own timer, as the sequences of this library install, ProcessTimer returns and leaves no due timer
  as well, but it takes the timers out in pairs, in the order of their time-outs, and of each pair it fires only the first, which is due;
  the second, due or not, is lost. Only the last timer of all has no partner.\<close>

theorem due_timers_fire_in_order:
  assumes "timer_inv h"
  shows "(\<exists>ps h'. distinct (map fst ps) \<and> sorted_wrt (\<lambda>x y. time_out_ms (snd x) \<le> time_out_ms (snd y)) ps \<and>
     set ps = {(i, td). heap_map h i = Some td \<and> due now td} \<and> timer_inv h' \<and>
     heap_map h' = (\<lambda>i. if i \<in> due_ids now h then None else heap_map h i) \<and>
     ProcessTimer (passively act) now w h = Some (fold act (map snd ps) w, h') \<and>
     ProcessTimerCoro (passively act) now w h = Some (fold act (map snd ps) w, h') \<and>
     ProcessTimerTest (passively act) now ids w h = Some (ids @ map fst ps, fold act (map snd ps) w, h')) \<and>
   ((\<forall>i td. heap_map h i = Some td \<longrightarrow> id_of td = i) \<longrightarrow>
     (\<exists>rs h'. distinct (map fst rs) \<and> sorted_wrt (\<lambda>x y. time_out_ms (snd x) \<le> time_out_ms (snd y)) rs \<and>
       (\<forall>x \<in> set rs. heap_map h (fst x) = Some (snd x)) \<and> heap_map h' = heap_map h |` (- fst ` set rs) \<and> timer_inv h' \<and>
       (odd (length rs) \<longrightarrow> heap_map h' = Map.empty) \<and> due_ids now h' = {} \<and> (\<forall>x \<in> set (every_other rs). due now (snd x)) \<and>
       ProcessTimer (cancelling id_of act) now w h = Some (fold act (map snd (every_other rs)) w, h')))"
proof (intro conjI impI)
  show "\<exists>ps h'. distinct (map fst ps) \<and> sorted_wrt (\<lambda>x y. time_out_ms (snd x) \<le> time_out_ms (snd y)) ps \<and>
     set ps = {(i, td). heap_map h i = Some td \<and> due now td} \<and> timer_inv h' \<and>
     heap_map h' = (\<lambda>i. if i \<in> due_ids now h then None else heap_map h i) \<and>
     ProcessTimer (passively act) now w h = Some (fold act (map snd ps) w, h') \<and>
     ProcessTimerCoro (passively act) now w h = Some (fold act (map snd ps) w, h') \<and>
     ProcessTimerTest (passively act) now ids w h = Some (ids @ map fst ps, fold act (map snd ps) w, h')"
    using process_loops_passive [OF assms, of now act w ids]
    unfolding ProcessTimer_loop [OF assms] fired_def by (simp only: conj_assoc)
next
  assume "\<forall>i td. heap_map h i = Some td \<longrightarrow> id_of td = i"
  from process_loop_cancelling [OF assms this, of now act w]
  show "\<exists>rs h'. distinct (map fst rs) \<and> sorted_wrt (\<lambda>x y. time_out_ms (snd x) \<le> time_out_ms (snd y)) rs \<and>
       (\<forall>x \<in> set rs. heap_map h (fst x) = Some (snd x)) \<and> heap_map h' = heap_map h |` (- fst ` set rs) \<and> timer_inv h' \<and>
       (odd (length rs) \<longrightarrow> heap_map h' = Map.empty) \<and> due_ids now h' = {} \<and> (\<forall>x \<in> set (every_other rs). due now (snd x)) \<and>
       ProcessTimer (cancelling id_of act) now w h = Some (fold act (map snd (every_other rs)) w, h')"
    unfolding ProcessTimer_loop [OF assms] taken_out_def by (simp only: conj_assoc)
qed

text \<open>C5. ProcessTimerCoro returns whenever every callback keeps the timers well formed and makes no further
  timer due, whatever it adds for later and cancels, and it leaves no due timer behind.\<close>

theorem ProcessTimerCoro_ends:
  assumes "timer_inv h" "no_new_due cb now"
  shows "\<exists>w' h'. ProcessTimerCoro cb now w h = Some (w', h') \<and> timer_inv h' \<and> due_ids now h' = {}"
  using process_coro_loop_ends [OF assms(2,1)] by (simp add: ProcessTimer_loop [OF assms(1)])

text \<open>When the only due timer is cancelled by its own callback (AsyncSequence::OnTimer and
  SyncSequence::OnTimer do this), the Pop that follows OnTimer in ProcessTimer removes another timer,
  one that is not due and never fires.\<close>

lemma ProcessTimer_self_cancel_loses_timer:
  assumes inv: "timer_inv h" and top: "Top h = Some td" and only: "due_ids now h = {i}"
    and cb: "DelTimer i h = Some (0, h1)" "OnTimer td w h = (w', h1)"
    and other: "j \<noteq> i" "heap_map h j \<noteq> None"
  shows "\<exists>k h'. ProcessTimer OnTimer now w h = Some (w', h') \<and> timer_inv h' \<and>
     k \<noteq> i \<and> heap_map h k \<noteq> None \<and> k \<notin> due_ids now h \<and> heap_map h' = (heap_map h)(i := None, k := None)"
proof -
  have due: "due now td"
  proof (rule ccontr)
    assume "\<not> due now td"
    then have "due_ids now h = {}" using top by (intro Top_not_due [OF inv]) simp
    with only show False by simp
  qed
  have "heap_map h i \<noteq> None" using only by (auto simp: due_ids_def)
  from timer_inv_DelTimer [OF inv this] cb(1) have
    h1: "timer_inv h1" "heap_map h1 = (heap_map h)(i := None)" by auto
  then have "heap_map h1 j \<noteq> None" using other by simp
  then obtain v where v: "Top h1 = Some v"
    using by_feature.hq.top_none [OF timer_heap_inv [OF h1(1)]] by fastforce
  from timer_Pop [OF h1(1) v] obtain k h2 where
    k: "Pop timer_less h1 = Some (k, h2)" "timer_inv h2" "heap_map h1 k = Some v"
      "heap_map h2 = (heap_map h1)(k := None)"
    by blast
  have "due_ids now h2 = {}" using only by (auto simp: due_ids_del [OF k(4)] due_ids_del [OF h1(2)])
  then have stop: "process_loop OnTimer now w' h2 = Some (w', h2)"
    using timer_Pop [OF k(2)]
    by (subst process_loop.simps) (force split: option.splits simp: due_ids_def)
  have "process_loop OnTimer now w h = Some (w', h2)"
    by (subst process_loop.simps) (simp add: top due cb(2) k(1) stop)
  moreover have "k \<noteq> i" "heap_map h k \<noteq> None" using k(3) h1(2) by (auto split: if_splits)
  ultimately show ?thesis
    using k(2,4) h1(2) only by (intro exI [of _ k] exI [of _ h2]) (simp add: ProcessTimer_loop [OF inv])
qed

subsection \<open>Two timers, one due\<close>

definition timer_at :: "u64 \<Rightarrow> (nat, nat) timer_data" where
  "timer_at t = \<lparr>time_out_ms = t, time_proc = Some 7, function_data = 0, coro_id = 0\<rparr>"

definition two_timers :: "(nat, nat) timer" where
  "two_timers = snd (AddTimer 0 50 (timer_at 0) (snd (AddTimer 0 10 (timer_at 0) (timer_new (timer_at 0)))))"

lemma two_timers_facts:
  "\<exists>i j. i \<noteq> j \<and> timer_inv two_timers \<and> heap_map two_timers = [i \<mapsto> timer_at 10, j \<mapsto> timer_at 50] \<and>
     due_ids 20 two_timers = {i} \<and> Top two_timers = Some (timer_at 10)"
proof -
  let ?h0 = "timer_new (timer_at 0)"
  obtain i h1 where a1: "AddTimer 0 10 (timer_at 0) ?h0 = (i, h1)"
    by (cases "AddTimer 0 10 (timer_at 0) ?h0")
  obtain j h2 where a2: "AddTimer 0 50 (timer_at 0) h1 = (j, h2)"
    by (cases "AddTimer 0 50 (timer_at 0) h1")
  note new = timer_inv_new [of "timer_at 0"]
  have h1: "timer_inv h1" "heap_map h1 = [i \<mapsto> timer_at 10]"
    using timer_inv_AddTimer [OF conjunct1 [OF new] _ _ a1] new by (simp_all add: timer_at_def)
  have h2: "timer_inv h2" "heap_map h1 j = None" "heap_map h2 = [i \<mapsto> timer_at 10, j \<mapsto> timer_at 50]"
    using timer_inv_AddTimer [OF h1(1) _ _ a2] by (simp_all add: timer_at_def h1(2))
  have h2_eq: "two_timers = h2" by (simp add: two_timers_def a1 a2)
  have ij: "i \<noteq> j" using h2(2) h1(2) by auto
  have "heap_map h2 j \<noteq> None" by (simp add: h2(3))
  then obtain v where v: "Top h2 = Some v"
    using by_feature.hq.top_none [OF timer_heap_inv [OF h2(1)]] by fastforce
  have "\<not> timer_less (timer_at 10) v"
    using by_feature.hq.top_least [OF timer_heap_inv [OF h2(1)] v, of i] ij by (simp add: h2(3))
  moreover have "v = timer_at 10 \<or> v = timer_at 50"
    using timer_Pop [OF h2(1) v] by (auto simp: h2(3) split: if_splits)
  ultimately have "v = timer_at 10" by (auto simp: Compare_def GetTimeOut_def timer_at_def)
  moreover have "due_ids 20 h2 = {i}"
    using ij by (auto simp: due_ids_def h2(3) due_def timer_at_def)
  ultimately show ?thesis using ij h2 v unfolding h2_eq by blast
qed

text \<open>
  At 20 ms only the first of the two timers is due: a callback that leaves the timers alone runs once and the other timer stays;
  one that cancels its own timer runs once and takes the other timer away.
\<close>

lemma due_timers_fire_in_order_witness:
  "\<exists>h' h'' id_of. ProcessTimer (passively (\<lambda>td n. n + 1)) 20 (0 :: nat) two_timers = Some (1, h') \<and> heap_map h' \<noteq> Map.empty \<and>
     ProcessTimer (cancelling id_of (\<lambda>td n. n + 1)) 20 (0 :: nat) two_timers = Some (1, h'') \<and> heap_map h'' = Map.empty"
proof -
  from two_timers_facts obtain i j where
    h: "i \<noteq> j" "timer_inv two_timers" "heap_map two_timers = [i \<mapsto> timer_at 10, j \<mapsto> timer_at 50]" "due_ids 20 two_timers = {i}" by blast
  let ?act = "\<lambda>td n :: nat. n + 1" and ?id = "\<lambda>td. if time_out_ms td = 10 then i else j"
  note both = due_timers_fire_in_order [OF h(2), of 20 ?act "0 :: nat" "[]" ?id]
  from conjunct1 [OF both] obtain ps h' where
    ps: "distinct (map fst ps)" "set ps = {(i, td). heap_map two_timers i = Some td \<and> due 20 td}" "timer_inv h'"
      "heap_map h' = (\<lambda>k. if k \<in> due_ids 20 two_timers then None else heap_map two_timers k)"
      "ProcessTimer (passively ?act) 20 (0 :: nat) two_timers = Some (fold ?act (map snd ps) 0, h')"
    by blast
  have "set ps = {(i, timer_at 10)}"
    unfolding ps(2) using h(1) by (auto simp: h(3) due_def timer_at_def split: if_splits)
  then have "ps = [(i, timer_at 10)]"
    using ps(1) by (cases ps rule: remdups_adj.cases) auto
  then have once: "ProcessTimer (passively ?act) 20 (0 :: nat) two_timers = Some (1, h')" using ps(5) by simp
  have "heap_map h' j = Some (timer_at 50)" using h(1) by (simp add: ps(4) h(3,4))
  then have kept: "heap_map h' \<noteq> Map.empty" by auto
  have "\<forall>k td. heap_map two_timers k = Some td \<longrightarrow> ?id td = k" by (simp add: h(3) timer_at_def)
  from conjunct2 [OF both, rule_format, OF this [rule_format]] obtain rs h'' where
    rs: "distinct (map fst rs)" "\<forall>x \<in> set rs. heap_map two_timers (fst x) = Some (snd x)"
      "heap_map h'' = heap_map two_timers |` (- fst ` set rs)" "odd (length rs) \<longrightarrow> heap_map h'' = Map.empty"
      "due_ids 20 h'' = {}" "\<forall>x \<in> set (every_other rs). due 20 (snd x)"
      "ProcessTimer (cancelling ?id ?act) 20 (0 :: nat) two_timers = Some (fold ?act (map snd (every_other rs)) 0, h'')"
    by blast
  have "i \<in> fst ` set rs"
  proof (rule ccontr)
    assume "i \<notin> fst ` set rs"
    then have "i \<in> due_ids 20 h''" using h(1) by (simp add: due_ids_def rs(3) h(3) due_def timer_at_def)
    with rs(5) show False by simp
  qed
  moreover have "set (map fst rs) \<subseteq> {i, j}" using rs(2) h(1) by (auto simp: h(3) split: if_splits)
  ultimately have "set (map fst rs) = {i} \<or> set (map fst rs) = {i, j}" by auto
  moreover have "set (map fst rs) \<noteq> {i}"
  proof
    assume one: "set (map fst rs) = {i}"
    then have "length rs = 1" using distinct_card [OF rs(1)] by simp
    then have "heap_map h'' j = None" using rs(4) by simp
    with one h(1) show False by (simp add: rs(3) h(3))
  qed
  ultimately have two: "set (map fst rs) = {i, j}" by blast
  then have "length rs = 2" using distinct_card [OF rs(1)] h(1) by simp
  then have "length (every_other rs) = 1" by (cases rs rule: every_other.cases) auto
  then have fired_once: "fold ?act (map snd (every_other rs)) (0 :: nat) = 1" by (cases "every_other rs") auto
  have lost: "heap_map h'' = Map.empty" using two by (auto simp: rs(3) h(3) restrict_map_def fun_eq_iff)
  from once kept rs(7) [unfolded fired_once] lost show ?thesis by blast
qed

lemma ProcessTimerCoro_ends_witness:
  "\<exists>w' h'. ProcessTimerCoro (passively (\<lambda>td n. n + 1)) 20 (0 :: nat) two_timers = Some (w', h') \<and>
     timer_inv h' \<and> due_ids 20 h' = {}"
proof (rule ProcessTimerCoro_ends)
  show "timer_inv two_timers" using two_timers_facts by blast
  show "no_new_due (passively (\<lambda>td n :: nat. n + 1)) 20" by (simp add: no_new_due_def passively_def)
qed

lemma ProcessTimer_self_cancel_loses_timer_witness:
  "\<exists>OnTimer h'. ProcessTimer OnTimer 20 () two_timers = Some ((), h') \<and> heap_map h' = Map.empty"
proof -
  from two_timers_facts obtain i j where
    h: "i \<noteq> j" "timer_inv two_timers" "heap_map two_timers = [i \<mapsto> timer_at 10, j \<mapsto> timer_at 50]"
      "due_ids 20 two_timers = {i}" "Top two_timers = Some (timer_at 10)" by blast
  from timer_inv_DelTimer [OF h(2), of i] h(1,3) obtain h1 where d: "DelTimer i two_timers = Some (0, h1)" by auto
  define cb where "cb = (\<lambda>(td :: (nat, nat) timer_data) (w :: unit) (h :: (nat, nat) timer). (w, snd (the (DelTimer i h))))"
  have "cb (timer_at 10) () two_timers = ((), h1)" by (simp add: cb_def d)
  from ProcessTimer_self_cancel_loses_timer [where OnTimer = cb, OF h(2,5,4) d this, of j] h(1,3) obtain k h' where
    k: "ProcessTimer cb 20 () two_timers = Some ((), h')" "k \<noteq> i" "heap_map two_timers k \<noteq> None"
      "heap_map h' = (heap_map two_timers)(i := None, k := None)" by auto
  then have "k = j" by (auto simp: h(3) split: if_splits)
  with k h(1,3) have "heap_map h' = Map.empty" by (auto simp: fun_eq_iff)
  with k(1) show ?thesis by blast
qed

end
