(* ===== verification/Client_Connect.thy ===== *)
theory Client_Connect
  imports Connect Service Timer
begin

text \<open>
  The client side of a connection: src/src/net/client\_connect.h and client\_connect.cpp with the timer of
  client\_reconnect\_thread.h. A connection is known by its address \<open>self\<close>, the receiver of its
  timers. The results of system calls and of the registration with the event driver are arguments.
\<close>

section \<open>State\<close>

definition kConnecting :: int where "kConnecting = 0"
definition kConnected :: int where "kConnected = 1"
definition kBroken :: int where "kBroken = 2"
definition kStopping :: int where "kStopping = 3"

definition kClientTimerTypeReconnect :: u32 where "kClientTimerTypeReconnect = 1"
definition kClientTimerTypeHeartBeat :: u32 where "kClientTimerTypeHeartBeat = 2"

lemmas client_consts = kConnecting_def kConnected_def kBroken_def kStopping_def
  kClientTimerTypeReconnect_def kClientTimerTypeHeartBeat_def

record 'p client_connect = "'p connecting" +
  is_buzy :: bool
  con_status :: int
  timeout_ms :: u32
  heartbeat_ms :: u32
  reconnect_timer :: u64
  heartbeat_timer :: u64
  register_thread_id :: int

definition ClientConnect_new :: "'p \<Rightarrow> u32 \<Rightarrow> u32 \<Rightarrow> 'p client_connect" where
  "ClientConnect_new p timeout heartbeat =
     \<lparr>con_fd = -1, inbuf = buf_new, outbuf = buf_new, protocol_state = p, connect_id = -1, shut = False,
      is_buzy = False, con_status = kBroken, timeout_ms = timeout, heartbeat_ms = heartbeat,
      reconnect_timer = 0, heartbeat_timer = 0, register_thread_id = -1\<rparr>"

text \<open>The reconnect thread; the data of its timers points at one of the two kinds.\<close>

record reconnect_thread =
  is_running :: bool
  re_timer :: "(nat, u32) timer"

definition ClientReconnect_StartTimer :: "u64 \<Rightarrow> (nat, u32) timer_data \<Rightarrow> reconnect_thread \<Rightarrow> u64 \<times> reconnect_thread" where
  "ClientReconnect_StartTimer now td r =
     (if \<not> is_running r then (0, r)
      else case AddTimer now (time_out_ms td) td (re_timer r) of (i, h) \<Rightarrow> (word_of_nat i, r\<lparr>re_timer := h\<rparr>))"

definition ClientReconnect_CancelTimer :: "u64 \<Rightarrow> reconnect_thread \<Rightarrow> reconnect_thread option" where
  "ClientReconnect_CancelTimer timer_id r =
     map_option (\<lambda>(_, h). r\<lparr>re_timer := h\<rparr>) (DelTimer (unat timer_id) (re_timer r))"

section \<open>Timers of a connection\<close>

definition client_timer :: "nat \<Rightarrow> u32 \<Rightarrow> u64 \<Rightarrow> (nat, u32) timer_data" where
  "client_timer self kind after = \<lparr>time_out_ms = after, time_proc = Some self, function_data = kind, coro_id = -1\<rparr>"

definition StartReconnectTimer ::
    "u64 \<Rightarrow> nat \<Rightarrow> ('p, 'z) client_connect_scheme \<Rightarrow> reconnect_thread \<Rightarrow> int \<times> ('p, 'z) client_connect_scheme \<times> reconnect_thread" where
  "StartReconnectTimer now self c r =
     (if reconnect_timer c \<noteq> 0 then (-1, c, r)
      else case ClientReconnect_StartTimer now (client_timer self kClientTimerTypeReconnect 300) r of
             (i, r') \<Rightarrow> (0, c\<lparr>reconnect_timer := i\<rparr>, r'))"

text \<open>The id of a heartbeat timer is not kept.\<close>

definition StartHeartBeatTimer ::
    "u64 \<Rightarrow> nat \<Rightarrow> ('p, 'z) client_connect_scheme \<Rightarrow> reconnect_thread \<Rightarrow> int \<times> reconnect_thread" where
  "StartHeartBeatTimer now self c r =
     (if heartbeat_ms c = 0 then (0, r)
      else (0, snd (ClientReconnect_StartTimer now (client_timer self kClientTimerTypeHeartBeat (ucast (heartbeat_ms c))) r)))"

definition CancelTimer ::
    "('p, 'z) client_connect_scheme \<Rightarrow> reconnect_thread \<Rightarrow> (('p, 'z) client_connect_scheme \<times> reconnect_thread) option" where
  "CancelTimer c r =
     Option.bind
       (if reconnect_timer c \<noteq> 0
        then map_option (Pair (c\<lparr>reconnect_timer := 0\<rparr>)) (ClientReconnect_CancelTimer (reconnect_timer c) r)
        else Some (c, r))
       (\<lambda>(c1, r1).
          if heartbeat_timer c1 \<noteq> 0
          then map_option (Pair (c1\<lparr>heartbeat_timer := 0\<rparr>)) (ClientReconnect_CancelTimer (heartbeat_timer c1) r1)
          else Some (c1, r1))"

section \<open>Connecting\<close>

definition CleanClient :: "('p, 'z) client_connect_scheme \<Rightarrow> ('p, 'z) client_connect_scheme" where
  "CleanClient c = (Clean c)\<lparr>con_status := kBroken\<rparr>"

text \<open>What one epoll\_wait of IsConnected reports, and what connect answers when the socket is writable.\<close>

datatype connect_answer = Connect_Done | Connect_Pending | Connect_Failed

datatype wait_result = Wait_Timeout | Wait_Error | Wait_Hangup | Wait_Writable connect_answer | Wait_Other

fun wait_loop :: "nat \<Rightarrow> wait_result list \<Rightarrow> bool" where
  "wait_loop 0 ws = False"
| "wait_loop (Suc n) [] = wait_loop n []"
| "wait_loop (Suc n) (w # ws) =
     (case w of
        Wait_Timeout \<Rightarrow> wait_loop n ws
      | Wait_Other \<Rightarrow> wait_loop n ws
      | Wait_Error \<Rightarrow> False
      | Wait_Hangup \<Rightarrow> False
      | Wait_Writable Connect_Done \<Rightarrow> True
      | Wait_Writable Connect_Pending \<Rightarrow> wait_loop n ws
      | Wait_Writable Connect_Failed \<Rightarrow> False)"

definition IsConnected :: "bool \<Rightarrow> nat \<Rightarrow> wait_result list \<Rightarrow> bool" where
  "IsConnected epoll_ok wait_time ws = (epoll_ok \<and> wait_loop wait_time ws)"

text \<open>
  TryConnect. \<open>fd\<close> and \<open>connected\<close> are what Socket::Connect returned, \<open>in_progress\<close> is whether errno is
  EINPROGRESS behind it, \<open>reg\<close> what RegisterAddModr returned with the thread id it stored.
\<close>

definition TryConnect ::
    "u64 \<Rightarrow> nat \<Rightarrow> int \<times> bool \<Rightarrow> bool \<Rightarrow> int \<times> int \<Rightarrow> bool \<Rightarrow> wait_result list \<Rightarrow>
     ('p, 'z) client_connect_scheme \<Rightarrow> reconnect_thread \<Rightarrow> int \<times> ('p, 'z) client_connect_scheme \<times> reconnect_thread" where
  "TryConnect now self connet_info in_progress reg epoll_ok ws c r =
     (let is_reconnect = (reconnect_timer c \<noteq> 0);
          fd = fst connet_info;
          c1 = c\<lparr>reconnect_timer := 0, con_status := kConnecting, con_fd := (if fd > 0 then fd else -1)\<rparr>;
          retry = (\<lambda>c. if is_reconnect then snd (StartReconnectTimer now self c r) else (c, r))
      in if \<not> in_progress \<and> (fd < 0 \<or> \<not> snd connet_info) then (-1, retry (c1\<lparr>con_status := kBroken\<rparr>))
         else let c2 = c1\<lparr>register_thread_id := snd reg\<rparr>
              in if fst reg \<noteq> 0 then (-2, retry (c2\<lparr>con_status := kBroken\<rparr>))
                 else (0, (if in_progress \<and> IsConnected epoll_ok 9 ws then c2\<lparr>con_status := kConnected\<rparr> else c2), r))"

text \<open>OnWrite of a client whose connection is not established yet.\<close>

definition OnConnectWrite ::
    "u64 \<Rightarrow> nat \<Rightarrow> bool \<Rightarrow> wait_result list \<Rightarrow> int \<times> int \<Rightarrow> write_result list \<Rightarrow>
     ('p, 'z) client_connect_scheme \<Rightarrow> reconnect_thread \<Rightarrow> string \<times> ('p, 'z) client_connect_scheme \<times> reconnect_thread" where
  "OnConnectWrite now self epoll_ok ws reg writes c r =
     (if \<not> IsConnected epoll_ok 3 ws
      then ([], CleanClient c, snd (StartHeartBeatTimer now self (CleanClient c) r))
      else let c1 = c\<lparr>con_status := kConnected, register_thread_id := snd reg\<rparr>
           in if fst reg \<noteq> 0 then ([], CleanClient c1, snd (StartHeartBeatTimer now self (CleanClient c1) r))
              else case OnWrite writes c1 of (sent, c2) \<Rightarrow> (sent, c2, snd (StartHeartBeatTimer now self c1 r)))"

definition client_OnWrite ::
    "u64 \<Rightarrow> nat \<Rightarrow> bool \<Rightarrow> wait_result list \<Rightarrow> int \<times> int \<Rightarrow> write_result list \<Rightarrow>
     ('p, 'z) client_connect_scheme \<Rightarrow> reconnect_thread \<Rightarrow> string \<times> ('p, 'z) client_connect_scheme \<times> reconnect_thread" where
  "client_OnWrite now self epoll_ok ws reg writes c r =
     (if con_status c = kConnecting then OnConnectWrite now self epoll_ok ws reg writes c r
      else case OnWrite writes c of (sent, c') \<Rightarrow> (sent, c', r))"

text \<open>A connection that is established at once is left in the state kConnecting.\<close>

lemma immediate_connect_stays_connecting:
  "fd > 0 \<Longrightarrow> reg = (0, t) \<Longrightarrow>
     TryConnect now self (fd, True) False reg epoll_ok ws c r =
       (0, c\<lparr>reconnect_timer := 0, con_status := kConnecting, con_fd := fd, register_thread_id := t\<rparr>, r)"
  by (simp add: TryConnect_def)

section \<open>Answers\<close>

definition DoSendBack :: "message \<Rightarrow> u8 \<Rightarrow> u32 \<Rightarrow> message list list \<Rightarrow> (u32 \<times> message list list) outcome" where
  "DoSendBack msg st id_hs queues =
     (if type_id msg = kHeartBeatMessage \<or> direction msg = kOnlySend then Inr (id_hs, queues)
      else SendToServiceHandle (msg\<lparr>status := st\<rparr>) id_hs queues)"

text \<open>
  What OnDecodeMessage of both kinds of clients makes of a response: it takes the identity of the request it
  answers, and a copy of the request's context when there is a callback.
\<close>

definition answer_of :: "u64 \<Rightarrow> int \<Rightarrow> message \<Rightarrow> message \<Rightarrow> message" where
  "answer_of now self keeper msg =
     (let m = msg\<lparr>birthtime := now, status := kStatusOK, direction := kIncomingResponse, sequence_id := sequence_id keeper,
                  coroutine_id := coroutine_id keeper, handle_id := handle_id keeper, descriptor_id := self\<rparr>
      in case ctx keeper of
           None \<Rightarrow> m
         | Some k \<Rightarrow> (if callback k = None then m else m\<lparr>ctx := Some k\<rparr>))"

definition Stop :: "int \<Rightarrow> message" where
  "Stop self = (message_new kUnknownEvent No_Payload)\<lparr>descriptor_id := self, type_io_event := kIoActiveCloseEvent\<rparr>"

end
