(* ===== verification/Clients.thy ===== *)
theory Clients
  imports Client_Connect
begin

text \<open>
  The application's way to its clients: src/src/client/client.cpp, client_router.cpp, client_routers.cpp and
  client_mgr.cpp, with ParseSpecAddr of protocol/protocol_helper.h. A connection is seen here by its status and its busy
  mark, at its address. What happens to a message is written down: it is sent to the network, destroyed or given to its
  callback. The second half of SendRecieve, waiting for the answer, is in the theory of the coroutines.
\<close>

section \<open>Addresses\<close>

text \<open>\<open>sscanf(spec, " %[^:]://%[^:]:%d", proto, ip, port)\<close>, all three assigned; proto has 128 bytes, ip 256.\<close>

definition sscanf_addr :: "string \<Rightarrow> (string \<times> string \<times> int) option outcome" where
  "sscanf_addr spec =
     (let s = dropWhile is_space spec;
          proto = takeWhile (\<lambda>c. c \<noteq> CHR '':'') s;
          s1 = drop (length proto) s;
          ip = takeWhile (\<lambda>c. c \<noteq> CHR '':'') (drop 3 s1);
          s2 = drop (length ip) (drop 3 s1);
          port = strtoll (drop 1 s2)
      in if proto = [] then Inr None
         else if length proto \<ge> 128 then Inl Out_Of_Bounds
         else if take 3 s1 \<noteq> ''://'' \<or> ip = [] then Inr None
         else if length ip \<ge> 256 then Inl Out_Of_Bounds
         else if take 1 s2 \<noteq> '':'' \<or> snd port = 0 then Inr None
         else Inr (Some (proto, ip, signed_take_bit 31 (fst port))))"

definition lower_char :: "char \<Rightarrow> char" where
  "lower_char c = (let n = (of_char c :: nat) in if 65 \<le> n \<and> n \<le> 90 then char_of (n + 32) else c)"

definition strcasecmp :: "string \<Rightarrow> string \<Rightarrow> bool" where
  "strcasecmp s t \<longleftrightarrow> map lower_char s = map lower_char t"

definition ParseSpecAddr :: "string \<Rightarrow> (u8 \<times> string \<times> int) option outcome" where
  "ParseSpecAddr spec =
     (let s = takeWhile (\<lambda>c. c \<noteq> char_of (0 :: nat)) spec in
      if length s < 256
      then map_sum id (\<lambda>r. case r of
             None \<Rightarrow> None
           | Some (proto, ip, port) \<Rightarrow>
               if strcasecmp ''http'' proto then Some (kHttpMessage, ip, port)
               else if strcasecmp ''rapid'' proto then Some (kRapidMessage, ip, port)
               else if strcasecmp ''redis'' proto then Some (kRedisMessage, ip, port)
               else None) (sscanf_addr s)
      else Inr None)"

section \<open>State\<close>

record con_view =
  cv_status :: int
  cv_buzy :: bool
  cv_single :: bool
  cv_sync :: bool
  cv_id :: int

record client =
  cl_address :: string
  cl_timeout_ms :: u32
  cl_heartbeat_ms :: u32
  connect_addr :: u64
  cl_single :: bool

record clients_world =
  cons :: "u64 \<rightharpoonup> con_view"
  seq_counter :: int
  con_counter :: int
  service_coro :: "(int \<times> int) option"
  for_test :: bool
  to_net :: "message list"
  destroyed :: "message list"
  called_back :: "(nat \<times> message) list"

definition kWorking :: int where "kWorking = 0"
definition client_kBroken :: int where "client_kBroken = 1"

definition at_con :: "u64 \<Rightarrow> clients_world \<Rightarrow> con_view outcome" where
  "at_con a w = (if a = 0 then Inl Null_Dereference else case cons w a of None \<Rightarrow> Inl Use_After_Free | Some v \<Rightarrow> Inr v)"

text \<open>The busy mark counts for synchronous clients told to send one request at a time.\<close>

definition con_SetBuzy :: "u64 \<Rightarrow> bool \<Rightarrow> clients_world \<Rightarrow> clients_world outcome" where
  "con_SetBuzy a b w =
     map_sum id (\<lambda>v. if cv_sync v \<and> cv_single v then w\<lparr>cons := (cons w)(a \<mapsto> v\<lparr>cv_buzy := b\<rparr>)\<rparr> else w) (at_con a w)"

definition con_TrySetBuzy :: "u64 \<Rightarrow> clients_world \<Rightarrow> (bool \<times> clients_world) outcome" where
  "con_TrySetBuzy a w =
     map_sum id (\<lambda>v. if \<not> (cv_sync v \<and> cv_single v) then (True, w)
                      else if cv_buzy v then (False, w)
                      else (True, w\<lparr>cons := (cons w)(a \<mapsto> v\<lparr>cv_buzy := True\<rparr>)\<rparr>)) (at_con a w)"

section \<open>Client\<close>

definition GetClientStatus :: "client \<Rightarrow> clients_world \<Rightarrow> int outcome" where
  "GetClientStatus c w =
     (if connect_addr c = 0 then Inr client_kBroken
      else map_sum id (\<lambda>v. if cv_status v = kConnected then kWorking else client_kBroken) (at_con (connect_addr c) w))"

definition SetNoBuzy :: "client \<Rightarrow> clients_world \<Rightarrow> clients_world outcome" where
  "SetNoBuzy c w = (if \<not> cl_single c then Inr w else con_SetBuzy (connect_addr c) False w)"

definition TrySetBusy :: "client \<Rightarrow> clients_world \<Rightarrow> (bool \<times> clients_world) outcome" where
  "TrySetBusy c w = (if \<not> cl_single c then Inr (True, w) else con_TrySetBuzy (connect_addr c) w)"

definition Client_new :: "string \<Rightarrow> u32 \<Rightarrow> u32 \<Rightarrow> bool \<Rightarrow> client" where
  "Client_new addr timeout heartbeat sgl =
     \<lparr>cl_address = addr, cl_timeout_ms = timeout, cl_heartbeat_ms = heartbeat, connect_addr = 0, cl_single = sgl\<rparr>"

text \<open>The new connection is allocated at \<open>a\<close>.\<close>

definition CreateClient :: "u64 \<Rightarrow> client \<Rightarrow> clients_world \<Rightarrow> (bool \<times> clients_world) outcome" where
  "CreateClient a c w =
     outcome_bind (ParseSpecAddr (cl_address c)) (\<lambda>r.
       case r of
         None \<Rightarrow> Inr (False, w)
       | Some (protocol_type, ip, port) \<Rightarrow>
           (case Create (uint protocol_type) ProtocolFactory_new of
              None \<Rightarrow> Inl Null_Dereference
            | Some k \<Rightarrow>
                Inr (True, w\<lparr>cons := (cons w)(a \<mapsto> \<lparr>cv_status = kBroken, cv_buzy = False, cv_single = cl_single c, cv_sync = kind_sync k, cv_id = con_counter w\<rparr>),
                             con_counter := signed_take_bit 63 (con_counter w + 1)\<rparr>)))"

text \<open>What TryConnect returns and the status it leaves are arguments: they are modelled with the connection.\<close>

definition client_Start :: "u64 \<Rightarrow> int \<times> int \<Rightarrow> client \<Rightarrow> clients_world \<Rightarrow> (int \<times> client \<times> clients_world) outcome" where
  "client_Start a tried c w =
     outcome_bind (CreateClient a c w) (\<lambda>(ok, w1).
       if \<not> ok then Inr (-1, c, w1)
       else if fst tried \<noteq> 0 then Inr (-2, c, w1\<lparr>cons := (cons w1)(a := None)\<rparr>)
       else map_sum id (\<lambda>v. (0, c\<lparr>connect_addr := a\<rparr>, w1\<lparr>cons := (cons w1)(a \<mapsto> v\<lparr>cv_status := snd tried\<rparr>)\<rparr>)) (at_con a w1))"

text \<open>Stop sends the close message of the connection, and forgets the connection.\<close>

definition client_Stop :: "client \<Rightarrow> clients_world \<Rightarrow> client \<times> clients_world" where
  "client_Stop c w =
     (if connect_addr c = 0 then (c, w)
      else (c\<lparr>connect_addr := 0\<rparr>, w\<lparr>to_net := to_net w @ [Stop (sint (connect_addr c))]\<rparr>))"

definition GetSequenceId :: "clients_world \<Rightarrow> int \<times> clients_world" where
  "GetSequenceId w =
     (let ret = seq_counter w;
          w1 = w\<lparr>seq_counter := signed_take_bit 63 (ret + 1)\<rparr>
      in (ret, if ret < 0 then w1\<lparr>seq_counter := 0\<rparr> else w1))"

definition message_IsSynchronous :: "message \<Rightarrow> bool" where
  "message_IsSynchronous m = (type_id m = kHeartBeatMessage \<or> type_id m = kHttpMessage \<or> type_id m = kRedisMessage)"

definition client_DoSend :: "u64 \<Rightarrow> message \<Rightarrow> clients_world \<Rightarrow> message \<times> clients_world" where
  "client_DoSend now m w =
     (let m1 = (case service_coro w of None \<Rightarrow> m | Some (hdl, coro) \<Rightarrow> m\<lparr>handle_id := hdl, coroutine_id := coro\<rparr>);
          m2 = m1\<lparr>birthtime := now\<rparr>;
          m3 = m2\<lparr>type_io_event := kIoHandleEventMsg\<rparr>
      in (m3, w\<lparr>to_net := to_net w @ [m3]\<rparr>))"

definition one_way :: "message \<Rightarrow> message" where
  "one_way m = m\<lparr>direction := (if message_IsSynchronous m then kSendNoCareResponse else kOnlySend)\<rparr>"

definition client_Send :: "u64 \<Rightarrow> message \<Rightarrow> client \<Rightarrow> clients_world \<Rightarrow> (bool \<times> clients_world) outcome" where
  "client_Send now m c w =
     outcome_bind (GetClientStatus c w) (\<lambda>st.
       if st \<noteq> kWorking then map_sum id (Pair False) (SetNoBuzy c (w\<lparr>destroyed := destroyed w @ [m]\<rparr>))
       else Inr (True, snd (client_DoSend now (one_way (m\<lparr>descriptor_id := sint (connect_addr c)\<rparr>)) w)))"

text \<open>The monitor's mark is an argument.\<close>

definition client_Invoke :: "u64 \<Rightarrow> u64 \<Rightarrow> message \<Rightarrow> nat \<Rightarrow> client \<Rightarrow> clients_world \<Rightarrow> (bool \<times> clients_world) outcome" where
  "client_Invoke now mark m cb c w =
     outcome_bind (GetClientStatus c w) (\<lambda>st.
       if st \<noteq> kWorking
       then map_sum id (Pair False) (SetNoBuzy c (w\<lparr>called_back := called_back w @ [(cb, m\<lparr>status := kInvokeError\<rparr>)]\<rparr>))
       else case GetSequenceId w of (sid, w1) \<Rightarrow>
         Inr (True, snd (client_DoSend now
           (m\<lparr>sequence_id := word_of_int sid, descriptor_id := sint (connect_addr c), direction := kOutgoingRequest,
              ctx := Some \<lparr>monitor_id = mark, callback = Some cb\<rparr>\<rparr>) w1)))"

text \<open>SendRecieve up to DoRecieve: the request that is to be waited for, if there is one.\<close>

definition client_SendRecieve :: "u64 \<Rightarrow> message \<Rightarrow> client \<Rightarrow> clients_world \<Rightarrow> (message option \<times> clients_world) outcome" where
  "client_SendRecieve now m c w =
     outcome_bind (GetClientStatus c w) (\<lambda>st.
       if st \<noteq> kWorking then map_sum id (Pair None) (SetNoBuzy c (w\<lparr>destroyed := destroyed w @ [m]\<rparr>))
       else case GetSequenceId w of (sid, w1) \<Rightarrow>
         let m1 = m\<lparr>sequence_id := word_of_int sid, descriptor_id := sint (connect_addr c), direction := kOutgoingRequest\<rparr>
         in if for_test w1 then Inr (None, snd (client_DoSend now (one_way m1) w1))
            else case client_DoSend now m1 w1 of (m2, w2) \<Rightarrow> Inr (Some m2, w2))"

section \<open>Routers\<close>

record router =
  clients :: "client list"
  rt_current :: u32
  rt_single :: bool

text \<open>\<open>int idx = current_++; clients_[idx % clients_.size()]\<close>: a negative idx becomes an unsigned 64-bit number.\<close>

definition pick :: "u32 \<Rightarrow> nat \<Rightarrow> nat" where
  "pick cur n = unat (scast cur :: u64) mod n"

fun valid_loop :: "nat \<Rightarrow> router \<Rightarrow> clients_world \<Rightarrow> (client option \<times> router \<times> clients_world) outcome" where
  "valid_loop 0 r w = Inr (None, r, w)"
| "valid_loop (Suc k) r w =
     (let c = clients r ! pick (rt_current r) (length (clients r));
          r1 = r\<lparr>rt_current := rt_current r + 1\<rparr>
      in outcome_bind (GetClientStatus c w) (\<lambda>st.
           if st \<noteq> kWorking then valid_loop k r1 w
           else outcome_bind (TrySetBusy c w) (\<lambda>(ok, w1).
             if ok then Inr (Some c, r1, w1) else valid_loop k r1 w1)))"

definition GetValidClient :: "router \<Rightarrow> clients_world \<Rightarrow> (client option \<times> router \<times> clients_world) outcome" where
  "GetValidClient r w = valid_loop (length (clients r)) r w"

definition router_Send :: "u64 \<Rightarrow> message \<Rightarrow> router \<Rightarrow> clients_world \<Rightarrow> (bool \<times> router \<times> clients_world) outcome" where
  "router_Send now m r w =
     outcome_bind (GetValidClient r w) (\<lambda>(cli, r1, w1).
       case cli of
         None \<Rightarrow> Inr (False, r1, w1\<lparr>destroyed := destroyed w1 @ [m]\<rparr>)
       | Some c \<Rightarrow> map_sum id (\<lambda>(ok, w2). (ok, r1, w2)) (client_Send now m c w1))"

definition router_Invoke :: "u64 \<Rightarrow> u64 \<Rightarrow> message \<Rightarrow> nat \<Rightarrow> router \<Rightarrow> clients_world \<Rightarrow> (bool \<times> router \<times> clients_world) outcome" where
  "router_Invoke now mark m cb r w =
     outcome_bind (GetValidClient r w) (\<lambda>(cli, r1, w1).
       case cli of
         None \<Rightarrow> Inr (False, r1, w1\<lparr>called_back := called_back w1 @ [(cb, m\<lparr>status := kInvokeError\<rparr>)]\<rparr>)
       | Some c \<Rightarrow> map_sum id (\<lambda>(ok, w2). (ok, r1, w2)) (client_Invoke now mark m cb c w1))"

definition router_SendRecieve :: "u64 \<Rightarrow> message \<Rightarrow> router \<Rightarrow> clients_world \<Rightarrow> (message option \<times> router \<times> clients_world) outcome" where
  "router_SendRecieve now m r w =
     outcome_bind (GetValidClient r w) (\<lambda>(cli, r1, w1).
       case cli of
         None \<Rightarrow> Inr (None, r1, w1\<lparr>destroyed := destroyed w1 @ [m]\<rparr>)
       | Some c \<Rightarrow> map_sum id (\<lambda>(ok, w2). (ok, r1, w2)) (client_SendRecieve now m c w1))"

text \<open>A group of routers takes them in turn, or by a hash.\<close>

record routers =
  client_routers :: "router list"
  rts_current :: u32

definition at_router :: "nat \<Rightarrow> (router \<Rightarrow> ('a \<times> router \<times> clients_world) outcome) \<Rightarrow> routers \<Rightarrow> ('a \<times> routers \<times> clients_world) outcome" where
  "at_router i act g = map_sum id (\<lambda>(x, r, w). (x, g\<lparr>client_routers := (client_routers g)[i := r]\<rparr>, w)) (act (client_routers g ! i))"

definition by_turn :: "(router \<Rightarrow> ('a \<times> router \<times> clients_world) outcome) \<Rightarrow> routers \<Rightarrow> ('a \<times> routers \<times> clients_world) outcome" where
  "by_turn act g =
     (if client_routers g = [] then Inl Division_By_Zero
      else at_router (pick (rts_current g) (length (client_routers g))) act (g\<lparr>rts_current := rts_current g + 1\<rparr>))"

definition by_turn_unsigned :: "(router \<Rightarrow> ('a \<times> router \<times> clients_world) outcome) \<Rightarrow> routers \<Rightarrow> ('a \<times> routers \<times> clients_world) outcome" where
  "by_turn_unsigned act g =
     (if client_routers g = [] then Inl Division_By_Zero
      else at_router (unat (rts_current g) mod length (client_routers g)) act (g\<lparr>rts_current := rts_current g + 1\<rparr>))"

definition by_hash :: "u32 \<Rightarrow> (router \<Rightarrow> ('a \<times> router \<times> clients_world) outcome) \<Rightarrow> routers \<Rightarrow> ('a \<times> routers \<times> clients_world) outcome" where
  "by_hash hash act g =
     (if client_routers g = [] then Inl Division_By_Zero
      else at_router (unat hash mod length (client_routers g)) act g)"

definition routers_Send :: "u64 \<Rightarrow> message \<Rightarrow> clients_world \<Rightarrow> routers \<Rightarrow> (bool \<times> routers \<times> clients_world) outcome" where
  "routers_Send now m w = by_turn (\<lambda>r. router_Send now m r w)"

definition routers_SendHash :: "u64 \<Rightarrow> message \<Rightarrow> u32 \<Rightarrow> clients_world \<Rightarrow> routers \<Rightarrow> (bool \<times> routers \<times> clients_world) outcome" where
  "routers_SendHash now m hash w = by_hash hash (\<lambda>r. router_Send now m r w)"

definition routers_Invoke :: "u64 \<Rightarrow> u64 \<Rightarrow> message \<Rightarrow> nat \<Rightarrow> clients_world \<Rightarrow> routers \<Rightarrow> (bool \<times> routers \<times> clients_world) outcome" where
  "routers_Invoke now mark m cb w = by_turn (\<lambda>r. router_Invoke now mark m cb r w)"

definition routers_InvokeHash :: "u64 \<Rightarrow> u64 \<Rightarrow> message \<Rightarrow> nat \<Rightarrow> u32 \<Rightarrow> clients_world \<Rightarrow> routers \<Rightarrow> (bool \<times> routers \<times> clients_world) outcome" where
  "routers_InvokeHash now mark m cb hash w = by_hash hash (\<lambda>r. router_Invoke now mark m cb r w)"

definition routers_SendRecieve :: "u64 \<Rightarrow> message \<Rightarrow> clients_world \<Rightarrow> routers \<Rightarrow> (message option \<times> routers \<times> clients_world) outcome" where
  "routers_SendRecieve now m w = by_turn_unsigned (\<lambda>r. router_SendRecieve now m r w)"

definition routers_SendRecieveHash :: "u64 \<Rightarrow> message \<Rightarrow> u32 \<Rightarrow> clients_world \<Rightarrow> routers \<Rightarrow> (message option \<times> routers \<times> clients_world) outcome" where
  "routers_SendRecieveHash now m hash w = by_hash hash (\<lambda>r. router_SendRecieve now m r w)"

section \<open>The manager\<close>

type_synonym router_maps = "string \<rightharpoonup> routers"

datatype call =
    C_Send | C_SendHash u32 | C_Invoke u64 nat | C_InvokeHash u64 nat u32

text \<open>ClientMgr::Send, SendHash and the two Invoke: the router's group by name, or no one.\<close>

definition at_group :: "string \<Rightarrow> 'a \<Rightarrow> clients_world \<Rightarrow> (routers \<Rightarrow> ('a \<times> routers \<times> clients_world) outcome) \<Rightarrow> router_maps \<Rightarrow>
    ('a \<times> router_maps \<times> clients_world) outcome" where
  "at_group name missing w_missing act g =
     (case g name of
        None \<Rightarrow> Inr (missing, g, w_missing)
      | Some rs \<Rightarrow> map_sum id (\<lambda>(x, rs', w). (x, g(name \<mapsto> rs'), w)) (act rs))"

definition unsent :: "call \<Rightarrow> message \<Rightarrow> clients_world \<Rightarrow> clients_world" where
  "unsent k m w =
     (case k of
        C_Send \<Rightarrow> w\<lparr>destroyed := destroyed w @ [m]\<rparr>
      | C_SendHash hash \<Rightarrow> w\<lparr>destroyed := destroyed w @ [m]\<rparr>
      | C_Invoke mark cb \<Rightarrow> w\<lparr>called_back := called_back w @ [(cb, m\<lparr>status := kInvokeError\<rparr>)]\<rparr>
      | C_InvokeHash mark cb hash \<Rightarrow> w\<lparr>called_back := called_back w @ [(cb, m\<lparr>status := kInvokeError\<rparr>)]\<rparr>)"

definition mgr_call :: "u64 \<Rightarrow> string \<Rightarrow> call \<Rightarrow> message \<Rightarrow> router_maps \<Rightarrow> clients_world \<Rightarrow> (bool \<times> router_maps \<times> clients_world) outcome" where
  "mgr_call now name k m g w =
     at_group name False (unsent k m w)
       (case k of
          C_Send \<Rightarrow> routers_Send now m w
        | C_SendHash hash \<Rightarrow> routers_SendHash now m hash w
        | C_Invoke mark cb \<Rightarrow> routers_Invoke now mark m cb w
        | C_InvokeHash mark cb hash \<Rightarrow> routers_InvokeHash now mark m cb hash w) g"

definition mgr_SendRecieve :: "u64 \<Rightarrow> string \<Rightarrow> u32 option \<Rightarrow> message \<Rightarrow> router_maps \<Rightarrow> clients_world \<Rightarrow>
    (message option \<times> router_maps \<times> clients_world) outcome" where
  "mgr_SendRecieve now name hash m g w =
     at_group name None (w\<lparr>destroyed := destroyed w @ [m]\<rparr>)
       (case hash of None \<Rightarrow> routers_SendRecieve now m w | Some h \<Rightarrow> routers_SendRecieveHash now m h w) g"

section \<open>The next free client\<close>

text \<open>A client that was started has a connection that exists; it is free when that is connected and not busy.\<close>

definition client_ok :: "client \<Rightarrow> clients_world \<Rightarrow> bool" where
  "client_ok c w \<longleftrightarrow> connect_addr c \<noteq> 0 \<and> cons w (connect_addr c) \<noteq> None"

definition client_free :: "client \<Rightarrow> clients_world \<Rightarrow> bool" where
  "client_free c w \<longleftrightarrow>
     (case cons w (connect_addr c) of
        None \<Rightarrow> False
      | Some v \<Rightarrow> cv_status v = kConnected \<and> (cl_single c \<and> cv_sync v \<and> cv_single v \<longrightarrow> \<not> cv_buzy v))"

text \<open>Marks of connections may differ, nothing else.\<close>

definition marks_only :: "clients_world \<Rightarrow> clients_world \<Rightarrow> bool" where
  "marks_only w w' \<longleftrightarrow> dom (cons w') = dom (cons w) \<and> w' = w\<lparr>cons := cons w'\<rparr>"

lemma marks_only_refl [simp]: "marks_only w w"
  by (simp add: marks_only_def)

lemma marks_only_upd: "cons w a \<noteq> None \<Longrightarrow> marks_only w (w\<lparr>cons := (cons w)(a \<mapsto> v)\<rparr>)"
  by (auto simp: marks_only_def)

lemma marks_onlyD:
  assumes "marks_only w w'"
  shows "to_net w' = to_net w" "destroyed w' = destroyed w" "called_back w' = called_back w" "seq_counter w' = seq_counter w"
    "client_ok c w' = client_ok c w"
proof -
  have w': "w' = w\<lparr>cons := cons w'\<rparr>" "dom (cons w') = dom (cons w)" using assms by (simp_all add: marks_only_def)
  show "to_net w' = to_net w" "destroyed w' = destroyed w" "called_back w' = called_back w" "seq_counter w' = seq_counter w"
    by (subst w'(1), simp)+
  show "client_ok c w' = client_ok c w" using w'(2) unfolding client_ok_def by blast
qed

lemma try_client:
  assumes "client_ok c w"
  shows "\<exists>st. GetClientStatus c w = Inr st \<and>
     (if client_free c w then st = kWorking \<and> (\<exists>w'. TrySetBusy c w = Inr (True, w') \<and> marks_only w w')
      else st \<noteq> kWorking \<or> TrySetBusy c w = Inr (False, w))"
proof -
  from assms obtain v where a: "connect_addr c \<noteq> 0" and v: "cons w (connect_addr c) = Some v" by (auto simp: client_ok_def)
  have ne: "kWorking \<noteq> client_kBroken" by (simp add: kWorking_def client_kBroken_def)
  have m: "marks_only w (w\<lparr>cons := (cons w)(connect_addr c \<mapsto> v\<lparr>cv_buzy := True\<rparr>)\<rparr>)" using v by (simp add: marks_only_upd)
  show ?thesis
    using a v ne m
    by (auto simp: GetClientStatus_def at_con_def client_free_def TrySetBusy_def con_TrySetBuzy_def)
qed

lemma pick_small: "unat cur < 2 ^ 31 \<Longrightarrow> pick cur n = unat cur mod n"
proof -
  assume cur: "unat cur < 2 ^ 31"
  have "int (unat cur) < int (2 ^ 31)" using cur by (simp only: of_nat_less_iff)
  then have u: "uint cur < 2 ^ 31" by simp
  have "- (2 ^ 31) \<le> uint cur" by (rule order_trans [of _ 0]) simp_all
  from signed_take_bit_int_eq_self [OF this u] have "sint cur = uint cur" by (simp add: sint_uint)
  then have "(scast cur :: u64) = word_of_int (uint cur)" unfolding scast_eq by (rule arg_cong)
  then have "uint (scast cur :: u64) = take_bit LENGTH(64) (uint cur)" by (simp only: uint_word_of_int_eq)
  also have "\<dots> = uint cur" by (rule take_bit_int_eq_self) (use u in simp_all)
  finally show ?thesis by (simp only: pick_def unat_eq_nat_uint)
qed

lemma valid_loop_spec:
  "\<forall>c \<in> set (clients r). client_ok c w \<Longrightarrow> clients r \<noteq> [] \<Longrightarrow> unat (rt_current r) + k \<le> 2 ^ 31 \<Longrightarrow>
     \<exists>r' w'. valid_loop k r w =
         Inr (find (\<lambda>c. client_free c w) (map (\<lambda>j. clients r ! ((unat (rt_current r) + j) mod length (clients r))) [0..<k]), r', w') \<and>
       clients r' = clients r \<and> marks_only w w'"
proof (induction k arbitrary: r)
  case (Suc k)
  let ?n = "length (clients r)" and ?cur = "unat (rt_current r)"
  define c where "c = clients r ! (?cur mod ?n)"
  define r1 where "r1 = r\<lparr>rt_current := rt_current r + 1\<rparr>"
  have p: "pick (rt_current r) ?n = ?cur mod ?n" using Suc.prems(3) by (intro pick_small) simp
  have nx: "unat (rt_current r1) = Suc ?cur"
  proof -
    have "unat (rt_current r) + 1 < 2 ^ 32" using Suc.prems(3) by simp
    then show ?thesis by (simp add: r1_def unat_word_ariths)
  qed
  have ok: "client_ok c w" using Suc.prems(1,2) by (simp add: c_def)
  have split: "map (\<lambda>j. clients r ! ((?cur + j) mod ?n)) [0..<Suc k] =
      c # map (\<lambda>j. clients r1 ! ((unat (rt_current r1) + j) mod length (clients r1))) [0..<k]"
    by (simp add: upt_conv_Cons map_Suc_upt [symmetric] comp_def nx c_def del: upt_Suc map_Suc_upt) (simp add: r1_def)
  from Suc.IH [of r1] Suc.prems nx obtain r' w' where
    IH: "valid_loop k r1 w = Inr (find (\<lambda>c. client_free c w) (map (\<lambda>j. clients r1 ! ((unat (rt_current r1) + j) mod length (clients r1))) [0..<k]), r', w')"
      "clients r' = clients r" "marks_only w w'" by (auto simp: r1_def)
  from try_client [OF ok] obtain st where st: "GetClientStatus c w = Inr st" and
    t: "if client_free c w then st = kWorking \<and> (\<exists>w'. TrySetBusy c w = Inr (True, w') \<and> marks_only w w')
        else st \<noteq> kWorking \<or> TrySetBusy c w = Inr (False, w)" by blast
  have body: "valid_loop (Suc k) r w =
      (if st \<noteq> kWorking then valid_loop k r1 w
       else outcome_bind (TrySetBusy c w) (\<lambda>(ok, w1). if ok then Inr (Some c, r1, w1) else valid_loop k r1 w1))"
    by (simp add: Let_def p c_def [symmetric] r1_def [symmetric] st)
  show ?case
  proof (cases "client_free c w")
    case True
    with t obtain w2 where "st = kWorking" "TrySetBusy c w = Inr (True, w2)" "marks_only w w2" by auto
    then show ?thesis unfolding split body by (simp add: True) (simp add: r1_def)
  next
    case False
    with t IH have "valid_loop (Suc k) r w = valid_loop k r1 w" unfolding body by auto
    with False IH show ?thesis unfolding split by simp
  qed
qed simp

lemma rotate_as_map: "xs \<noteq> [] \<Longrightarrow> map (\<lambda>j. xs ! ((m + j) mod length xs)) [0..<length xs] = rotate m xs"
  by (rule nth_equalityI) (simp_all add: nth_rotate)

definition router_ok :: "router \<Rightarrow> clients_world \<Rightarrow> bool" where
  "router_ok r w \<longleftrightarrow> (\<forall>c \<in> set (clients r). client_ok c w)"

text \<open>C28. GetValidClient takes the next free client in turn: beginning with the client the counter stands at, the first
  that is connected and not busy with a request, each client being asked once; no client only if none is free. Nothing
  changes but the counter and the busy mark of the one that is taken. (For the first 2 to the 31 calls: see the end of the theory.)\<close>

theorem GetValidClient_takes_next_free:
  assumes "router_ok r w" "unat (rt_current r) + length (clients r) \<le> 2 ^ 31"
  shows "\<exists>r' w'. GetValidClient r w = Inr (find (\<lambda>c. client_free c w) (rotate (unat (rt_current r)) (clients r)), r', w') \<and>
     clients r' = clients r \<and> marks_only w w'"
proof (cases "clients r = []")
  case True
  then show ?thesis by (simp add: GetValidClient_def)
next
  case False
  from valid_loop_spec [of r w "length (clients r)"] assms False show ?thesis
    unfolding GetValidClient_def rotate_as_map [OF False] router_ok_def by blast
qed

definition one_client :: client where
  "one_client = \<lparr>cl_address = ''rapid://10.0.0.1:80'', cl_timeout_ms = 500, cl_heartbeat_ms = 0, connect_addr = 64, cl_single = False\<rparr>"

definition two_connected :: clients_world where
  "two_connected = \<lparr>cons = [64 \<mapsto> \<lparr>cv_status = kBroken, cv_buzy = False, cv_single = True, cv_sync = True, cv_id = 0\<rparr>,
       128 \<mapsto> \<lparr>cv_status = kConnected, cv_buzy = False, cv_single = True, cv_sync = True, cv_id = 1\<rparr>], seq_counter = 0, con_counter = 2,
     service_coro = None, for_test = False, to_net = [], destroyed = [], called_back = []\<rparr>"

theorem GetValidClient_takes_next_free_witness:
  "\<exists>r' w'. GetValidClient \<lparr>clients = [one_client, one_client\<lparr>connect_addr := 128\<rparr>], rt_current = 0, rt_single = True\<rparr> two_connected = Inr (Some (one_client\<lparr>connect_addr := 128\<rparr>), r', w') \<and>
     marks_only two_connected w'"
proof -
  let ?r = "\<lparr>clients = [one_client, one_client\<lparr>connect_addr := 128\<rparr>], rt_current = 0, rt_single = True\<rparr>"
  have "router_ok ?r two_connected" by (simp add: router_ok_def client_ok_def one_client_def two_connected_def)
  moreover have "unat (rt_current ?r) + length (clients ?r) \<le> 2 ^ 31" by simp
  moreover have "find (\<lambda>c. client_free c two_connected) (rotate (unat (rt_current ?r)) (clients ?r)) = Some (one_client\<lparr>connect_addr := 128\<rparr>)"
    by (simp add: client_free_def one_client_def two_connected_def client_consts)
  ultimately show ?thesis using GetValidClient_takes_next_free [of ?r two_connected] by auto
qed

section \<open>Every message is accounted for\<close>

text \<open>
  The fate of a message: sent, with the same content, destroyed, or returned to its callback with the status of a
  failed call.
\<close>

definition fate :: "nat option \<Rightarrow> message \<Rightarrow> bool \<Rightarrow> clients_world \<Rightarrow> clients_world \<Rightarrow> bool" where
  "fate cb m ok w w' \<longleftrightarrow>
     (if ok then \<exists>m'. to_net w' = to_net w @ [m'] \<and> type_id m' = type_id m \<and> payload m' = payload m \<and>
                   destroyed w' = destroyed w \<and> called_back w' = called_back w
      else to_net w' = to_net w \<and>
        (case cb of
           None \<Rightarrow> destroyed w' = destroyed w @ [m] \<and> called_back w' = called_back w
         | Some f \<Rightarrow> destroyed w' = destroyed w \<and> called_back w' = called_back w @ [(f, m\<lparr>status := kInvokeError\<rparr>)]))"

definition same_cons :: "clients_world \<Rightarrow> clients_world \<Rightarrow> bool" where
  "same_cons w w' \<longleftrightarrow> dom (cons w') = dom (cons w)"

lemma client_ok_same: "same_cons w w' \<Longrightarrow> client_ok c w' = client_ok c w"
  unfolding same_cons_def client_ok_def by blast

lemma fate_marks: "marks_only w w1 \<Longrightarrow> fate cb m ok w1 w' \<Longrightarrow> fate cb m ok w w'"
  by (simp add: fate_def marks_onlyD cong: if_cong option.case_cong)

lemma marks_same: "marks_only w w' \<Longrightarrow> same_cons w w'"
  by (simp add: marks_only_def same_cons_def)

lemma same_trans: "same_cons w w1 \<Longrightarrow> same_cons w1 w2 \<Longrightarrow> same_cons w w2"
  by (simp add: same_cons_def)

lemma con_SetBuzy_ok:
  assumes "a \<noteq> 0" "cons w a \<noteq> None"
  shows "\<exists>w'. con_SetBuzy a b w = Inr w' \<and> marks_only w w'"
  using assms by (auto simp: con_SetBuzy_def at_con_def marks_only_upd)

lemma SetNoBuzy_ok: "client_ok c w \<Longrightarrow> \<exists>w'. SetNoBuzy c w = Inr w' \<and> marks_only w w'"
  using con_SetBuzy_ok [of "connect_addr c" w False] by (auto simp: SetNoBuzy_def client_ok_def)

lemma GetSequenceId_keeps:
  "GetSequenceId w = (s, w') \<Longrightarrow> cons w' = cons w \<and> to_net w' = to_net w \<and> destroyed w' = destroyed w \<and> called_back w' = called_back w"
  by (auto simp: GetSequenceId_def Let_def)

lemma client_DoSend_adds:
  "\<exists>m' w'. client_DoSend now m w = (m', w') \<and> to_net w' = to_net w @ [m'] \<and> type_id m' = type_id m \<and> payload m' = payload m \<and>
     destroyed w' = destroyed w \<and> called_back w' = called_back w \<and> cons w' = cons w \<and> sequence_id m' = sequence_id m"
  by (auto simp: client_DoSend_def Let_def split: option.splits)

lemma fate_sent:
  "to_net w' = to_net w @ [m'] \<Longrightarrow> type_id m' = type_id m \<Longrightarrow> payload m' = payload m \<Longrightarrow> destroyed w' = destroyed w \<Longrightarrow>
     called_back w' = called_back w \<Longrightarrow> fate cb m True w w'"
  by (simp add: fate_def)

lemma status_cases:
  assumes "client_ok c w"
  obtains "GetClientStatus c w = Inr kWorking" | st where "GetClientStatus c w = Inr st" "st \<noteq> kWorking"
  using try_client [OF assms] by blast

lemma client_Send_fate:
  assumes "client_ok c w"
  shows "\<exists>ok w'. client_Send now m c w = Inr (ok, w') \<and> fate None m ok w w' \<and> same_cons w w'"
proof (rule status_cases [OF assms])
  assume "GetClientStatus c w = Inr kWorking"
  note st = this
  obtain m' w' where d: "client_DoSend now (one_way (m\<lparr>descriptor_id := sint (connect_addr c)\<rparr>)) w = (m', w')" "to_net w' = to_net w @ [m']"
      "type_id m' = type_id m" "payload m' = payload m" "destroyed w' = destroyed w" "called_back w' = called_back w" "cons w' = cons w"
    using client_DoSend_adds [of now "one_way (m\<lparr>descriptor_id := sint (connect_addr c)\<rparr>)" w] unfolding one_way_def by auto
  have "client_Send now m c w = Inr (True, w')" using st d(1) by (simp add: client_Send_def)
  with fate_sent [OF d(2-6), of None] d(7) show ?thesis by (intro exI [of _ True] exI [of _ w']) (simp add: same_cons_def)
next
  fix st assume st: "GetClientStatus c w = Inr st" "st \<noteq> kWorking"
  have "client_ok c (w\<lparr>destroyed := destroyed w @ [m]\<rparr>)" using assms by (simp add: client_ok_def)
  from SetNoBuzy_ok [OF this] obtain w' where w': "SetNoBuzy c (w\<lparr>destroyed := destroyed w @ [m]\<rparr>) = Inr w'"
      "marks_only (w\<lparr>destroyed := destroyed w @ [m]\<rparr>) w'" by blast
  then show ?thesis using st marks_onlyD [OF w'(2)] marks_same [OF w'(2)]
    by (intro exI [of _ False] exI [of _ w']) (simp add: client_Send_def fate_def same_cons_def)
qed

lemma client_Invoke_fate:
  assumes "client_ok c w"
  shows "\<exists>ok w'. client_Invoke now mark m cb c w = Inr (ok, w') \<and> fate (Some cb) m ok w w' \<and> same_cons w w'"
proof (rule status_cases [OF assms])
  assume st: "GetClientStatus c w = Inr kWorking"
  obtain s w1 where s: "GetSequenceId w = (s, w1)" by fastforce
  define m1 where "m1 = m\<lparr>sequence_id := word_of_int s, descriptor_id := sint (connect_addr c), direction := kOutgoingRequest,
    ctx := Some \<lparr>monitor_id = mark, callback = Some cb\<rparr>\<rparr>"
  have "type_id m1 = type_id m" "payload m1 = payload m" by (simp_all add: m1_def)
  with GetSequenceId_keeps [OF s] obtain m' w' where d: "client_DoSend now m1 w1 = (m', w')" "to_net w' = to_net w @ [m']"
      "type_id m' = type_id m" "payload m' = payload m" "destroyed w' = destroyed w" "called_back w' = called_back w" "cons w' = cons w"
    using client_DoSend_adds [of now m1 w1] by metis
  have "client_Invoke now mark m cb c w = Inr (True, w')" using st s d(1) by (simp add: client_Invoke_def m1_def)
  with fate_sent [OF d(2-6), of "Some cb"] d(7) show ?thesis by (intro exI [of _ True] exI [of _ w']) (simp add: same_cons_def)
next
  fix st assume st: "GetClientStatus c w = Inr st" "st \<noteq> kWorking"
  define w0 where "w0 = w\<lparr>called_back := called_back w @ [(cb, m\<lparr>status := kInvokeError\<rparr>)]\<rparr>"
  have "client_ok c w0" using assms by (simp add: client_ok_def w0_def)
  from SetNoBuzy_ok [OF this] obtain w' where w': "SetNoBuzy c w0 = Inr w'" "marks_only w0 w'" by blast
  then show ?thesis using st marks_onlyD [OF w'(2)] marks_same [OF w'(2)]
    by (intro exI [of _ False] exI [of _ w']) (simp add: client_Invoke_def w0_def [symmetric], simp add: fate_def same_cons_def w0_def)
qed

text \<open>Of SendRecieve: the request that is waited for was sent; without one it was destroyed (or sent one way, in the test mode).\<close>

lemma client_SendRecieve_fate:
  assumes "client_ok c w" "\<not> for_test w"
  shows "\<exists>req w'. client_SendRecieve now m c w = Inr (req, w') \<and> fate None m (req \<noteq> None) w w' \<and> same_cons w w' \<and>
     (\<forall>r. req = Some r \<longrightarrow> to_net w' = to_net w @ [r])"
proof (rule status_cases [OF assms(1)])
  assume st: "GetClientStatus c w = Inr kWorking"
  obtain s w1 where s: "GetSequenceId w = (s, w1)" by fastforce
  then have "\<not> for_test w1" using assms(2) by (auto simp: GetSequenceId_def Let_def split: if_splits)
  define m1 where "m1 = m\<lparr>sequence_id := word_of_int s, descriptor_id := sint (connect_addr c), direction := kOutgoingRequest\<rparr>"
  have "type_id m1 = type_id m" "payload m1 = payload m" by (simp_all add: m1_def)
  with GetSequenceId_keeps [OF s] obtain m' w' where d: "client_DoSend now m1 w1 = (m', w')" "to_net w' = to_net w @ [m']"
      "type_id m' = type_id m" "payload m' = payload m" "destroyed w' = destroyed w" "called_back w' = called_back w" "cons w' = cons w"
    using client_DoSend_adds [of now m1 w1] by metis
  have "client_SendRecieve now m c w = Inr (Some m', w')"
    using st s \<open>\<not> for_test w1\<close> d(1) by (simp add: client_SendRecieve_def m1_def Let_def)
  with fate_sent [OF d(2-6), of None] d(2,7) show ?thesis unfolding same_cons_def by auto
next
  fix st assume st: "GetClientStatus c w = Inr st" "st \<noteq> kWorking"
  define w0 where "w0 = w\<lparr>destroyed := destroyed w @ [m]\<rparr>"
  have "client_ok c w0" using assms by (simp add: client_ok_def w0_def)
  from SetNoBuzy_ok [OF this] obtain w' where w': "SetNoBuzy c w0 = Inr w'" "marks_only w0 w'" by blast
  then show ?thesis using st marks_onlyD [OF w'(2)] marks_same [OF w'(2)]
    by (intro exI [of _ None] exI [of _ w']) (simp add: client_SendRecieve_def w0_def [symmetric], simp add: fate_def same_cons_def w0_def)
qed

text \<open>A router: whichever client is taken, the message has its fate.\<close>

lemma taken_client:
  assumes "router_ok r w" "unat (rt_current r) + length (clients r) \<le> 2 ^ 31"
  obtains cli r' w' where "GetValidClient r w = Inr (cli, r', w')" "clients r' = clients r" "marks_only w w'"
    "\<And>c. cli = Some c \<Longrightarrow> client_ok c w'"
proof (cases "clients r = []")
  case True
  then show ?thesis using that [of None r w] by (simp add: GetValidClient_def)
next
  case False
  let ?find = "find (\<lambda>c. client_free c w) (map (\<lambda>j. clients r ! ((unat (rt_current r) + j) mod length (clients r))) [0..<length (clients r)])"
  from valid_loop_spec [of r w "length (clients r)"] assms False obtain r' w' where
    v: "GetValidClient r w = Inr (?find, r', w')" "clients r' = clients r" "marks_only w w'"
    unfolding GetValidClient_def router_ok_def by blast
  have "client_ok c w'" if "?find = Some c" for c
  proof -
    from that have "c \<in> set (clients r)" unfolding rotate_as_map [OF False] by (metis find_Some_iff nth_mem set_rotate)
    with assms(1) marks_onlyD(5) [OF v(3)] show ?thesis by (simp add: router_ok_def)
  qed
  with that v show ?thesis by blast
qed

lemma unsent_fates:
  "fate None m False w (w\<lparr>destroyed := destroyed w @ [m]\<rparr>)"
  "fate (Some cb) m False w (w\<lparr>called_back := called_back w @ [(cb, m\<lparr>status := kInvokeError\<rparr>)]\<rparr>)"
  by (simp_all add: fate_def)

lemma unsent_same [simp]:
  "same_cons w (w\<lparr>destroyed := x\<rparr>)" "same_cons w (w\<lparr>called_back := y\<rparr>)"
  by (simp_all add: same_cons_def)

text \<open>A router answers, keeps its clients, and the answer and the new state are as stated.\<close>

definition answers :: "('a \<Rightarrow> clients_world \<Rightarrow> bool) \<Rightarrow> ('a \<times> router \<times> clients_world) outcome \<Rightarrow> router \<Rightarrow> bool" where
  "answers P res r \<longleftrightarrow> (\<exists>x r' w'. res = Inr (x, r', w') \<and> P x w' \<and> clients r' = clients r)"

abbreviation meets_fate :: "nat option \<Rightarrow> message \<Rightarrow> clients_world \<Rightarrow> bool \<Rightarrow> clients_world \<Rightarrow> bool" where
  "meets_fate cb m w \<equiv> \<lambda>ok w'. fate cb m ok w w' \<and> same_cons w w'"

text \<open>A request that is to be waited for was sent; without one the message was destroyed.\<close>

abbreviation meets_request :: "message \<Rightarrow> clients_world \<Rightarrow> message option \<Rightarrow> clients_world \<Rightarrow> bool" where
  "meets_request m w \<equiv> \<lambda>req w'. fate None m (req \<noteq> None) w w' \<and> same_cons w w' \<and> (\<forall>r. req = Some r \<longrightarrow> to_net w' = to_net w @ [r])"

lemma router_Send_fate:
  assumes "router_ok r w" "unat (rt_current r) + length (clients r) \<le> 2 ^ 31"
  shows "answers (meets_fate None m w) (router_Send now m r w) r"
proof (rule taken_client [OF assms])
  fix cli r' w' assume v: "GetValidClient r w = Inr (cli, r', w')" "clients r' = clients r" "marks_only w w'" "\<And>c. cli = Some c \<Longrightarrow> client_ok c w'"
  show ?thesis
  proof (cases cli)
    case None
    with v(1,2) fate_marks [OF v(3) unsent_fates(1)] same_trans [OF marks_same [OF v(3)] unsent_same(1)] show ?thesis
      unfolding answers_def router_Send_def by auto
  next
    case (Some c)
    from client_Send_fate [OF v(4) [OF Some]] obtain ok w2 where
      f: "client_Send now m c w' = Inr (ok, w2)" "fate None m ok w' w2" "same_cons w' w2" by blast
    with v(1,2) Some fate_marks [OF v(3) f(2)] same_trans [OF marks_same [OF v(3)] f(3)] show ?thesis
      unfolding answers_def router_Send_def by auto
  qed
qed

lemma router_Invoke_fate:
  assumes "router_ok r w" "unat (rt_current r) + length (clients r) \<le> 2 ^ 31"
  shows "answers (meets_fate (Some cb) m w) (router_Invoke now mark m cb r w) r"
proof (rule taken_client [OF assms])
  fix cli r' w' assume v: "GetValidClient r w = Inr (cli, r', w')" "clients r' = clients r" "marks_only w w'" "\<And>c. cli = Some c \<Longrightarrow> client_ok c w'"
  show ?thesis
  proof (cases cli)
    case None
    with v(1,2) fate_marks [OF v(3) unsent_fates(2)] same_trans [OF marks_same [OF v(3)] unsent_same(2)] show ?thesis
      unfolding answers_def router_Invoke_def by auto
  next
    case (Some c)
    from client_Invoke_fate [OF v(4) [OF Some]] obtain ok w2 where
      f: "client_Invoke now mark m cb c w' = Inr (ok, w2)" "fate (Some cb) m ok w' w2" "same_cons w' w2" by blast
    with v(1,2) Some fate_marks [OF v(3) f(2)] same_trans [OF marks_same [OF v(3)] f(3)] show ?thesis
      unfolding answers_def router_Invoke_def by auto
  qed
qed

lemma router_SendRecieve_fate:
  assumes "router_ok r w" "unat (rt_current r) + length (clients r) \<le> 2 ^ 31" "\<not> for_test w"
  shows "answers (meets_request m w) (router_SendRecieve now m r w) r"
proof (rule taken_client [OF assms(1,2)])
  fix cli r' w' assume v: "GetValidClient r w = Inr (cli, r', w')" "clients r' = clients r" "marks_only w w'" "\<And>c. cli = Some c \<Longrightarrow> client_ok c w'"
  have "w' = w\<lparr>cons := cons w'\<rparr>" using v(3) by (simp add: marks_only_def)
  then have test: "\<not> for_test w'" using assms(3) by (metis clients_world.select_convs(5) clients_world.update_convs(1) clients_world.surjective)
  show ?thesis
  proof (cases cli)
    case None
    with v(1,2) fate_marks [OF v(3) unsent_fates(1)] same_trans [OF marks_same [OF v(3)] unsent_same(1)] show ?thesis
      unfolding answers_def router_SendRecieve_def by auto
  next
    case (Some c)
    from client_SendRecieve_fate [OF v(4) [OF Some] test] obtain req w2 where
      f: "client_SendRecieve now m c w' = Inr (req, w2)" "fate None m (req \<noteq> None) w' w2" "same_cons w' w2"
        "\<forall>r. req = Some r \<longrightarrow> to_net w2 = to_net w' @ [r]" by blast
    have "router_SendRecieve now m r w = Inr (req, r', w2)" by (simp add: router_SendRecieve_def v(1) Some f(1))
    moreover have "meets_request m w req w2"
      using fate_marks [OF v(3) f(2)] same_trans [OF marks_same [OF v(3)] f(3)] f(4) marks_onlyD(1) [OF v(3)] by simp
    ultimately show ?thesis using v(2) unfolding answers_def by blast
  qed
qed

text \<open>A group, and all groups: well set up, with counters that have not run over.\<close>

definition routers_ok :: "routers \<Rightarrow> clients_world \<Rightarrow> bool" where
  "routers_ok g w \<longleftrightarrow> client_routers g \<noteq> [] \<and>
     (\<forall>r \<in> set (client_routers g). router_ok r w \<and> unat (rt_current r) + length (clients r) \<le> 2 ^ 31)"

definition groups_ok :: "router_maps \<Rightarrow> clients_world \<Rightarrow> bool" where
  "groups_ok g w \<longleftrightarrow> (\<forall>name rs. g name = Some rs \<longrightarrow> routers_ok rs w)"

definition call_cb :: "call \<Rightarrow> nat option" where
  "call_cb k = (case k of C_Send \<Rightarrow> None | C_SendHash hash \<Rightarrow> None | C_Invoke mark cb \<Rightarrow> Some cb | C_InvokeHash mark cb hash \<Rightarrow> Some cb)"

text \<open>What every router of a group answers, the group answers.\<close>

definition group_answers :: "('a \<Rightarrow> clients_world \<Rightarrow> bool) \<Rightarrow> ('a \<times> routers \<times> clients_world) outcome \<Rightarrow> routers \<Rightarrow> bool" where
  "group_answers P res g \<longleftrightarrow> (\<exists>x g' w'. res = Inr (x, g', w') \<and> P x w' \<and> map clients (client_routers g') = map clients (client_routers g))"

lemma at_router_answers:
  assumes "i < length (client_routers g)" "answers P (act (client_routers g ! i)) (client_routers g ! i)"
  shows "group_answers P (at_router i act g) g"
proof -
  from assms(2) obtain x r' w' where f: "act (client_routers g ! i) = Inr (x, r', w')" "P x w'" "clients r' = clients (client_routers g ! i)"
    unfolding answers_def by blast
  have "map clients ((client_routers g)[i := r']) = map clients (client_routers g)"
    using assms(1) f(3) by (simp add: map_update list_update_same_conv)
  with f(1,2) show ?thesis by (simp add: at_router_def group_answers_def)
qed

lemma group_answers_turn: "group_answers P res (g\<lparr>rts_current := c\<rparr>) = group_answers P res g"
  by (simp add: group_answers_def)

lemma group_law:
  assumes g: "client_routers g \<noteq> []" and act: "\<forall>r \<in> set (client_routers g). answers P (act r) r"
  shows "group_answers P (by_turn act g) g" "group_answers P (by_turn_unsigned act g) g" "group_answers P (by_hash hash act g) g"
proof -
  have "group_answers P (at_router i act (g\<lparr>rts_current := c\<rparr>)) g" "group_answers P (at_router i act g) g"
    if "i < length (client_routers g)" for i c
    using at_router_answers [of i "g\<lparr>rts_current := c\<rparr>" P act] at_router_answers [of i g P act] that act by (simp_all add: group_answers_turn)
  then show "group_answers P (by_turn act g) g" "group_answers P (by_turn_unsigned act g) g" "group_answers P (by_hash hash act g) g"
    using g by (simp_all add: by_turn_def by_turn_unsigned_def by_hash_def pick_def)
qed

lemma group_call_fate:
  assumes "routers_ok rs w"
  shows "group_answers (meets_fate (call_cb k) m w) ((case k of C_Send \<Rightarrow> routers_Send now m w | C_SendHash hash \<Rightarrow> routers_SendHash now m hash w
        | C_Invoke mark cb \<Rightarrow> routers_Invoke now mark m cb w | C_InvokeHash mark cb hash \<Rightarrow> routers_InvokeHash now mark m cb hash w) rs) rs"
proof -
  have ok: "client_routers rs \<noteq> []" "\<And>r. r \<in> set (client_routers rs) \<Longrightarrow> router_ok r w \<and> unat (rt_current r) + length (clients r) \<le> 2 ^ 31"
    using assms by (simp_all add: routers_ok_def)
  then have "\<forall>r \<in> set (client_routers rs). answers (meets_fate None m w) (router_Send now m r w) r"
    "\<forall>r \<in> set (client_routers rs). answers (meets_fate (Some cb) m w) (router_Invoke now mark m cb r w) r" for cb mark
    using router_Send_fate router_Invoke_fate by blast+
  from group_law [OF ok(1) this(1)] group_law [OF ok(1) this(2)] show ?thesis
    by (cases k) (simp_all add: call_cb_def routers_Send_def routers_SendHash_def routers_Invoke_def routers_InvokeHash_def)
qed

lemma group_request_fate:
  assumes "routers_ok rs w" "\<not> for_test w"
  shows "group_answers (meets_request m w)
     ((case hash of None \<Rightarrow> routers_SendRecieve now m w | Some h \<Rightarrow> routers_SendRecieveHash now m h w) rs) rs"
proof -
  have ok: "client_routers rs \<noteq> []" "\<And>r. r \<in> set (client_routers rs) \<Longrightarrow> router_ok r w \<and> unat (rt_current r) + length (clients r) \<le> 2 ^ 31"
    using assms(1) by (simp_all add: routers_ok_def)
  then have "\<forall>r \<in> set (client_routers rs). answers (meets_request m w) (router_SendRecieve now m r w) r"
    using router_SendRecieve_fate assms(2) by blast
  from group_law(2,3) [OF ok(1) this] show ?thesis
    by (cases hash) (simp_all add: routers_SendRecieve_def routers_SendRecieveHash_def)
qed

text \<open>The group's law carries over to the manager, which leaves the other groups alone.\<close>

lemma at_group_law:
  assumes "g name = None \<Longrightarrow> P missing w_missing" "\<And>rs. g name = Some rs \<Longrightarrow> group_answers P (act rs) rs"
  shows "\<exists>x g' w'. at_group name missing w_missing act g = Inr (x, g', w') \<and> P x w' \<and>
     (\<lambda>n. map_option (\<lambda>rs. map clients (client_routers rs)) (g' n)) = (\<lambda>n. map_option (\<lambda>rs. map clients (client_routers rs)) (g n))"
proof (cases "g name")
  case None
  with assms(1) show ?thesis by (simp add: at_group_def)
next
  case (Some rs)
  from assms(2) [OF this] obtain x rs' w' where
    r: "act rs = Inr (x, rs', w')" "P x w'" "map clients (client_routers rs') = map clients (client_routers rs)"
    unfolding group_answers_def by blast
  then have "at_group name missing w_missing act g = Inr (x, g(name \<mapsto> rs'), w')" using Some by (simp add: at_group_def)
  moreover have "(\<lambda>n. map_option (\<lambda>rs. map clients (client_routers rs)) ((g(name \<mapsto> rs')) n)) =
      (\<lambda>n. map_option (\<lambda>rs. map clients (client_routers rs)) (g n))" using Some r(3) by (simp add: fun_eq_iff)
  ultimately show ?thesis using r(2) by blast
qed

text \<open>The groups as they were set up: the clients by name and router.\<close>

definition grouped :: "router_maps \<Rightarrow> string \<rightharpoonup> client list list" where
  "grouped g = (\<lambda>name. map_option (\<lambda>rs. map clients (client_routers rs)) (g name))"

text \<open>C29. Where every group has a router, no client was stopped and no counter has run over, every message an application hands to
  ClientMgr meets exactly one fate. Of Send, SendHash and both forms of Invoke, either
  the call returns true, and a message with the same type and content was handed to the network and nothing else happened; or it
  returns false, nothing was sent, and the message was destroyed or, for Invoke, given to its callback with the status of a
  failed call. Of SendRecieve and SendRecieveHash, up to the waiting for the answer and outside the test mode, either the request that is waited for was handed
  to the network, with the same type and content, or there is none, and the message was destroyed. No connection appears or disappears, and the groups keep
  their clients.\<close>

theorem client_call_accounted:
  assumes "groups_ok g w"
  shows "(\<exists>ok g' w'. mgr_call now name k m g w = Inr (ok, g', w') \<and> fate (call_cb k) m ok w w' \<and> same_cons w w' \<and> grouped g' = grouped g) \<and>
     (\<not> for_test w \<longrightarrow> (\<exists>req g' w'. mgr_SendRecieve now name hash m g w = Inr (req, g', w') \<and> fate None m (req \<noteq> None) w w' \<and>
        (\<forall>r. req = Some r \<longrightarrow> to_net w' = to_net w @ [r]) \<and> same_cons w w' \<and> grouped g' = grouped g))"
proof (intro conjI impI)
  have ok: "\<And>rs. g name = Some rs \<Longrightarrow> routers_ok rs w" using assms by (simp add: groups_ok_def)
  have "fate (call_cb k) m False w (unsent k m w) \<and> same_cons w (unsent k m w)"
    using unsent_fates by (cases k) (simp_all add: unsent_def call_cb_def)
  from at_group_law [where P = "meets_fate (call_cb k) m w", OF this group_call_fate [OF ok]]
  show "\<exists>ok g' w'. mgr_call now name k m g w = Inr (ok, g', w') \<and> fate (call_cb k) m ok w w' \<and> same_cons w w' \<and> grouped g' = grouped g"
    unfolding mgr_call_def grouped_def by simp
  assume "\<not> for_test w"
  have "\<exists>req g' w'. mgr_SendRecieve now name hash m g w = Inr (req, g', w') \<and> meets_request m w req w' \<and> grouped g' = grouped g"
    unfolding mgr_SendRecieve_def grouped_def
    by (rule at_group_law) (use unsent_fates(1) in simp, rule group_request_fate [OF ok \<open>\<not> for_test w\<close>])
  then show "\<exists>req g' w'. mgr_SendRecieve now name hash m g w = Inr (req, g', w') \<and> fate None m (req \<noteq> None) w w' \<and>
        (\<forall>r. req = Some r \<longrightarrow> to_net w' = to_net w @ [r]) \<and> same_cons w w' \<and> grouped g' = grouped g"
    by (elim exE conjE) (intro exI conjI; assumption)
qed

definition one_group :: router_maps where
  "one_group = [''user'' \<mapsto> \<lparr>client_routers = [\<lparr>clients = [one_client], rt_current = 0, rt_single = False\<rparr>], rts_current = 0\<rparr>]"

definition one_connected :: clients_world where
  "one_connected = \<lparr>cons = [64 \<mapsto> \<lparr>cv_status = kConnected, cv_buzy = False, cv_single = False, cv_sync = False, cv_id = 0\<rparr>], seq_counter = 0, con_counter = 1,
     service_coro = None, for_test = False, to_net = [], destroyed = [], called_back = []\<rparr>"

lemma one_group_ok: "groups_ok one_group one_connected"
  by (simp add: groups_ok_def one_group_def routers_ok_def router_ok_def client_ok_def one_client_def one_connected_def)

theorem client_call_accounted_witness:
  "(\<exists>ok g' w'. mgr_call 5 ''user'' C_Send RapidMessage_new one_group one_connected = Inr (ok, g', w') \<and>
     fate None RapidMessage_new ok one_connected w' \<and> same_cons one_connected w' \<and> grouped g' = grouped one_group) \<and>
   (\<exists>req g' w'. mgr_SendRecieve 5 ''user'' (Some 77) RapidMessage_new one_group one_connected = Inr (req, g', w') \<and>
     fate None RapidMessage_new (req \<noteq> None) one_connected w' \<and> same_cons one_connected w' \<and> grouped g' = grouped one_group)"
proof -
  have test: "\<not> for_test one_connected" and cb: "call_cb C_Send = None" by (simp_all add: one_connected_def call_cb_def)
  note both = client_call_accounted [OF one_group_ok, of 5 "''user''" C_Send RapidMessage_new "Some 77", unfolded cb]
  show ?thesis using conjunct1 [OF both] mp [OF conjunct2 [OF both] test]
    by (intro conjI) (elim exE conjE, intro exI conjI; assumption)+
qed

section \<open>Edges\<close>

text \<open>Addresses are read back as they are written.\<close>

lemma ParseSpecAddr_reads:
  assumes proto: "proto \<in> {''http'', ''HTTP'', ''rapid'', ''redis''}"
    and ip: "ip \<noteq> []" "CHR '':'' \<notin> set ip" "char_of (0 :: nat) \<notin> set ip"
    and port: "port < 2 ^ 31" and len: "length proto + length ip + length (dec port) + 4 < 256"
  shows "ParseSpecAddr (proto @ ''://'' @ ip @ '':'' @ dec port) =
     Inr (Some (if proto = ''rapid'' then kRapidMessage else if proto = ''redis'' then kRedisMessage else kHttpMessage, ip, int port))"
proof -
  let ?nul = "char_of (0 :: nat)"
  have no_nul: "?nul \<notin> set (dec port)" using dec_digits [of ?nul port] by (auto simp: is_digit_def)
  have p_nul: "?nul \<notin> set proto" "?nul \<noteq> CHR '':''" "?nul \<noteq> CHR ''/''" using proto by (auto simp: char_of_def)
  have whole: "takeWhile (\<lambda>c. c \<noteq> ?nul) (proto @ ''://'' @ ip @ '':'' @ dec port) = proto @ ''://'' @ ip @ '':'' @ dec port"
    using no_nul p_nul ip(3) by (subst takeWhile_eq_all_conv) auto
  have ws: "dropWhile is_space (proto @ xs) = proto @ xs" for xs using proto by (auto simp: is_space_def)
  have pr: "takeWhile (\<lambda>c. c \<noteq> CHR '':'') (proto @ CHR '':'' # xs) = proto" for xs using proto by auto
  have ipr: "takeWhile (\<lambda>c. c \<noteq> CHR '':'') (ip @ CHR '':'' # xs) = ip" for xs using ip(2) by (induction ip) auto
  have d3: "drop (length ip + 3) (CHR '':'' # CHR ''/'' # CHR ''/'' # ip @ xs) = xs" for xs by (simp flip: drop_drop)
  have d4: "drop (4 + length ip) (CHR '':'' # CHR ''/'' # CHR ''/'' # ip @ CHR '':'' # xs) = xs" for xs
  proof -
    have "4 + length ip = 1 + (length ip + 3)" by simp
    then have "drop (4 + length ip) zs = drop 1 (drop (length ip + 3) zs)" for zs :: string by (simp only: drop_drop)
    note one = this
    show ?thesis unfolding one d3 by simp
  qed
  have "int port < 2 ^ 63" using port by simp
  from strtoll_dec_end [OF this] have st: "strtoll (dec port) = (int port, length (dec port))" .
  have "signed_take_bit 31 (int port) = int port" by (rule signed_take_bit_int_eq_self) (use port in simp_all)
  moreover have "proto \<noteq> []" "length proto < 128" using proto by auto
  ultimately have "sscanf_addr (proto @ ''://'' @ ip @ '':'' @ dec port) = Inr (Some (proto, ip, int port))"
    using ip(1) len by (simp add: sscanf_addr_def Let_def ws pr ipr st d3 d4)
  moreover have "strcasecmp ''http'' ''http''" "strcasecmp ''http'' ''HTTP''" "\<not> strcasecmp ''http'' ''rapid''" "\<not> strcasecmp ''http'' ''redis''"
    "strcasecmp ''rapid'' ''rapid''" "\<not> strcasecmp ''rapid'' ''redis''" "strcasecmp ''redis'' ''redis''" by code_simp+
  ultimately show ?thesis using proto len unfolding ParseSpecAddr_def Let_def whole by auto
qed

text \<open>A protocol name of 128 characters is written behind the array it is read into.\<close>

lemma ParseSpecAddr_long_protocol: "ParseSpecAddr (replicate 130 (CHR ''a'')) = Inl Out_Of_Bounds"
  by code_simp

text \<open>A group without routers is a division by zero; a stopped client with the busy mark, a null pointer.\<close>

lemma empty_group_divides_by_zero:
  "g name = Some rs \<Longrightarrow> client_routers rs = [] \<Longrightarrow> mgr_call now name C_Send m g w = Inl Division_By_Zero"
  by (simp add: mgr_call_def at_group_def routers_Send_def by_turn_def)

lemma stopped_client_null: "cl_single c \<Longrightarrow> connect_addr c \<noteq> 0 \<Longrightarrow> client_Send now m (fst (client_Stop c w)) w' = Inl Null_Dereference"
  by (simp add: client_Stop_def client_Send_def GetClientStatus_def SetNoBuzy_def con_SetBuzy_def at_con_def kWorking_def client_kBroken_def)

text \<open>The counter runs over into negative numbers: the turn jumps, and of seven clients some are not asked.\<close>

lemma turn_jumps: "map (\<lambda>j. pick (0x7FFFFFFD + j) 7) [0, 1, 2, 3, 4, 5, 6] = [6, 0, 1, 0, 1, 2, 3]"
  by (simp add: pick_def)

end
