(* ===== verification/Acceptor.thy ===== *)
theory Acceptor
  imports Server Socket Clients
begin

text \<open>
  The acceptor: listening on the configured addresses and shedding a connection when the process is out of descriptors
  (src/src/net\_thread\_mgr/acceptor\_thread.cpp, Init and the end of AcceptClient; the loop of AcceptClient is in the
  theory \<open>Server\<close>). The sockets are those of \<open>Socket\<close>, the event driver of its thread is that of \<open>Event_Driver\<close>.
\<close>

section \<open>State\<close>

text \<open>The listening sockets, each with the protocol and the port; the descriptor kept in reserve.\<close>

record acceptor =
  listened_fd_list :: "(int \<times> int \<times> int) list"
  acceptor_driver :: event_driver
  idle_fd :: int

text \<open>\<open>dev_null\<close> is what open answers.\<close>

definition AcceptorThread_new :: "int \<Rightarrow> int set \<Rightarrow> acceptor \<times> int set" where
  "AcceptorThread_new dev_null S = (\<lparr>listened_fd_list = [], acceptor_driver = InitEventData, idle_fd = dev_null\<rparr>, opened dev_null S)"

definition AcceptorThread_delete :: "acceptor \<Rightarrow> int set \<Rightarrow> int set" where
  "AcceptorThread_delete t S = S - {idle_fd t}"

section \<open>Listening\<close>

record listen_answers =
  la_setup :: sock_setup
  la_bind :: "sockaddr \<Rightarrow> int"
  la_listen :: int
  la_realloc :: bool
  la_add :: bool
  la_modr :: bool

definition listen_at :: "u64 \<Rightarrow> string \<times> listen_answers \<Rightarrow> acceptor \<times> int set \<Rightarrow> (acceptor \<times> int set) outcome" where
  "listen_at self x st = (case x of (address, a) \<Rightarrow> case st of (t, S) \<Rightarrow>
     outcome_bind (ParseSpecAddr address) (\<lambda>r.
       case r of
         None \<Rightarrow> Inr (t, S)
       | Some (cate, ip, port) \<Rightarrow>
           (case Listen (Some ip) port (la_setup a) (la_bind a) (la_listen a) S of (fd, S1) \<Rightarrow>
              if fd < 0 then Inr (t, S1)
              else outcome_bind (Add (la_realloc a) (la_add a) fd (unat self) (acceptor_driver t)) (\<lambda>(r1, d1).
                     if r1 \<noteq> 0 then Inr (t\<lparr>acceptor_driver := d1\<rparr>, S1 - {fd})
                     else outcome_bind (Modr (la_modr a) fd True d1) (\<lambda>(r2, d2).
                            if r2 \<noteq> 0 then Inr (t\<lparr>acceptor_driver := d2\<rparr>, S1 - {fd})
                            else Inr (t\<lparr>acceptor_driver := d2,
                                        listened_fd_list := (if map_of (listened_fd_list t) fd \<noteq> None then listened_fd_list t
                                                             else listened_fd_list t @ [(fd, uint cate, port)])\<rparr>, S1))))))"

fun listen_loop :: "u64 \<Rightarrow> (string \<times> listen_answers) list \<Rightarrow> acceptor \<times> int set \<Rightarrow> (acceptor \<times> int set) outcome" where
  "listen_loop self [] st = Inr st"
| "listen_loop self (x # xs) st = outcome_bind (listen_at self x st) (listen_loop self xs)"

definition acceptor_Init :: "u64 \<Rightarrow> (string \<times> listen_answers) list \<Rightarrow> acceptor \<times> int set \<Rightarrow> (bool \<times> acceptor \<times> int set) outcome" where
  "acceptor_Init self addrs st = map_sum id (\<lambda>(t, S). (listened_fd_list t \<noteq> [], t, S)) (listen_loop self addrs st)"

section \<open>Out of descriptors\<close>

text \<open>
  The reserve is given up, a connection accepted with it and closed at once, and the reserve opened again. \<open>sock\<close> and
  \<open>error\<close> are the last result of accept in the loop and errno. None: accept does not return.
\<close>

definition shed_connection ::
  "int \<Rightarrow> net_errno \<Rightarrow> int \<times> int \<Rightarrow> accept_answer list \<Rightarrow> int \<Rightarrow> acceptor \<times> int set \<Rightarrow> (acceptor \<times> int set) option" where
  "shed_connection sock error fcntl as dev_null st = (case st of (t, S) \<Rightarrow>
     if sock < 0 \<and> error = E_MFILE
     then map_option (\<lambda>r. (t\<lparr>idle_fd := dev_null\<rparr>, opened dev_null (acc_fds r - {acc_ret r})))
            (Accept (fst fcntl) (snd fcntl) as (S - {idle_fd t}))
     else Some (t, S))"

section \<open>What is open\<close>

text \<open>Every descriptor the system answers is one that was not open, and not 0.\<close>

fun system_legal :: "u64 \<Rightarrow> (string \<times> listen_answers) list \<Rightarrow> acceptor \<times> int set \<Rightarrow> bool" where
  "system_legal self [] st = True"
| "system_legal self (x # xs) st =
     (socket_ret (la_setup (snd x)) \<notin> snd st \<and> socket_ret (la_setup (snd x)) \<noteq> 0 \<and>
      (case listen_at self x st of Inl e \<Rightarrow> True | Inr st1 \<Rightarrow> system_legal self xs st1))"

text \<open>Registering another descriptor leaves the watchers of the others alone.\<close>

lemma Add_others:
  assumes "Add r c g h d = Inr (ret, d1)"
  shows "(\<forall>a. a \<noteq> next_event d \<longrightarrow> events d1 a = events d a) \<and> (\<forall>f. f \<noteq> g \<longrightarrow> epoll d1 f = epoll d f)"
proof (cases "g > 0 \<and> g < fd2data_size d \<and> fd2data d ! nat g \<noteq> None")
  case True
  then show ?thesis using assms by (auto simp: Add_def)
next
  case False
  define d0 where "d0 = d\<lparr>events := (events d)(next_event d \<mapsto> \<lparr>fe_fd = g, fe_handler = h, fe_event = 0, fe_closed = False\<rparr>), next_event := Suc (next_event d)\<rparr>"
  obtain grown d2 where g: "grow r g d0 = (grown, d2)" by fastforce
  then have d2: "events d2 = events d0" "epoll d2 = epoll d0" by (auto simp: grow_def ReInitEventData_def Let_def split: if_splits)
  define d3 where "d3 = (if g > maxfd d2 then d2\<lparr>maxfd := g\<rparr> else d2)"
  have d3: "events d3 = events d0" "epoll d3 = epoll d" by (auto simp: d3_def d2 d0_def)
  show ?thesis
  proof (cases grown)
    case False
    then have "d1 = d2\<lparr>events := (events d2)(next_event d := None)\<rparr>"
      using assms \<open>\<not> (g > 0 \<and> _)\<close> g by (simp add: Add_def d0_def Let_def split: if_splits)
    then show ?thesis using d2 by (simp add: d0_def)
  next
    case True
    then have "outcome_bind (set_slot g (Some (next_event d)) d3) (\<lambda>d4.
        if \<not> c then outcome_bind (set_slot g None (d4\<lparr>events := (events d4)(next_event d := None)\<rparr>)) (\<lambda>d5. Inr (-3, d5))
        else Inr (0, d4\<lparr>epoll := (epoll d4)(g \<mapsto> (next_event d, 0))\<rparr>)) = Inr (ret, d1)"
      using assms \<open>\<not> (g > 0 \<and> _)\<close> g by (simp add: Add_def d0_def d3_def Let_def split: if_splits)
    then show ?thesis using d3 by (auto simp: set_slot_def d0_def outcome_bind_Inr_iff split: if_splits)
  qed
qed

lemma mod_bits_others:
  assumes "mod_bits bits c g on d = Inr (ret, d1)" "driver_inv d"
  shows "(\<forall>a e. events d a = Some e \<and> fe_fd e \<noteq> g \<longrightarrow> events d1 a = Some e) \<and> (\<forall>f. f \<noteq> g \<longrightarrow> epoll d1 f = epoll d f)"
proof (cases "g < 0 \<or> g > maxfd d \<or> fd2data d ! nat g = None")
  case True
  then have "d1 = d" using assms(1) by (auto simp: mod_bits_def get_slot_def split: if_splits)
  then show ?thesis by simp
next
  case False
  then obtain p where p: "fd2data d ! nat g = Some p" "0 \<le> g" by auto
  have "slot_in g d" using assms(1) False by (auto simp: mod_bits_def get_slot_def split: if_splits)
  then have "nat g < length (fd2data d)" using p(2) by (simp add: slot_in_def)
  moreover have "\<forall>i < length (fd2data d). \<forall>a. fd2data d ! i = Some a \<longrightarrow> (\<exists>e. events d a = Some e \<and> fe_fd e = int i \<and> \<not> fe_closed e)"
    using assms(2) unfolding driver_inv_def by blast
  ultimately obtain e where e: "events d p = Some e" "fe_fd e = int (nat g)" using p(1) by blast
  then have "fe_fd e = g" using p(2) by simp
  define e1 where "e1 = e\<lparr>fe_event := (if on then fe_event e OR bits else fe_event e AND NOT bits)\<rparr>"
  define d0 where "d0 = d\<lparr>events := (events d)(p \<mapsto> e1)\<rparr>"
  have "mod_bits bits c g on d = Mod c g d0"
    using False p e \<open>slot_in g d\<close> by (simp add: mod_bits_def get_slot_def at_event_def e1_def d0_def)
  then have run: "Mod c g d0 = Inr (ret, d1)" using assms(1) by simp
  have d0: "slot_in g d0" "fd2data d0 ! nat g = Some p" "events d0 p = Some e1"
    using \<open>slot_in g d\<close> p(1) by (simp_all add: slot_in_def d0_def)
  obtain v where "d1 = d0 \<or> d1 = d0\<lparr>epoll := (epoll d0)(g \<mapsto> v)\<rparr>"
    using run by (cases c) (auto simp: Mod_def get_slot_def at_event_def d0)
  then have "events d1 = events d0" "\<forall>f. f \<noteq> g \<longrightarrow> epoll d1 f = epoll d f" by (auto simp: d0_def)
  then show ?thesis using e \<open>fe_fd e = g\<close> by (auto simp: d0_def)
qed

lemma watched_others:
  assumes w: "watched_by h bits fd d" and "fd \<noteq> g" and inv: "driver_inv d"
  shows "Add r c g k d = Inr (ret, d1) \<Longrightarrow> watched_by h bits fd d1"
    and "mod_bits bits1 c g on d = Inr (ret, d1) \<Longrightarrow> watched_by h bits fd d1"
proof -
  obtain p v e where p: "epoll d fd = Some (p, v)" "events d p = Some e" "fe_fd e = fd" "fe_handler e = unat h"
      "\<forall>k. k \<noteq> 0 \<and> k AND bits = k \<longrightarrow> has_event (fe_event e) k" using w unfolding watched_by_def by blast
  have old: "p < next_event d" using inv p(2) unfolding driver_inv_def by blast
  {
    assume "Add r c g k d = Inr (ret, d1)"
    from Add_others [OF this] assms(2) old p(1,2) have "epoll d1 fd = Some (p, v)" "events d1 p = Some e" by auto
    with p show "watched_by h bits fd d1" unfolding watched_by_def by blast
  next
    assume "mod_bits bits1 c g on d = Inr (ret, d1)"
    from mod_bits_others [OF this inv] assms(2) p(1-3) have "epoll d1 fd = Some (p, v)" "events d1 p = Some e" by auto
    with p show "watched_by h bits fd d1" unfolding watched_by_def by blast
  }
qed

definition listening_fds :: "acceptor \<Rightarrow> int list" where
  "listening_fds t = map fst (listened_fd_list t)"

definition listening_exactly :: "u64 \<Rightarrow> int set \<Rightarrow> acceptor \<times> int set \<Rightarrow> bool" where
  "listening_exactly self S0 st \<longleftrightarrow> driver_inv (acceptor_driver (fst st)) \<and>
     list_all (\<lambda>fd. watched_by self EVENT_READ fd (acceptor_driver (fst st))) (listening_fds (fst st)) \<and> snd st = S0 \<union> set (listening_fds (fst st)) \<and> distinct (listening_fds (fst st)) \<and>
     set (listening_fds (fst st)) \<inter> S0 = {}"

lemma listen_at_exactly:
  assumes "listening_exactly self S0 (t, S)" "socket_ret (la_setup a) \<notin> S" "socket_ret (la_setup a) \<noteq> 0"
    and run: "listen_at self (address, a) (t, S) = Inr st1"
  shows "listening_exactly self S0 st1 \<and> idle_fd (fst st1) = idle_fd t"
proof -
  obtain r where r: "ParseSpecAddr address = Inr r" using run by (cases "ParseSpecAddr address") (auto simp: listen_at_def)
  show ?thesis
  proof (cases r)
    case None
    then show ?thesis using run r assms(1) by (auto simp: listen_at_def)
  next
    case (Some v)
    obtain cate ip port where v: "v = (cate, ip, port)" by (cases v) auto
    obtain fd S1 where l: "Listen (Some ip) port (la_setup a) (la_bind a) (la_listen a) S = (fd, S1)" by fastforce
    have acc: "if fd > 0 then S1 = insert fd S \<and> fd \<notin> S else fd < 0 \<and> S1 = S"
      using Listen_accounts [OF assms(2,3), of "Some ip" port "la_bind a" "la_listen a"] by (simp add: l)
    show ?thesis
    proof (cases "fd < 0")
      case True
      then show ?thesis using run r Some v l acc assms(1) by (auto simp: listen_at_def)
    next
      case False
      then have S1: "S1 = insert fd S" "fd \<notin> S" using acc by (simp_all split: if_splits)
      then have back1: "S1 - {fd} = S" by simp
      obtain r1 d1 where ad: "Add (la_realloc a) (la_add a) fd (unat self) (acceptor_driver t) = Inr (r1, d1)"
        using run r Some v l False by (cases "Add (la_realloc a) (la_add a) fd (unat self) (acceptor_driver t)") (auto simp: listen_at_def)
      have fd: "0 \<le> fd" "fd \<notin> set (listening_fds t)"
        using \<open>\<not> fd < 0\<close> assms(1) S1(2) by (auto simp: listening_exactly_def)
      have inv: "driver_inv (acceptor_driver t)" and w: "list_all (\<lambda>f. watched_by self EVENT_READ f (acceptor_driver t)) (listening_fds t)"
        using assms(1) by (simp_all add: listening_exactly_def)
      have inv1: "driver_inv d1" using Add_inv [OF inv fd(1), of "la_realloc a" "la_add a" "unat self"] ad by auto
      have w1: "list_all (\<lambda>f. watched_by self EVENT_READ f d1) (listening_fds t)"
        using w watched_others(1) [OF _ _ inv ad] fd(2) unfolding list_all_iff by metis
      show ?thesis
      proof (cases "r1 = 0")
        case False
        then have "st1 = (t\<lparr>acceptor_driver := d1\<rparr>, S)" using run r Some v l \<open>\<not> fd < 0\<close> ad back1 by (simp add: listen_at_def)
        then show ?thesis using assms(1) inv1 w1 by (simp add: listening_exactly_def listening_fds_def)
      next
        case True
        obtain r2 d2 where md: "Modr (la_modr a) fd True d1 = Inr (r2, d2)"
          using run r Some v l \<open>\<not> fd < 0\<close> ad True by (cases "Modr (la_modr a) fd True d1") (auto simp: listen_at_def)
        have inv2: "driver_inv d2" using mod_bits_inv [OF inv1, of EVENT_READ "la_modr a" fd True] md by (auto simp: Modr_def)
        have w2: "list_all (\<lambda>f. watched_by self EVENT_READ f d2) (listening_fds t)"
          using w1 watched_others(2) [OF _ _ inv1 md [unfolded Modr_def]] fd(2) unfolding list_all_iff by metis
        show ?thesis
        proof (cases "r2 = 0")
          case False
          then have "st1 = (t\<lparr>acceptor_driver := d2\<rparr>, S)" using run r Some v l \<open>\<not> fd < 0\<close> ad True md back1 by (simp add: listen_at_def)
          then show ?thesis using assms(1) inv2 w2 by (simp add: listening_exactly_def listening_fds_def)
        next
          case r2: True
          have new: "map_of (listened_fd_list t) fd = None" using fd(2) by (simp add: listening_fds_def map_of_eq_None_iff)
          have "st1 = (t\<lparr>acceptor_driver := d2, listened_fd_list := listened_fd_list t @ [(fd, uint cate, port)]\<rparr>, S1)"
            using run r Some v l \<open>\<not> fd < 0\<close> ad True md r2 new by (simp add: listen_at_def)
          moreover have "watched_by self EVENT_READ fd d2"
            using mod_bits_0 [OF Add_0 [OF fd(1)]] ad md True r2 by (simp add: Modr_def)
          ultimately show ?thesis using assms(1) S1 inv2 w2 fd(2) by (auto simp: listening_exactly_def listening_fds_def)
        qed
      qed
    qed
  qed
qed

lemma listen_loop_exactly:
  "listen_loop self addrs st = Inr st1 \<Longrightarrow> system_legal self addrs st \<Longrightarrow> listening_exactly self S0 st \<Longrightarrow>
     listening_exactly self S0 st1 \<and> idle_fd (fst st1) = idle_fd (fst st)"
proof (induction addrs arbitrary: st)
  case (Cons x xs)
  obtain st2 where st2: "listen_at self x st = Inr st2" "listen_loop self xs st2 = Inr st1"
    using Cons.prems(1) by (auto simp: outcome_bind_Inr_iff)
  obtain address a where x: "x = (address, a)" by (cases x)
  obtain t S where st: "st = (t, S)" by (cases st)
  have "listening_exactly self S0 st2 \<and> idle_fd (fst st2) = idle_fd t"
    using listen_at_exactly [of self S0 t S a address st2] Cons.prems(2,3) st2(1) by (simp add: x st)
  moreover have "system_legal self xs st2" using Cons.prems(2) st2(1) by simp
  ultimately show ?case using Cons.IH [OF st2(2)] by (simp add: st)
qed simp

text \<open>
  When the process is out of descriptors and a connection waits, the connection is closed, the reserve is back and no
  descriptor is lost.
\<close>

lemma shed_keeps_reserve:
  assumes "idle_fd t \<in> S" "fd \<ge> 0" "fd \<notin> S - {idle_fd t}" "dev_null \<ge> 0" "getfl \<noteq> -1" "setfl \<noteq> -1"
  shows "shed_connection (-1) E_MFILE (getfl, setfl) (Accepted fd ip port # as) dev_null (t, S) =
     Some (t\<lparr>idle_fd := dev_null\<rparr>, insert dev_null (S - {idle_fd t}))"
  using assms by (auto simp: shed_connection_def Accept_def SetNonBlock_def opened_def)

text \<open>The reserve is lost when another thread takes the descriptor that was given up: accept fails and so does open.\<close>

lemma shed_loses_reserve:
  "idle_fd t \<in> S \<Longrightarrow> shed_connection (-1) E_MFILE fcntl (Accept_failed E_MFILE # as) (-1) (t, S) =
     Some (t\<lparr>idle_fd := -1\<rparr>, S - {idle_fd t} - {-1})"
  by (simp add: shed_connection_def Accept_def opened_def)

text \<open>C40. After the acceptor has been set up the descriptors that were opened are exactly those it listens on, whatever
  failed for the other addresses; they are all different and all watched for reading on the acceptor's behalf by the event
  driver of its thread. It reports success exactly if there is one.\<close>

theorem acceptor_listens_exactly:
  assumes "acceptor_Init self addrs (AcceptorThread_new dev_null S) = Inr (ok, t, S1)"
    and "system_legal self addrs (AcceptorThread_new dev_null S)"
  shows "S1 = opened dev_null S \<union> set (listening_fds t) \<and> distinct (listening_fds t) \<and> set (listening_fds t) \<inter> opened dev_null S = {} \<and>
     (ok \<longleftrightarrow> listening_fds t \<noteq> []) \<and> list_all (\<lambda>fd. watched_by self EVENT_READ fd (acceptor_driver t)) (listening_fds t)"
proof -
  have run: "listen_loop self addrs (AcceptorThread_new dev_null S) = Inr (t, S1)" and ok: "ok = (listened_fd_list t \<noteq> [])"
    using assms(1) by (cases "listen_loop self addrs (AcceptorThread_new dev_null S)"; auto simp: acceptor_Init_def)+
  have "listening_exactly self (opened dev_null S) (AcceptorThread_new dev_null S)"
    by (simp add: listening_exactly_def AcceptorThread_new_def listening_fds_def driver_inv_Init)
  from listen_loop_exactly [OF run assms(2) this] ok show ?thesis
    by (simp add: listening_exactly_def AcceptorThread_new_def listening_fds_def)
qed


definition example_listen :: "int \<Rightarrow> int \<Rightarrow> listen_answers" where
  "example_listen fd bound = \<lparr>la_setup = example_setup fd, la_bind = (\<lambda>_. bound), la_listen = 0, la_realloc = True, la_add = True, la_modr = True\<rparr>"

lemma example_listens:
  "\<exists>d. listen_at 17 (''rapid://127.0.0.1:80'', example_listen 5 0) (AcceptorThread_new 3 {1}) =
     Inr (\<lparr>listened_fd_list = [(5, uint kRapidMessage, 80)], acceptor_driver = d, idle_fd = 3\<rparr>, {5, 3, 1})"
proof -
  have p: "ParseSpecAddr ''rapid://127.0.0.1:80'' = Inr (Some (kRapidMessage, ''127.0.0.1'', 80))" by code_simp
  have l: "Listen (Some ''127.0.0.1'') 80 (example_setup 5) (\<lambda>_. 0) 0 {3, 1} = (5, {5, 3, 1})"
    by (simp add: Listen_def example_ip Listen_sockaddr_def CreateSocket_def example_setup_def opened_def SetNonBlock_def SetNoDelay_def SetCloseWait_def)
  obtain d1 d2 where d: "Add True True 5 17 InitEventData = Inr (0, d1)" "Modr True 5 True d1 = Inr (0, d2)" using one_added by blast
  have "AcceptorThread_new 3 {1} = (\<lparr>listened_fd_list = [], acceptor_driver = InitEventData, idle_fd = 3\<rparr>, {3, 1})"
    by (simp add: AcceptorThread_new_def opened_def)
  then show ?thesis using d by (intro exI [of _ d2]) (simp add: listen_at_def p example_listen_def l)
qed

lemma acceptor_listens_exactly_witness:
  "\<exists>t S1. acceptor_Init 17 [(''rapid://127.0.0.1:80'', example_listen 5 0), (''http://127.0.0.1:81'', example_listen 6 (-1)), (''x'', example_listen 7 0)]
      (AcceptorThread_new 3 {1}) = Inr (True, t, S1) \<and>
     listening_fds t = [5] \<and> S1 = {1, 3} \<union> set (listening_fds t) \<and> watched_by 17 EVENT_READ 5 (acceptor_driver t)"
proof -
  let ?addrs = "[(''rapid://127.0.0.1:80'', example_listen 5 0), (''http://127.0.0.1:81'', example_listen 6 (-1)), (''x'', example_listen 7 0)]"
  have p: "ParseSpecAddr ''http://127.0.0.1:81'' = Inr (Some (kHttpMessage, ''127.0.0.1'', 81))" "ParseSpecAddr ''x'' = Inr None" by code_simp+
  have l: "Listen (Some ''127.0.0.1'') 81 (example_setup 6) (\<lambda>_. -1) 0 {5, 3, 1} = (-3, {5, 3, 1})"
    by (simp add: Listen_def example_ip Listen_sockaddr_def CreateSocket_def example_setup_def opened_def SetNonBlock_def SetNoDelay_def SetCloseWait_def)
  obtain d where s1: "listen_at 17 (''rapid://127.0.0.1:80'', example_listen 5 0) (AcceptorThread_new 3 {1}) =
     Inr (\<lparr>listened_fd_list = [(5, uint kRapidMessage, 80)], acceptor_driver = d, idle_fd = 3\<rparr>, {5, 3, 1})" using example_listens by blast
  let ?t = "\<lparr>listened_fd_list = [(5, uint kRapidMessage, 80)], acceptor_driver = d, idle_fd = 3\<rparr>"
  have s2: "listen_at 17 (''http://127.0.0.1:81'', example_listen 6 (-1)) (?t, {5, 3, 1}) = Inr (?t, {5, 3, 1})"
    by (simp add: listen_at_def p example_listen_def l)
  have s3: "listen_at 17 (''x'', example_listen 7 0) (?t, {5, 3, 1}) = Inr (?t, {5, 3, 1})" by (simp add: listen_at_def p)
  have run: "acceptor_Init 17 ?addrs (AcceptorThread_new 3 {1}) = Inr (True, ?t, {5, 3, 1})"
    using s1 s2 s3 by (simp add: acceptor_Init_def)
  have "snd (AcceptorThread_new 3 {1}) = {3, 1}" by (simp add: AcceptorThread_new_def opened_def)
  then have "system_legal 17 ?addrs (AcceptorThread_new 3 {1})"
    using s1 s2 s3 by (simp add: example_listen_def [of 5 0] example_listen_def [of 6 "-1"] example_listen_def [of 7 0] example_setup_def)
  from acceptor_listens_exactly [OF run this] run show ?thesis by (simp add: listening_fds_def opened_def insert_commute)
qed

end
