(* ===== verification/Std_Map.thy ===== *)
theory Std_Map
  imports Prelude "HOL-Library.List_Lexorder" "HOL-Library.Char_ord"
begin

text \<open>
  std::map as the list of its entries in iteration order: strictly increasing keys. The contract its
  users rely on is the locale std\_map; strings compare byte by byte, as std::string does.
\<close>

type_synonym ('k, 'v) smap = "('k \<times> 'v) list"

section \<open>The contract\<close>

locale std_map =
  fixes ok :: "'m \<Rightarrow> bool"
    and look :: "'k \<Rightarrow> 'm \<Rightarrow> 'v option"
    and ins :: "'k \<Rightarrow> 'v \<Rightarrow> 'm \<Rightarrow> bool \<times> 'm"
    and del :: "'k \<Rightarrow> 'm \<Rightarrow> 'm"
    and upd :: "'k \<Rightarrow> ('v \<Rightarrow> 'v) \<Rightarrow> 'm \<Rightarrow> 'm"
  assumes ins_law: "ok m \<Longrightarrow> ins k v m = (b, m') \<Longrightarrow>
      ok m' \<and> (b \<longleftrightarrow> look k m = None) \<and>
      look j m' = (if j = k \<and> look k m = None then Some v else look j m)"
    and del_law: "ok m \<Longrightarrow> ok (del k m) \<and> look j (del k m) = (if j = k then None else look j m)"
    and upd_law: "ok m \<Longrightarrow> ok (upd k f m) \<and> look j (upd k f m) = (if j = k then map_option f (look k m) else look j m)"
begin

text \<open>An insertion of a key that is there changes nothing; of a new key it shows under that key only.\<close>

lemma ins_old: "ok m \<Longrightarrow> look k m \<noteq> None \<Longrightarrow> ins k v m = (b, m') \<Longrightarrow> \<not> b \<and> look j m' = look j m"
  using ins_law by auto

lemma ins_new:
  "ok m \<Longrightarrow> look k m = None \<Longrightarrow> ins k v m = (b, m') \<Longrightarrow> b \<and> look j m' = (if j = k then Some v else look j m)"
  using ins_law by auto

text \<open>Find or insert, then change through the pointer: what the setters of the code do.\<close>

lemma ins_upd:
  assumes "ok m" "ins k v m = (b, m')"
  shows "ok (upd k f m') \<and>
     look j (upd k f m') = (if j = k then Some (f (case look k m of None \<Rightarrow> v | Some w \<Rightarrow> w)) else look j m)"
  using ins_law [OF assms] upd_law [of m' k f j] ins_law [OF assms, of k] ins_law [OF assms, of j]
  by (auto split: option.splits)

lemma del_ins: "ok m \<Longrightarrow> look k m = None \<Longrightarrow> ins k v m = (b, m') \<Longrightarrow> look j (del k m') = look j m"
  using ins_law [of m k v b m' j] del_law [of m' k j] by auto

end

section \<open>The implementation by sorted lists\<close>

definition smap_ok :: "('k::linorder, 'v) smap \<Rightarrow> bool" where
  "smap_ok m \<longleftrightarrow> sorted_wrt (<) (map fst m)"

definition smap_find :: "'k \<Rightarrow> ('k, 'v) smap \<Rightarrow> 'v option" where
  "smap_find k m = map_of m k"

fun smap_insert :: "'k::linorder \<Rightarrow> 'v \<Rightarrow> ('k, 'v) smap \<Rightarrow> bool \<times> ('k, 'v) smap" where
  "smap_insert k v [] = (True, [(k, v)])"
| "smap_insert k v ((j, w) # m) =
     (if k < j then (True, (k, v) # (j, w) # m)
      else if k = j then (False, (j, w) # m)
      else (case smap_insert k v m of (b, m') \<Rightarrow> (b, (j, w) # m')))"

definition smap_erase :: "'k \<Rightarrow> ('k, 'v) smap \<Rightarrow> ('k, 'v) smap" where
  "smap_erase k m = filter (\<lambda>e. fst e \<noteq> k) m"

definition smap_update :: "'k \<Rightarrow> ('v \<Rightarrow> 'v) \<Rightarrow> ('k, 'v) smap \<Rightarrow> ('k, 'v) smap" where
  "smap_update k f m = map (\<lambda>(j, w). (j, if j = k then f w else w)) m"

lemma smap_ok_Nil [simp]: "smap_ok []"
  by (simp add: smap_ok_def)

lemma smap_ok_Cons: "smap_ok ((k, v) # m) \<longleftrightarrow> (\<forall>j \<in> fst ` set m. k < j) \<and> smap_ok m"
  by (auto simp: smap_ok_def)

lemma smap_find_Nil [simp]: "smap_find k [] = None"
  by (simp add: smap_find_def)

lemma smap_find_Cons: "smap_find k ((j, v) # m) = (if k = j then Some v else smap_find k m)"
  by (simp add: smap_find_def)

lemma smap_find_None: "smap_find k m = None \<longleftrightarrow> k \<notin> fst ` set m"
  by (simp add: smap_find_def map_of_eq_None_iff)

lemma smap_find_mem: "smap_ok m \<Longrightarrow> smap_find k m = Some v \<longleftrightarrow> (k, v) \<in> set m"
  by (simp add: smap_find_def smap_ok_def strict_sorted_iff map_of_eq_Some_iff)

lemma keys_smap_insert: "fst ` set (snd (smap_insert k v m)) = insert k (fst ` set m)"
proof (induction m)
  case (Cons e m)
  obtain j w where "e = (j, w)" by (cases e)
  moreover obtain b m' where "smap_insert k v m = (b, m')" by (cases "smap_insert k v m")
  ultimately show ?case using Cons by (simp add: insert_commute)
qed simp

lemma smap_insert_law:
  "smap_ok m \<Longrightarrow> smap_insert k v m = (b, m') \<Longrightarrow>
     smap_ok m' \<and> (b \<longleftrightarrow> smap_find k m = None) \<and>
     smap_find j m' = (if j = k \<and> smap_find k m = None then Some v else smap_find j m)"
proof (induction m arbitrary: b m')
  case Nil
  then show ?case by (auto simp: smap_ok_Cons smap_find_Cons)
next
  case (Cons e m)
  obtain i w where e: "e = (i, w)" by (cases e)
  from Cons.prems(1) have m: "smap_ok m" "\<forall>j \<in> fst ` set m. i < j" by (simp_all add: e smap_ok_Cons)
  obtain b1 m1 where r: "smap_insert k v m = (b1, m1)" by (cases "smap_insert k v m")
  have keys: "fst ` set m1 = insert k (fst ` set m)" using keys_smap_insert [of k v m] by (simp add: r)
  have none: "smap_find k m = None" if "k < i" using m(2) that by (auto simp: smap_find_None)
  consider "k < i" | "k = i" | "i < k" by (rule linorder_cases)
  then show ?case
  proof cases
    case 1
    then have "\<forall>j \<in> fst ` set m. k < j" using m(2) less_trans by blast
    with 1 show ?thesis using Cons.prems m none by (auto simp: e smap_ok_Cons smap_find_Cons)
  next
    case 2
    then show ?thesis using Cons.prems m by (auto simp: e smap_ok_Cons smap_find_Cons)
  next
    case 3
    then have "\<not> k < i" "k \<noteq> i" by auto
    then have res: "b = b1" "m' = (i, w) # m1" using Cons.prems(2) by (auto simp: e r)
    note IH = Cons.IH [OF m(1) r]
    have "smap_ok m'" unfolding res smap_ok_Cons keys using IH m(2) 3 by simp
    with IH 3 show ?thesis by (auto simp: e res smap_find_Cons)
  qed
qed

lemma smap_find_erase: "smap_find j (smap_erase k m) = (if j = k then None else smap_find j m)"
  by (induction m) (auto simp: smap_erase_def smap_find_def)

lemma smap_find_update: "smap_find j (smap_update k f m) = (if j = k then map_option f (smap_find k m) else smap_find j m)"
  by (induction m) (auto simp: smap_update_def smap_find_def)

lemma smap_ok_erase: "smap_ok m \<Longrightarrow> smap_ok (smap_erase k m)"
  unfolding smap_ok_def smap_erase_def by (simp add: sorted_wrt_map sorted_wrt_filter)

lemma keys_smap_update: "map fst (smap_update k f m) = map fst m"
  by (simp add: smap_update_def case_prod_unfold)

interpretation smap: std_map smap_ok smap_find smap_insert smap_erase smap_update
proof unfold_locales
  fix m m' :: "('a::linorder, 'b) smap" and k j v b f
  show "smap_ok m' \<and> (b \<longleftrightarrow> smap_find k m = None) \<and>
      smap_find j m' = (if j = k \<and> smap_find k m = None then Some v else smap_find j m)"
    if "smap_ok m" "smap_insert k v m = (b, m')"
    by (rule smap_insert_law [OF that])
  show "smap_ok (smap_erase k m) \<and> smap_find j (smap_erase k m) = (if j = k then None else smap_find j m)" if "smap_ok m"
    using that by (simp add: smap_ok_erase smap_find_erase)
  show "smap_ok (smap_update k f m) \<and>
      smap_find j (smap_update k f m) = (if j = k then map_option f (smap_find k m) else smap_find j m)" if "smap_ok m"
    using that by (simp add: smap_find_update) (simp add: smap_ok_def keys_smap_update)
qed

lemma smap_insert_last:
  "\<forall>j \<in> fst ` set m. j < k \<Longrightarrow> smap_insert k v m = (True, m @ [(k, v)])"
  by (induction m) auto

lemma smap_update_last:
  "k \<notin> fst ` set m \<Longrightarrow> smap_update k f (m @ [(k, v)]) = m @ [(k, f v)]"
  by (induction m) (auto simp: smap_update_def)

lemma smap_ok_snoc: "smap_ok (m @ [(k, v)]) \<longleftrightarrow> smap_ok m \<and> (\<forall>j \<in> fst ` set m. j < k)"
  by (auto simp: smap_ok_def sorted_wrt_append)

end
