(* ===== verification/String_Util.thy ===== *)
theory String_Util
  imports Prelude
begin

text \<open>
  The string helpers of src/src/common/string_util.h and string_util.cpp, on lists of bytes: case
  conversion, hexadecimal, URL encoding, splitting and trimming. A read behind the end of a
  std::string is the fault Out\_Of\_Bounds, except for the position of the terminating zero, which
  operator[] may read. Conversion between character sets (iconv) is left out: only the branches for
  \<open>is_unicode = false\<close> are modelled.
\<close>

unbundle bit_operations_syntax

type_synonym bytes = "u8 list"

section \<open>Case and hexadecimal\<close>

definition ToLow :: "bytes \<Rightarrow> bytes" where
  "ToLow src = map (\<lambda>c. if 65 \<le> c \<and> c \<le> 90 then c + 32 else c) src"

definition ToUpper :: "bytes \<Rightarrow> bytes" where
  "ToUpper src = map (\<lambda>c. if 97 \<le> c \<and> c \<le> 122 then c - 32 else c) src"

definition ToHex :: "u8 \<Rightarrow> u8" where
  "ToHex x = (if x > 9 then x + 55 else x + 48)"

definition FromHex :: "u8 \<Rightarrow> u8" where
  "FromHex x =
     (if 65 \<le> x \<and> x \<le> 90 then x - 65 + 10
      else if 97 \<le> x \<and> x \<le> 122 then x - 97 + 10
      else if 48 \<le> x \<and> x \<le> 57 then x - 48
      else 0)"

definition hex_str :: bytes where
  "hex_str = [48, 49, 50, 51, 52, 53, 54, 55, 56, 57, 97, 98, 99, 100, 101, 102]"

definition BinaryTo16Hex :: "bytes \<Rightarrow> bytes" where
  "BinaryTo16Hex src =
     concat (map (\<lambda>c. [hex_str ! unat (signed_drop_bit 4 c AND 15), hex_str ! unat (c AND 15)]) src)"

section \<open>URL encoding\<close>

definition isalnum :: "u8 \<Rightarrow> bool" where
  "isalnum c \<longleftrightarrow> (48 \<le> c \<and> c \<le> 57) \<or> (65 \<le> c \<and> c \<le> 90) \<or> (97 \<le> c \<and> c \<le> 122)"

definition url_plain :: "u8 \<Rightarrow> bool" where
  "url_plain c \<longleftrightarrow> isalnum c \<or> c = 45 \<or> c = 95 \<or> c = 46 \<or> c = 126"

fun UrlEncode :: "bytes \<Rightarrow> bytes" where
  "UrlEncode [] = []"
| "UrlEncode (c # cs) =
     (if url_plain c then [c]
      else if c = 32 then [43]
      else [37, ToHex (drop_bit 4 c), ToHex (c mod 16)]) @ UrlEncode cs"

fun UrlEncode_ext :: "bytes \<Rightarrow> bytes" where
  "UrlEncode_ext [] = []"
| "UrlEncode_ext (c # cs) =
     (if url_plain c then [c]
      else if c = 32 then [37, 50, 48]
      else [37, ToHex (drop_bit 4 c), ToHex (c mod 16)]) @ UrlEncode_ext cs"

text \<open>
  UrlDecode reads \<open>(*tmp)[++i]\<close> twice behind a percent sign without a bound: one position behind the
  last character is the terminating zero, the next is outside the string.
\<close>

fun UrlDecode :: "bytes \<Rightarrow> bytes outcome" where
  "UrlDecode [] = Inr []"
| "UrlDecode (c # cs) =
     (if c = 43 then map_sum id (Cons 32) (UrlDecode cs)
      else if c = 37 then
        (case cs of
           [] \<Rightarrow> Inl Out_Of_Bounds
         | [h] \<Rightarrow> Inr [FromHex h * 16 + FromHex 0]
         | h # l # ds \<Rightarrow> map_sum id (Cons (FromHex h * 16 + FromHex l)) (UrlDecode ds))
      else map_sum id (Cons c) (UrlDecode cs))"

section \<open>Splitting\<close>

text \<open>std::string::find\_first\_of(delim, s): the first position from \<open>s\<close> on, None for npos.\<close>

fun find_at :: "'c \<Rightarrow> 'c list \<Rightarrow> nat \<Rightarrow> nat option" where
  "find_at delim [] k = None"
| "find_at delim (c # cs) k = (if c = delim then Some k else find_at delim cs (Suc k))"

definition find_first_of :: "'c \<Rightarrow> 'c list \<Rightarrow> nat \<Rightarrow> nat option" where
  "find_first_of delim str s = find_at delim (drop s str) s"

text \<open>The loop of Split, on positions; \<open>add\<close> is emplace\_back or insert of the converted piece.\<close>

function split_loop :: "('c list \<Rightarrow> 'r \<Rightarrow> 'r) \<Rightarrow> 'c list \<Rightarrow> 'c \<Rightarrow> bool \<Rightarrow> nat \<Rightarrow> 'r \<Rightarrow> 'r" where
  "split_loop add str delim ignoreEmpty s ret =
     (if s \<le> length str
      then
        let len = (case find_first_of delim str s of None \<Rightarrow> length str - s | Some i \<Rightarrow> i - s);
            ret' = (if ignoreEmpty = False \<or> 0 \<noteq> len then add (take len (drop s str)) ret else ret)
        in split_loop add str delim ignoreEmpty (s + (len + 1)) ret'
      else ret)"
  by pat_completeness auto
termination
  by (relation "measure (\<lambda>(add, str, delim, ig, s, ret). length str + 1 - s)") auto

definition Split :: "('c list \<Rightarrow> 't) \<Rightarrow> 't list \<Rightarrow> 'c list \<Rightarrow> 'c \<Rightarrow> bool \<Rightarrow> 't list" where
  "Split exchange_T ret str delim ignoreEmpty =
     (if str = [] then ret
      else split_loop (\<lambda>piece r. r @ [exchange_T piece]) str delim ignoreEmpty 0 [])"

definition Split_set :: "('c list \<Rightarrow> 't) \<Rightarrow> 't set \<Rightarrow> 'c list \<Rightarrow> 'c \<Rightarrow> bool \<Rightarrow> 't set" where
  "Split_set exchange_T ret str delim ignoreEmpty =
     (if str = [] then ret
      else split_loop (\<lambda>piece r. insert (exchange_T piece) r) str delim ignoreEmpty 0 {})"

declare split_loop.simps [simp del]

section \<open>Trimming\<close>

definition isspace :: "u8 \<Rightarrow> bool" where
  "isspace c \<longleftrightarrow> c = 32 \<or> (9 \<le> c \<and> c \<le> 13)"

definition ltrim :: "bytes \<Rightarrow> bytes" where
  "ltrim s = dropWhile isspace s"

definition rtrim :: "bytes \<Rightarrow> bytes" where
  "rtrim s = rev (dropWhile isspace (rev s))"

definition Trim :: "bytes \<Rightarrow> bytes" where
  "Trim s = ltrim (rtrim s)"

section \<open>Facts about bytes\<close>

text \<open>A property of the bytes below \<open>k\<close> is decided by listing them.\<close>

lemma unat_byte: "unat (x :: u8) < 256"
  using unsigned_less [of x, where 'a = nat] by simp

lemma bytes_below:
  assumes "list_all (\<lambda>n. P (of_nat n :: u8)) [0 ..< k]" "unat x < k"
  shows "P x"
proof -
  have "unat x \<in> set [0 ..< k]" using assms(2) by simp
  then have "P (of_nat (unat x))" using assms(1) by (simp only: list_all_iff)
  then show ?thesis by simp
qed

lemma hex_digit:
  assumes "x < 16"
  shows "FromHex (ToHex x) = x" "ToHex x \<noteq> 37" "ToHex x \<noteq> 43"
proof -
  have "list_all (\<lambda>n. FromHex (ToHex (of_nat n)) = of_nat n \<and> ToHex (of_nat n) \<noteq> 37 \<and> ToHex (of_nat n) \<noteq> 43) [0 ..< 16]"
    by code_simp
  moreover have "unat x < 16" using assms by (simp add: word_less_nat_alt)
  ultimately have "FromHex (ToHex x) = x \<and> ToHex x \<noteq> 37 \<and> ToHex x \<noteq> 43" by (rule bytes_below)
  then show "FromHex (ToHex x) = x" "ToHex x \<noteq> 37" "ToHex x \<noteq> 43" by simp_all
qed

lemma nibbles: "drop_bit 4 (x :: u8) < 16" "(x :: u8) mod 16 < 16" "drop_bit 4 (x :: u8) * 16 + x mod 16 = x"
proof -
  have u: "unat x < 256" by (rule unat_byte)
  have d: "unat (drop_bit 4 x) = unat x div 16" by (simp add: drop_bit_eq_div unat_div)
  show "drop_bit 4 x < 16" using u by (simp add: word_less_nat_alt d)
  show "x mod 16 < 16" by (simp add: word_less_nat_alt unat_mod)
  have "unat (drop_bit 4 x * 16 + x mod 16) = (unat x div 16 * 16 + unat x mod 16) mod 256"
    by (simp add: unat_word_ariths d unat_mod mod_simps)
  also have "\<dots> = unat x" using u by simp
  finally show "drop_bit 4 x * 16 + x mod 16 = x" by (simp add: word_unat_eq_iff)
qed

lemma UrlDecode_UrlEncode: "UrlDecode (UrlEncode s) = Inr s"
proof (induction s)
  case (Cons c s)
  have "url_plain c \<Longrightarrow> c \<noteq> 43 \<and> c \<noteq> 37" by (auto simp: url_plain_def isalnum_def)
  with Cons show ?case by (auto simp: hex_digit nibbles)
qed simp

lemma UrlDecode_UrlEncode_ext: "UrlDecode (UrlEncode_ext s) = Inr s"
proof (induction s)
  case (Cons c s)
  have "url_plain c \<Longrightarrow> c \<noteq> 43 \<and> c \<noteq> 37" by (auto simp: url_plain_def isalnum_def)
  moreover have "FromHex 50 * 16 + FromHex 48 = 32" by (simp add: FromHex_def)
  ultimately show ?case using Cons by (auto simp: hex_digit nibbles)
qed simp

text \<open>Encoded text holds only unreserved characters, the plus sign and the percent sign.\<close>

lemma url_plain_ToHex: "x < 16 \<Longrightarrow> url_plain (ToHex x)"
proof -
  assume "x < 16"
  then have "unat x < 16" by (simp add: word_less_nat_alt)
  moreover have "list_all (\<lambda>n. url_plain (ToHex (of_nat n))) [0 ..< 16]" by code_simp
  ultimately show ?thesis by (rule bytes_below [rotated])
qed

lemma UrlEncode_chars: "c \<in> set (UrlEncode s) \<Longrightarrow> url_plain c \<or> c = 37 \<or> c = 43"
  by (induction s) (auto simp: url_plain_ToHex nibbles split: if_splits)

section \<open>What Split computes\<close>

text \<open>The pieces between the delimiters, as a recursion over the string.\<close>

fun split_ref :: "'c \<Rightarrow> 'c list \<Rightarrow> 'c list list" where
  "split_ref delim [] = [[]]"
| "split_ref delim (c # cs) =
     (if c = delim then [] # split_ref delim cs
      else (case split_ref delim cs of [] \<Rightarrow> [[c]] | p # ps \<Rightarrow> (c # p) # ps))"

fun join :: "'c \<Rightarrow> 'c list list \<Rightarrow> 'c list" where
  "join delim [] = []"
| "join delim [p] = p"
| "join delim (p # q # ps) = p @ delim # join delim (q # ps)"

lemma split_ref_nonempty [simp]: "split_ref delim cs \<noteq> []"
  by (induction cs) (auto split: list.splits)

lemma split_ref_none: "delim \<notin> set xs \<Longrightarrow> split_ref delim xs = [xs]"
  by (induction xs) auto

lemma split_ref_first: "delim \<notin> set xs \<Longrightarrow> split_ref delim (xs @ delim # ys) = xs # split_ref delim ys"
  by (induction xs) auto

lemma join_split_ref: "join delim (split_ref delim cs) = cs"
proof (induction cs)
  case (Cons c cs)
  obtain p ps where "split_ref delim cs = p # ps" by (cases "split_ref delim cs") auto
  with Cons show ?case by (cases ps) auto
qed simp

lemma split_ref_pieces: "p \<in> set (split_ref delim cs) \<Longrightarrow> delim \<notin> set p"
  by (induction cs arbitrary: p) (auto split: list.splits if_splits)

lemma find_at_None: "find_at delim xs k = None \<longleftrightarrow> delim \<notin> set xs"
  by (induction xs arbitrary: k) auto

lemma find_at_hit: "c \<notin> set xs \<Longrightarrow> find_at c (xs @ c # ys) k = Some (k + length xs)"
  by (induction xs arbitrary: k) auto

lemma find_at_Some: "find_at delim xs k = Some i \<Longrightarrow> \<exists>ys zs. xs = ys @ delim # zs \<and> delim \<notin> set ys \<and> i = k + length ys"
proof (induction xs arbitrary: k)
  case (Cons x xs)
  show ?case
  proof (cases "x = delim")
    case True
    with Cons.prems show ?thesis by - (rule exI [of _ "[]"], rule exI [of _ xs], simp)
  next
    case False
    with Cons.prems Cons.IH [of "Suc k"] obtain ys zs where
      "xs = ys @ delim # zs" "delim \<notin> set ys" "i = Suc k + length ys" by auto
    with False show ?thesis by - (rule exI [of _ "x # ys"], rule exI [of _ zs], simp)
  qed
qed simp

lemma split_loop_ref:
  "s \<le> length str \<Longrightarrow>
     split_loop add str delim ig s ret = fold add (filter (\<lambda>p. ig \<longrightarrow> p \<noteq> []) (split_ref delim (drop s str))) ret"
proof (induction "length str - s" arbitrary: s ret rule: less_induct)
  case less
  show ?case
  proof (cases "find_first_of delim str s")
    case None
    then have "split_ref delim (drop s str) = [drop s str]"
      by (intro split_ref_none) (simp add: find_first_of_def find_at_None)
    moreover have "split_loop add str delim ig (Suc (length str)) r = r" for r
      by (subst split_loop.simps) simp
    ultimately show ?thesis
      using less.prems by (subst split_loop.simps) (simp add: None Let_def)
  next
    case (Some i)
    then obtain ys zs where i: "drop s str = ys @ delim # zs" "delim \<notin> set ys" "i = s + length ys"
      using find_at_Some by (fastforce simp: find_first_of_def)
    have zs: "drop (i + 1) str = zs"
      by (metis add.assoc add.commute append_eq_conv_conj drop_Suc_Cons drop_drop i(1,3) Suc_eq_plus1 drop0 drop_append diff_self_eq_0 drop_all order_refl append_Nil plus_1_eq_Suc)
    have ilen: "i < length str"
      using less.prems i by (metis add_diff_inverse_nat length_append length_drop list.size(4) add_less_cancel_left less_add_Suc1 not_less nat_neq_iff add_Suc_right)
    have pieces: "split_ref delim (drop s str) = ys # split_ref delim zs"
      by (simp only: i(1) split_ref_first [OF i(2)])
    have "split_loop add str delim ig (i + 1) r = fold add (filter (\<lambda>p. ig \<longrightarrow> p \<noteq> []) (split_ref delim zs)) r" for r
      using less.hyps [of "i + 1"] ilen i(3) zs by simp
    then show ?thesis
      using less.prems pieces by (subst split_loop.simps) (simp add: Some Let_def i)
  qed
qed

section \<open>Trim\<close>

lemma Trim_infix: "\<exists>pre post. s = pre @ Trim s @ post \<and> (\<forall>c \<in> set pre \<union> set post. isspace c)"
proof -
  let ?r = "rev (dropWhile isspace (rev s))"
  have "rev s = takeWhile isspace (rev s) @ dropWhile isspace (rev s)" by simp
  then have "s = ?r @ rev (takeWhile isspace (rev s))" by (metis rev_append rev_rev_ident)
  moreover have "?r = takeWhile isspace ?r @ Trim s" by (simp add: Trim_def ltrim_def rtrim_def)
  ultimately have "s = takeWhile isspace ?r @ Trim s @ rev (takeWhile isspace (rev s))" by (metis append_assoc)
  moreover have "\<forall>c \<in> set (takeWhile isspace ?r) \<union> set (rev (takeWhile isspace (rev s))). isspace c"
    by (auto dest: set_takeWhileD)
  ultimately show ?thesis by blast
qed

lemma Trim_ends:
  assumes "Trim s \<noteq> []"
  shows "\<not> isspace (hd (Trim s))" "\<not> isspace (last (Trim s))"
proof -
  let ?r = "rev (dropWhile isspace (rev s))"
  have t: "Trim s = dropWhile isspace ?r" by (simp add: Trim_def ltrim_def rtrim_def)
  show "\<not> isspace (hd (Trim s))" using assms unfolding t by (rule hd_dropWhile)
  have "?r = takeWhile isspace ?r @ Trim s" by (simp add: t)
  then have "last (Trim s) = last ?r" using assms by (metis last_appendR)
  also have "\<dots> = hd (dropWhile isspace (rev s))" by (simp add: last_rev)
  finally show "\<not> isspace (last (Trim s))"
    using assms t by (metis dropWhile.simps(1) hd_dropWhile rev.simps(1))
qed

section \<open>Properties\<close>

text \<open>URL decoding inverts both URL encoders on every byte string, and encoded text consists of
  unreserved characters, percent signs and plus signs only.\<close>

lemma url_roundtrip:
  "UrlDecode (UrlEncode s) = Inr s \<and> UrlDecode (UrlEncode_ext s) = Inr s \<and>
   (\<forall>c \<in> set (UrlEncode s). url_plain c \<or> c = 37 \<or> c = 43)"
  using UrlDecode_UrlEncode UrlDecode_UrlEncode_ext UrlEncode_chars by blast

lemma url_roundtrip_witness:
  "UrlEncode [97, 32, 38] = [97, 43, 37, 50, 54] \<and> UrlDecode [97, 43, 37, 50, 54] = Inr [97, 32, 38]"
proof -
  have e: "UrlEncode [97, 32, 38] = [97, 43, 37, 50, 54]" by code_simp
  with url_roundtrip [of "[97, 32, 38]"] show ?thesis by simp
qed

text \<open>Split of a non-empty string yields, in order, the converted pieces between the delimiters, without
  the empty ones when ignoreEmpty is set; the pieces contain no delimiter and joined with it give the
  string back. The set version yields the set of the same pieces. An empty string leaves the result
  argument as it was.\<close>

lemma Split_pieces:
  "(str \<noteq> [] \<longrightarrow>
     Split f ret str delim ig = map f (filter (\<lambda>p. ig \<longrightarrow> p \<noteq> []) (split_ref delim str)) \<and>
     Split_set f rset str delim ig = f ` {p \<in> set (split_ref delim str). ig \<longrightarrow> p \<noteq> []}) \<and>
   join delim (split_ref delim str) = str \<and> (\<forall>p \<in> set (split_ref delim str). delim \<notin> set p) \<and>
   Split f ret [] delim ig = ret"
proof -
  have list: "fold (\<lambda>piece r. r @ [f piece]) ps r0 = r0 @ map f ps" for ps r0
    by (induction ps arbitrary: r0) auto
  have set: "fold (\<lambda>piece r. insert (f piece) r) ps r0 = r0 \<union> f ` set ps" for ps r0
    by (induction ps arbitrary: r0) auto
  show ?thesis
    using join_split_ref [of delim str] split_ref_pieces [of _ delim str]
    by (auto simp: Split_def Split_set_def split_loop_ref list set)
qed

lemma Split_pieces_witness:
  "Split id [] ''a,,b'' (CHR '','') True = [''a'', ''b'']"
  using Split_pieces [of "''a,,b''" id "[]" "CHR '',''" True "{}"] by simp

text \<open>Trim removes a prefix and a suffix of white space and leaves a string that neither starts nor ends
  with white space.\<close>

lemma Trim_correct:
  "(\<exists>pre post. s = pre @ Trim s @ post \<and> (\<forall>c \<in> set pre \<union> set post. isspace c)) \<and>
   (Trim s = [] \<or> (\<not> isspace (hd (Trim s)) \<and> \<not> isspace (last (Trim s))))"
  using Trim_infix Trim_ends by blast

lemma Trim_correct_witness: "Trim [32, 97, 10] = [97] \<and> (\<exists>pre post. [32, 97, 10] = pre @ Trim [32, 97, 10] @ post)"
proof -
  have "Trim [32, 97, 10] = [97]" by code_simp
  with Trim_correct [of "[32, 97, 10]"] show ?thesis by blast
qed

end
