(* ===== verification/Ini_Files.thy ===== *)
theory Ini_Files
  imports Std_Map String_Util
begin

text \<open>
  The configuration file class CIniFileS of src/src/common/ini_files.h and ini_files.cpp. Sections and
  records are owned by the maps that hold the pointers, so a map entry is the object itself; the
  local pointer to the current section during loading is the key of its entry. The file system is
  a map from names to contents, with a predicate for the names that can be opened for writing. The
  WIN32 branches and the numeric conversions of snprintf and atoi are left out.
\<close>

section \<open>Data\<close>

record ini_record =
  rec_sec :: string
  rec_key :: string
  rec_value :: string
  rec_comments :: string
  rec_commented :: char

record ini_section =
  sec_name :: string
  sec_comments :: string
  sec_commented :: char
  mapKV :: "(string, ini_record) smap"

record ini =
  mapSection :: "(string, ini_section) smap"
  fileName :: string

type_synonym disk = "string \<rightharpoonup> string"

definition CC_Record :: char where "CC_Record = CHR '' ''"

definition record_new :: ini_record where
  "record_new = \<lparr>rec_sec = '''', rec_key = '''', rec_value = '''', rec_comments = '''', rec_commented = CC_Record\<rparr>"

definition section_new :: ini_section where
  "section_new = \<lparr>sec_name = '''', sec_comments = '''', sec_commented = CHR '' '', mapKV = []\<rparr>"

definition newline :: char where "newline = CHR 0x0A"

section \<open>Trimming\<close>

definition blanks :: string where
  "blanks = [CHR '' '', CHR 0x09, CHR 0x0A, CHR 0x0D]"

definition find_first_not_of :: "string \<Rightarrow> string \<Rightarrow> nat option" where
  "find_first_not_of chrs str =
     (let n = length (takeWhile (\<lambda>c. c \<in> set chrs) str) in if n = length str then None else Some n)"

definition find_last_not_of :: "string \<Rightarrow> string \<Rightarrow> nat option" where
  "find_last_not_of chrs str =
     (let n = length (takeWhile (\<lambda>c. c \<in> set chrs) (rev str))
      in if n = length str then None else Some (length str - 1 - n))"

definition ini_TrimStr :: "string \<Rightarrow> string \<Rightarrow> int \<Rightarrow> string" where
  "ini_TrimStr str chrs TrimDir =
     (case find_first_not_of chrs str of
        None \<Rightarrow> []
      | Some startIndex \<Rightarrow>
          let str1 = (if TrimDir < 2 then drop startIndex str else str)
          in if TrimDir \<noteq> 1
             then take (case find_last_not_of chrs str1 of None \<Rightarrow> 0 | Some j \<Rightarrow> j + 1) str1
             else str1)"

abbreviation trim :: "string \<Rightarrow> string" where
  "trim str \<equiv> ini_TrimStr str blanks 0"

section \<open>Loading\<close>

record load_state =
  l_map :: "(string, ini_section) smap"
  l_cur :: string
  l_comments :: string
  l_rec :: ini_record
  l_sec :: "string option"

definition load_new :: load_state where
  "load_new = \<lparr>l_map = [], l_cur = '''', l_comments = '''', l_rec = record_new, l_sec = None\<rparr>"

text \<open>A section line, with the text between its brackets: a second section of the same name is dropped.\<close>

definition begin_section :: "string \<Rightarrow> load_state \<Rightarrow> load_state" where
  "begin_section name s =
     (let sec = section_new\<lparr>sec_comments := trim (l_comments s), sec_name := trim name,
                            sec_commented := rec_commented (l_rec s)\<rparr>
      in case smap_insert (sec_name sec) sec (l_map s) of
           (ok, m) \<Rightarrow> s\<lparr>l_map := m, l_sec := (if ok then Some (sec_name sec) else None),
                         l_cur := sec_name sec, l_comments := ''''\<rparr>)"

text \<open>A line with an equals sign fills the spare record.\<close>

definition set_key_value :: "string \<Rightarrow> load_state \<Rightarrow> load_state" where
  "set_key_value line s =
     (case find_at (CHR ''='') line 0 of
        None \<Rightarrow> s
      | Some i \<Rightarrow>
          s\<lparr>l_rec := (l_rec s)\<lparr>rec_comments := trim (l_comments s), rec_sec := l_cur s,
                                rec_key := trim (take i line), rec_value := trim (drop (i + 1) line)\<rparr>,
            l_comments := ''''\<rparr>)"

text \<open>The record is inserted, under a new section when there is no current one.\<close>

definition add_record :: "load_state \<Rightarrow> load_state" where
  "add_record s =
     (if l_comments s = '''' then
        let r = l_rec s;
            s1 = (case l_sec s of
                    Some _ \<Rightarrow> s
                  | None \<Rightarrow>
                      (let sec = section_new\<lparr>sec_name := rec_sec r, sec_commented := rec_commented r,
                                             sec_comments := rec_comments r\<rparr>
                       in case smap_insert (sec_name sec) sec (l_map s) of
                            (ok, m) \<Rightarrow> s\<lparr>l_map := m, l_sec := (if ok then Some (sec_name sec) else None)\<rparr>))
        in (case l_sec s1 of
              None \<Rightarrow> s1
            | Some k \<Rightarrow>
                (case smap_find k (l_map s1) of
                   None \<Rightarrow> s1
                 | Some sec \<Rightarrow>
                     (case smap_insert (rec_key r) r (mapKV sec) of
                        (ok, kv) \<Rightarrow>
                          if ok then s1\<lparr>l_map := smap_update k (\<lambda>x. x\<lparr>mapKV := kv\<rparr>) (l_map s1), l_rec := record_new\<rparr>
                          else s1)))
      else s)"

definition uncomment :: "load_state \<Rightarrow> load_state" where
  "uncomment s = s\<lparr>l_rec := (l_rec s)\<lparr>rec_commented := CC_Record\<rparr>\<rparr>"

definition is_comment :: "string \<Rightarrow> bool" where
  "is_comment line \<longleftrightarrow> line \<noteq> [] \<and> (hd line = CHR ''#'' \<or> hd line = CHR '';'')"

text \<open>One turn of the loop of Open.\<close>

definition open_line :: "string \<Rightarrow> load_state \<Rightarrow> load_state" where
  "open_line line0 s =
     (let line = trim line0 in
      if line = [] then s
      else if is_comment line then s\<lparr>l_comments := l_comments s @ line @ [newline]\<rparr>
      else
        let s1 = uncomment s in
        (case find_at (CHR '']'') line 0 of
           Some npos \<Rightarrow>
             if length line > 2 \<and> hd line = CHR ''['' then begin_section (take (npos - 1) (tl line)) s1
             else add_record (set_key_value line s1)
         | None \<Rightarrow> add_record (set_key_value line s1)))"

text \<open>std::getline until the end of the file: the pieces between the newlines, the last one included.\<close>

definition getlines :: "string \<Rightarrow> string list" where
  "getlines = split_ref newline"

definition clear :: "ini \<Rightarrow> ini" where
  "clear c = \<lparr>mapSection = [], fileName = ''''\<rparr>"

definition Open :: "string option \<Rightarrow> ini \<times> disk \<Rightarrow> bool \<times> ini \<times> disk" where
  "Open szFileName st =
     (case st of (c, d) \<Rightarrow>
       (case szFileName of
          None \<Rightarrow> (False, c, d)
        | Some name \<Rightarrow>
            if name = [] then (False, c, d)
            else (case d name of
                    None \<Rightarrow> (False, c, d)
                  | Some text_ \<Rightarrow>
                      (True, (clear c)\<lparr>fileName := name, mapSection := l_map (fold open_line (getlines text_) load_new)\<rparr>, d))))"

text \<open>
  One turn of the loop of LoadFromBuffer on the text \<open>raw\<close> before a newline. \<open>strLine.erase(npos)\<close>
  throws when a section line has no closing bracket.
\<close>

definition buffer_line :: "string \<Rightarrow> load_state \<Rightarrow> load_state outcome" where
  "buffer_line raw s =
     (if raw = [] then Inr s
      else
        let line = trim (if last raw = CHR 0x0D then butlast raw else raw) in
        if line = [] then Inr s
        else if is_comment line then Inr (s\<lparr>l_comments := l_comments s @ line @ [newline]\<rparr>)
        else
          let s1 = uncomment s in
          if hd line = CHR ''[''
          then (case find_at (CHR '']'') (tl line) 0 of
                  None \<Rightarrow> Inl Out_Of_Range_Exception
                | Some npos \<Rightarrow> Inr (begin_section (take npos (tl line)) s1))
          else Inr (add_record (set_key_value line s1)))"

fun buffer_lines :: "string list \<Rightarrow> load_state \<Rightarrow> load_state outcome" where
  "buffer_lines [] s = Inr s"
| "buffer_lines (raw # raws) s = outcome_bind (buffer_line raw s) (buffer_lines raws)"

text \<open>Only text in front of a newline is a line: what follows the last newline is not read.\<close>

definition LoadFromBuffer :: "string \<Rightarrow> ini \<Rightarrow> (bool \<times> ini) outcome" where
  "LoadFromBuffer strBuffer c =
     (if strBuffer = [] then Inr (False, c)
      else outcome_bind (buffer_lines (butlast (getlines strBuffer)) load_new)
             (\<lambda>s. Inr (True, (clear c)\<lparr>mapSection := l_map s\<rparr>)))"

section \<open>Saving\<close>

definition comment_text :: "string \<Rightarrow> string" where
  "comment_text cs = (if cs \<noteq> [] then cs @ [newline] else [])"

definition record_text :: "ini_record \<Rightarrow> string" where
  "record_text r = comment_text (rec_comments r) @ rec_key r @ ''='' @ rec_value r @ [newline]"

definition section_text :: "ini_section \<Rightarrow> string" where
  "section_text sec =
     comment_text (sec_comments sec) @ ''['' @ sec_name sec @ '']'' @ [newline] @
     concat (map (\<lambda>(k, r). record_text r) (mapKV sec))"

definition file_text :: "ini \<Rightarrow> string" where
  "file_text c = concat (map (\<lambda>(k, sec). section_text sec) (mapSection c))"

definition SaveToFile :: "(string \<Rightarrow> bool) \<Rightarrow> string option \<Rightarrow> ini \<times> disk \<Rightarrow> bool \<times> ini \<times> disk" where
  "SaveToFile can szFileName st =
     (case st of (c, d) \<Rightarrow>
       let name = (case szFileName of Some n \<Rightarrow> n | None \<Rightarrow> fileName c)
       in if can name then (True, c, d(name \<mapsto> file_text c)) else (False, c, d))"

definition SaveToStr :: "ini \<Rightarrow> string" where
  "SaveToStr c =
     (if mapSection c \<noteq> []
      then concat (map (\<lambda>(k, sec).
             comment_text (sec_comments sec) @ ''['' @ sec_name sec @ '']'' @
             concat (map (\<lambda>(k, r). comment_text (rec_comments r) @
                                    (if rec_commented r \<noteq> CC_Record then [rec_commented r] else []) @
                                    rec_key r @ ''='' @ rec_value r) (mapKV sec))) (mapSection c)) @ [newline]
      else '''')"

section \<open>Queries\<close>

definition GetSectionNames :: "ini \<Rightarrow> string list" where
  "GetSectionNames c = map (\<lambda>(k, sec). sec_name sec) (mapSection c)"

definition IsExistSection :: "string \<Rightarrow> ini \<Rightarrow> bool" where
  "IsExistSection sec c \<longleftrightarrow> smap_find sec (mapSection c) \<noteq> None"

definition GetSection :: "string \<Rightarrow> ini \<Rightarrow> ini_section option" where
  "GetSection sec c = smap_find sec (mapSection c)"

definition GetRecord :: "string \<Rightarrow> string \<Rightarrow> ini \<Rightarrow> ini_record option" where
  "GetRecord sec key c =
     (case smap_find sec (mapSection c) of None \<Rightarrow> None | Some s \<Rightarrow> smap_find key (mapKV s))"

definition IsExistRecord :: "string \<Rightarrow> string \<Rightarrow> ini \<Rightarrow> bool" where
  "IsExistRecord sec key c =
     (case smap_find sec (mapSection c) of None \<Rightarrow> False | Some s \<Rightarrow> smap_find key (mapKV s) \<noteq> None)"

definition GetValue :: "string \<Rightarrow> string \<Rightarrow> string \<Rightarrow> ini \<Rightarrow> string" where
  "GetValue sec key dflt c = (case GetRecord sec key c of None \<Rightarrow> dflt | Some r \<Rightarrow> rec_value r)"

definition GetComments :: "string \<Rightarrow> string \<Rightarrow> string \<Rightarrow> ini \<Rightarrow> string" where
  "GetComments sec key dflt c = (case GetRecord sec key c of None \<Rightarrow> dflt | Some r \<Rightarrow> rec_comments r)"

definition GetSectionComments :: "string \<Rightarrow> string \<Rightarrow> ini \<Rightarrow> string" where
  "GetSectionComments sec dflt c = (case GetSection sec c of None \<Rightarrow> dflt | Some s \<Rightarrow> sec_comments s)"

section \<open>Changes\<close>

text \<open>\<open>if (rel && bSaveToFile) return SaveToFile(); return rel;\<close>\<close>

definition finish :: "(string \<Rightarrow> bool) \<Rightarrow> bool \<Rightarrow> bool \<Rightarrow> ini \<times> disk \<Rightarrow> bool \<times> ini \<times> disk" where
  "finish can save rel st = (if rel \<and> save then SaveToFile can None st else (rel, st))"

definition upd_section :: "string \<Rightarrow> (ini_section \<Rightarrow> ini_section) \<Rightarrow> ini \<Rightarrow> ini" where
  "upd_section sec f c = c\<lparr>mapSection := smap_update sec f (mapSection c)\<rparr>"

definition upd_record :: "string \<Rightarrow> string \<Rightarrow> (ini_record \<Rightarrow> ini_record) \<Rightarrow> ini \<Rightarrow> ini" where
  "upd_record sec key f = upd_section sec (\<lambda>s. s\<lparr>mapKV := smap_update key f (mapKV s)\<rparr>)"

definition SetValue ::
    "(string \<Rightarrow> bool) \<Rightarrow> string \<Rightarrow> string \<Rightarrow> string \<Rightarrow> bool \<Rightarrow> ini \<times> disk \<Rightarrow> bool \<times> ini \<times> disk" where
  "SetValue can key val sec save st =
     (case st of (c, d) \<Rightarrow>
      if fileName c \<noteq> [] then
        let r = record_new\<lparr>rec_sec := sec, rec_key := key, rec_value := val, rec_commented := CC_Record\<rparr>
        in (case smap_find sec (mapSection c) of
              None \<Rightarrow>
                (case smap_insert sec (section_new\<lparr>sec_name := sec\<rparr>) (mapSection c) of
                   (ok, m) \<Rightarrow>
                     if \<not> ok then finish can save False (c\<lparr>mapSection := m\<rparr>, d)
                     else (case smap_insert key r [] of
                             (ok2, kv) \<Rightarrow>
                               finish can save ok2
                                 (c\<lparr>mapSection := smap_update sec (\<lambda>s. s\<lparr>mapKV := kv\<rparr>) m\<rparr>, d)))
            | Some s \<Rightarrow>
                (case smap_find key (mapKV s) of
                   None \<Rightarrow>
                     (case smap_insert key r (mapKV s) of
                        (ok, kv) \<Rightarrow> finish can save ok (upd_section sec (\<lambda>s. s\<lparr>mapKV := kv\<rparr>) c, d))
                 | Some _ \<Rightarrow> finish can save True (upd_record sec key (\<lambda>r. r\<lparr>rec_value := val\<rparr>) c, d)))
      else (False, st))"

definition RenameSection :: "(string \<Rightarrow> bool) \<Rightarrow> string \<Rightarrow> string \<Rightarrow> bool \<Rightarrow> ini \<times> disk \<Rightarrow> bool \<times> ini \<times> disk" where
  "RenameSection can old new save st =
     (case st of (c, d) \<Rightarrow>
      (case smap_find old (mapSection c) of
         Some _ \<Rightarrow> finish can save True
           (upd_section old (\<lambda>s. s\<lparr>sec_name := new, mapKV := map (\<lambda>(k, r). (k, r\<lparr>rec_sec := new\<rparr>)) (mapKV s)\<rparr>) c, d)
       | None \<Rightarrow> (False, st)))"

definition CommentRecord :: "(string \<Rightarrow> bool) \<Rightarrow> char \<Rightarrow> string \<Rightarrow> string \<Rightarrow> bool \<Rightarrow> ini \<times> disk \<Rightarrow> bool \<times> ini \<times> disk" where
  "CommentRecord can cc sec key save st =
     (case st of (c, d) \<Rightarrow>
      (if GetRecord sec key c \<noteq> None
       then finish can save True (upd_record sec key (\<lambda>r. r\<lparr>rec_commented := cc\<rparr>) c, d)
       else (False, st)))"

definition CommentSection :: "(string \<Rightarrow> bool) \<Rightarrow> char \<Rightarrow> string \<Rightarrow> bool \<Rightarrow> ini \<times> disk \<Rightarrow> bool \<times> ini \<times> disk" where
  "CommentSection can cc sec save st =
     (case st of (c, d) \<Rightarrow>
      (case smap_find sec (mapSection c) of
         Some _ \<Rightarrow> finish can save True
           (upd_section sec (\<lambda>s. s\<lparr>sec_commented := cc,
                                     mapKV := map (\<lambda>(k, r). (k, r\<lparr>rec_commented := cc\<rparr>)) (mapKV s)\<rparr>) c, d)
       | None \<Rightarrow> (False, st)))"

definition DeleteRecord :: "(string \<Rightarrow> bool) \<Rightarrow> string \<Rightarrow> string \<Rightarrow> bool \<Rightarrow> ini \<times> disk \<Rightarrow> bool \<times> ini \<times> disk" where
  "DeleteRecord can sec key save st =
     (case st of (c, d) \<Rightarrow>
      (if GetRecord sec key c \<noteq> None
       then finish can save True (upd_section sec (\<lambda>s. s\<lparr>mapKV := smap_erase key (mapKV s)\<rparr>) c, d)
       else (False, st)))"

definition DeleteSection :: "(string \<Rightarrow> bool) \<Rightarrow> string \<Rightarrow> bool \<Rightarrow> ini \<times> disk \<Rightarrow> bool \<times> ini \<times> disk" where
  "DeleteSection can sec save st =
     (case st of (c, d) \<Rightarrow>
      (case smap_find sec (mapSection c) of
         Some _ \<Rightarrow> finish can save True (c\<lparr>mapSection := smap_erase sec (mapSection c)\<rparr>, d)
       | None \<Rightarrow> (False, st)))"

text \<open>A comment of two characters or more gets a final newline if it has none.\<close>

definition with_newline :: "string \<Rightarrow> string" where
  "with_newline cs = cs @ (if length cs \<ge> 2 \<and> last cs \<noteq> newline then [newline] else [])"

definition SetSectionComments :: "(string \<Rightarrow> bool) \<Rightarrow> string \<Rightarrow> string \<Rightarrow> bool \<Rightarrow> ini \<times> disk \<Rightarrow> bool \<times> ini \<times> disk" where
  "SetSectionComments can cs sec save st =
     (case st of (c, d) \<Rightarrow>
      (if cs = [] then (False, st)
       else if smap_find sec (mapSection c) \<noteq> None
       then finish can save True (upd_section sec (\<lambda>s. s\<lparr>sec_comments := with_newline cs\<rparr>) c, d)
       else (False, st)))"

definition SetRecordComments ::
    "(string \<Rightarrow> bool) \<Rightarrow> string \<Rightarrow> string \<Rightarrow> string \<Rightarrow> bool \<Rightarrow> ini \<times> disk \<Rightarrow> bool \<times> ini \<times> disk" where
  "SetRecordComments can cs sec key save st =
     (case st of (c, d) \<Rightarrow>
      (if cs = [] then (False, st)
       else if GetRecord sec key c \<noteq> None
       then finish can save True (upd_record sec key (\<lambda>r. r\<lparr>rec_comments := with_newline cs\<rparr>) c, d)
       else (False, st)))"

definition AddSection :: "(string \<Rightarrow> bool) \<Rightarrow> string \<Rightarrow> bool \<Rightarrow> ini \<times> disk \<Rightarrow> bool \<times> ini \<times> disk" where
  "AddSection can sec save st =
     (case st of (c, d) \<Rightarrow>
      (case smap_find sec (mapSection c) of
         Some _ \<Rightarrow> (False, st)
       | None \<Rightarrow>
           (case smap_insert sec (section_new\<lparr>sec_name := sec\<rparr>) (mapSection c) of
              (ok, m) \<Rightarrow> finish can save ok (c\<lparr>mapSection := m\<rparr>, d))))"

section \<open>Binary values\<close>

text \<open>Low nibble first, then the high nibble, as letters from A.\<close>

definition nibble_text :: "bytes \<Rightarrow> string" where
  "nibble_text ds =
     concat (map (\<lambda>b. [char_of (unat ((b AND 15) + 65)), char_of (unat ((drop_bit 4 b AND 15) + 65))]) ds)"

text \<open>The arguments of SetValue are key, value, section; the call passes section, key, text.\<close>

definition WriteProfileBinary ::
    "(string \<Rightarrow> bool) \<Rightarrow> string \<Rightarrow> string \<Rightarrow> bytes \<Rightarrow> bool \<Rightarrow> ini \<times> disk \<Rightarrow> bool \<times> ini \<times> disk" where
  "WriteProfileBinary can sec key ds save st =
     (if length ds > 0 then SetValue can sec key (nibble_text ds) save st else (False, st))"

fun nibble_bytes :: "string \<Rightarrow> bytes outcome" where
  "nibble_bytes [] = Inr []"
| "nibble_bytes [c] = Inl Out_Of_Bounds"
| "nibble_bytes (lo # hi # cs) =
     map_sum id (Cons (push_bit 4 (of_char hi - 65) + (of_char lo - 65))) (nibble_bytes cs)"

text \<open>With an odd length the last store is behind the allocated bytes.\<close>

definition GetProfileBinary :: "string \<Rightarrow> string \<Rightarrow> ini \<Rightarrow> (bool \<times> bytes) outcome" where
  "GetProfileBinary sec key c =
     (if fileName c \<noteq> [] then
        let str = GetValue sec key '''' c
        in if str = [] then Inr (False, []) else map_sum id (Pair True) (nibble_bytes str)
      else Inr (False, []))"

section \<open>Trimmed text\<close>

definition trimmed :: "string \<Rightarrow> bool" where
  "trimmed str \<longleftrightarrow> str = [] \<or> (hd str \<notin> set blanks \<and> last str \<notin> set blanks)"

lemma first_not_blank: "str \<noteq> [] \<Longrightarrow> hd str \<notin> set chrs \<Longrightarrow> find_first_not_of chrs str = Some 0"
  by (cases str) (simp_all add: find_first_not_of_def)

lemma last_not_blank: "str \<noteq> [] \<Longrightarrow> last str \<notin> set chrs \<Longrightarrow> find_last_not_of chrs str = Some (length str - 1)"
  by (cases str rule: rev_cases) (simp_all add: find_last_not_of_def)

lemma trim_Nil [simp]: "trim [] = []"
  by (simp add: ini_TrimStr_def find_first_not_of_def)

lemma trim_trimmed: "trimmed str \<Longrightarrow> trim str = str"
  by (cases "str = []") (simp, simp add: trimmed_def ini_TrimStr_def first_not_blank last_not_blank)

lemma newline_blank: "newline \<in> set blanks"
  by (simp add: newline_def blanks_def)

lemma trim_newline: "trimmed str \<Longrightarrow> str \<noteq> [] \<Longrightarrow> trim (str @ [newline]) = str"
proof -
  assume t: "trimmed str" "str \<noteq> []"
  then have "hd (str @ [newline]) \<notin> set blanks" by (simp add: trimmed_def)
  then have 1: "find_first_not_of blanks (str @ [newline]) = Some 0" by (simp add: first_not_blank)
  have "takeWhile (\<lambda>c. c \<in> set blanks) (rev (str @ [newline])) = [newline]"
    using t newline_blank by (cases str rule: rev_cases) (simp_all add: trimmed_def)
  then have "find_last_not_of blanks (str @ [newline]) = Some (length str - 1)"
    using t(2) by (simp add: find_last_not_of_def del: rev_append)
  with 1 t(2) show ?thesis by (simp add: ini_TrimStr_def)
qed

section \<open>Lines of a saved file\<close>

definition unlines :: "string list \<Rightarrow> string" where
  "unlines ls = concat (map (\<lambda>l. l @ [newline]) ls)"

lemma unlines_append: "unlines (xs @ ys) = unlines xs @ unlines ys"
  by (simp add: unlines_def)

lemma getlines_unlines: "\<forall>l \<in> set ls. newline \<notin> set l \<Longrightarrow> getlines (unlines ls) = ls @ [[]]"
  by (induction ls) (simp_all add: getlines_def unlines_def split_ref_first)

definition comment_lines :: "string \<Rightarrow> string list" where
  "comment_lines cs = (if cs = [] then [] else getlines cs)"

definition record_lines :: "ini_record \<Rightarrow> string list" where
  "record_lines r = comment_lines (rec_comments r) @ [rec_key r @ ''='' @ rec_value r]"

definition section_lines :: "ini_section \<Rightarrow> string list" where
  "section_lines sec = comment_lines (sec_comments sec) @ [''['' @ sec_name sec @ '']''] @
     concat (map (\<lambda>(k, r). record_lines r) (mapKV sec))"

lemma unlines_join: "ps \<noteq> [] \<Longrightarrow> unlines ps = join newline ps @ [newline]"
  by (induction newline ps rule: join.induct) (simp_all add: unlines_def)

lemma comment_text_unlines: "comment_text cs = unlines (comment_lines cs)"
proof (cases "cs = []")
  case False
  then have "unlines (getlines cs) = cs @ [newline]"
    by (simp add: getlines_def unlines_join join_split_ref)
  with False show ?thesis by (simp add: comment_text_def comment_lines_def)
qed (simp add: comment_text_def comment_lines_def unlines_def)

lemma unlines_concat: "unlines (concat xss) = concat (map unlines xss)"
  by (induction xss) (simp_all add: unlines_append, simp add: unlines_def)

lemma record_text_unlines: "record_text r = unlines (record_lines r)"
  by (simp add: record_text_def record_lines_def comment_text_unlines unlines_append) (simp add: unlines_def)

lemma section_text_unlines: "section_text sec = unlines (section_lines sec)"
proof -
  have rest: "unlines (concat (map (\<lambda>(k, r). record_lines r) kv)) = concat (map (\<lambda>(k, r). record_text r) kv)" for kv
    by (simp add: unlines_concat record_text_unlines case_prod_unfold comp_def)
  have head: "unlines [''['' @ sec_name sec @ '']''] = ''['' @ sec_name sec @ '']'' @ [newline]"
    by (simp add: unlines_def)
  show ?thesis
    unfolding section_text_def section_lines_def unlines_append rest comment_text_unlines head by simp
qed

lemma file_text_unlines: "file_text c = unlines (concat (map (\<lambda>(k, sec). section_lines sec) (mapSection c)))"
  by (simp add: file_text_def unlines_concat section_text_unlines case_prod_unfold comp_def)

text \<open>
  What can be saved and read back: trimmed text without newlines, section names without a closing
  bracket, keys without an equals sign that do not start like a comment or a section, comments made of
  trimmed comment lines, and nothing commented out.
\<close>

definition comment_ok :: "string \<Rightarrow> bool" where
  "comment_ok cs \<longleftrightarrow> cs = [] \<or> (trimmed cs \<and> (\<forall>l \<in> set (getlines cs). trimmed l \<and> is_comment l))"

definition record_ok :: "string \<Rightarrow> string \<Rightarrow> ini_record \<Rightarrow> bool" where
  "record_ok sec key r \<longleftrightarrow> rec_sec r = sec \<and> rec_key r = key \<and> rec_commented r = CC_Record \<and> comment_ok (rec_comments r) \<and>
     trimmed key \<and> newline \<notin> set key \<and> CHR ''='' \<notin> set key \<and>
     (key = [] \<or> (hd key \<noteq> CHR ''#'' \<and> hd key \<noteq> CHR '';'' \<and> hd key \<noteq> CHR ''['')) \<and>
     trimmed (rec_value r) \<and> newline \<notin> set (rec_value r)"

definition section_ok :: "string \<Rightarrow> ini_section \<Rightarrow> bool" where
  "section_ok name sec \<longleftrightarrow> sec_name sec = name \<and> sec_commented sec = CC_Record \<and> comment_ok (sec_comments sec) \<and>
     name \<noteq> [] \<and> trimmed name \<and> newline \<notin> set name \<and> CHR '']'' \<notin> set name \<and>
     smap_ok (mapKV sec) \<and> (\<forall>(k, r) \<in> set (mapKV sec). record_ok name k r)"

definition savable :: "ini \<Rightarrow> bool" where
  "savable c \<longleftrightarrow> smap_ok (mapSection c) \<and> (\<forall>(k, sec) \<in> set (mapSection c). section_ok k sec)"

section \<open>Reading the lines back\<close>

definition at_section :: "(string, ini_section) smap \<Rightarrow> string \<Rightarrow> string \<Rightarrow> string option \<Rightarrow> load_state" where
  "at_section m cur cs sec = \<lparr>l_map = m, l_cur = cur, l_comments = cs, l_rec = record_new, l_sec = sec\<rparr>"

lemma open_line_Nil: "open_line [] s = s"
  by (simp add: open_line_def)

lemma open_comment_lines:
  "\<forall>l \<in> set ls. trimmed l \<and> is_comment l \<Longrightarrow>
     fold open_line ls (at_section m cur cs sec) = at_section m cur (cs @ unlines ls) sec"
proof (induction ls arbitrary: cs)
  case (Cons l ls)
  then have "open_line l (at_section m cur cs sec) = at_section m cur (cs @ l @ [newline]) sec"
    by (auto simp: open_line_def trim_trimmed is_comment_def at_section_def Let_def)
  with Cons show ?case by (simp add: unlines_def)
qed (simp add: unlines_def)

lemma open_comments:
  assumes "comment_ok cs"
  shows "fold open_line (comment_lines cs) (at_section m cur [] sec) = at_section m cur (comment_text cs) sec"
    and "trim (comment_text cs) = cs"
proof -
  show "fold open_line (comment_lines cs) (at_section m cur [] sec) = at_section m cur (comment_text cs) sec"
    using assms open_comment_lines [of "comment_lines cs" m cur "[]" sec]
    by (auto simp: comment_lines_def comment_ok_def comment_text_unlines)
  show "trim (comment_text cs) = cs"
    using assms by (cases "cs = []") (auto simp: comment_text_def comment_ok_def trim_newline)
qed

lemma open_section_line:
  assumes "section_ok name sec" "\<forall>j \<in> fst ` set m. j < name"
  shows "open_line (''['' @ name @ '']'') (at_section m cur (comment_text (sec_comments sec)) old) =
     at_section (m @ [(name, sec\<lparr>mapKV := []\<rparr>)]) name [] (Some name)"
proof -
  let ?line = "''['' @ name @ '']''"
  have ok: "name \<noteq> []" "trimmed name" "CHR '']'' \<notin> set name" "comment_ok (sec_comments sec)"
    "sec_name sec = name" "sec_commented sec = CC_Record"
    using assms(1) by (simp_all add: section_ok_def)
  have "trimmed ?line" by (simp add: trimmed_def blanks_def)
  moreover have "find_at (CHR '']'') ?line 0 = Some (length name + 1)"
    using find_at_hit [of "CHR '']''" "CHR ''['' # name" "[]" 0] ok(3) by simp
  moreover have "\<not> is_comment ?line" by (simp add: is_comment_def)
  ultimately have "open_line ?line s = begin_section (take (length name) (tl ?line)) (uncomment s)" for s
    using ok(1) by (simp add: open_line_def trim_trimmed Let_def Suc_le_eq)
  moreover have "take (length name) (tl ?line) = name" by simp
  moreover have "sec\<lparr>mapKV := []\<rparr> = section_new\<lparr>sec_comments := sec_comments sec, sec_name := name, sec_commented := CC_Record\<rparr>"
    using ok(5,6) by (simp add: section_new_def)
  ultimately show ?thesis
    using assms(2) ok(2) open_comments(2) [OF ok(4)]
    by (simp add: begin_section_def at_section_def uncomment_def trim_trimmed smap_insert_last record_new_def Let_def)
qed

lemma open_record_line:
  assumes r: "record_ok name key r" and sec: "name \<notin> fst ` set m" and kv: "\<forall>j \<in> fst ` set kv. j < key"
  shows "open_line (key @ ''='' @ rec_value r)
       (at_section (m @ [(name, sec\<lparr>mapKV := kv\<rparr>)]) name (comment_text (rec_comments r)) (Some name)) =
     at_section (m @ [(name, sec\<lparr>mapKV := kv @ [(key, r)]\<rparr>)]) name [] (Some name)"
proof -
  let ?line = "key @ ''='' @ rec_value r"
  let ?s = "at_section (m @ [(name, sec\<lparr>mapKV := kv\<rparr>)]) name (comment_text (rec_comments r)) (Some name)"
  have ok: "trimmed key" "CHR ''='' \<notin> set key" "trimmed (rec_value r)" "comment_ok (rec_comments r)"
    "rec_sec r = name" "rec_key r = key" "rec_commented r = CC_Record"
    "key = [] \<or> (hd key \<noteq> CHR ''#'' \<and> hd key \<noteq> CHR '';'' \<and> hd key \<noteq> CHR ''['')"
    using r by (simp_all add: record_ok_def)
  have line: "trimmed ?line" "\<not> is_comment ?line" "hd ?line \<noteq> CHR ''[''"
    using ok(1,3,8) by (auto simp: trimmed_def is_comment_def blanks_def hd_append)
  have eq: "find_at (CHR ''='') ?line 0 = Some (length key)"
    using find_at_hit [OF ok(2), of "rec_value r" 0] by simp
  have run: "open_line ?line ?s = add_record (set_key_value ?line (uncomment ?s))"
    using line by (auto simp: open_line_def trim_trimmed Let_def split: option.splits)
  have drop: "drop (length key + 1) ?line = rec_value r" by simp
  have rec: "record_new\<lparr>rec_comments := rec_comments r, rec_sec := name, rec_key := key, rec_value := rec_value r\<rparr> = r"
    using ok(5-7) by (simp add: record_new_def)
  have filled: "set_key_value ?line (uncomment ?s) =
      \<lparr>l_map = m @ [(name, sec\<lparr>mapKV := kv\<rparr>)], l_cur = name, l_comments = [], l_rec = r, l_sec = Some name\<rparr>"
    unfolding set_key_value_def eq option.case drop
    using rec by (simp add: uncomment_def at_section_def trim_trimmed ok(1,3) open_comments(2) [OF ok(4)] record_new_def)
  have found: "smap_find name (m @ [(name, sec\<lparr>mapKV := kv\<rparr>)]) = Some (sec\<lparr>mapKV := kv\<rparr>)"
    using sec by (simp add: smap_find_def map_add_def map_of_eq_None_iff [symmetric] split: option.splits)
  show ?thesis
    unfolding run filled
    using kv sec ok(6) by (simp add: add_record_def found smap_insert_last smap_update_last at_section_def)
qed

lemma open_record_lines:
  "smap_ok (kv @ rs) \<Longrightarrow> \<forall>(k, r) \<in> set rs. record_ok name k r \<Longrightarrow> name \<notin> fst ` set m \<Longrightarrow>
     fold open_line (concat (map (\<lambda>(k, r). record_lines r) rs))
       (at_section (m @ [(name, sec\<lparr>mapKV := kv\<rparr>)]) name [] (Some name)) =
     at_section (m @ [(name, sec\<lparr>mapKV := kv @ rs\<rparr>)]) name [] (Some name)"
proof (induction rs arbitrary: kv)
  case (Cons kr rs)
  obtain k r where kr: "kr = (k, r)" by (cases kr)
  have r: "record_ok name k r" "rec_key r = k" "comment_ok (rec_comments r)"
    using Cons.prems(2) by (simp_all add: kr record_ok_def)
  have less: "\<forall>j \<in> fst ` set kv. j < k"
    using Cons.prems(1) by (auto simp: kr smap_ok_def sorted_wrt_append)
  have step: "fold open_line (record_lines r) (at_section (m @ [(name, sec\<lparr>mapKV := kv\<rparr>)]) name [] (Some name)) =
      at_section (m @ [(name, sec\<lparr>mapKV := kv @ [(k, r)]\<rparr>)]) name [] (Some name)"
    using open_record_line [OF r(1) Cons.prems(3) less] r(2)
    by (simp add: record_lines_def open_comments(1) [OF r(3)])
  show ?case
    using Cons.IH [of "kv @ [(k, r)]"] Cons.prems by (simp add: kr step)
qed simp

lemma open_section_lines:
  assumes "section_ok name sec" "\<forall>j \<in> fst ` set m. j < name"
  shows "fold open_line (section_lines sec) (at_section m cur [] old) =
     at_section (m @ [(name, sec)]) name [] (Some name)"
proof -
  have ok: "sec_name sec = name" "comment_ok (sec_comments sec)" "smap_ok (mapKV sec)"
    "\<forall>(k, r) \<in> set (mapKV sec). record_ok name k r"
    using assms(1) by (simp_all add: section_ok_def)
  have new: "name \<notin> fst ` set m" using assms(2) by blast
  have "fold open_line (concat (map (\<lambda>(k, r). record_lines r) (mapKV sec)))
       (at_section (m @ [(name, sec\<lparr>mapKV := []\<rparr>)]) name [] (Some name)) = at_section (m @ [(name, sec)]) name [] (Some name)"
    using open_record_lines [of "[]" "mapKV sec" name m sec] ok(3,4) new by simp
  then show ?thesis
    by (simp add: section_lines_def ok(1) open_comments(1) [OF ok(2)] open_section_line [OF assms, simplified])
qed

lemma open_all_sections:
  "smap_ok (m @ ss) \<Longrightarrow> \<forall>(k, sec) \<in> set ss. section_ok k sec \<Longrightarrow>
     l_map (fold open_line (concat (map (\<lambda>(k, sec). section_lines sec) ss)) (at_section m cur [] old)) = m @ ss"
proof (induction ss arbitrary: m cur old)
  case (Cons ks ss)
  obtain k sec where ks: "ks = (k, sec)" by (cases ks)
  have less: "\<forall>j \<in> fst ` set m. j < k" using Cons.prems(1) by (auto simp: ks smap_ok_def sorted_wrt_append)
  have "section_ok k sec" using Cons.prems(2) by (simp add: ks)
  from open_section_lines [OF this less] Cons.IH [of "m @ [(k, sec)]"] Cons.prems show ?case by (simp add: ks)
qed (simp add: at_section_def)

lemma lines_have_no_newline:
  assumes "savable c"
  shows "\<forall>l \<in> set (concat (map (\<lambda>(k, sec). section_lines sec) (mapSection c))). newline \<notin> set l"
proof -
  have comment: "newline \<notin> set l" if "l \<in> set (comment_lines cs)" for l cs
    using that split_ref_pieces [of l newline cs] by (auto simp: comment_lines_def getlines_def split: if_splits)
  have rec: "newline \<notin> set l" if "record_ok n k r" "l \<in> set (record_lines r)" for n k r l
    using that comment by (auto simp: record_lines_def record_ok_def newline_def)
  have sec: "newline \<notin> set l" if ok: "section_ok n sec" and l: "l \<in> set (section_lines sec)" for n sec l
  proof -
    from l consider "l \<in> set (comment_lines (sec_comments sec))" | "l = ''['' @ sec_name sec @ '']''"
      | k r where "(k, r) \<in> set (mapKV sec)" "l \<in> set (record_lines r)"
      by (auto simp: section_lines_def)
    then show ?thesis
    proof cases
      case 1
      then show ?thesis by (rule comment)
    next
      case 2
      then show ?thesis using ok by (auto simp: section_ok_def newline_def)
    next
      case 3
      then show ?thesis using ok rec [of n k r l] by (auto simp: section_ok_def)
    qed
  qed
  show ?thesis using assms sec by (auto simp: savable_def)
qed

lemma load_saved:
  assumes "savable c"
  shows "l_map (fold open_line (getlines (file_text c)) load_new) = mapSection c"
proof -
  have "load_new = at_section [] [] [] None" by (simp add: load_new_def at_section_def)
  then show ?thesis
    using open_all_sections [of "[]" "mapSection c" "[]" None] assms
    by (simp add: file_text_unlines getlines_unlines [OF lines_have_no_newline [OF assms]] open_line_Nil savable_def)
qed

section \<open>The file invariant\<close>

definition section_inv :: "string \<Rightarrow> ini_section \<Rightarrow> bool" where
  "section_inv name sec \<longleftrightarrow> sec_name sec = name \<and> smap_ok (mapKV sec) \<and>
     (\<forall>key r. smap_find key (mapKV sec) = Some r \<longrightarrow> rec_key r = key)"

definition sections_inv :: "(string, ini_section) smap \<Rightarrow> bool" where
  "sections_inv m \<longleftrightarrow> smap_ok m \<and> (\<forall>name sec. smap_find name m = Some sec \<longrightarrow> section_inv name sec)"

definition ini_inv :: "ini \<Rightarrow> bool" where
  "ini_inv c \<longleftrightarrow> sections_inv (mapSection c)"

lemma finish_ini: "fst (snd (finish can save rel st)) = fst st"
  by (simp add: finish_def SaveToFile_def Let_def split: prod.split option.split)

lemma finish_result: "\<not> save \<Longrightarrow> fst (finish can save rel st) = rel"
  by (simp add: finish_def)

lemma sections_inv_update:
  assumes "sections_inv m" "\<And>s. smap_find sec m = Some s \<Longrightarrow> section_inv sec s \<Longrightarrow> section_inv sec (f s)"
  shows "sections_inv (smap_update sec f m)"
  using assms smap.upd_law [of m sec f] by (auto simp: sections_inv_def split: if_splits)

lemma ini_inv_section:
  assumes "ini_inv c" "\<And>s. smap_find sec (mapSection c) = Some s \<Longrightarrow> section_inv sec s \<Longrightarrow> section_inv sec (f s)"
  shows "ini_inv (upd_section sec f c)"
  using sections_inv_update [of "mapSection c" sec f] assms by (simp add: ini_inv_def upd_section_def)

lemma ini_inv_record:
  assumes "ini_inv c" "\<And>r. rec_key (f r) = rec_key r"
  shows "ini_inv (upd_record sec key f c)"
  unfolding upd_record_def
proof (rule ini_inv_section [OF assms(1)])
  fix s assume "section_inv sec s"
  then show "section_inv sec (s\<lparr>mapKV := smap_update key f (mapKV s)\<rparr>)"
    using smap.upd_law [of "mapKV s" key f] assms(2) by (auto simp: section_inv_def split: if_splits)
qed

lemma sections_inv_insert:
  assumes "sections_inv m" "section_inv sec s" "smap_insert sec s m = (ok, m')"
  shows "sections_inv m'"
  using assms smap.ins_law [OF _ assms(3)] by (auto simp: sections_inv_def split: if_splits)

lemma section_inv_empty: "sec_name s = sec \<Longrightarrow> mapKV s = [] \<Longrightarrow> section_inv sec s"
  by (simp add: section_inv_def)

lemma ini_inv_insert:
  assumes "ini_inv c" "smap_insert sec (section_new\<lparr>sec_name := sec\<rparr>) (mapSection c) = (ok, m)"
  shows "ini_inv (c\<lparr>mapSection := m\<rparr>)"
  using sections_inv_insert [OF _ section_inv_empty assms(2)] assms(1) by (simp add: ini_inv_def section_new_def)

lemma section_inv_add:
  assumes "section_inv sec s" "rec_key r = key" "smap_insert key r (mapKV s) = (ok, kv)"
  shows "section_inv sec (s\<lparr>mapKV := kv\<rparr>)"
  using assms smap.ins_law [OF _ assms(3)] by (auto simp: section_inv_def split: if_splits)

text \<open>What SetValue leaves behind, in memory.\<close>

definition set_record :: "string \<Rightarrow> string \<Rightarrow> string \<Rightarrow> ini_record option \<Rightarrow> ini_record" where
  "set_record key val sec old =
     (case old of None \<Rightarrow> record_new\<lparr>rec_sec := sec, rec_key := key, rec_value := val, rec_commented := CC_Record\<rparr>
      | Some r \<Rightarrow> r\<lparr>rec_value := val\<rparr>)"

lemma SetValue_run:
  assumes inv: "ini_inv c" and name: "fileName c \<noteq> []"
  shows "\<exists>c'. SetValue can key val sec save (c, d) = finish can save True (c', d) \<and> ini_inv c' \<and>
     fileName c' = fileName c \<and>
     (\<forall>i j. GetRecord i j c' = (if i = sec \<and> j = key then Some (set_record key val sec (GetRecord sec key c)) else GetRecord i j c))"
proof -
  let ?r = "record_new\<lparr>rec_sec := sec, rec_key := key, rec_value := val, rec_commented := CC_Record\<rparr>"
  have ok: "smap_ok (mapSection c)" using inv by (simp add: ini_inv_def sections_inv_def)
  show ?thesis
  proof (cases "smap_find sec (mapSection c)")
    case None
    let ?n = "section_new\<lparr>sec_name := sec\<rparr>"
    obtain b m where ins: "smap_insert sec ?n (mapSection c) = (b, m)" by (cases "smap_insert sec ?n (mapSection c)")
    from smap.ins_new [OF ok None ins] have b: "b" by simp
    let ?c = "upd_section sec (\<lambda>s. s\<lparr>mapKV := [(key, ?r)]\<rparr>) (c\<lparr>mapSection := m\<rparr>)"
    have "ini_inv ?c"
      by (rule ini_inv_section [OF ini_inv_insert [OF inv ins]])
        (auto simp: section_inv_def smap_ok_Cons smap_find_Cons split: if_splits)
    moreover have "GetRecord i j ?c =
        (if i = sec \<and> j = key then Some (set_record key val sec (GetRecord sec key c)) else GetRecord i j c)" for i j
      using smap.ins_upd [OF ok ins, of "\<lambda>s. s\<lparr>mapKV := [(key, ?r)]\<rparr>" i] None
      by (auto simp: GetRecord_def upd_section_def smap_find_Cons set_record_def)
    moreover have "SetValue can key val sec save (c, d) = finish can save True (?c, d)"
      using name None b by (simp add: SetValue_def ins upd_section_def)
    moreover have "fileName ?c = fileName c" by (simp add: upd_section_def)
    ultimately show ?thesis by blast
  next
    case (Some s)
    then have s: "section_inv sec s" using inv by (simp add: ini_inv_def sections_inv_def)
    then have kv: "smap_ok (mapKV s)" by (simp add: section_inv_def)
    show ?thesis
    proof (cases "smap_find key (mapKV s)")
      case None
      obtain b m where ins: "smap_insert key ?r (mapKV s) = (b, m)" by (cases "smap_insert key ?r (mapKV s)")
      let ?c = "upd_section sec (\<lambda>s. s\<lparr>mapKV := m\<rparr>) c"
      have "ini_inv ?c"
        using section_inv_add [OF s _ ins] Some by (intro ini_inv_section [OF inv]) auto
      moreover have "GetRecord i j ?c =
          (if i = sec \<and> j = key then Some (set_record key val sec (GetRecord sec key c)) else GetRecord i j c)" for i j
        using smap.upd_law [OF ok, of sec "\<lambda>s. s\<lparr>mapKV := m\<rparr>" i] smap.ins_new [OF kv None ins, of j] Some None
        by (auto simp: GetRecord_def upd_section_def set_record_def)
      moreover have "SetValue can key val sec save (c, d) = finish can save True (?c, d)"
        using name Some None smap.ins_new [OF kv None ins] by (simp add: SetValue_def ins)
      moreover have "fileName ?c = fileName c" by (simp add: upd_section_def)
      ultimately show ?thesis by blast
    next
      case old: (Some r)
      let ?c = "upd_record sec key (\<lambda>r. r\<lparr>rec_value := val\<rparr>) c"
      have "ini_inv ?c" by (rule ini_inv_record [OF inv]) simp_all
      moreover have "GetRecord i j ?c =
          (if i = sec \<and> j = key then Some (set_record key val sec (GetRecord sec key c)) else GetRecord i j c)" for i j
        using smap.upd_law [OF ok, of sec "\<lambda>s. s\<lparr>mapKV := smap_update key (\<lambda>r. r\<lparr>rec_value := val\<rparr>) (mapKV s)\<rparr>" i]
          smap.upd_law [OF kv, of key "\<lambda>r. r\<lparr>rec_value := val\<rparr>" j] Some old
        by (auto simp: GetRecord_def upd_record_def upd_section_def set_record_def)
      moreover have "SetValue can key val sec save (c, d) = finish can save True (?c, d)"
        using name Some old by (simp add: SetValue_def)
      moreover have "fileName ?c = fileName c" by (simp add: upd_record_def upd_section_def)
      ultimately show ?thesis by blast
    qed
  qed
qed

lemma section_inv_map:
  assumes "section_inv sec s" "\<And>r. rec_key (f r) = rec_key r"
  shows "section_inv sec (s\<lparr>mapKV := map (\<lambda>(k, r). (k, f r)) (mapKV s)\<rparr>)"
proof -
  have "map fst (map (\<lambda>(k, r). (k, f r)) (mapKV s)) = map fst (mapKV s)" by (simp add: case_prod_unfold)
  then have "smap_ok (map (\<lambda>(k, r). (k, f r)) (mapKV s)) = smap_ok (mapKV s)" by (simp only: smap_ok_def)
  moreover have "smap_find k (map (\<lambda>(k, r). (k, f r)) m) = map_option f (smap_find k m)"
    for k and m :: "(string, ini_record) smap"
    by (induction m) (auto simp: smap_find_Cons)
  ultimately show ?thesis using assms by (auto simp: section_inv_def)
qed

lemma section_inv_attr: "section_inv sec s \<Longrightarrow> section_inv sec (s\<lparr>sec_commented := cc\<rparr>) \<and> section_inv sec (s\<lparr>sec_comments := cs\<rparr>)"
  by (simp add: section_inv_def)

lemma section_inv_erase: "section_inv sec s \<Longrightarrow> section_inv sec (s\<lparr>mapKV := smap_erase key (mapKV s)\<rparr>)"
  using smap.del_law [of "mapKV s" key] by (auto simp: section_inv_def split: if_splits)

lemma CommentSection_inv: "ini_inv c \<Longrightarrow> ini_inv (fst (snd (CommentSection can cc sec save (c, d))))"
proof -
  assume c: "ini_inv c"
  have "ini_inv (upd_section sec (\<lambda>s. s\<lparr>sec_commented := cc, mapKV := map (\<lambda>(k, r). (k, r\<lparr>rec_commented := cc\<rparr>)) (mapKV s)\<rparr>) c)"
  proof (rule ini_inv_section [OF c])
    fix s assume "section_inv sec s"
    from section_inv_attr [OF this] have "section_inv sec (s\<lparr>sec_commented := cc\<rparr>)" by blast
    from section_inv_map [OF this, of "\<lambda>r. r\<lparr>rec_commented := cc\<rparr>"]
    show "section_inv sec (s\<lparr>sec_commented := cc, mapKV := map (\<lambda>(k, r). (k, r\<lparr>rec_commented := cc\<rparr>)) (mapKV s)\<rparr>)" by simp
  qed
  then show ?thesis using c by (simp add: CommentSection_def finish_ini split: option.split)
qed

lemma DeleteRecord_run:
  assumes inv: "ini_inv c"
  shows "ini_inv (fst (snd (DeleteRecord can sec key save (c, d)))) \<and>
     GetRecord i j (fst (snd (DeleteRecord can sec key save (c, d)))) = (if i = sec \<and> j = key then None else GetRecord i j c)"
proof -
  let ?f = "\<lambda>s. s\<lparr>mapKV := smap_erase key (mapKV s)\<rparr>"
  have "ini_inv (upd_section sec ?f c)"
    by (rule ini_inv_section [OF inv]) (rule section_inv_erase)
  moreover have "GetRecord i j (upd_section sec ?f c) = (if i = sec \<and> j = key then None else GetRecord i j c)"
    by (auto simp: GetRecord_def upd_section_def smap_find_update smap_find_erase split: option.splits)
  moreover have "GetRecord sec key c = None \<Longrightarrow> i = sec \<Longrightarrow> j = key \<Longrightarrow> GetRecord i j c = None" by simp
  ultimately show ?thesis using inv by (auto simp: DeleteRecord_def finish_ini)
qed

lemma DeleteSection_run:
  assumes inv: "ini_inv c"
  shows "ini_inv (fst (snd (DeleteSection can sec save (c, d)))) \<and>
     GetRecord i j (fst (snd (DeleteSection can sec save (c, d)))) = (if i = sec then None else GetRecord i j c)"
proof -
  have "ini_inv (c\<lparr>mapSection := smap_erase sec (mapSection c)\<rparr>)"
    using inv smap.del_law [of "mapSection c" sec] by (auto simp: ini_inv_def sections_inv_def split: if_splits)
  then show ?thesis
    using inv by (auto simp: DeleteSection_def finish_ini GetRecord_def smap_find_erase split: option.splits)
qed

lemma AddSection_inv: "ini_inv c \<Longrightarrow> ini_inv (fst (snd (AddSection can sec save (c, d))))"
  using ini_inv_insert [of c sec]
  by (auto simp: AddSection_def finish_ini split: option.split prod.split)

lemma comments_inv:
  assumes "ini_inv c"
  shows "ini_inv (fst (snd (SetSectionComments can cs sec save (c, d))))"
    and "ini_inv (fst (snd (SetRecordComments can cs sec key save (c, d))))"
    and "ini_inv (fst (snd (CommentRecord can cc sec key save (c, d))))"
  using assms section_inv_attr
  by (auto simp: SetSectionComments_def SetRecordComments_def CommentRecord_def finish_ini
           intro!: ini_inv_record ini_inv_section)

subsection \<open>Loading establishes the invariant\<close>

lemma sections_inv_new:
  "smap_insert n s m = (ok, m') \<Longrightarrow> sections_inv m \<Longrightarrow> sec_name s = n \<Longrightarrow> mapKV s = [] \<Longrightarrow> sections_inv m'"
  by (rule sections_inv_insert [OF _ section_inv_empty])

lemma begin_section_inv: "sections_inv (l_map s) \<Longrightarrow> sections_inv (l_map (begin_section name s))"
  by (auto simp: begin_section_def section_new_def Let_def elim: sections_inv_new split: prod.split)

lemma set_key_value_map: "l_map (set_key_value line s) = l_map s"
  by (simp add: set_key_value_def split: option.split)

lemma add_record_into:
  "sections_inv m \<Longrightarrow> smap_find k m = Some sec \<Longrightarrow> smap_insert (rec_key r) r (mapKV sec) = (ok, kv) \<Longrightarrow>
     sections_inv (smap_update k (\<lambda>x. x\<lparr>mapKV := kv\<rparr>) m)"
  using section_inv_add [of k sec r "rec_key r" ok kv] by (intro sections_inv_update) auto

lemma add_record_inv: "sections_inv (l_map s) \<Longrightarrow> sections_inv (l_map (add_record s))"
  by (auto simp: add_record_def section_new_def Let_def elim: sections_inv_new intro!: add_record_into
           split: option.split prod.split)

lemma open_line_inv: "sections_inv (l_map s) \<Longrightarrow> sections_inv (l_map (open_line line s))"
  by (auto simp: open_line_def Let_def uncomment_def set_key_value_map split: option.split
       intro!: begin_section_inv add_record_inv)

lemma Open_inv: "ini_inv c \<Longrightarrow> ini_inv (fst (snd (Open f (c, d))))"
proof -
  have "sections_inv (l_map (fold open_line ls s))" if "sections_inv (l_map s)" for ls s
    using that by (induction ls arbitrary: s) (simp_all add: open_line_inv)
  moreover have "sections_inv (l_map load_new)" by (simp add: load_new_def sections_inv_def)
  ultimately show "ini_inv c \<Longrightarrow> ?thesis"
    by (simp add: Open_def ini_inv_def clear_def split: option.split)
qed

section \<open>Properties\<close>

text \<open>C11. A savable configuration written by SaveToFile is read back by Open: the same sections in the same
  order with the same comments, keys, values and comments of records, whatever the object that opens it
  held before; the file name of that object becomes the opened one.\<close>

theorem saved_file_reopens:
  assumes "savable c" "can name" "name \<noteq> []"
  shows "\<exists>d'. SaveToFile can (Some name) (c, d) = (True, c, d') \<and>
     Open (Some name) (c0, d') = (True, \<lparr>mapSection = mapSection c, fileName = name\<rparr>, d')"
  using assms load_saved [OF assms(1)] by (simp add: SaveToFile_def Open_def clear_def)

definition sample :: ini where
  "sample = \<lparr>mapSection =
     [(''db'', \<lparr>sec_name = ''db'', sec_comments = ''# the store'', sec_commented = CC_Record, mapKV =
        [(''host'', \<lparr>rec_sec = ''db'', rec_key = ''host'', rec_value = ''a b=c'', rec_comments = [], rec_commented = CC_Record\<rparr>),
         (''port'', \<lparr>rec_sec = ''db'', rec_key = ''port'', rec_value = ''1'',
                       rec_comments = ''; one'' @ [newline] @ ''; two'', rec_commented = CC_Record\<rparr>)]\<rparr>),
      (''log'', \<lparr>sec_name = ''log'', sec_comments = [], sec_commented = CC_Record, mapKV = []\<rparr>)],
     fileName = ''x.ini''\<rparr>"

lemma sample_savable: "savable sample"
  by code_simp

theorem saved_file_reopens_witness:
  "\<exists>d'. SaveToFile (\<lambda>n. True) (Some ''y.ini'') (sample, Map.empty) = (True, sample, d') \<and>
     Open (Some ''y.ini'') (clear sample, d') = (True, \<lparr>mapSection = mapSection sample, fileName = ''y.ini''\<rparr>, d')"
  by (rule saved_file_reopens [OF sample_savable]) simp_all

lemma ini_operation_parts:
  assumes inv: "ini_inv c"
  shows "fileName c \<noteq> [] \<Longrightarrow> \<exists>c'. SetValue can key val sec save (c, d) = finish can save True (c', d) \<and> ini_inv c' \<and>
        GetValue sec key dflt c' = val \<and> GetComments sec key '''' c' = GetComments sec key '''' c \<and>
        (\<forall>i j. (i, j) \<noteq> (sec, key) \<longrightarrow> GetRecord i j c' = GetRecord i j c)"
    and "fileName c = [] \<Longrightarrow> SetValue can key val sec save (c, d) = (False, c, d)"
    and "ini_inv (fst (snd (Open f (c, d))))"
    and "ini_inv (fst (snd (AddSection can sec save (c, d))))"
    and "ini_inv (fst (snd (CommentSection can cc sec save (c, d))))"
    and "ini_inv (fst (snd (CommentRecord can cc sec key save (c, d))))"
    and "ini_inv (fst (snd (SetSectionComments can cs sec save (c, d))))"
    and "ini_inv (fst (snd (SetRecordComments can cs sec key save (c, d))))"
    and "ini_inv (fst (snd (DeleteRecord can sec key save (c, d)))) \<and>
        GetRecord i j (fst (snd (DeleteRecord can sec key save (c, d)))) = (if i = sec \<and> j = key then None else GetRecord i j c)"
    and "ini_inv (fst (snd (DeleteSection can sec save (c, d)))) \<and>
        GetRecord i j (fst (snd (DeleteSection can sec save (c, d)))) = (if i = sec then None else GetRecord i j c)"
proof -
  assume "fileName c \<noteq> []"
  from SetValue_run [OF inv this] obtain c' where run: "SetValue can key val sec save (c, d) = finish can save True (c', d)"
    "ini_inv c'" and get: "\<And>i j. GetRecord i j c' =
        (if i = sec \<and> j = key then Some (set_record key val sec (GetRecord sec key c)) else GetRecord i j c)" by blast
  have "rec_value (set_record key val sec old) = val" for old by (simp add: set_record_def split: option.split)
  moreover have "rec_comments (set_record key val sec old) = (case old of None \<Rightarrow> '''' | Some r \<Rightarrow> rec_comments r)" for old
    by (simp add: set_record_def record_new_def split: option.split)
  ultimately show "\<exists>c'. SetValue can key val sec save (c, d) = finish can save True (c', d) \<and> ini_inv c' \<and>
        GetValue sec key dflt c' = val \<and> GetComments sec key '''' c' = GetComments sec key '''' c \<and>
        (\<forall>i j. (i, j) \<noteq> (sec, key) \<longrightarrow> GetRecord i j c' = GetRecord i j c)"
    using run get by (intro exI [of _ c']) (simp add: GetValue_def GetComments_def)
qed (simp_all add: SetValue_def Open_inv AddSection_inv CommentSection_inv comments_inv DeleteRecord_run DeleteSection_run inv)

text \<open>What the other changes leave behind, in memory, and what they return when they are not asked to save.\<close>

lemma GetSection_update: "GetSection i (upd_section sec f c) = (if i = sec then map_option f (GetSection sec c) else GetSection i c)"
  by (auto simp: GetSection_def upd_section_def smap_find_update)

lemma smap_find_map: "smap_find k (map (\<lambda>(k, r). (k, f r)) m) = map_option f (smap_find k m)"
  by (induction m) (auto simp: smap_find_Cons)

lemma GetRecord_update:
  "GetRecord i j (upd_record sec key f c) = (if i = sec \<and> j = key then map_option f (GetRecord i j c) else GetRecord i j c)"
  by (auto simp: GetRecord_def upd_record_def upd_section_def smap_find_update split: option.splits)

lemma AddSection_run:
  assumes "ini_inv c"
  shows "GetSection i (fst (snd (AddSection can sec save (c, d)))) =
     (if i = sec \<and> GetSection sec c = None then Some (section_new\<lparr>sec_name := sec\<rparr>) else GetSection i c)"
    and "\<not> save \<longrightarrow> fst (AddSection can sec save (c, d)) = (GetSection sec c = None)"
proof -
  have ok: "smap_ok (mapSection c)" using assms by (simp add: ini_inv_def sections_inv_def)
  obtain b m where ins: "smap_insert sec (section_new\<lparr>sec_name := sec\<rparr>) (mapSection c) = (b, m)" by fastforce
  note new = smap.ins_new [OF ok _ ins]
  show "GetSection i (fst (snd (AddSection can sec save (c, d)))) =
     (if i = sec \<and> GetSection sec c = None then Some (section_new\<lparr>sec_name := sec\<rparr>) else GetSection i c)"
    "\<not> save \<longrightarrow> fst (AddSection can sec save (c, d)) = (GetSection sec c = None)"
    using new by (auto simp: AddSection_def GetSection_def finish_ini finish_result ins split: option.split)
qed

lemma comments_run:
  "GetRecord i j (fst (snd (CommentSection can cc sec save (c, d)))) =
     (if i = sec then map_option (\<lambda>r. r\<lparr>rec_commented := cc\<rparr>) (GetRecord i j c) else GetRecord i j c)"
  "GetRecord i j (fst (snd (CommentRecord can cc sec key save (c, d)))) =
     (if i = sec \<and> j = key then map_option (\<lambda>r. r\<lparr>rec_commented := cc\<rparr>) (GetRecord i j c) else GetRecord i j c)"
  "GetSection i (fst (snd (SetSectionComments can cs sec save (c, d)))) =
     (if i = sec \<and> cs \<noteq> [] then map_option (\<lambda>s. s\<lparr>sec_comments := with_newline cs\<rparr>) (GetSection i c) else GetSection i c)"
  "GetRecord i j (fst (snd (SetRecordComments can cs sec key save (c, d)))) =
     (if i = sec \<and> j = key \<and> cs \<noteq> [] then map_option (\<lambda>r. r\<lparr>rec_comments := with_newline cs\<rparr>) (GetRecord i j c) else GetRecord i j c)"
  "\<not> save \<longrightarrow> fst (CommentSection can cc sec save (c, d)) = (GetSection sec c \<noteq> None)"
  "\<not> save \<longrightarrow> fst (CommentRecord can cc sec key save (c, d)) = (GetRecord sec key c \<noteq> None)"
  "\<not> save \<longrightarrow> fst (SetSectionComments can cs sec save (c, d)) = (cs \<noteq> [] \<and> GetSection sec c \<noteq> None)"
  "\<not> save \<longrightarrow> fst (SetRecordComments can cs sec key save (c, d)) = (cs \<noteq> [] \<and> GetRecord sec key c \<noteq> None)"
  "\<not> save \<longrightarrow> fst (DeleteRecord can sec key save (c, d)) = (GetRecord sec key c \<noteq> None)"
  "\<not> save \<longrightarrow> fst (DeleteSection can sec save (c, d)) = (GetSection sec c \<noteq> None)"
proof -
  show "GetRecord i j (fst (snd (CommentSection can cc sec save (c, d)))) =
     (if i = sec then map_option (\<lambda>r. r\<lparr>rec_commented := cc\<rparr>) (GetRecord i j c) else GetRecord i j c)"
    by (auto simp: CommentSection_def finish_ini GetRecord_def upd_section_def smap_find_update smap_find_map split: option.splits)
  show "GetSection i (fst (snd (SetSectionComments can cs sec save (c, d)))) =
     (if i = sec \<and> cs \<noteq> [] then map_option (\<lambda>s. s\<lparr>sec_comments := with_newline cs\<rparr>) (GetSection i c) else GetSection i c)"
    by (auto simp: SetSectionComments_def finish_ini GetSection_update) (auto simp: GetSection_def)
qed (auto simp: CommentRecord_def SetRecordComments_def CommentSection_def SetSectionComments_def DeleteRecord_def DeleteSection_def
    finish_ini finish_result GetRecord_update GetSection_def split: option.split)


lemma sections_invI:
  assumes "smap_ok m" "list_all (\<lambda>(n, s). sec_name s = n \<and> smap_ok (mapKV s) \<and> list_all (\<lambda>(k, r). rec_key r = k) (mapKV s)) m"
  shows "sections_inv m"
proof -
  have "section_inv n s" if "(n, s) \<in> set m" for n s
  proof -
    from assms(2) that have "sec_name s = n" "smap_ok (mapKV s)" "list_all (\<lambda>(k, r). rec_key r = k) (mapKV s)"
      by (auto simp: list_all_iff)
    then show ?thesis by (auto simp: section_inv_def smap_find_mem list_all_iff)
  qed
  then show ?thesis using assms(1) by (auto simp: sections_inv_def smap_find_mem)
qed

lemma sample_inv: "ini_inv sample"
  unfolding ini_inv_def by (rule sections_invI) code_simp+


text \<open>RenameSection changes the name inside the section, not its key in the map: the section is still found
  under the old name and what is found under the new name is what was there before, so the values of the
  renamed section cannot be read back by its new name although the file is saved with it.\<close>

lemma RenameSection_keeps_old_name:
  assumes "ini_inv c" "smap_find old (mapSection c) = Some s" "new \<noteq> old"
  shows "\<exists>c'. RenameSection can old new False (c, d) = (True, c', d) \<and>
     IsExistSection old c' \<and> map_option sec_name (GetSection old c') = Some new \<and>
     GetSection new c' = GetSection new c \<and>
     (\<forall>key dflt. GetValue old key dflt c' = GetValue old key dflt c \<and> GetValue new key dflt c' = GetValue new key dflt c) \<and>
     \<not> ini_inv c'"
proof -
  let ?f = "\<lambda>s. s\<lparr>sec_name := new, mapKV := map (\<lambda>(k, r). (k, r\<lparr>rec_sec := new\<rparr>)) (mapKV s)\<rparr>"
  let ?c = "upd_section old ?f c"
  have kv: "smap_find k (map (\<lambda>(k, r). (k, r\<lparr>rec_sec := new\<rparr>)) m) = map_option (\<lambda>r. r\<lparr>rec_sec := new\<rparr>) (smap_find k m)"
    for k and m :: "(string, ini_record) smap"
    by (induction m) (auto simp: smap_find_Cons)
  have sec: "smap_find i (mapSection ?c) = (if i = old then Some (?f s) else smap_find i (mapSection c))" for i
    using assms(2) by (simp add: upd_section_def smap_find_update)
  have rec: "GetRecord i k ?c = (if i = old then map_option (\<lambda>r. r\<lparr>rec_sec := new\<rparr>) (GetRecord old k c) else GetRecord i k c)" for i k
    using assms(2) by (simp add: GetRecord_def sec kv)
  have val: "GetValue old k dflt ?c = GetValue old k dflt c" "GetValue new k dflt ?c = GetValue new k dflt c" for k dflt
    using assms(3) by (simp_all add: GetValue_def rec split: option.split)
  have "\<not> section_inv old (?f s)" using assms(3) by (simp add: section_inv_def)
  then have "\<not> ini_inv ?c" using sec [of old] unfolding ini_inv_def sections_inv_def by fastforce
  then have "RenameSection can old new False (c, d) = (True, ?c, d) \<and> IsExistSection old ?c \<and>
      map_option sec_name (GetSection old ?c) = Some new \<and> GetSection new ?c = GetSection new c \<and>
     (\<forall>key dflt. GetValue old key dflt ?c = GetValue old key dflt c \<and> GetValue new key dflt ?c = GetValue new key dflt c) \<and>
     \<not> ini_inv ?c"
    using assms(2,3) by (simp add: RenameSection_def finish_def IsExistSection_def GetSection_def sec val)
  then show ?thesis by blast
qed

theorem RenameSection_keeps_old_name_witness:
  "\<exists>c'. RenameSection (\<lambda>n. True) ''db'' ''store'' False (sample, Map.empty) = (True, c', Map.empty) \<and>
     IsExistSection ''db'' c' \<and> GetSection ''store'' c' = None"
proof -
  obtain s where "smap_find ''db'' (mapSection sample) = Some s" by (simp add: sample_def smap_find_Cons)
  from RenameSection_keeps_old_name [OF sample_inv this, of "''store''" "\<lambda>n. True" Map.empty]
  show ?thesis by (auto simp: sample_def GetSection_def smap_find_Cons)
qed

section \<open>Binary values\<close>

lemma byte_char: "of_char (char_of (unat w) :: char) = (w :: u8)"
proof -
  have "(of_char (char_of (unat w) :: char) :: u8) = of_nat (of_char (char_of (unat w) :: char))"
    by (simp only: of_nat_of_char)
  also have "\<dots> = w" using unat_byte [of w] by simp
  finally show ?thesis .
qed

lemma nibble_byte:
  "push_bit 4 (of_char (char_of (unat ((drop_bit 4 b AND 15) + 65)) :: char) - 65) +
     (of_char (char_of (unat ((b AND 15) + 65)) :: char) - 65) = (b :: u8)"
proof -
  have low: "x AND 15 = x mod 16" for x :: u8
    using take_bit_eq_mask [of 4 x] by (simp add: take_bit_eq_mod mask_eq_exp_minus_1)
  have "drop_bit 4 b mod 16 = drop_bit 4 b" using nibbles(1) [of b] by (simp add: unat_arith_simps)
  then show ?thesis
    using nibbles(3) [of b] by (simp add: byte_char low push_bit_eq_mult)
qed

lemma nibble_roundtrip: "nibble_bytes (nibble_text ds) = Inr ds"
  by (induction ds) (simp_all add: nibble_text_def nibble_byte)

text \<open>The letters WriteProfileBinary makes of the bytes decode to the same bytes. But it passes its section and
  key where SetValue takes key and value: the call stores the key as the value of an entry named like the
  section, in a section named by the encoded bytes, and what is under the section and key stays as it was, so
  GetProfileBinary does not return the bytes.\<close>

lemma WriteProfileBinary_misplaces:
  assumes "ini_inv c" "fileName c \<noteq> []" "ds \<noteq> []"
  shows "nibble_bytes (nibble_text ds) = Inr ds \<and>
     (\<exists>c'. WriteProfileBinary can sec key ds False (c, d) = (True, c', d) \<and>
       GetValue (nibble_text ds) sec dflt c' = key \<and>
       (sec \<noteq> nibble_text ds \<longrightarrow> GetProfileBinary sec key c' = GetProfileBinary sec key c))"
proof -
  from SetValue_run [OF assms(1,2), of can sec key "nibble_text ds" False d] obtain c' where
    c': "SetValue can sec key (nibble_text ds) False (c, d) = (True, c', d)" "fileName c' = fileName c"
    and get: "\<And>i j. GetRecord i j c' =
      (if i = nibble_text ds \<and> j = sec then Some (set_record sec key (nibble_text ds) (GetRecord (nibble_text ds) sec c))
       else GetRecord i j c)"
    by (auto simp: finish_def)
  have "GetValue (nibble_text ds) sec dflt c' = key"
    by (simp add: GetValue_def get set_record_def split: option.split)
  with c' assms(3) show ?thesis
    by (simp add: nibble_roundtrip WriteProfileBinary_def GetProfileBinary_def GetValue_def get)
qed

theorem WriteProfileBinary_misplaces_witness:
  "\<exists>c'. WriteProfileBinary (\<lambda>n. True) ''db'' ''blob'' [0x12] False (sample, Map.empty) = (True, c', Map.empty) \<and>
     GetProfileBinary ''db'' ''blob'' c' = Inr (False, [])"
proof -
  have 1: "GetProfileBinary ''db'' ''blob'' sample = Inr (False, [])" "nibble_text [0x12] = ''CB''" by code_simp+
  have "fileName sample \<noteq> []" by (simp add: sample_def)
  from WriteProfileBinary_misplaces [OF sample_inv this, of "[0x12]" "\<lambda>n. True" "''db''" "''blob''" Map.empty "[]"] 1
  show ?thesis by auto
qed

section \<open>Where the text forms differ\<close>

text \<open>A section line without its closing bracket: LoadFromBuffer throws, Open takes it for an invalid line.\<close>

lemma LoadFromBuffer_unclosed_throws:
  "LoadFromBuffer (''[db'' @ [newline]) c = Inl Out_Of_Range_Exception"
  by (simp add: LoadFromBuffer_def) code_simp

text \<open>The text of SaveToStr has no line ends behind sections and records, and loads back as one empty section.\<close>

lemma SaveToStr_loses:
  "case LoadFromBuffer (SaveToStr (sample\<lparr>mapSection := [(''db'', (snd (hd (mapSection sample)))\<lparr>sec_comments := []\<rparr>)]\<rparr>)) sample
   of Inl e \<Rightarrow> False | Inr (ok, c) \<Rightarrow> ok \<and> map fst (mapSection c) = [''db''] \<and> GetRecord ''db'' ''host'' c = None"
  by code_simp

text \<open>The last line of the buffer is not read when no newline follows it.\<close>

lemma LoadFromBuffer_last_line:
  assumes "newline \<notin> set rest"
  shows "LoadFromBuffer (ls @ [newline] @ rest) c = LoadFromBuffer (ls @ [newline]) c"
proof -
  have "getlines (xs @ newline # ys) = getlines xs @ getlines ys" for xs ys
    by (induction xs) (simp_all add: getlines_def split: list.split)
  then have "butlast (getlines (ls @ newline # rest)) = butlast (getlines (ls @ [newline]))"
    using assms by (simp add: butlast_append) (simp add: getlines_def split_ref_none)
  then show ?thesis by (simp add: LoadFromBuffer_def)
qed

text \<open>
  A line without equals sign is called ignored, but inserts the spare record: an empty key, or the record of
  a rejected duplicate, here into a later section.
\<close>

lemma Open_invalid_line_inserts:
  "case Open (Some ''f'') (sample, [''f'' \<mapsto> ''[a]'' @ [newline] @ ''k=1'' @ [newline] @ ''k=2'' @ [newline] @
      ''[b]'' @ [newline] @ ''junk'' @ [newline]])
   of (ok, c, d) \<Rightarrow> ok \<and> GetValue ''a'' ''k'' [] c = ''1'' \<and> GetValue ''b'' ''k'' [] c = ''2''"
  by code_simp

end
