(* ===== verification/App_Config.thy ===== *)
theory App_Config
  imports Ini_Files Clients
begin

text \<open>
  What an application is started with: the command line (src/src/app/app\_cmd\_parser.cpp, app\_cmd\_parser.h) and the
  configuration (app/config\_info.cpp, config\_info.h) read through CIniFileS, with the numeric reading and writing of
  common/ini\_files.h and ini\_files.cpp.
\<close>

section \<open>The command line\<close>

record cmd_parser =
  help_mode :: bool
  daemon_mode :: bool
  logger_config :: string
  application_config :: string

definition AppCmdParser_new :: cmd_parser where
  "AppCmdParser_new = \<lparr>help_mode = False, daemon_mode = False, logger_config = [], application_config = []\<rparr>"

text \<open>argv with the name of the program in front; argc is its length.\<close>

definition Usage :: "string list \<Rightarrow> cmd_parser \<Rightarrow> int \<times> cmd_parser" where
  "Usage argv p =
     (if length argv = 2 \<and> (strcasecmp (argv ! 1) ''-h'' \<or> strcasecmp (argv ! 1) ''--help'') then (1, p\<lparr>help_mode := True\<rparr>)
      else if length argv = 2 \<and> (strcasecmp (argv ! 1) ''-v'' \<or> strcasecmp (argv ! 1) ''--version'') then (1, p)
      else if length argv < 3 then (2, p)
      else (0, p))"

fun argv_loop :: "string list \<Rightarrow> cmd_parser \<Rightarrow> cmd_parser" where
  "argv_loop [] p = p"
| "argv_loop (a # as) p =
     (if a = ''-c'' \<or> a = ''--config''
      then (case as of [] \<Rightarrow> p | v # bs \<Rightarrow> argv_loop bs (p\<lparr>application_config := v\<rparr>))
      else if a = ''-d'' \<or> a = ''--daemon'' then argv_loop as (p\<lparr>daemon_mode := True\<rparr>)
      else if a = ''-l'' \<or> a = ''--log''
      then (case as of [] \<Rightarrow> p | v # bs \<Rightarrow> argv_loop bs (p\<lparr>logger_config := v\<rparr>))
      else argv_loop as p)"

definition ParseArgv :: "string list \<Rightarrow> cmd_parser \<Rightarrow> int \<times> cmd_parser" where
  "ParseArgv argv p = (let p1 = argv_loop (drop 1 argv) p in (if application_config p1 = [] then 1 else 0, p1))"

definition app_ParseCmd :: "string list \<Rightarrow> cmd_parser \<Rightarrow> int \<times> cmd_parser" where
  "app_ParseCmd argv p =
     (case Usage argv p of (r, p1) \<Rightarrow>
        if r \<noteq> 0 then (-1, p1)
        else (case ParseArgv argv p1 of (r2, p2) \<Rightarrow> if r2 \<noteq> 0 then (-2, p2) else (0, p2)))"

section \<open>Numbers in a configuration\<close>

definition GetValueInt :: "string \<Rightarrow> string \<Rightarrow> int \<Rightarrow> ini \<Rightarrow> int" where
  "GetValueInt sec key dflt c = (case GetRecord sec key c of None \<Rightarrow> dflt | Some r \<Rightarrow> atoi (rec_value r))"

text \<open>atol: a long has 64 bits.\<close>

definition GetValueLong :: "string \<Rightarrow> string \<Rightarrow> int \<Rightarrow> ini \<Rightarrow> int" where
  "GetValueLong sec key dflt c = (case GetRecord sec key c of None \<Rightarrow> dflt | Some r \<Rightarrow> fst (strtoll (rec_value r)))"

definition SetValue_int :: "(string \<Rightarrow> bool) \<Rightarrow> string \<Rightarrow> int \<Rightarrow> string \<Rightarrow> bool \<Rightarrow> ini \<times> disk \<Rightarrow> bool \<times> ini \<times> disk" where
  "SetValue_int can key n sec save st = SetValue can key (take 62 (dec_int n)) sec save st"

definition SetValue_uint :: "(string \<Rightarrow> bool) \<Rightarrow> string \<Rightarrow> u32 \<Rightarrow> string \<Rightarrow> bool \<Rightarrow> ini \<times> disk \<Rightarrow> bool \<times> ini \<times> disk" where
  "SetValue_uint can key u sec save st = SetValue can key (take 62 (dec (unat u))) sec save st"

definition SetValue_long :: "(string \<Rightarrow> bool) \<Rightarrow> string \<Rightarrow> int \<Rightarrow> string \<Rightarrow> bool \<Rightarrow> ini \<times> disk \<Rightarrow> bool \<times> ini \<times> disk" where
  "SetValue_long can key n sec save st = SetValue can key (take 62 (dec_int n)) sec save st"

section \<open>The configuration\<close>

record server_config =
  sc_address :: string
  sc_name :: string

record service_config =
  io_thread_count :: int
  service_handle_thread_count :: int
  service_count :: int
  server_configs :: "server_config list"
  router_file :: string
  coroutine_size :: u32
  monitor_file_name :: string
  monitor_token_bucket :: u32
  monitor_queue_bucket :: u32
  monitor_queue_size :: u32

definition ServiceConfig_new :: service_config where
  "ServiceConfig_new = \<lparr>io_thread_count = 2, service_handle_thread_count = 2, service_count = 1, server_configs = [],
     router_file = [], coroutine_size = 256, monitor_file_name = [], monitor_token_bucket = 16, monitor_queue_bucket = 16,
     monitor_queue_size = 1024 * 128\<rparr>"

record client_config =
  cc_address :: string
  cc_timeout :: u32
  cc_heartbeat :: u32
  single_addr_connect_count :: int

record client_router_config =
  rc_name :: string
  rc_mapping :: string
  sigle_send_sigle_recv :: bool
  rc_clients :: "client_config list"

record config_info =
  service_conf :: service_config
  client_routers_conf :: "client_router_config list"

definition ConfigInfo_new :: config_info where
  "ConfigInfo_new = \<lparr>service_conf = ServiceConfig_new, client_routers_conf = []\<rparr>"

definition LoadServiceConfig :: "ini \<Rightarrow> service_config \<Rightarrow> int \<times> service_config" where
  "LoadServiceConfig c config =
     (let v = (\<lambda>key dflt. GetValueInt ''io_service'' key dflt c); t = (\<lambda>key. GetValue ''io_service'' key [] c)
      in (0, config\<lparr>io_thread_count := v ''io_thread_count'' 2,
            service_handle_thread_count := v ''service_handle_thread_count'' 2,
            service_count := v ''services_count'' 1,
            router_file := t ''router_file'',
            coroutine_size := of_int (v ''coroutine_size'' 512),
            monitor_file_name := t ''monitor_file'',
            monitor_token_bucket := of_int (v ''monitor_token_bucket'' 16),
            monitor_queue_bucket := of_int (v ''monitor_queue_bucket'' 16),
            monitor_queue_size := of_int (v ''monitor_queue_size'' (1024 * 512))\<rparr>))"

definition server_at :: "ini \<Rightarrow> nat \<Rightarrow> server_config" where
  "server_at c idx =
     (let sec = ''service'' @ dec idx in \<lparr>sc_address = GetValue sec ''address'' [] c, sc_name = GetValue sec ''name'' [] c\<rparr>)"

definition LoadServicesConfig :: "ini \<Rightarrow> int \<Rightarrow> server_config list \<Rightarrow> int \<times> server_config list" where
  "LoadServicesConfig c srv_cnt config =
     (if srv_cnt < 1 then (-1, config) else (0, config @ map (server_at c) [0..<nat srv_cnt]))"

definition client_at :: "ini \<Rightarrow> string \<Rightarrow> nat \<Rightarrow> client_config" where
  "client_at c sec jdx =
     \<lparr>cc_address = GetValue sec (''address'' @ dec jdx) [] c, cc_timeout = of_int (GetValueInt sec ''timeout_ms'' 100 c),
      cc_heartbeat = of_int (GetValueInt sec ''heartbeat_ms'' 3000 c),
      single_addr_connect_count = GetValueInt sec ''single_addr_connect_count'' 3 c\<rparr>"

definition router_at :: "ini \<Rightarrow> nat \<Rightarrow> client_router_config" where
  "router_at c idx =
     (let sec = ''client'' @ dec idx
      in \<lparr>rc_name = GetValue sec ''name'' [] c, rc_mapping = GetValue sec ''mapping'' [] c,
          sigle_send_sigle_recv = (GetValueInt sec ''sigle_send_sigle_recv'' 0 c \<noteq> 0),
          rc_clients = map (client_at c sec) [0..<nat (GetValueInt sec ''address_count'' 1 c)]\<rparr>)"

definition ini_new :: ini where
  "ini_new = \<lparr>mapSection = [], fileName = []\<rparr>"

definition LoadRouterConfig :: "string \<Rightarrow> disk \<Rightarrow> client_router_config list \<Rightarrow> int \<times> client_router_config list" where
  "LoadRouterConfig file_path d config =
     (if file_path = [] then (0, config)
      else (case Open (Some file_path) (ini_new, d) of (ok, c, d1) \<Rightarrow>
        if \<not> ok then (-1, config)
        else (0, config @ map (router_at c) [0..<nat (GetValueInt ''router'' ''client_count'' 1 c)])))"

definition LoadApplicationConfig :: "ini \<Rightarrow> int" where
  "LoadApplicationConfig c = 0"

definition LoadConfig :: "string \<Rightarrow> disk \<Rightarrow> config_info \<Rightarrow> int \<times> config_info" where
  "LoadConfig config_path d ci =
     (case Open (Some config_path) (ini_new, d) of (ok, c, d1) \<Rightarrow>
        if \<not> ok then (-1, ci)
        else (case LoadServiceConfig c (service_conf ci) of (r1, s1) \<Rightarrow>
          if r1 \<noteq> 0 then (-2, ci\<lparr>service_conf := s1\<rparr>)
          else (case LoadServicesConfig c (service_count s1) (server_configs s1) of (r2, l2) \<Rightarrow>
            let s2 = s1\<lparr>server_configs := l2\<rparr>; ci2 = ci\<lparr>service_conf := s2\<rparr>
            in if r2 \<noteq> 0 then (-3, ci2)
               else (case LoadRouterConfig (router_file s2) d (client_routers_conf ci2) of (r3, l3) \<Rightarrow>
                 let ci3 = ci2\<lparr>client_routers_conf := l3\<rparr>
                 in if r3 \<noteq> 0 then (-4, ci3)
                    else if LoadApplicationConfig c \<noteq> 0 then (-5, ci3) else (0, ci3)))))"

section \<open>Behaviour\<close>

text \<open>The usage text names --c and --l; the loop knows -c, --config, -l and --log only.\<close>

lemma usage_options_unknown: "app_ParseCmd [''app'', ''--c'', ''a.ini'', ''--l'', ''log.ini''] AppCmdParser_new = (-2, AppCmdParser_new)"
  by code_simp

lemma long_options: "app_ParseCmd [''app'', ''--config'', ''a.ini'', ''--log'', ''log.ini'', ''-d''] AppCmdParser_new =
   (0, \<lparr>help_mode = False, daemon_mode = True, logger_config = ''log.ini'', application_config = ''a.ini''\<rparr>)"
  by code_simp

lemma length_dec_power: "n < 10 ^ k \<Longrightarrow> 0 < k \<Longrightarrow> length (dec n) \<le> k"
proof (induction n arbitrary: k rule: dec.induct)
  case (1 n)
  show ?case
  proof (cases "n < 10")
    case True
    then show ?thesis using 1(3) by (subst dec.simps) simp
  next
    case False
    obtain j where j: "k = Suc j" using 1(3) by (cases k) auto
    have "0 < j" using 1(2) False j by (cases j) auto
    moreover have "n div 10 < 10 ^ j" using 1(2) by (simp add: j less_mult_imp_div_less mult.commute)
    ultimately have "length (dec (n div 10)) \<le> j" using 1(1) [OF False] by simp
    then show ?thesis using False by (subst dec.simps) (simp add: j)
  qed
qed

lemma length_dec_int: "\<bar>i\<bar> < 2 ^ 63 \<Longrightarrow> length (dec_int i) \<le> 62"
proof -
  assume i: "\<bar>i\<bar> < 2 ^ 63"
  have "nat \<bar>i\<bar> < 10 ^ 61" using i by simp
  then have "length (dec (nat \<bar>i\<bar>)) \<le> 61" by (rule length_dec_power) simp
  then show ?thesis by (cases "i < 0") (simp_all add: dec_int_def)
qed

lemma length_dec_u32: "length (dec (unat (u :: u32))) \<le> 62"
proof -
  have "unat u < 10 ^ 10" by (rule less_le_trans [OF unsigned_less]) simp
  then have "length (dec (unat u)) \<le> 10" by (rule length_dec_power) simp
  then show ?thesis by simp
qed

text \<open>The buffers of 64 bytes hold every number.\<close>

lemma SetValue_numbers:
  "\<bar>n\<bar> < 2 ^ 63 \<Longrightarrow> SetValue_int can key n sec save st = SetValue can key (dec_int n) sec save st"
  "\<bar>n\<bar> < 2 ^ 63 \<Longrightarrow> SetValue_long can key n sec save st = SetValue can key (dec_int n) sec save st"
  "SetValue_uint can key u sec save st = SetValue can key (dec (unat u)) sec save st"
  by (simp_all add: SetValue_int_def SetValue_long_def SetValue_uint_def length_dec_int length_dec_u32)

lemma GetValueInt_value:
  assumes "GetValue sec key '''' c = v" "v \<noteq> ''''"
  shows "GetValueInt sec key dflt c = atoi v"
proof (cases "GetRecord sec key c")
  case None
  then show ?thesis using assms by (simp add: GetValue_def)
next
  case (Some r)
  then show ?thesis using assms(1) by (simp add: GetValueInt_def GetValue_def)
qed

lemma GetValueInt_cong: "GetRecord sec key c' = GetRecord sec key c \<Longrightarrow> GetValueInt sec key dflt c' = GetValueInt sec key dflt c"
  by (simp add: GetValueInt_def)

lemma GetValue_cong: "GetRecord sec key c' = GetRecord sec key c \<Longrightarrow> GetValue sec key dflt c' = GetValue sec key dflt c"
  by (simp add: GetValue_def)

lemma dec_int_not_empty: "dec_int n \<noteq> ''''"
proof -
  have "dec m \<noteq> []" for m by (subst dec.simps) simp
  then show ?thesis by (simp add: dec_int_def)
qed

lemma LoadServiceConfig_number:
  assumes "GetValueInt ''io_service'' ''io_thread_count'' 2 c' = n"
    "\<forall>i j. (i, j) \<noteq> (''io_service'', ''io_thread_count'') \<longrightarrow> GetRecord i j c' = GetRecord i j c"
  shows "LoadServiceConfig c' s = (0, snd (LoadServiceConfig c s)\<lparr>io_thread_count := n\<rparr>)"
proof -
  have "GetRecord ''io_service'' key c' = GetRecord ''io_service'' key c" if "key \<noteq> ''io_thread_count''" for key
    using assms(2) that by simp
  then have ints: "GetValueInt ''io_service'' key dflt c' = GetValueInt ''io_service'' key dflt c"
    and texts: "GetValue ''io_service'' key v c' = GetValue ''io_service'' key v c" if "key \<noteq> ''io_thread_count''" for key dflt v
    using that by (blast intro: GetValueInt_cong GetValue_cong)+
  have eqs: "GetValueInt ''io_service'' ''service_handle_thread_count'' 2 c' = GetValueInt ''io_service'' ''service_handle_thread_count'' 2 c"
    "GetValueInt ''io_service'' ''services_count'' 1 c' = GetValueInt ''io_service'' ''services_count'' 1 c"
    "GetValue ''io_service'' ''router_file'' [] c' = GetValue ''io_service'' ''router_file'' [] c"
    "GetValueInt ''io_service'' ''coroutine_size'' 512 c' = GetValueInt ''io_service'' ''coroutine_size'' 512 c"
    "GetValue ''io_service'' ''monitor_file'' [] c' = GetValue ''io_service'' ''monitor_file'' [] c"
    "GetValueInt ''io_service'' ''monitor_token_bucket'' 16 c' = GetValueInt ''io_service'' ''monitor_token_bucket'' 16 c"
    "GetValueInt ''io_service'' ''monitor_queue_bucket'' 16 c' = GetValueInt ''io_service'' ''monitor_queue_bucket'' 16 c"
    "GetValueInt ''io_service'' ''monitor_queue_size'' (1024 * 512) c' = GetValueInt ''io_service'' ''monitor_queue_size'' (1024 * 512) c"
    by (rule ints texts, simp)+
  show ?thesis unfolding LoadServiceConfig_def Let_def eqs assms(1) snd_conv by simp
qed

text \<open>A number set with SetValue is the number that loading the configuration reads, for every int and whatever
  the file held before; the other numbers of the section are what they were.\<close>

lemma number_setting_roundtrip:
  assumes "ini_inv c" "fileName c \<noteq> []" "- (2 ^ 31) \<le> n" "n < 2 ^ 31"
  shows "\<exists>c'. SetValue_int can ''io_thread_count'' n ''io_service'' save (c, d) = finish can save True (c', d) \<and> ini_inv c' \<and>
     LoadServiceConfig c' s = (0, snd (LoadServiceConfig c s)\<lparr>io_thread_count := n\<rparr>)"
proof -
  have n: "\<bar>n\<bar> < 2 ^ 63" using assms(3,4) by simp
  obtain c' where run: "SetValue can ''io_thread_count'' (dec_int n) ''io_service'' save (c, d) = finish can save True (c', d)" "ini_inv c'"
    and get: "GetValue ''io_service'' ''io_thread_count'' '''' c' = dec_int n"
    and others: "\<forall>i j. (i, j) \<noteq> (''io_service'', ''io_thread_count'') \<longrightarrow> GetRecord i j c' = GetRecord i j c"
    using ini_operation_parts(1) [OF assms(1,2)] by blast
  have "GetValueInt ''io_service'' ''io_thread_count'' 2 c' = n"
    using GetValueInt_value [OF get dec_int_not_empty] atoi_dec_int [OF assms(3,4)] by simp
  from LoadServiceConfig_number [OF this others] run(2) show ?thesis
    by (intro exI [of _ c'] conjI) (simp_all add: SetValue_numbers(1) [OF n] run(1))
qed

lemma number_setting_roundtrip_witness:
  "\<exists>c'. SetValue_int (\<lambda>n. True) ''io_thread_count'' (-5) ''io_service'' False (sample, Map.empty) = (True, c', Map.empty) \<and>
     io_thread_count (snd (LoadServiceConfig c' ServiceConfig_new)) = -5"
proof -
  have "fileName sample \<noteq> []" by code_simp
  from number_setting_roundtrip [OF sample_inv this, of "-5" "\<lambda>n. True" False Map.empty ServiceConfig_new] obtain c' where
    "SetValue_int (\<lambda>n. True) ''io_thread_count'' (-5) ''io_service'' False (sample, Map.empty) = finish (\<lambda>n. True) False True (c', Map.empty)"
    "LoadServiceConfig c' ServiceConfig_new = (0, snd (LoadServiceConfig sample ServiceConfig_new)\<lparr>io_thread_count := -5\<rparr>)" by auto
  then show ?thesis by (intro exI [of _ c']) (simp add: finish_def)
qed

text \<open>The command line made of the options the loop knows, in that order, is read as the settings it was made of.\<close>

lemma command_line_read:
  "c \<noteq> [] \<Longrightarrow> app_ParseCmd ([exe, ''-c'', c, ''-l'', l] @ (if dm then [''-d''] else [])) AppCmdParser_new =
     (0, \<lparr>help_mode = False, daemon_mode = dm, logger_config = l, application_config = c\<rparr>)"
  by (simp add: app_ParseCmd_def Usage_def ParseArgv_def AppCmdParser_new_def)

text \<open>What a configuration that loads gives to the start of the application: at least one service, as many as named.\<close>

lemma LoadConfig_services:
  assumes "LoadConfig path d ConfigInfo_new = (0, ci)"
  shows "0 < service_count (service_conf ci) \<and> length (server_configs (service_conf ci)) = nat (service_count (service_conf ci))"
  using assms by (auto simp: LoadConfig_def LoadServicesConfig_def LoadServiceConfig_def ConfigInfo_new_def ServiceConfig_new_def Let_def
      split: prod.splits if_splits)

end
