(* ===== verification/Client_Start.thy ===== *)
theory Client_Start
  imports Clients App_Config
begin

text \<open>
  Starting and stopping the clients of a configuration: Start, Stop and the destructors of src/src/client/client\_mgr.cpp,
  client\_routers.cpp and client\_router.cpp, down to the single clients of the theory \<open>Clients\<close>. The contract of a thing
  that is stopped, at each level, is the locale stoppable.
\<close>

section \<open>Starting\<close>

text \<open>
  The answers to the attempts to start a client, by number: the address of the connection, what TryConnect returns and
  the status it leaves.
\<close>

type_synonym start_answers = "nat \<Rightarrow> u64 \<times> int \<times> int"

definition ClientRouter_new :: "bool \<Rightarrow> router" where
  "ClientRouter_new sgl = \<lparr>clients = [], rt_current = 0, rt_single = sgl\<rparr>"

definition ClientRouters_new :: routers where
  "ClientRouters_new = \<lparr>client_routers = [], rts_current = 0\<rparr>"

text \<open>\<open>for (const auto& x : xs) x->Stop();\<close>\<close>

fun each :: "('a \<Rightarrow> clients_world \<Rightarrow> 'a \<times> clients_world) \<Rightarrow> 'a list \<Rightarrow> clients_world \<Rightarrow> 'a list \<times> clients_world" where
  "each stop [] w = ([], w)"
| "each stop (x # xs) w = (case stop x w of (y, w1) \<Rightarrow> case each stop xs w1 of (ys, w2) \<Rightarrow> (y # ys, w2))"

definition router_Stop :: "router \<Rightarrow> clients_world \<Rightarrow> router \<times> clients_world" where
  "router_Stop r w = (case each client_Stop (clients r) w of (cs, w1) \<Rightarrow> (r\<lparr>clients := cs\<rparr>, w1))"

text \<open>The destructor deletes the clients, and that of a client stops it.\<close>

definition router_delete :: "router \<Rightarrow> clients_world \<Rightarrow> clients_world" where
  "router_delete r w = snd (each client_Stop (clients r) w)"

definition routers_Stop :: "routers \<Rightarrow> clients_world \<Rightarrow> routers \<times> clients_world" where
  "routers_Stop g w = (case each router_Stop (client_routers g) w of (rs, w1) \<Rightarrow> (g\<lparr>client_routers := rs\<rparr>, w1))"

definition routers_delete :: "routers \<Rightarrow> clients_world \<Rightarrow> clients_world" where
  "routers_delete g w = (case routers_Stop g w of (g1, w1) \<Rightarrow> fold router_delete (client_routers g1) w1)"

text \<open>The loop over single\_addr\_connect\_count; \<open>n\<close> is the number of attempts so far.\<close>

fun router_Start :: "start_answers \<Rightarrow> client_config \<Rightarrow> nat \<Rightarrow> nat \<Rightarrow> router \<Rightarrow> clients_world \<Rightarrow> (int \<times> nat \<times> router \<times> clients_world) outcome" where
  "router_Start ans cfg 0 n r w = Inr (0, n, r, w)"
| "router_Start ans cfg (Suc k) n r w =
     outcome_bind (client_Start (fst (ans n)) (snd (ans n)) (Client_new (cc_address cfg) (cc_timeout cfg) (cc_heartbeat cfg) (rt_single r)) w)
       (\<lambda>(ret, c, w1). if ret \<noteq> 0 then Inr (-1, Suc n, r, snd (client_Stop c w1))
                       else router_Start ans cfg k (Suc n) (r\<lparr>clients := clients r @ [c]\<rparr>) w1)"

fun routers_Start :: "start_answers \<Rightarrow> bool \<Rightarrow> client_config list \<Rightarrow> nat \<Rightarrow> routers \<Rightarrow> clients_world \<Rightarrow> (int \<times> nat \<times> routers \<times> clients_world) outcome" where
  "routers_Start ans sgl [] n g w = Inr (0, n, g, w)"
| "routers_Start ans sgl (cfg # cfgs) n g w =
     outcome_bind (router_Start ans cfg (nat (single_addr_connect_count cfg)) n (ClientRouter_new sgl) w)
       (\<lambda>(ret, n1, r, w1). if ret \<noteq> 0 then Inr (-1, n1, g, router_delete r w1)
                           else routers_Start ans sgl cfgs n1 (g\<lparr>client_routers := client_routers g @ [r]\<rparr>) w1)"

fun groups_loop :: "start_answers \<Rightarrow> client_router_config list \<Rightarrow> nat \<Rightarrow> router_maps \<Rightarrow> clients_world \<Rightarrow> (int \<times> nat \<times> router_maps \<times> clients_world) outcome" where
  "groups_loop ans [] n g w = Inr (0, n, g, w)"
| "groups_loop ans (rc # rcs) n g w =
     (if g (rc_name rc) \<noteq> None then groups_loop ans rcs n g w
      else outcome_bind (routers_Start ans (sigle_send_sigle_recv rc) (rc_clients rc) n ClientRouters_new w)
             (\<lambda>(ret, n1, gr, w1). if ret \<noteq> 0 then Inr (-1, n1, g, routers_delete gr w1)
                                  else groups_loop ans rcs n1 (g(rc_name rc \<mapsto> gr)) w1))"

text \<open>The second part of the result is whether the thread that reconnects was started.\<close>

definition mgr_Start :: "start_answers \<Rightarrow> client_router_config list \<Rightarrow> router_maps \<Rightarrow> clients_world \<Rightarrow> (int \<times> bool \<times> router_maps \<times> clients_world) outcome" where
  "mgr_Start ans confs g w =
     (if confs = [] then Inr (0, False, g, w)
      else map_sum id (\<lambda>(ret, n, g1, w1). (ret, ret = 0, g1, w1)) (groups_loop ans confs 0 g w))"

section \<open>Stopping\<close>

fun stop_groups :: "string list \<Rightarrow> router_maps \<Rightarrow> clients_world \<Rightarrow> router_maps \<times> clients_world" where
  "stop_groups [] g w = (g, w)"
| "stop_groups (x # xs) g w =
     (case g x of
        None \<Rightarrow> stop_groups xs g w
      | Some gr \<Rightarrow> (case routers_Stop gr w of (gr1, w1) \<Rightarrow> stop_groups xs (g(x \<mapsto> gr1)) w1))"

text \<open>A std::map is walked in the order of its keys.\<close>

definition mgr_Stop :: "router_maps \<Rightarrow> clients_world \<Rightarrow> router_maps \<times> clients_world" where
  "mgr_Stop g w = stop_groups (sorted_list_of_set (dom g)) g w"

section \<open>The account of the connections\<close>

text \<open>
  Between the worlds \<open>w0\<close> and \<open>w\<close> connections were made, at addresses of \<open>A\<close>: those not in \<open>H\<close>, which
  are held by clients, were sent their close message once, and nothing else was sent.
\<close>

definition closes :: "u64 list \<Rightarrow> message list" where
  "closes as = map (\<lambda>a. Stop (sint a)) as"

definition accounts :: "clients_world \<Rightarrow> u64 set \<Rightarrow> u64 multiset \<Rightarrow> clients_world \<Rightarrow> bool" where
  "accounts w0 A H w \<longleftrightarrow>
     (\<exists>ads. to_net w = to_net w0 @ closes ads \<and> mset ads + H = mset_set (dom (cons w) - dom (cons w0))) \<and>
     dom (cons w0) \<subseteq> dom (cons w) \<and> dom (cons w) \<subseteq> dom (cons w0) \<union> A \<and> finite (dom (cons w) - dom (cons w0))"

definition holds :: "client \<Rightarrow> u64 multiset" where
  "holds c = (if connect_addr c = 0 then {#} else {#connect_addr c#})"

definition all_held :: "('a \<Rightarrow> u64 multiset) \<Rightarrow> 'a list \<Rightarrow> u64 multiset" where
  "all_held h xs = sum_list (map h xs)"

lemma all_held_simps [simp]:
  "all_held h [] = {#}" "all_held h (x # xs) = h x + all_held h xs" "all_held h (xs @ ys) = all_held h xs + all_held h ys"
  by (simp_all add: all_held_def)

locale stoppable =
  fixes stop :: "'a \<Rightarrow> clients_world \<Rightarrow> 'a \<times> clients_world" and held :: "'a \<Rightarrow> u64 multiset"
  assumes stop_closes: "accounts w0 A (held x + H) w \<Longrightarrow> accounts w0 A H (snd (stop x w))"
    and stop_lets_go: "held (fst (stop x w)) = {#}"
begin

lemma each_closes: "accounts w0 A (all_held held xs + H) w \<Longrightarrow> accounts w0 A H (snd (each stop xs w))"
proof (induction xs arbitrary: w)
  case (Cons x xs)
  have "accounts w0 A (all_held held xs + H) (snd (stop x w))"
    using Cons.prems by (intro stop_closes) (simp add: add.assoc)
  from Cons.IH [OF this] show ?case by (simp add: case_prod_beta)
qed simp

lemma each_lets_go: "all_held held (fst (each stop xs w)) = {#}"
proof (induction xs arbitrary: w)
  case (Cons x xs)
  show ?case using Cons.IH [of "snd (stop x w)"] stop_lets_go [of x w] by (simp add: case_prod_beta)
qed simp

end

interpretation client_stops: stoppable client_Stop holds
proof
  fix w0 A c H w
  assume a: "accounts w0 A (holds c + H) w"
  show "accounts w0 A H (snd (client_Stop c w))"
  proof (cases "connect_addr c = 0")
    case True
    then show ?thesis using a by (simp add: client_Stop_def holds_def)
  next
    case False
    obtain ads where ads: "to_net w = to_net w0 @ closes ads" "mset ads + (holds c + H) = mset_set (dom (cons w) - dom (cons w0))"
      using a unfolding accounts_def by blast
    have "to_net w @ [Stop (sint (connect_addr c))] = to_net w0 @ closes (ads @ [connect_addr c])"
      "mset (ads @ [connect_addr c]) + H = mset_set (dom (cons w) - dom (cons w0))"
      using ads False by (simp_all add: closes_def holds_def)
    then show ?thesis using a False unfolding accounts_def client_Stop_def by auto
  qed
qed (simp add: client_Stop_def holds_def)

definition router_holds :: "router \<Rightarrow> u64 multiset" where
  "router_holds r = all_held holds (clients r)"

definition routers_hold :: "routers \<Rightarrow> u64 multiset" where
  "routers_hold g = all_held router_holds (client_routers g)"

interpretation router_stops: stoppable router_Stop router_holds
proof
  fix w0 A r H w
  assume "accounts w0 A (router_holds r + H) w"
  then show "accounts w0 A H (snd (router_Stop r w))"
    using client_stops.each_closes [of w0 A "clients r" H w] by (simp add: router_Stop_def router_holds_def case_prod_beta)
next
  fix r w
  show "router_holds (fst (router_Stop r w)) = {#}"
    using client_stops.each_lets_go [of "clients r" w] by (simp add: router_Stop_def router_holds_def case_prod_beta)
qed

interpretation routers_stop: stoppable routers_Stop routers_hold
proof
  fix w0 A g H w
  assume "accounts w0 A (routers_hold g + H) w"
  then show "accounts w0 A H (snd (routers_Stop g w))"
    using router_stops.each_closes [of w0 A "client_routers g" H w] by (simp add: routers_Stop_def routers_hold_def case_prod_beta)
next
  fix g w
  show "routers_hold (fst (routers_Stop g w)) = {#}"
    using router_stops.each_lets_go [of "client_routers g" w] by (simp add: routers_Stop_def routers_hold_def case_prod_beta)
qed


section \<open>Every connection made is held or closed\<close>

lemma router_delete_closes: "accounts w0 A (router_holds r + H) w \<Longrightarrow> accounts w0 A H (router_delete r w)"
  unfolding router_delete_def router_holds_def by (rule client_stops.each_closes)

lemma fold_router_delete_closes: "accounts w0 A (all_held router_holds rs + H) w \<Longrightarrow> accounts w0 A H (fold router_delete rs w)"
proof (induction rs arbitrary: w)
  case (Cons r rs)
  have "accounts w0 A (all_held router_holds rs + H) (router_delete r w)"
    using Cons.prems by (intro router_delete_closes) (simp add: add.assoc)
  from Cons.IH [OF this] show ?case by simp
qed simp

lemma routers_delete_closes: "accounts w0 A (routers_hold g + H) w \<Longrightarrow> accounts w0 A H (routers_delete g w)"
proof -
  assume "accounts w0 A (routers_hold g + H) w"
  then have "accounts w0 A (routers_hold (fst (routers_Stop g w)) + H) (snd (routers_Stop g w))"
    by (simp add: routers_stop.stop_lets_go routers_stop.stop_closes)
  then show ?thesis
    using fold_router_delete_closes by (simp add: routers_delete_def routers_hold_def case_prod_beta)
qed

text \<open>The addresses of the first \<open>m\<close> attempts are ones new returns: not null, not in use and all different.\<close>

definition fresh_answers :: "nat \<Rightarrow> start_answers \<Rightarrow> clients_world \<Rightarrow> bool" where
  "fresh_answers m ans w0 \<longleftrightarrow> inj_on (\<lambda>i. fst (ans i)) {..<m} \<and> (\<forall>i<m. fst (ans i) \<noteq> 0 \<and> cons w0 (fst (ans i)) = None)"

text \<open>The attempts a configuration asks for.\<close>

definition tries :: "client_config list \<Rightarrow> nat" where
  "tries cfgs = sum_list (map (\<lambda>c. nat (single_addr_connect_count c)) cfgs)"

definition attempts :: "client_router_config list \<Rightarrow> nat" where
  "attempts confs = sum_list (map (\<lambda>rc. tries (rc_clients rc)) confs)"

definition made :: "start_answers \<Rightarrow> nat \<Rightarrow> u64 set" where
  "made ans n = (\<lambda>i. fst (ans i)) ` {..<n}"

lemma fresh_next:
  assumes "fresh_answers m ans w0" "n < m" "accounts w0 (made ans n) H w"
  shows "fst (ans n) \<noteq> 0 \<and> cons w (fst (ans n)) = None"
proof -
  have "fst (ans n) \<notin> made ans n" using assms(1,2) unfolding fresh_answers_def made_def inj_on_def by force
  moreover have "fst (ans n) \<notin> dom (cons w0)" "fst (ans n) \<noteq> 0" using assms(1,2) by (auto simp: fresh_answers_def)
  moreover have "dom (cons w) \<subseteq> dom (cons w0) \<union> made ans n" using assms(3) unfolding accounts_def by blast
  ultimately show ?thesis by blast
qed

lemma accounts_made: "accounts w0 (made ans n) H w \<Longrightarrow> accounts w0 (made ans (Suc n)) H w"
  unfolding accounts_def made_def by (auto simp: lessThan_Suc)

lemma accounts_add:
  assumes "accounts w0 A H w" "cons w a = None" "a \<in> A" "dom (cons w1) = insert a (dom (cons w))" "to_net w1 = to_net w"
  shows "accounts w0 A (add_mset a H) w1"
proof -
  obtain ads where ads: "to_net w = to_net w0 @ closes ads" "mset ads + H = mset_set (dom (cons w) - dom (cons w0))"
    and sub: "dom (cons w0) \<subseteq> dom (cons w)" "dom (cons w) \<subseteq> dom (cons w0) \<union> A" "finite (dom (cons w) - dom (cons w0))"
    using assms(1) unfolding accounts_def by blast
  have "a \<notin> dom (cons w0)" using sub(1) assms(2) by blast
  then have d: "dom (cons w1) - dom (cons w0) = insert a (dom (cons w) - dom (cons w0))" using assms(4) by blast
  have "a \<notin> dom (cons w) - dom (cons w0)" using assms(2) by blast
  then have "mset ads + add_mset a H = mset_set (dom (cons w1) - dom (cons w0))" using ads(2) sub(3) by (simp add: d)
  then show ?thesis using ads(1) sub assms(3,4,5) unfolding accounts_def by (auto simp: d)
qed

lemma CreateClient_makes:
  assumes "CreateClient a c w = Inr (ok, w1)"
  shows "to_net w1 = to_net w \<and> (if ok then \<exists>v. cons w1 = (cons w)(a \<mapsto> v) else w1 = w)"
proof (cases "ParseSpecAddr (cl_address c)")
  case (Inl e)
  then show ?thesis using assms by (simp add: CreateClient_def)
next
  case (Inr r)
  show ?thesis
  proof (cases r)
    case None
    then show ?thesis using assms Inr by (simp add: CreateClient_def)
  next
    case (Some addr)
    obtain ty ip port where addr: "addr = (ty, ip, port)" by (cases addr) auto
    show ?thesis using assms Inr Some by (cases "Create (uint ty) ProtocolFactory_new") (auto simp: CreateClient_def addr)
  qed
qed

lemma client_Start_accounts:
  assumes "accounts w0 A H w" "a \<noteq> 0" "cons w a = None" "a \<in> A" "connect_addr c = 0"
    and run: "client_Start a tried c w = Inr (ret, c1, w1)"
  shows "accounts w0 A (holds c1 + H) w1 \<and> (ret \<noteq> 0 \<longrightarrow> holds c1 = {#})"
proof -
  obtain ok w2 where con: "CreateClient a c w = Inr (ok, w2)" using run by (auto simp: client_Start_def outcome_bind_Inr_iff)
  have w2: "to_net w2 = to_net w" "if ok then \<exists>v. cons w2 = (cons w)(a \<mapsto> v) else w2 = w"
    using CreateClient_makes [OF con] by simp_all
  show ?thesis
  proof (cases ok)
    case False
    then show ?thesis using run con w2(2) assms(1,5) by (auto simp: client_Start_def holds_def)
  next
    case True
    then obtain v where v: "cons w2 = (cons w)(a \<mapsto> v)" using w2(2) by auto
    show ?thesis
    proof (cases "fst tried = 0")
      case False
      then have "c1 = c" "ret = -2" "w1 = w2\<lparr>cons := (cons w2)(a := None)\<rparr>" using run con True by (auto simp: client_Start_def)
      moreover have "(cons w2)(a := None) = cons w" using assms(3) by (simp add: v fun_upd_idem)
      ultimately show ?thesis using assms(1,5) w2(1) by (simp add: holds_def accounts_def)
    next
      case True
      then have r: "ret = 0" "c1 = c\<lparr>connect_addr := a\<rparr>" "w1 = w2\<lparr>cons := (cons w2)(a \<mapsto> v\<lparr>cv_status := snd tried\<rparr>)\<rparr>"
        using run con \<open>ok\<close> assms(2) by (auto simp: client_Start_def at_con_def v)
      have "dom (cons w1) = insert a (dom (cons w))" by (auto simp: r(3) v)
      from accounts_add [OF assms(1,3,4) this] show ?thesis using r assms(2) w2(1) by (simp add: holds_def)
    qed
  qed
qed

lemma router_Start_accounts:
  assumes "fresh_answers m ans w0"
  shows "router_Start ans cfg k n r w = Inr (ret, n1, r1, w1) \<Longrightarrow> accounts w0 (made ans n) (router_holds r + H) w \<Longrightarrow> n + k \<le> m \<Longrightarrow>
     accounts w0 (made ans n1) (router_holds r1 + H) w1 \<and> n1 \<le> n + k"
proof (induction k arbitrary: n r w)
  case (Suc k)
  let ?c = "Client_new (cc_address cfg) (cc_timeout cfg) (cc_heartbeat cfg) (rt_single r)"
  obtain ret1 c w2 where st: "client_Start (fst (ans n)) (snd (ans n)) ?c w = Inr (ret1, c, w2)"
    and more: "(if ret1 \<noteq> 0 then Inr (-1, Suc n, r, snd (client_Stop c w2))
                else router_Start ans cfg k (Suc n) (r\<lparr>clients := clients r @ [c]\<rparr>) w2) = Inr (ret, n1, r1, w1)"
    using Suc.prems(1) by (auto simp: outcome_bind_Inr_iff)
  have "fst (ans n) \<in> made ans (Suc n)" by (simp add: made_def)
  from client_Start_accounts [OF accounts_made [OF Suc.prems(2)] _ _ this _ st] fresh_next [OF assms _ Suc.prems(2)] Suc.prems(3)
  have acc: "accounts w0 (made ans (Suc n)) (holds c + (router_holds r + H)) w2" by (simp add: Client_new_def)
  show ?case
  proof (cases "ret1 = 0")
    case True
    have "accounts w0 (made ans (Suc n)) (router_holds (r\<lparr>clients := clients r @ [c]\<rparr>) + H) w2"
      using acc by (simp add: router_holds_def ac_simps)
    with Suc.IH [of "Suc n" "r\<lparr>clients := clients r @ [c]\<rparr>" w2] more True Suc.prems(3) show ?thesis by simp
  next
    case False
    with more client_stops.stop_closes [OF acc] show ?thesis by auto
  qed
qed simp

lemma routers_Start_accounts:
  assumes "fresh_answers m ans w0"
  shows "routers_Start ans sgl cfgs n g w = Inr (ret, n1, g1, w1) \<Longrightarrow> accounts w0 (made ans n) (routers_hold g + H) w \<Longrightarrow>
     n + tries cfgs \<le> m \<Longrightarrow> accounts w0 (made ans n1) (routers_hold g1 + H) w1 \<and> n1 \<le> n + tries cfgs"
proof (induction cfgs arbitrary: n g w)
  case (Cons cfg cfgs)
  obtain ret1 n2 r w2 where st: "router_Start ans cfg (nat (single_addr_connect_count cfg)) n (ClientRouter_new sgl) w = Inr (ret1, n2, r, w2)"
    and more: "(if ret1 \<noteq> 0 then Inr (-1, n2, g, router_delete r w2)
                else routers_Start ans sgl cfgs n2 (g\<lparr>client_routers := client_routers g @ [r]\<rparr>) w2) = Inr (ret, n1, g1, w1)"
    using Cons.prems(1) by (auto simp: outcome_bind_Inr_iff)
  have "accounts w0 (made ans n) (router_holds (ClientRouter_new sgl) + (routers_hold g + H)) w"
    using Cons.prems(2) by (simp add: ClientRouter_new_def router_holds_def)
  from router_Start_accounts [OF assms st this] Cons.prems(3)
  have acc: "accounts w0 (made ans n2) (router_holds r + (routers_hold g + H)) w2"
    and n2: "n2 \<le> n + nat (single_addr_connect_count cfg)" by (simp_all add: tries_def)
  show ?case
  proof (cases "ret1 = 0")
    case True
    have "accounts w0 (made ans n2) (routers_hold (g\<lparr>client_routers := client_routers g @ [r]\<rparr>) + H) w2"
      using acc by (simp add: routers_hold_def ac_simps)
    with Cons.IH [of n2 "g\<lparr>client_routers := client_routers g @ [r]\<rparr>" w2] more True n2 Cons.prems(3) show ?thesis by (simp add: tries_def)
  next
    case False
    with more router_delete_closes [OF acc] n2 show ?thesis by (auto simp: tries_def)
  qed
qed simp

definition map_holds :: "router_maps \<Rightarrow> u64 multiset" where
  "map_holds g = (\<Sum>x\<in>dom g. routers_hold (the (g x)))"

lemma map_holds_add: "finite (dom g) \<Longrightarrow> g x = None \<Longrightarrow> map_holds (g(x \<mapsto> gr)) = routers_hold gr + map_holds g"
proof -
  assume fin: "finite (dom g)" and x: "g x = None"
  have "(\<Sum>y\<in>dom g. routers_hold (the ((g(x \<mapsto> gr)) y))) = map_holds g"
    unfolding map_holds_def using x by (intro sum.cong) auto
  moreover have "x \<notin> dom g" using x by blast
  ultimately show ?thesis using fin by (simp add: map_holds_def)
qed

lemma groups_loop_accounts:
  assumes "fresh_answers m ans w0"
  shows "groups_loop ans rcs n g w = Inr (ret, n1, g1, w1) \<Longrightarrow> finite (dom g) \<Longrightarrow> accounts w0 (made ans n) (map_holds g) w \<Longrightarrow> n + attempts rcs \<le> m \<Longrightarrow>
     accounts w0 (made ans n1) (map_holds g1) w1 \<and> finite (dom g1) \<and> dom g \<subseteq> dom g1 \<and> (ret = 0 \<longrightarrow> rc_name ` set rcs \<subseteq> dom g1)"
proof (induction rcs arbitrary: n g w)
  case (Cons rc rcs)
  show ?case
  proof (cases "g (rc_name rc)")
    case (Some gr)
    then have "groups_loop ans rcs n g w = Inr (ret, n1, g1, w1)" using Cons.prems(1) by simp
    moreover have "n + attempts rcs \<le> m" using Cons.prems(4) by (simp add: attempts_def)
    ultimately show ?thesis using Cons.IH [OF _ Cons.prems(2,3)] Some by auto
  next
    case None
    obtain ret1 n2 gr w2 where st: "routers_Start ans (sigle_send_sigle_recv rc) (rc_clients rc) n ClientRouters_new w = Inr (ret1, n2, gr, w2)"
      and more: "(if ret1 \<noteq> 0 then Inr (-1, n2, g, routers_delete gr w2) else groups_loop ans rcs n2 (g(rc_name rc \<mapsto> gr)) w2)
        = Inr (ret, n1, g1, w1)"
      using Cons.prems(1) None by (auto simp: outcome_bind_Inr_iff)
    have "accounts w0 (made ans n) (routers_hold ClientRouters_new + map_holds g) w"
      using Cons.prems(3) by (simp add: ClientRouters_new_def routers_hold_def)
    from routers_Start_accounts [OF assms st this] Cons.prems(4)
    have acc: "accounts w0 (made ans n2) (routers_hold gr + map_holds g) w2" and n2: "n2 \<le> n + tries (rc_clients rc)"
      by (simp_all add: attempts_def)
    show ?thesis
    proof (cases "ret1 = 0")
      case True
      then have "groups_loop ans rcs n2 (g(rc_name rc \<mapsto> gr)) w2 = Inr (ret, n1, g1, w1)" using more by simp
      moreover have "finite (dom (g(rc_name rc \<mapsto> gr)))" using Cons.prems(2) by simp
      moreover have "accounts w0 (made ans n2) (map_holds (g(rc_name rc \<mapsto> gr))) w2"
        unfolding map_holds_add [OF Cons.prems(2) None] by (rule acc)
      moreover have "n2 + attempts rcs \<le> m" using n2 Cons.prems(4) by (simp add: attempts_def)
      ultimately have ih: "accounts w0 (made ans n1) (map_holds g1) w1 \<and> finite (dom g1) \<and> dom (g(rc_name rc \<mapsto> gr)) \<subseteq> dom g1 \<and>
        (ret = 0 \<longrightarrow> rc_name ` set rcs \<subseteq> dom g1)" by (rule Cons.IH)
      have "dom (g(rc_name rc \<mapsto> gr)) = insert (rc_name rc) (dom g)" by simp
      with ih show ?thesis by (simp del: dom_fun_upd)
    next
      case False
      with more routers_delete_closes [OF acc] Cons.prems(2) show ?thesis by auto
    qed
  qed
qed simp

lemma stop_groups_closes:
  "distinct xs \<Longrightarrow> set xs \<subseteq> dom g \<Longrightarrow> accounts w0 A ((\<Sum>x\<in>set xs. routers_hold (the (g x))) + H) w \<Longrightarrow>
     accounts w0 A H (snd (stop_groups xs g w)) \<and> dom (fst (stop_groups xs g w)) = dom g \<and>
     (\<forall>x. if x \<in> set xs then routers_hold (the (fst (stop_groups xs g w) x)) = {#} else fst (stop_groups xs g w) x = g x)"
proof (induction xs arbitrary: g w)
  case (Cons x xs)
  obtain gr where gr: "g x = Some gr" using Cons.prems(2) by auto
  define gr1 w1 where "gr1 = fst (routers_Stop gr w)" and "w1 = snd (routers_Stop gr w)"
  have run: "stop_groups (x # xs) g w = stop_groups xs (g(x \<mapsto> gr1)) w1" by (simp add: gr gr1_def w1_def case_prod_beta)
  have "(\<Sum>y\<in>set xs. routers_hold (the ((g(x \<mapsto> gr1)) y))) = (\<Sum>y\<in>set xs. routers_hold (the (g y)))"
    using Cons.prems(1) by (intro sum.cong) auto
  moreover have "accounts w0 A (routers_hold gr + ((\<Sum>y\<in>set xs. routers_hold (the (g y))) + H)) w"
    using Cons.prems(1,3) by (simp add: gr ac_simps)
  then have "accounts w0 A ((\<Sum>y\<in>set xs. routers_hold (the (g y))) + H) w1" unfolding w1_def by (rule routers_stop.stop_closes)
  ultimately have "accounts w0 A ((\<Sum>y\<in>set xs. routers_hold (the ((g(x \<mapsto> gr1)) y))) + H) w1" by simp
  moreover have "distinct xs" using Cons.prems(1) by simp
  moreover have "set xs \<subseteq> dom (g(x \<mapsto> gr1))" using Cons.prems(2) by auto
  ultimately have ih: "accounts w0 A H (snd (stop_groups xs (g(x \<mapsto> gr1)) w1)) \<and> dom (fst (stop_groups xs (g(x \<mapsto> gr1)) w1)) = dom (g(x \<mapsto> gr1)) \<and>
     (\<forall>y. if y \<in> set xs then routers_hold (the (fst (stop_groups xs (g(x \<mapsto> gr1)) w1) y)) = {#}
          else fst (stop_groups xs (g(x \<mapsto> gr1)) w1) y = (g(x \<mapsto> gr1)) y)" using Cons.IH by blast
  have none: "routers_hold gr1 = {#}" unfolding gr1_def by (rule routers_stop.stop_lets_go)
  have "x \<notin> set xs" using Cons.prems(1) by simp
  have at: "fst (stop_groups xs (g(x \<mapsto> gr1)) w1) y = (g(x \<mapsto> gr1)) y" if "y \<notin> set xs" for y using ih that by auto
  have inn: "routers_hold (the (fst (stop_groups xs (g(x \<mapsto> gr1)) w1) y)) = {#}" if "y \<in> set xs" for y using ih that by auto
  have "if y \<in> set (x # xs) then routers_hold (the (fst (stop_groups (x # xs) g w) y)) = {#}
        else fst (stop_groups (x # xs) g w) y = g y" for y
    unfolding run using at [of y] inn [of y] none by (cases "y \<in> set xs"; cases "y = x") simp_all
  moreover have "dom (g(x \<mapsto> gr1)) = dom g" using gr by auto
  ultimately show ?case using ih unfolding run by blast
qed simp

lemma mgr_Stop_closes:
  assumes "finite (dom g)" "accounts w0 A (map_holds g) w"
  shows "accounts w0 A {#} (snd (mgr_Stop g w)) \<and> finite (dom (fst (mgr_Stop g w))) \<and> map_holds (fst (mgr_Stop g w)) = {#}"
proof -
  have s: "set (sorted_list_of_set (dom g)) = dom g" using assms(1) by simp
  have "accounts w0 A ((\<Sum>x\<in>set (sorted_list_of_set (dom g)). routers_hold (the (g x))) + {#}) w"
    using assms(2) by (simp add: s map_holds_def)
  from stop_groups_closes [OF _ _ this] assms(1) s
  have st: "accounts w0 A {#} (snd (mgr_Stop g w))" "dom (fst (mgr_Stop g w)) = dom g"
    "\<forall>x. if x \<in> dom g then routers_hold (the (fst (mgr_Stop g w) x)) = {#} else fst (mgr_Stop g w) x = g x"
    unfolding mgr_Stop_def by auto
  moreover have "map_holds (fst (mgr_Stop g w)) = (\<Sum>x\<in>dom g. {#})" unfolding map_holds_def st(2) using st(3) by (intro sum.cong) auto
  ultimately show ?thesis using assms(1) by simp
qed

lemma accounts_start: "accounts w A {#} w"
  unfolding accounts_def by (auto simp: closes_def intro: exI [of _ "[]"])

lemma accounts_done: "accounts w0 A {#} w \<Longrightarrow> \<exists>ads. to_net w = to_net w0 @ closes ads \<and> mset ads = mset_set (dom (cons w) - dom (cons w0))"
  unfolding accounts_def by auto

lemma each_cons: "(\<And>x w. cons (snd (stop x w)) = cons w) \<Longrightarrow> cons (snd (each stop xs w)) = cons w"
  by (induction xs arbitrary: w) (simp_all add: case_prod_beta)

lemma routers_Stop_cons: "cons (snd (routers_Stop g w)) = cons w"
proof -
  have "cons (snd (client_Stop c w)) = cons w" for c w by (simp add: client_Stop_def)
  then have "cons (snd (router_Stop r w)) = cons w" for r w by (simp add: router_Stop_def case_prod_beta each_cons)
  then show ?thesis by (simp add: routers_Stop_def case_prod_beta each_cons)
qed

lemma stop_groups_cons: "cons (snd (stop_groups xs g w)) = cons w"
  by (induction xs arbitrary: g w) (simp_all add: case_prod_beta routers_Stop_cons split: option.split)

lemma mgr_Stop_cons: "cons (snd (mgr_Stop g w)) = cons w"
  by (simp add: mgr_Stop_def stop_groups_cons)

section \<open>Properties\<close>

text \<open>C39. Every connection that starting the clients of a configuration makes, whether the start succeeds or fails in
  the middle, is sent its close message exactly once by the time ClientMgr is stopped, and stopping it a second time, as
  its destructor does, sends nothing. A start that succeeds has a group of clients for every name of the configuration.\<close>

theorem started_connections_closed_once:
  assumes run: "mgr_Start ans confs Map.empty w = Inr (ret, up, g, w1)" and fresh: "fresh_answers (attempts confs) ans w"
  shows "(\<exists>ads. to_net (snd (mgr_Stop g w1)) = to_net w @ map (\<lambda>a. Stop (sint a)) ads \<and> mset ads = mset_set (dom (cons w1) - dom (cons w))) \<and>
     to_net (snd (mgr_Stop (fst (mgr_Stop g w1)) (snd (mgr_Stop g w1)))) = to_net (snd (mgr_Stop g w1)) \<and>
     (ret = 0 \<longrightarrow> rc_name ` set confs \<subseteq> dom g)"
proof -
  obtain A where acc: "accounts w A (map_holds g) w1" "finite (dom g)" "ret = 0 \<longrightarrow> rc_name ` set confs \<subseteq> dom g"
  proof (cases "confs = []")
    case True
    then have "g = Map.empty" "w1 = w" using run by (simp_all add: mgr_Start_def)
    with True that [of "{}"] show ?thesis by (simp add: map_holds_def accounts_start)
  next
    case False
    then obtain n where "groups_loop ans confs 0 Map.empty w = Inr (ret, n, g, w1)"
      using run by (cases "groups_loop ans confs 0 Map.empty w") (auto simp: mgr_Start_def)
    moreover have "accounts w (made ans 0) (map_holds Map.empty) w" by (simp add: map_holds_def accounts_start)
    ultimately show ?thesis using groups_loop_accounts [OF fresh, of confs 0] that [of "made ans n"] by auto
  qed
  from mgr_Stop_closes [OF acc(2,1)] have st: "accounts w A {#} (snd (mgr_Stop g w1))" "finite (dom (fst (mgr_Stop g w1)))"
    "map_holds (fst (mgr_Stop g w1)) = {#}" by blast+
  have "dom (cons (snd (mgr_Stop g w1))) = dom (cons w1)" by (simp add: mgr_Stop_cons)
  with accounts_done [OF st(1)] have closed: "\<exists>ads. to_net (snd (mgr_Stop g w1)) = to_net w @ closes ads \<and>
    mset ads = mset_set (dom (cons w1) - dom (cons w))" by simp
  have "accounts (snd (mgr_Stop g w1)) {} (map_holds (fst (mgr_Stop g w1))) (snd (mgr_Stop g w1))"
    unfolding st(3) by (rule accounts_start)
  from accounts_done [OF conjunct1 [OF mgr_Stop_closes [OF st(2) this]]] mgr_Stop_cons [of "fst (mgr_Stop g w1)"]
  have "to_net (snd (mgr_Stop (fst (mgr_Stop g w1)) (snd (mgr_Stop g w1)))) = to_net (snd (mgr_Stop g w1))"
    by (auto simp: closes_def)
  with closed acc(3) show ?thesis unfolding closes_def by blast
qed

definition example_confs :: "client_router_config list" where
  "example_confs = [\<lparr>rc_name = ''a'', rc_mapping = [], sigle_send_sigle_recv = False,
     rc_clients = [\<lparr>cc_address = ''rapid://h:80'', cc_timeout = 100, cc_heartbeat = 3000, single_addr_connect_count = 2\<rparr>]\<rparr>]"

definition example_answers :: start_answers where
  "example_answers n = (if n = 0 then (16, 0, 0) else (32, -1, 1))"

definition no_clients :: clients_world where
  "no_clients = \<lparr>cons = Map.empty, seq_counter = 0, con_counter = 0, service_coro = None, for_test = False, to_net = [],
     destroyed = [], called_back = []\<rparr>"

text \<open>The second of two connections fails: the first was made, and is closed although the start fails.\<close>

lemma started_connections_closed_once_witness:
  "\<exists>up g w1. mgr_Start example_answers example_confs Map.empty no_clients = Inr (-1, up, g, w1) \<and> 16 \<in> dom (cons w1) \<and>
     (\<exists>ads. to_net (snd (mgr_Stop g w1)) = to_net no_clients @ map (\<lambda>a. Stop (sint a)) ads \<and>
        mset ads = mset_set (dom (cons w1) - dom (cons no_clients)))"
proof -
  have run: "case mgr_Start example_answers example_confs Map.empty no_clients of
      Inl e \<Rightarrow> False | Inr (ret, up, g, w1) \<Rightarrow> ret = -1 \<and> cons w1 16 \<noteq> None" by code_simp
  then obtain up g w1 where r: "mgr_Start example_answers example_confs Map.empty no_clients = Inr (-1, up, g, w1)" "cons w1 16 \<noteq> None"
    by (auto split: sum.splits prod.splits)
  have "attempts example_confs = 2" by code_simp
  then have "fresh_answers (attempts example_confs) example_answers no_clients"
    by (auto simp: fresh_answers_def example_answers_def no_clients_def inj_on_def)
  from started_connections_closed_once [OF r(1) this] r show ?thesis by blast
qed

text \<open>
  A connection that is lost before the thread that reconnects was started, which ClientMgr::Start does last, is given no
  timer and no attempt is made to connect it again.
\<close>

lemma lost_before_reconnect_thread:
  "\<not> is_running t \<Longrightarrow> reconnect_timer c = 0 \<Longrightarrow>
     StartReconnectTimer now self c t = (0, c\<lparr>reconnect_timer := 0\<rparr>, t)"
  by (simp add: StartReconnectTimer_def ClientReconnect_StartTimer_def)

end
