(* ===== verification/Matrix_Stat.thy ===== *)
theory Matrix_Stat
  imports Complex_Main Std_Map C_Text
begin

text \<open>
  The statistics of the monitor: src/src/monitor/matrix\_stat.h, matrix\_stat.cpp (one named statistic
  with its histogram of run times) and matrix\_stat\_map.h, matrix\_stat\_map.cpp (the statistics of a
  period of 30 seconds). A MatrixStat may have children of its own class, so it is a datatype over
  the record of its own fields; the map of the children is a std::map (Std\_Map). A double is
  the rational number it stands for, rounded to 53 bits after every operation.
\<close>

section \<open>Numbers\<close>

text \<open>int64\_t, with the wrap-around of the compiled code.\<close>

definition int64 :: "int \<Rightarrow> int" where
  "int64 i = signed_take_bit 63 i"

text \<open>Division of C++: towards zero.\<close>

definition quot :: "int \<Rightarrow> int \<Rightarrow> int" where
  "quot a b = sgn a * sgn b * (\<bar>a\<bar> div \<bar>b\<bar>)"

text \<open>
  Rounding to a double: the exponent of the number by halving and doubling it (1100 steps reach
  every exponent a double has), then half to even at the 53rd bit.
\<close>

fun exponent_of :: "nat \<Rightarrow> rat \<Rightarrow> int" where
  "exponent_of 0 x = 0"
| "exponent_of (Suc k) x =
     (if x \<ge> 2 then exponent_of k (x / 2) + 1 else if x < 1 then exponent_of k (2 * x) - 1 else 0)"

definition scale :: "int \<Rightarrow> rat \<Rightarrow> rat" where
  "scale i x = (if i \<ge> 0 then x * 2 ^ nat i else x / 2 ^ nat (- i))"

definition half_even :: "rat \<Rightarrow> int" where
  "half_even x =
     (let f = \<lfloor>x\<rfloor>; d = x - of_int f
      in if d < 1 / 2 then f else if d > 1 / 2 then f + 1 else if even f then f else f + 1)"

definition double_of :: "rat \<Rightarrow> rat" where
  "double_of x =
     (if x \<le> 0 then x
      else let e = exponent_of 1100 x in scale (e - 52) (of_int (half_even (scale (52 - e) x))))"

lemma exponent_of_le: "x < 2 ^ Suc n \<Longrightarrow> exponent_of k x \<le> int n"
proof (induction k arbitrary: x n)
  case (Suc k)
  show ?case
  proof (cases "x \<ge> 2")
    case True
    then obtain m where m: "n = Suc m" using Suc.prems by (cases n) auto
    then have "x / 2 < 2 ^ Suc m" using Suc.prems by simp
    from Suc.IH [OF this] True m show ?thesis by simp
  next
    case False
    have "exponent_of k (2 * x) - 1 \<le> int n" if "x < 1"
      using Suc.IH [of "2 * x" 0] that by simp
    with False show ?thesis by simp
  qed
qed simp

lemma half_even_le: "x \<le> of_int n \<Longrightarrow> half_even x \<le> n"
proof -
  assume x: "x \<le> of_int n"
  then have f: "\<lfloor>x\<rfloor> \<le> n" by linarith
  show ?thesis
  proof (cases "\<lfloor>x\<rfloor> = n")
    case True
    then have "x - of_int \<lfloor>x\<rfloor> < 1 / 2" using x by simp
    then show ?thesis using f by (simp add: half_even_def Let_def)
  next
    case False
    then show ?thesis using f by (simp add: half_even_def Let_def)
  qed
qed

lemma half_even_ge: "0 \<le> x \<Longrightarrow> 0 \<le> half_even x"
  by (simp add: half_even_def Let_def)

lemma scale_scale: "scale (- i) (scale i x) = x"
  by (simp add: scale_def)

lemma scale_mono: "scale i x \<le> scale i y \<longleftrightarrow> x \<le> y"
  by (simp add: scale_def divide_right_mono divide_le_cancel)

text \<open>Rounding does not go past a whole number below \<open>2 ^ 53\<close>.\<close>

lemma double_of_le:
  assumes "x \<le> of_nat n" "n < 2 ^ 53"
  shows "double_of x \<le> of_nat n"
proof (cases "x \<le> 0")
  case False
  define e where "e = exponent_of 1100 x"
  have "(of_nat n :: rat) < of_nat (2 ^ 53)" using assms(2) by (simp only: of_nat_less_iff)
  then have "x < 2 ^ Suc 52" using assms(1) by simp
  from exponent_of_le [OF this, of 1100] have e: "e \<le> 52" unfolding e_def by simp
  have whole: "scale (52 - e) (of_nat n) = of_int (int n * 2 ^ nat (52 - e))"
    using e by (simp add: scale_def)
  have "scale (52 - e) x \<le> scale (52 - e) (of_nat n)" using assms(1) by (simp only: scale_mono)
  then have "half_even (scale (52 - e) x) \<le> int n * 2 ^ nat (52 - e)"
    unfolding whole by (rule half_even_le)
  then have "of_int (half_even (scale (52 - e) x)) \<le> scale (52 - e) (of_nat n :: rat)"
    unfolding whole by (simp only: of_int_le_iff)
  then have "scale (e - 52) (of_int (half_even (scale (52 - e) x))) \<le> scale (e - 52) (scale (52 - e) (of_nat n :: rat))"
    by (simp only: scale_mono)
  moreover have "scale (e - 52) (scale (52 - e) (of_nat n :: rat)) = of_nat n"
    using scale_scale [of "52 - e" "of_nat n"] by simp
  ultimately show ?thesis using False by (simp add: double_of_def Let_def e_def)
qed (simp add: double_of_def order.trans [of x 0])

lemma double_of_ge: "0 \<le> x \<Longrightarrow> 0 \<le> double_of x"
  by (auto simp: double_of_def Let_def scale_def half_even_ge)

section \<open>One statistic\<close>

definition kTotalUsec :: int where "kTotalUsec = 10 * 1000 * 1000"
definition kBucketUsec :: int where "kBucketUsec = 100"
definition kTotalBucket :: int where "kTotalBucket = quot kTotalUsec kBucketUsec"

record counts =
  persistent :: bool
  start_time_sec :: u32
  hits :: u32
  amount :: int
  max_value :: int
  min_value :: int
  distribution :: "u32 list"

datatype stat = Stat (own: counts) (child: "(string \<times> stat) list")

definition MatrixStat_new :: "u32 \<Rightarrow> bool \<Rightarrow> counts" where
  "MatrixStat_new start_sec pers =
     \<lparr>persistent = pers, start_time_sec = start_sec, hits = 0, amount = 0, max_value = 0, min_value = 0xFFFFFFFF,
      distribution = []\<rparr>"

definition on_own :: "(counts \<Rightarrow> counts) \<Rightarrow> stat \<Rightarrow> stat" where
  "on_own f s = Stat (f (own s)) (child s)"

definition MaxMin :: "int \<Rightarrow> counts \<Rightarrow> counts" where
  "MaxMin v c = c\<lparr>max_value := max v (max_value c), min_value := min v (min_value c)\<rparr>"

definition stat_Set :: "int \<Rightarrow> counts \<Rightarrow> counts" where
  "stat_Set v c = MaxMin v (c\<lparr>hits := hits c + 1, amount := v\<rparr>)"

definition stat_Add :: "int \<Rightarrow> counts \<Rightarrow> counts" where
  "stat_Add v c = (let a = int64 (amount c + v) in MaxMin a (c\<lparr>hits := hits c + 1, amount := a\<rparr>))"

definition stat_Sub :: "int \<Rightarrow> counts \<Rightarrow> counts" where
  "stat_Sub v c = (let a = int64 (amount c - v) in MaxMin a (c\<lparr>hits := hits c + 1, amount := a\<rparr>))"

definition stat_Reset :: "counts \<Rightarrow> counts" where
  "stat_Reset c = c\<lparr>amount := 0, hits := 0, max_value := 0, min_value := 0xFFFFFFFF\<rparr>"

text \<open>The bucket of a run time: the quotient is cast to 32 bits before it is compared.\<close>

definition bucket_of :: "int \<Rightarrow> nat" where
  "bucket_of v =
     (let bucket = (of_int (quot v kBucketUsec) :: u32)
      in if uint bucket \<ge> kTotalBucket then nat (kTotalBucket - 1) else unat bucket)"

definition resized :: "u32 list \<Rightarrow> u32 list" where
  "resized d =
     (if int (length d) \<noteq> kTotalBucket
      then take (nat kTotalBucket) d @ replicate (nat kTotalBucket - length d) 0 else d)"

definition TimeDistribute :: "int \<Rightarrow> counts \<Rightarrow> counts" where
  "TimeDistribute v c =
     (let d = resized (distribution c); b = bucket_of v
      in (MaxMin v c)\<lparr>hits := hits c + 1, amount := int64 (amount c + v), distribution := d[b := d ! b + 1]\<rparr>)"

definition TimeDistribute_result :: "string \<Rightarrow> int \<Rightarrow> stat \<Rightarrow> stat" where
  "TimeDistribute_result result v s =
     (let s1 = on_own (TimeDistribute v) s
      in if result = [] then s1
         else let ch = (if smap_find result (child s1) = None
                        then snd (smap_insert result
                               (Stat (MatrixStat_new (start_time_sec (own s1)) (persistent (own s1))) []) (child s1))
                        else child s1)
              in Stat (own s1) (smap_update result (on_own (TimeDistribute v)) ch))"

definition HasTimeDistribute :: "counts \<Rightarrow> bool" where
  "HasTimeDistribute c \<longleftrightarrow> distribution c \<noteq> []"

definition HasResult :: "stat \<Rightarrow> bool" where
  "HasResult s \<longleftrightarrow> child s \<noteq> []"

text \<open>\<open>for (; bucket != size && sum_count < count; ++bucket)\<close>: the number of buckets passed.\<close>

fun passed :: "u32 \<Rightarrow> u32 \<Rightarrow> u32 list \<Rightarrow> nat" where
  "passed cnt sum_count [] = 0"
| "passed cnt sum_count (d # ds) = (if sum_count < cnt then Suc (passed cnt (sum_count + d) ds) else 0)"

text \<open>\<open>(uint32_t)(percent * count_)\<close>: the product is a double, the conversion cuts it off.\<close>

definition rank_of :: "rat \<Rightarrow> u32 \<Rightarrow> u32" where
  "rank_of percent n = of_int \<lfloor>double_of (percent * of_nat (unat n))\<rfloor>"

definition GetTimeDistribute :: "rat \<Rightarrow> counts \<Rightarrow> int" where
  "GetTimeDistribute percent c =
     (let bucket = passed (rank_of percent (hits c)) 0 (distribution c)
      in (if bucket \<noteq> 0 then int bucket - 1 else 0) * kBucketUsec)"

text \<open>What GetAvg and GetQps compute, as doubles; the difference of the times is cut to an int32.\<close>

definition GetAvg :: "counts \<Rightarrow> rat" where
  "GetAvg c = (if hits c \<noteq> 0
     then (let q = double_of (\<bar>of_int (amount c)\<bar>) / of_nat (unat (hits c)) in of_int (sgn (amount c)) * double_of q) else 0)"

definition GetQps :: "int \<Rightarrow> counts \<Rightarrow> rat" where
  "GetQps now c =
     (let elapse = signed_take_bit 31 (now - uint (start_time_sec c)); elapse = (if elapse \<le> 0 then 0 else elapse)
      in if elapse \<noteq> 0 then double_of (of_nat (unat (hits c)) / of_int elapse) else 0)"


section \<open>The histogram\<close>

lemma kTotalBucket_val: "kTotalBucket = 100000"
  by (simp add: kTotalBucket_def quot_def kTotalUsec_def kBucketUsec_def)

lemma bucket_of_less: "bucket_of v < 100000"
proof -
  have "unat b < 100000" if "uint b < 100000" for b :: u32
    using that by (simp only: unat_eq_nat_uint)
  then show ?thesis unfolding bucket_of_def Let_def kTotalBucket_val by (simp split: if_split)
qed

text \<open>Run times below 100 * 2 ^ 32 microseconds (five days) go to the bucket of their tenths of a millisecond.\<close>

lemma bucket_of_run_time: "0 \<le> v \<Longrightarrow> v < 100 * 2 ^ 32 \<Longrightarrow> bucket_of v = min (nat (v div 100)) 99999"
proof -
  assume v: "0 \<le> v" "v < 100 * 2 ^ 32"
  have q: "quot v kBucketUsec = v div 100" using v(1) by (cases "v = 0") (simp_all add: quot_def kBucketUsec_def)
  have "0 \<le> v div 100" "v div 100 < 2 ^ 32" using v by auto
  then have "uint (of_int (v div 100) :: u32) = v div 100" by (simp add: uint_word_of_int mod_pos_pos_trivial)
  then show ?thesis by (auto simp: bucket_of_def Let_def q kTotalBucket_val unat_eq_nat_uint)
qed

text \<open>A run time beyond wraps round: it is counted among the short ones.\<close>

lemma bucket_of_wraps: "bucket_of (100 * 2 ^ 32) = 0"
  by (simp add: bucket_of_def Let_def quot_def kBucketUsec_def kTotalBucket_val)

definition observed :: "int list \<Rightarrow> counts \<Rightarrow> counts" where
  "observed vs c = fold TimeDistribute vs c"

definition buckets_of :: "int list \<Rightarrow> nat list" where
  "buckets_of vs = map bucket_of vs"

lemma observed_snoc: "observed (vs @ [v]) c = TimeDistribute v (observed vs c)"
  by (simp add: observed_def)

lemma length_resized [simp]: "length (resized d) = 100000"
  by (auto simp: resized_def kTotalBucket_val min_def)

lemma resized_id: "length d = 100000 \<Longrightarrow> resized d = d"
  by (simp add: resized_def kTotalBucket_val)

text \<open>What a sequence of observations leaves: the number of observations per bucket.\<close>

lemma observed_distribution:
  assumes "vs \<noteq> []"
  shows "distribution (observed vs (MatrixStat_new t p)) =
      map (\<lambda>b. of_nat (count_list (buckets_of vs) b)) [0..<100000] \<and>
     hits (observed vs (MatrixStat_new t p)) = of_nat (length vs)"
  using assms
proof (induction vs rule: rev_induct)
  case (snoc v vs)
  let ?c = "observed vs (MatrixStat_new t p)"
  have base: "resized (distribution ?c) = map (\<lambda>b. of_nat (count_list (buckets_of vs) b)) [0..<100000] \<and>
      hits ?c = of_nat (length vs)"
  proof (cases "vs = []")
    case True
    have "resized [] = map (\<lambda>b. 0) [0..<100000 :: nat]"
      unfolding resized_def kTotalBucket_val by (simp add: map_replicate_const)
    then show ?thesis unfolding True by (simp add: observed_def MatrixStat_new_def buckets_of_def)
  next
    case False
    from snoc.IH [OF False] show ?thesis by (simp add: resized_id)
  qed
  let ?f = "\<lambda>b. of_nat (count_list (buckets_of vs) b) :: u32"
  have "(map ?f [0..<100000]) [bucket_of v := map ?f [0..<100000] ! bucket_of v + 1]
      = map (\<lambda>b. of_nat (count_list (buckets_of (vs @ [v])) b)) [0..<100000]"
    by (rule nth_equalityI) (auto simp: nth_list_update buckets_of_def bucket_of_less add.commute)
  with base show ?case
    unfolding observed_snoc by (simp add: TimeDistribute_def Let_def MaxMin_def)
qed simp

text \<open>The loop of GetTimeDistribute on numbers that do not wrap.\<close>

fun passed_nat :: "nat \<Rightarrow> nat list \<Rightarrow> nat" where
  "passed_nat r [] = 0"
| "passed_nat r (d # ds) = (if 0 < r then Suc (passed_nat (r - d) ds) else 0)"

lemma passed_nat:
  "s + sum_list ds < 2 ^ 32 \<Longrightarrow> r < 2 ^ 32 \<Longrightarrow>
     passed (of_nat r) (of_nat s) (map of_nat ds) = passed_nat (r - s) ds"
proof (induction ds arbitrary: s)
  case (Cons d ds)
  have "s < 2 ^ 32" using Cons.prems(1) by simp
  then have less: "(of_nat s :: u32) < of_nat r \<longleftrightarrow> s < r"
    using Cons.prems(2) by (simp add: word_less_nat_alt unat_of_nat take_bit_nat_eq_self)
  have "passed (of_nat r) (of_nat s + of_nat d) (map of_nat ds) = passed_nat (r - (s + d)) ds"
    using Cons.IH [of "s + d"] Cons.prems by (simp add: add.assoc)
  then show ?case using less by auto
qed simp

text \<open>The bucket it stops at holds the observation of the rank asked for.\<close>

lemma passed_nat_rank:
  "0 < r \<Longrightarrow> r \<le> sum_list ds \<Longrightarrow>
     0 < passed_nat r ds \<and> passed_nat r ds \<le> length ds \<and>
     sum_list (take (passed_nat r ds - 1) ds) < r \<and> r \<le> sum_list (take (passed_nat r ds) ds)"
proof (induction ds arbitrary: r)
  case (Cons d ds)
  show ?case
  proof (cases "r \<le> d")
    case True
    have "passed_nat 0 ds = 0" by (cases ds) auto
    with Cons.prems True show ?thesis by simp
  next
    case False
    then have "0 < r - d" "r - d \<le> sum_list ds" using Cons.prems by auto
    from Cons.IH [OF this] have IH: "0 < passed_nat (r - d) ds" "passed_nat (r - d) ds \<le> length ds"
      "sum_list (take (passed_nat (r - d) ds - 1) ds) < r - d" "r - d \<le> sum_list (take (passed_nat (r - d) ds) ds)"
      by auto
    obtain k where k: "passed_nat (r - d) ds = Suc k" using IH(1) by (cases "passed_nat (r - d) ds") auto
    have "passed_nat r (d # ds) = Suc (Suc k)" using Cons.prems(1) k by simp
    moreover have "d + sum_list (take k ds) < r" using IH(3) False unfolding k by simp
    moreover have "r \<le> d + sum_list (take (Suc k) ds)" using IH(4) False unfolding k by simp
    ultimately show ?thesis using IH(2) unfolding k by simp
  qed
qed simp

lemma take_upt_min: "take k [0..<n] = [0..<min k n]"
  by (cases "k \<le> n") (simp_all add: min_def)

lemma sum_indicator: "sum_list (map (\<lambda>b. if x = b then 1 else 0 :: nat) [0..<m]) = (if x < m then 1 else 0)"
  by (induction m) auto

lemma sum_counts: "sum_list (take k (map (count_list xs) [0..<n])) = length (filter (\<lambda>x. x < min k n) xs)"
proof (induction xs)
  case (Cons x xs)
  have "sum_list (take k (map (count_list (x # xs)) [0..<n])) =
      sum_list (take k (map (count_list xs) [0..<n])) + sum_list (take k (map (\<lambda>b. if x = b then 1 else 0) [0..<n]))"
    unfolding take_map sum_list_addf [symmetric] by (rule arg_cong [where f = sum_list]) auto
  moreover have "sum_list (take k (map (\<lambda>b. if x = b then 1 else 0 :: nat) [0..<n])) = (if x < min k n then 1 else 0)"
    unfolding take_map take_upt_min by (rule sum_indicator)
  ultimately show ?case using Cons by (simp del: count_list.simps)
qed (simp add: take_map)

text \<open>In a sorted list the elements below a bound are the first ones.\<close>

lemma below_bound_sorted:
  "sorted xs \<Longrightarrow> i < length (filter (\<lambda>x. x < b) xs) \<longleftrightarrow> i < length xs \<and> xs ! i < (b :: nat)"
proof (induction xs arbitrary: i)
  case (Cons x xs)
  show ?case
  proof (cases "x < b")
    case True
    then show ?thesis using Cons by (cases i) auto
  next
    case False
    then have "filter (\<lambda>x. x < b) (x # xs) = []" using Cons.prems by (auto simp: filter_empty_conv)
    moreover have "\<not> (x # xs) ! i < b" if "i < length (x # xs)"
      using False Cons.prems nth_mem [OF that] by auto
    ultimately show ?thesis by auto
  qed
qed simp

lemma rank_in_sorted:
  assumes "sorted xs" "length (filter (\<lambda>x. x < b) xs) < r" "r \<le> length (filter (\<lambda>x. x < Suc b) xs)"
  shows "xs ! (r - 1) = b"
proof -
  have "r - 1 < length (filter (\<lambda>x. x < Suc b) xs)" using assms(2,3) by linarith
  then have "r - 1 < length xs \<and> xs ! (r - 1) < Suc b"
    by (simp only: below_bound_sorted [OF assms(1)])
  moreover have "\<not> r - 1 < length (filter (\<lambda>x. x < b) xs)" using assms(2) by linarith
  then have "\<not> xs ! (r - 1) < b" using calculation by (simp only: below_bound_sorted [OF assms(1)]) simp
  ultimately show ?thesis by simp
qed

lemma rank_of_le: "0 \<le> p \<Longrightarrow> p \<le> 1 \<Longrightarrow> unat (rank_of p n) \<le> unat n"
proof -
  assume p: "0 \<le> p" "p \<le> 1"
  let ?x = "p * of_nat (unat n)"
  have n: "unat n < 2 ^ 32" using unsigned_less [of n] by simp
  then have "unat n < 2 ^ 53" by simp
  moreover have "?x \<le> of_nat (unat n)" using p mult_right_mono [of p 1 "of_nat (unat n)"] by (simp only: mult_1 of_nat_0_le_iff)
  ultimately have "double_of ?x \<le> of_nat (unat n)" by (intro double_of_le)
  then have le: "\<lfloor>double_of ?x\<rfloor> \<le> int (unat n)" by linarith
  have "0 \<le> double_of ?x" by (intro double_of_ge mult_nonneg_nonneg p(1) of_nat_0_le_iff)
  then have ge: "0 \<le> \<lfloor>double_of ?x\<rfloor>" by simp
  have "int (unat n) < 2 ^ 32" using n by (metis of_nat_less_numeral_power_cancel_iff)
  with le have "\<lfloor>double_of ?x\<rfloor> < 2 ^ 32" by linarith
  then have "uint (rank_of p n) = \<lfloor>double_of ?x\<rfloor>"
    using ge by (simp add: rank_of_def uint_word_of_int mod_pos_pos_trivial)
  then have "int (unat (rank_of p n)) \<le> int (unat n)" using le by simp
  then show ?thesis by (simp only: of_nat_le_iff)
qed

section \<open>Percentiles\<close>

text \<open>C34. After fewer than 2^32 run times were recorded, GetTimeDistribute yields what sorting all of them by their
  bucket would: the lower bound in microseconds of the bucket of the observation whose rank is the
  given share of their number (the product in double arithmetic, cut off), and 0 for rank 0.\<close>

theorem percentile_is_order_statistic:
  assumes "length vs < 2 ^ 32" "0 \<le> percent" "percent \<le> 1"
  shows "GetTimeDistribute percent (observed vs (MatrixStat_new t pers)) =
     (let r = unat (rank_of percent (of_nat (length vs)))
      in if r = 0 then 0 else int (sort (buckets_of vs) ! (r - 1)) * 100)"
proof -
  define r where "r = unat (rank_of percent (of_nat (length vs)))"
  define ds where "ds = map (count_list (buckets_of vs)) [0..<100000]"
  let ?c = "observed vs (MatrixStat_new t pers)"
  have n: "unat (of_nat (length vs) :: u32) = length vs" using assms(1) by (simp add: unat_of_nat take_bit_nat_eq_self)
  have r: "r \<le> length vs" using rank_of_le [OF assms(2,3), of "of_nat (length vs)"] n by (simp add: r_def)
  show ?thesis
  proof (cases "vs = []")
    case True
    then show ?thesis using r by (simp add: observed_def MatrixStat_new_def GetTimeDistribute_def Let_def r_def kBucketUsec_def)
  next
    case False
    have total: "sum_list ds = length vs"
    proof -
      have "sum_list ds = length (filter (\<lambda>x. x < 100000) (buckets_of vs))"
        using sum_counts [of 100000 "buckets_of vs" 100000] by (simp add: ds_def)
      also have "\<dots> = length vs"
        using bucket_of_less by (simp add: buckets_of_def filter_map comp_def)
      finally show ?thesis .
    qed
    have dist: "distribution ?c = map of_nat ds" "hits ?c = of_nat (length vs)"
      using observed_distribution [OF False] by (simp_all add: ds_def comp_def)
    have "rank_of percent (hits ?c) = of_nat r" unfolding dist(2) r_def by simp
    then have passed: "passed (rank_of percent (hits ?c)) 0 (distribution ?c) = passed_nat r ds"
      using passed_nat [of 0 ds r] total assms(1) r unfolding dist(1) by simp
    show ?thesis
    proof (cases "r = 0")
      case True
      then have "passed_nat r ds = 0" by (cases ds) simp_all
      then show ?thesis using True passed by (simp add: GetTimeDistribute_def Let_def r_def)
    next
      case r0: False
      then have "0 < r" "r \<le> sum_list ds" using r total by simp_all
      from passed_nat_rank [OF this] obtain b where b: "passed_nat r ds = Suc b" "b < 100000"
        "sum_list (take b ds) < r" "r \<le> sum_list (take (Suc b) ds)"
        by (cases "passed_nat r ds") (auto simp: ds_def)
      have cnt: "sum_list (take k ds) = length (filter (\<lambda>x. x < k) (sort (buckets_of vs)))" if "k \<le> 100000" for k
        using sum_counts [of k "buckets_of vs" 100000] that by (simp add: ds_def filter_sort)
      have "sort (buckets_of vs) ! (r - 1) = b"
        using b(3,4) b(2) cnt [of b] cnt [of "Suc b"] by (intro rank_in_sorted) simp_all
      then show ?thesis
        using r0 passed b(1) by (simp add: GetTimeDistribute_def Let_def r_def kBucketUsec_def)
    qed
  qed
qed

lemma percentile_is_order_statistic_witness:
  "GetTimeDistribute (1 / 2) (observed [250, 90, 730, 12345678] (MatrixStat_new 0 False)) = 200"
proof -
  have r: "unat (rank_of (1 / 2) (of_nat (length [250, 90, 730, 12345678 :: int]))) = 2" by code_simp
  have s: "sort (buckets_of [250, 90, 730, 12345678]) ! (2 - 1) = 2"
    by (simp add: buckets_of_def bucket_of_run_time)
  show ?thesis
    using percentile_is_order_statistic [of "[250, 90, 730, 12345678]" "1 / 2" 0 False] unfolding r s Let_def by simp
qed


section \<open>The statistics of a period\<close>

text \<open>
  stat\_map\_ is an unordered\_map: the list of its entries in an iteration order left open, a new entry
  in front. The names are a std::set, kept sorted.
\<close>

record stat_map =
  map_start :: u32
  stats :: "(string \<times> stat) list"
  names :: "string list"
  frozen :: bool
  freeze_time :: u32
  dump_string :: string
  dump_string_simple :: string

definition StatMap_new :: "u32 \<Rightarrow> stat_map" where
  "StatMap_new t = \<lparr>map_start = t, stats = [], names = [], frozen = False, freeze_time = 0, dump_string = [],
     dump_string_simple = []\<rparr>"

definition insert_name :: "string \<Rightarrow> string list \<Rightarrow> string list" where
  "insert_name n ns = (if n \<in> set ns then ns else insort n ns)"

text \<open>GetMatrixStat returns a reference; \<open>f\<close> is what the caller does to the object behind it.\<close>

definition GetMatrixStat :: "string \<Rightarrow> bool \<Rightarrow> (stat \<Rightarrow> stat) \<Rightarrow> stat_map \<Rightarrow> stat_map" where
  "GetMatrixStat n pers f m =
     (case map_of (stats m) n of
        None \<Rightarrow> m\<lparr>names := insert_name n (names m),
                  stats := (n, f (Stat (MatrixStat_new (map_start m) pers) [])) # stats m\<rparr>
      | Some s \<Rightarrow> m\<lparr>stats := smap_update n f (stats m)\<rparr>)"

definition map_Set :: "string \<Rightarrow> u32 \<Rightarrow> bool \<Rightarrow> stat_map \<Rightarrow> stat_map" where
  "map_Set n v pers m = GetMatrixStat n pers (on_own (stat_Set (uint v))) m"

definition map_Add :: "string \<Rightarrow> u32 \<Rightarrow> bool \<Rightarrow> stat_map \<Rightarrow> stat_map" where
  "map_Add n v pers m = GetMatrixStat n pers (on_own (stat_Add (uint v))) m"

definition map_Sub :: "string \<Rightarrow> u32 \<Rightarrow> bool \<Rightarrow> stat_map \<Rightarrow> stat_map" where
  "map_Sub n v pers m = GetMatrixStat n pers (on_own (stat_Sub (uint v))) m"

definition map_Reset :: "string \<Rightarrow> stat_map \<Rightarrow> stat_map" where
  "map_Reset n m = GetMatrixStat n False (on_own stat_Reset) m"

definition TimeDistrubute :: "string \<Rightarrow> int \<Rightarrow> bool \<Rightarrow> stat_map \<Rightarrow> stat_map" where
  "TimeDistrubute n v pers m = GetMatrixStat n pers (on_own (TimeDistribute v)) m"

definition TimeDistrubute_result :: "string \<Rightarrow> string \<Rightarrow> int \<Rightarrow> bool \<Rightarrow> stat_map \<Rightarrow> stat_map" where
  "TimeDistrubute_result n result v pers m = GetMatrixStat n pers (TimeDistribute_result result v) m"

fun inherit_loop :: "(string \<times> stat) list \<Rightarrow> stat_map \<Rightarrow> stat_map" where
  "inherit_loop [] m = m"
| "inherit_loop ((n, s) # es) m =
     inherit_loop es
       (if persistent (own s)
        then m\<lparr>names := insert_name n (names m),
               stats := (if map_of (stats m) n = None then (n, s) # stats m else stats m)\<rparr>
        else m)"

definition Inherit :: "stat_map \<Rightarrow> stat_map \<Rightarrow> stat_map" where
  "Inherit old m = inherit_loop (stats old) m"

section \<open>Dumps\<close>

text \<open>\<open>std::fixed\<close> with two decimals; the quotation mark and the new line.\<close>

definition fixed2 :: "rat \<Rightarrow> string" where
  "fixed2 x = (if x < 0 then ''-'' else []) @
     (let n = nat (half_even (\<bar>x\<bar> * 100)) in dec (n div 100) @ ''.'' @ [digit (n mod 100 div 10), digit (n mod 10)])"

definition dq :: string where "dq = [CHR 0x22]"
definition nl :: string where "nl = [CHR 0x0A]"

definition field :: "string \<Rightarrow> string \<Rightarrow> string" where
  "field n v = dq @ n @ dq @ '': '' @ v"

definition percentile :: "nat \<Rightarrow> counts \<Rightarrow> string" where
  "percentile p c = '', '' @ field (dec p) (dec_int (GetTimeDistribute (double_of (of_nat p / 100)) c))"

fun stat_Dump :: "int \<Rightarrow> stat \<Rightarrow> string"
  and dump_children :: "int \<Rightarrow> bool \<Rightarrow> (string \<times> stat) list \<Rightarrow> string"
where
  "stat_Dump now (Stat c ch) =
     ''{'' @ field ''qps'' (fixed2 (GetQps now c)) @ '', '' @ field ''count'' (dec (unat (hits c))) @
     '', '' @ field ''avg'' (fixed2 (GetAvg c)) @ '', '' @ field ''max'' (dec_int (max_value c)) @
     '', '' @ field ''min'' (dec_int (min_value c)) @
     (if HasTimeDistribute c
      then percentile 99 c @ percentile 95 c @ percentile 90 c @ percentile 80 c @ percentile 50 c
      else '', '' @ field ''value'' (dec_int (amount c))) @
     (if HasResult (Stat c ch)
      then '','' @ nl @ ''    '' @ field ''Result'' (''{'' @ dump_children now True ch @ ''}'') else []) @
     ''}''"
| "dump_children now fst_one [] = []"
| "dump_children now fst_one ((n, s) # es) =
     (if fst_one then nl @ ''      '' else '','' @ nl @ ''      '') @ field n (stat_Dump now s) @
     dump_children now False es"

fun dump_names :: "int \<Rightarrow> stat_map \<Rightarrow> string list \<Rightarrow> string" where
  "dump_names now m [] = []"
| "dump_names now m (n # ns) =
     (case map_of (stats m) n of
        None \<Rightarrow> dump_names now m ns
      | Some s \<Rightarrow> '','' @ nl @ ''  '' @ field n (stat_Dump now s) @ dump_names now m ns)"

definition map_Dump :: "int \<Rightarrow> stat_map \<Rightarrow> string" where
  "map_Dump now m =
     ''{'' @ dq @ ''__version__'' @ dq @ '': '' @ dec (unat (freeze_time m)) @ dq @ dump_names now m (names m) @ ''}'' @ nl"

text \<open>
  The default format of a double in a stream, six significant digits: the decimal exponent, the six digits
  rounded half to even, then the plain form from -4 to 5 and the form with an exponent otherwise, both without
  zeros at the end of the fraction.
\<close>

fun exponent10_of :: "nat \<Rightarrow> rat \<Rightarrow> int" where
  "exponent10_of 0 x = 0"
| "exponent10_of (Suc k) x =
     (if x \<ge> 10 then exponent10_of k (x / 10) + 1 else if x < 1 then exponent10_of k (10 * x) - 1 else 0)"

definition scale10 :: "int \<Rightarrow> rat \<Rightarrow> rat" where
  "scale10 i x = (if i \<ge> 0 then x * 10 ^ nat i else x / 10 ^ nat (- i))"

definition strip_zeros :: "string \<Rightarrow> string" where
  "strip_zeros s = rev (dropWhile (\<lambda>c. c = CHR ''0'') (rev s))"

definition with_fraction :: "string \<Rightarrow> string \<Rightarrow> string" where
  "with_fraction whole fr = (case strip_zeros fr of [] \<Rightarrow> whole | f \<Rightarrow> whole @ ''.'' @ f)"

definition general6 :: "rat \<Rightarrow> string" where
  "general6 x =
     (if x = 0 then ''0''
      else let e0 = exponent10_of 400 \<bar>x\<bar>; n0 = half_even (scale10 (5 - e0) \<bar>x\<bar>);
               e = (if n0 = 1000000 then e0 + 1 else e0); ds = dec (nat (if n0 = 1000000 then 100000 else n0))
           in (if x < 0 then ''-'' else []) @
              (if -4 \<le> e \<and> e < 6
               then (if e \<ge> 0 then with_fraction (take (nat e + 1) ds) (drop (nat e + 1) ds)
                     else with_fraction ''0'' (replicate (nat (- e) - 1) (CHR ''0'') @ ds))
               else with_fraction (take 1 ds) (drop 1 ds) @ (if e < 0 then ''e-'' else ''e+'') @
                    (if \<bar>e\<bar> < 10 then ''0'' else []) @ dec (nat \<bar>e\<bar>)))"

text \<open>The one-line dumps; the local time's hour, minute and second are arguments.\<close>

fun stat_DumpSimple :: "nat \<times> nat \<times> nat \<Rightarrow> int \<Rightarrow> string \<Rightarrow> stat \<Rightarrow> string" where
  "stat_DumpSimple (h, mi, sec) now parent (Stat c ch) =
     ''[matrixstat_'' @ dec h @ '':'' @ dec mi @ '':'' @ dec sec @ ''] {'' @ field ''name'' (dq @ parent @ dq) @
     '', '' @ field ''qps'' (general6 (GetQps now c)) @ '', '' @ field ''count'' (dec (unat (hits c))) @
     '', '' @ field ''avg'' (general6 (GetAvg c)) @ '', '' @ field ''max'' (dec_int (max_value c)) @
     '', '' @ field ''min'' (dec_int (min_value c)) @
     (if HasTimeDistribute c
      then percentile 99 c @ percentile 95 c @ percentile 90 c @ percentile 80 c @ percentile 50 c
      else '', '' @ field ''value'' (dec_int (amount c))) @ ''}'' @ nl @
     concat (map (\<lambda>(n, s). stat_DumpSimple (h, mi, sec) now (parent @ ''.'' @ n) s) ch)"

definition map_DumpSimple :: "nat \<times> nat \<times> nat \<Rightarrow> int \<Rightarrow> stat_map \<Rightarrow> string" where
  "map_DumpSimple clock now m =
     concat (map (\<lambda>n. case map_of (stats m) n of None \<Rightarrow> [] | Some s \<Rightarrow> stat_DumpSimple clock now n s) (names m))"

definition Freeze :: "nat \<times> nat \<times> nat \<Rightarrow> int \<Rightarrow> stat_map \<Rightarrow> stat_map" where
  "Freeze clock now m =
     (let m1 = m\<lparr>frozen := True, freeze_time := of_int now\<rparr>; m2 = m1\<lparr>dump_string := map_Dump now m1\<rparr>
      in m2\<lparr>dump_string_simple := map_DumpSimple clock now m2\<rparr>)"

definition map_ToStringSimple :: "stat_map \<Rightarrow> string" where
  "map_ToStringSimple m = (if \<not> frozen m then dq @ ''Not Ready'' @ dq else dump_string_simple m)"

text \<open>The hour, minute and second padded to two digits are computed but not printed.\<close>

lemma DumpSimple_not_padded:
  "take 20 (stat_DumpSimple (9, 5, 3) now parent s) = ''[matrixstat_9:5:3] {''"
proof -
  have "dec 9 = ''9''" "dec 5 = ''5''" "dec 3 = ''3''" by code_simp+
  then show ?thesis by (cases s) simp
qed

text \<open>The rank is cut off: with a single run time every percentile is shown as 0.\<close>

lemma rank_of_single: "rank_of (double_of (99 / 100)) 1 = 0"
  by code_simp


definition map_ToString :: "stat_map \<Rightarrow> string" where
  "map_ToString m = (if \<not> frozen m then dq @ ''Not Ready'' @ dq else dump_string m)"

text \<open>The version is followed by a quotation mark that nothing opens: the dump is not JSON.\<close>

lemma count_dec_dq: "count_list (dec n) (CHR 0x22) = 0"
  using dec_digits [of "CHR 0x22" n] by (auto simp: count_list_0_iff is_digit_def)

lemma dump_unbalanced: "odd (count_list (map_Dump now (StatMap_new t)) (CHR 0x22))"
  by (simp add: map_Dump_def StatMap_new_def dq_def nl_def count_list_append count_dec_dq)

section \<open>The map after an operation\<close>

definition stat_at :: "string \<Rightarrow> bool \<Rightarrow> stat_map \<Rightarrow> stat" where
  "stat_at n pers m = (case map_of (stats m) n of None \<Rightarrow> Stat (MatrixStat_new (map_start m) pers) [] | Some s \<Rightarrow> s)"

lemma lookup_GetMatrixStat:
  "map_of (stats (GetMatrixStat n pers f m)) k = (if k = n then Some (f (stat_at n pers m)) else map_of (stats m) k)"
  using smap_find_update [of k n f "stats m"]
  by (auto simp: GetMatrixStat_def stat_at_def smap_find_def split: option.split)

lemma start_GetMatrixStat [simp]: "map_start (GetMatrixStat n pers f m) = map_start m"
  by (simp add: GetMatrixStat_def split: option.split)

text \<open>The names are those of the entries, each once, sorted: the dump shows every statistic.\<close>

definition stat_map_ok :: "stat_map \<Rightarrow> bool" where
  "stat_map_ok m \<longleftrightarrow> sorted (names m) \<and> distinct (names m) \<and> set (names m) = fst ` set (stats m)"

lemma stat_map_ok_new [inv_intros]: "stat_map_ok (StatMap_new t)"
  by (simp add: stat_map_ok_def StatMap_new_def)

lemma insert_name_ok:
  "sorted ns \<Longrightarrow> distinct ns \<Longrightarrow>
     sorted (insert_name n ns) \<and> distinct (insert_name n ns) \<and> set (insert_name n ns) = insert n (set ns)"
  by (auto simp: insert_name_def sorted_insort set_insort_key distinct_insort)

lemma entry_keys: "fst ` set (smap_update n f m) = fst ` set m"
  using keys_smap_update [of n f m] by (metis set_map)

lemma GetMatrixStat_ok [inv_intros]: "stat_map_ok m \<Longrightarrow> stat_map_ok (GetMatrixStat n pers f m)"
  unfolding stat_map_ok_def GetMatrixStat_def
  by (cases "map_of (stats m) n") (simp_all add: insert_name_ok entry_keys)

lemma inherit_loop_ok: "stat_map_ok m \<Longrightarrow> stat_map_ok (inherit_loop es m)"
proof (induction es arbitrary: m)
  case (Cons e es)
  obtain n s where e: "e = (n, s)" by (cases e)
  have "stat_map_ok (m\<lparr>names := insert_name n (names m),
      stats := (if map_of (stats m) n = None then (n, s) # stats m else stats m)\<rparr>)"
  proof (cases "map_of (stats m) n = None")
    case False
    then have "n \<in> fst ` set (stats m)" by (simp add: map_of_eq_None_iff)
    with Cons.prems False show ?thesis by (simp add: stat_map_ok_def insert_name_ok insert_absorb)
  qed (use Cons.prems in \<open>simp add: stat_map_ok_def insert_name_ok\<close>)
  with Cons show ?case by (simp add: e)
qed simp

lemma Inherit_ok [inv_intros]: "stat_map_ok m \<Longrightarrow> stat_map_ok (Inherit old m)"
  by (simp add: Inherit_def inherit_loop_ok)

text \<open>A new period starts from exactly the persistent statistics of the old one.\<close>

lemma lookup_inherit_loop:
  "distinct (map fst es) \<Longrightarrow>
   map_of (stats (inherit_loop es m)) n =
     (case map_of (stats m) n of
        Some s \<Rightarrow> Some s
      | None \<Rightarrow> (case map_of es n of Some s \<Rightarrow> if persistent (own s) then Some s else None | None \<Rightarrow> None))"
proof (induction es arbitrary: m)
  case (Cons e es)
  obtain k s where e: "e = (k, s)" by (cases e)
  have "map_of es k = None" using Cons.prems by (simp add: e map_of_eq_None_iff)
  with Cons show ?case by (auto simp: e split: option.split)
qed (simp split: option.split)

end
