(* ===== verification/Ring_Buffer.thy ===== *)
theory Ring_Buffer
  imports Prelude
begin

text \<open>
  The bounded queue of src/src/common/lockfree_ringbuffer.h (MPMCLockfreeRingbuffer) and its spin
  lock. First the sequential operations, with every array access checked against the allocation;
  then threads that interleave the steps of push and pop under the lock. Memory is sequentially
  consistent; back-off (pause, yield, sleep) changes no shared state and is a repeated step.
\<close>

section \<open>State and operations\<close>

record 'd ring =
  first_init :: bool
  head :: u64
  tail :: u64
  real_queue_size :: u32
  queue_vec :: "'d list option"

definition ring_new :: "'d ring" where
  "ring_new = \<lparr>first_init = True, head = 0, tail = 0, real_queue_size = 0, queue_vec = None\<rparr>"

text \<open>\<open>while (tmp_size < size) tmp_size <<= 1;\<close> on int, with the wrap-around of the shift.\<close>

partial_function (option) size_loop :: "int \<Rightarrow> int \<Rightarrow> int option" where
  "size_loop tmp_size sz =
     (if tmp_size < sz then size_loop (signed_take_bit 31 (tmp_size * 2)) sz else Some tmp_size)"

text \<open>\<open>d0\<close> is the all-zero Data; new throws rather than returning null, so init returns true.\<close>

definition init :: "'d \<Rightarrow> int \<Rightarrow> 'd ring \<Rightarrow> (bool \<times> 'd ring) option" where
  "init d0 sz r =
     (if first_init r
      then (case size_loop 1 sz of
              None \<Rightarrow> None
            | Some tmp_size \<Rightarrow>
                Some (True, r\<lparr>first_init := False, real_queue_size := of_int (tmp_size - 1),
                              queue_vec := Some (replicate (nat (tmp_size - 1)) d0)\<rparr>))
      else Some (True, r))"

definition ring_size :: "'d ring \<Rightarrow> u64" where
  "ring_size r = head r - tail r"

definition slot_of :: "'d ring \<Rightarrow> u64 \<Rightarrow> nat" where
  "slot_of r i = unat (and i (ucast (real_queue_size r)))"

text \<open>The store and the load of \<open>queue_vec[i & real_queue_size_]\<close>.\<close>

definition store :: "u64 \<Rightarrow> 'd \<Rightarrow> 'd ring \<Rightarrow> 'd ring outcome" where
  "store i d r =
     (case queue_vec r of
        None \<Rightarrow> Inl Null_Dereference
      | Some v \<Rightarrow> if slot_of r i < length v then Inr (r\<lparr>queue_vec := Some (v[slot_of r i := d])\<rparr>)
                  else Inl Out_Of_Bounds)"

definition load :: "u64 \<Rightarrow> 'd ring \<Rightarrow> 'd outcome" where
  "load i r =
     (case queue_vec r of
        None \<Rightarrow> Inl Null_Dereference
      | Some v \<Rightarrow> if slot_of r i < length v then Inr (v ! slot_of r i) else Inl Out_Of_Bounds)"

definition full :: "'d ring \<Rightarrow> bool" where
  "full r \<longleftrightarrow> head r - tail r \<ge> ucast (real_queue_size r)"

definition empty_ring :: "'d ring \<Rightarrow> bool" where
  "empty_ring r \<longleftrightarrow> tail r = head r \<or> (tail r > head r \<and> head r - tail r \<ge> ucast (real_queue_size r))"

definition push :: "'d \<Rightarrow> 'd ring \<Rightarrow> (bool \<times> 'd ring) outcome" where
  "push d r =
     (if full r then Inr (False, r)
      else outcome_bind (store (head r) d r) (\<lambda>r'. Inr (True, r'\<lparr>head := head r + 1\<rparr>)))"

definition pop :: "'d ring \<Rightarrow> ('d option \<times> 'd ring) outcome" where
  "pop r =
     (if empty_ring r then Inr (None, r)
      else outcome_bind (load (tail r) r) (\<lambda>d. Inr (Some d, r\<lparr>tail := tail r + 1\<rparr>)))"

section \<open>The first lap\<close>

text \<open>
  What init establishes and the operations keep while the head has not passed the last slot: the
  array has \<open>real_queue_size = 2 ^ k - 1\<close> elements.
\<close>

definition first_lap :: "nat \<Rightarrow> 'd ring \<Rightarrow> bool" where
  "first_lap k r \<longleftrightarrow> k \<le> 30 \<and> real_queue_size r = 2 ^ k - 1 \<and>
     (\<exists>v. queue_vec r = Some v \<and> length v = 2 ^ k - 1) \<and>
     unat (tail r) \<le> unat (head r) \<and> unat (head r) \<le> 2 ^ k - 1"

definition contents :: "'d ring \<Rightarrow> 'd list" where
  "contents r = (case queue_vec r of None \<Rightarrow> [] | Some v \<Rightarrow> take (unat (head r) - unat (tail r)) (drop (unat (tail r)) v))"

lemma mask_of_nat: "(mask k :: 'a::len word) = of_nat (2 ^ k - 1)"
  by (simp add: mask_eq_exp_minus_1)

lemma unat_mask_word: "k < LENGTH('a) \<Longrightarrow> unat (mask k :: 'a::len word) = 2 ^ k - 1"
proof -
  assume k: "k < LENGTH('a)"
  have "(2 :: nat) ^ k - 1 < 2 ^ LENGTH('a)"
    using power_strict_increasing [OF k, of "2 :: nat"] by (simp add: less_imp_diff_less)
  then show ?thesis unfolding mask_of_nat by (simp only: unat_of_nat take_bit_nat_eq_self mod_less)
qed

lemma mask_size: "k \<le> 30 \<Longrightarrow> (ucast (2 ^ k - 1 :: u32) :: u64) = mask k"
proof -
  assume "k \<le> 30"
  then have "unat (mask k :: u32) = 2 ^ k - 1" by (simp add: unat_mask_word)
  then have "(ucast (mask k :: u32) :: u64) = mask k" unfolding mask_of_nat by (metis of_nat_unat ucast_eq unat_eq_nat_uint of_nat_nat uint_nonnegative)
  then show ?thesis by (simp add: mask_eq_exp_minus_1)
qed

lemma unat_size: "k \<le> 30 \<Longrightarrow> unat (ucast (2 ^ k - 1 :: u32) :: u64) = 2 ^ k - 1"
  by (simp only: mask_size) (simp add: unat_mask_word)

lemma slot_of_mask:
  assumes "real_queue_size r = 2 ^ k - 1" "k \<le> 30" "unat i < 2 ^ k"
  shows "slot_of r i = unat i"
proof -
  have "slot_of r i = unat (take_bit k i)"
    using assms(1,2) by (simp add: slot_of_def mask_size take_bit_eq_mask)
  also have "\<dots> = unat i" using assms(3) by (simp add: unsigned_take_bit_eq take_bit_nat_eq_self)
  finally show ?thesis .
qed

lemma size_loop_power:
  "j \<le> 30 \<Longrightarrow> sz \<le> 2 ^ 30 \<Longrightarrow>
     \<exists>k \<ge> j. k \<le> 30 \<and> size_loop (2 ^ j) sz = Some (2 ^ k) \<and> sz \<le> 2 ^ k \<and> (j < k \<longrightarrow> 2 ^ (k - 1) < sz)"
proof (induction "30 - j" arbitrary: j)
  case 0
  then have "size_loop (2 ^ j) sz = Some (2 ^ j)" by (subst size_loop.simps) simp
  with 0 show ?case by (intro exI [of _ j]) simp
next
  case (Suc n)
  show ?case
  proof (cases "2 ^ j < sz")
    case False
    then have "size_loop (2 ^ j) sz = Some (2 ^ j)" by (subst size_loop.simps) simp
    with Suc.prems False show ?thesis by (intro exI [of _ j]) simp
  next
    case True
    have j: "Suc j \<le> 30" using Suc.hyps(2) by simp
    then have "(2 :: int) ^ Suc j \<le> 2 ^ 30" by (intro power_increasing) simp_all
    then have "signed_take_bit 31 (2 ^ Suc j :: int) = 2 ^ Suc j"
      by (intro signed_take_bit_int_eq_self) (simp_all add: order.trans [of _ 0])
    then have "size_loop (2 ^ j) sz = size_loop (2 ^ Suc j) sz"
      using True by (subst size_loop.simps) (simp add: mult.commute)
    moreover obtain k where "k \<ge> Suc j" "k \<le> 30" "size_loop (2 ^ Suc j) sz = Some (2 ^ k)" "sz \<le> 2 ^ k"
      "Suc j < k \<longrightarrow> 2 ^ (k - 1) < sz"
      using Suc.hyps(1) [of "Suc j"] Suc.hyps(2) Suc.prems j by (metis diff_Suc_Suc Suc_diff_Suc Suc_le_lessD diff_Suc_1)
    ultimately show ?thesis
      using True by (intro exI [of _ k]) (cases "k = Suc j"; auto)
  qed
qed

lemma init_first_lap:
  assumes "sz \<le> 2 ^ 30"
  shows "\<exists>k r. init d0 sz ring_new = Some (True, r) \<and> first_lap k r \<and> head r = 0 \<and> tail r = 0 \<and>
     contents r = [] \<and> sz \<le> 2 ^ k \<and> (0 < k \<longrightarrow> 2 ^ (k - 1) < sz)"
proof -
  from size_loop_power [of 0 sz] assms obtain k where
    k: "k \<le> 30" "size_loop 1 sz = Some (2 ^ k)" "sz \<le> 2 ^ k" "0 < k \<longrightarrow> 2 ^ (k - 1) < sz"
    by auto
  have "nat (2 ^ k - 1) = 2 ^ k - 1" by (simp add: nat_diff_distrib nat_power_eq)
  with k show ?thesis
    by (intro exI [of _ k]) (simp add: init_def ring_new_def first_lap_def contents_def)
qed

lemma push_first_lap:
  assumes inv: "first_lap k r"
  shows "if unat (head r) = 2 ^ k - 1
     then push d r = (if tail r = 0 then Inr (False, r) else Inl Out_Of_Bounds)
     else (\<exists>r'. push d r = Inr (True, r') \<and> first_lap k r' \<and> contents r' = contents r @ [d] \<and>
             unat (head r') = unat (head r) + 1 \<and> tail r' = tail r)"
proof -
  from inv obtain v where k: "k \<le> 30" "real_queue_size r = 2 ^ k - 1" "queue_vec r = Some v" "length v = 2 ^ k - 1"
    "unat (tail r) \<le> unat (head r)" "unat (head r) \<le> 2 ^ k - 1"
    by (auto simp: first_lap_def)
  have pow: "(2 :: nat) ^ k \<le> 2 ^ 30" using k(1) by (intro power_increasing) simp_all
  have diff: "unat (head r - tail r) = unat (head r) - unat (tail r)"
    using k(5) by (simp add: unat_sub word_le_nat_alt)
  have full: "full r \<longleftrightarrow> unat (head r) = 2 ^ k - 1 \<and> tail r = 0"
  proof -
    have "full r \<longleftrightarrow> 2 ^ k - 1 \<le> unat (head r) - unat (tail r)"
      using k(1,2) by (simp add: full_def word_le_nat_alt unat_size diff)
    also have "\<dots> \<longleftrightarrow> unat (head r) = 2 ^ k - 1 \<and> unat (tail r) = 0"
      using k(5,6) by auto
    finally show ?thesis by (simp add: unat_eq_zero)
  qed
  have slot: "slot_of r (head r) = unat (head r)"
    using k(6) by (intro slot_of_mask [OF k(2,1)]) (meson diff_less le_less_trans less_one zero_less_numeral zero_less_power)
  show ?thesis
  proof (cases "unat (head r) = 2 ^ k - 1")
    case True
    then show ?thesis using full k slot by (auto simp: push_def store_def)
  next
    case False
    then have lt: "unat (head r) < 2 ^ k - 1" using k(6) by simp
    have up: "unat (head r + 1) = unat (head r) + 1"
      using lt pow by (simp add: unat_word_ariths)
    let ?v = "v[unat (head r) := d]"
    have "push d r = Inr (True, r\<lparr>queue_vec := Some ?v, head := head r + 1\<rparr>)"
      using False lt full k(3,4) slot by (simp add: push_def store_def)
    moreover have "take (unat (head r) + 1 - unat (tail r)) (drop (unat (tail r)) ?v) =
        take (unat (head r) - unat (tail r)) (drop (unat (tail r)) v) @ [d]"
      using take_drop_list_overwrite [of "unat (tail r)" "unat (head r)" "[d]" v] lt k(4,5)
      by (simp add: upd_conv_take_nth_drop)
    ultimately show ?thesis
      using False lt k up by (simp add: first_lap_def contents_def)
  qed
qed

lemma pop_first_lap:
  assumes inv: "first_lap k r"
  shows "(case contents r of
       [] \<Rightarrow> pop r = Inr (None, r)
     | d # ds \<Rightarrow> \<exists>r'. pop r = Inr (Some d, r') \<and> first_lap k r' \<and> contents r' = ds \<and>
             head r' = head r \<and> unat (tail r') = unat (tail r) + 1)"
proof -
  from inv obtain v where k: "k \<le> 30" "real_queue_size r = 2 ^ k - 1" "queue_vec r = Some v" "length v = 2 ^ k - 1"
    "unat (tail r) \<le> unat (head r)" "unat (head r) \<le> 2 ^ k - 1"
    by (auto simp: first_lap_def)
  have pow: "(2 :: nat) ^ k \<le> 2 ^ 30" using k(1) by (intro power_increasing) simp_all
  have em: "empty_ring r \<longleftrightarrow> tail r = head r"
    using k(5) by (auto simp: empty_ring_def word_less_nat_alt)
  show ?thesis
  proof (cases "tail r = head r")
    case True
    then show ?thesis using em k(3) by (simp add: contents_def pop_def)
  next
    case False
    then have lt: "unat (tail r) < unat (head r)" using k(5) by (simp add: order_less_le word_unat_eq_iff)
    have slot: "slot_of r (tail r) = unat (tail r)"
      using k(6) lt by (intro slot_of_mask [OF k(2,1)]) linarith
    have up: "unat (tail r + 1) = unat (tail r) + 1"
      using lt k(6) pow by (simp add: unat_word_ariths)
    have ix: "unat (tail r) < length v" using lt k(4,6) by simp
    have c: "contents r = v ! unat (tail r) # take (unat (head r) - (unat (tail r) + 1)) (drop (unat (tail r) + 1) v)"
      using lt k(3) Cons_nth_drop_Suc [OF ix]
      by (simp add: contents_def Suc_diff_Suc flip: take_Suc_Cons)
    have "pop r = Inr (Some (v ! unat (tail r)), r\<lparr>tail := tail r + 1\<rparr>)"
      using False em k(3) ix slot by (simp add: pop_def load_def)
    then show ?thesis
      using c k lt up by (simp add: first_lap_def contents_def)
  qed
qed

section \<open>The contract of the queue\<close>

text \<open>
  What the monitor relies on: with room left a push is accepted behind the others, a pop takes the first
  element and gives no room back (a ring is used for one lap).
\<close>

locale bounded_queue =
  fixes inv :: "'q \<Rightarrow> bool"
    and content :: "'q \<Rightarrow> 'd list"
    and room :: "'q \<Rightarrow> nat"
    and psh :: "'d \<Rightarrow> 'q \<Rightarrow> (bool \<times> 'q) outcome"
    and pp :: "'q \<Rightarrow> ('d option \<times> 'q) outcome"
  assumes push_law: "inv q \<Longrightarrow> 0 < room q \<Longrightarrow>
      \<exists>q'. psh d q = Inr (True, q') \<and> inv q' \<and> content q' = content q @ [d] \<and> room q' = room q - 1"
    and pop_Nil: "inv q \<Longrightarrow> content q = [] \<Longrightarrow> pp q = Inr (None, q)"
    and pop_Cons: "inv q \<Longrightarrow> content q = d # ds \<Longrightarrow>
      \<exists>q'. pp q = Inr (Some d, q') \<and> inv q' \<and> content q' = ds \<and> room q' = room q"
begin

text \<open>Several queues: what is in them after a push to one of them, and after a pop from one.\<close>

definition held :: "'q list \<Rightarrow> 'd multiset" where
  "held qs = mset (concat (map content qs))"

lemma held_update: "i < length qs \<Longrightarrow> held (qs[i := q]) + mset (content (qs ! i)) = held qs + mset (content q)"
proof (induction qs arbitrary: i)
  case (Cons x qs)
  then show ?case by (cases i) (auto simp: held_def ac_simps)
qed simp

lemma all_update: "\<forall>q \<in> set qs. P q \<Longrightarrow> P q' \<Longrightarrow> \<forall>q \<in> set (qs[i := q']). P q"
  using set_update_subset_insert [of qs i q'] by auto

lemma push_at:
  assumes "\<forall>q \<in> set qs. inv q" "i < length qs" "0 < room (qs ! i)"
  shows "\<exists>q'. psh d (qs ! i) = Inr (True, q') \<and> (\<forall>q \<in> set (qs[i := q']). inv q) \<and>
     held (qs[i := q']) = add_mset d (held qs) \<and> room q' = room (qs ! i) - 1 \<and> content q' = content (qs ! i) @ [d]"
proof -
  from push_law [of "qs ! i" d] assms obtain q' where
    q': "psh d (qs ! i) = Inr (True, q')" "inv q'" "content q' = content (qs ! i) @ [d]" "room q' = room (qs ! i) - 1"
    by auto
  with held_update [OF assms(2), of q'] all_update [OF assms(1), of q' i] show ?thesis by auto
qed

lemma pop_at:
  assumes "\<forall>q \<in> set qs. inv q" "i < length qs" "content (qs ! i) = d # ds"
  shows "\<exists>q'. pp (qs ! i) = Inr (Some d, q') \<and> (\<forall>q \<in> set (qs[i := q']). inv q) \<and>
     held qs = add_mset d (held (qs[i := q'])) \<and> room q' = room (qs ! i) \<and> content q' = ds"
proof -
  from pop_Cons [of "qs ! i" d ds] assms obtain q' where
    q': "pp (qs ! i) = Inr (Some d, q')" "inv q'" "content q' = ds" "room q' = room (qs ! i)"
    by auto
  with held_update [OF assms(2), of q'] all_update [OF assms(1), of q' i] assms(3) show ?thesis by auto
qed

end

definition ring_room :: "nat \<Rightarrow> 'd ring \<Rightarrow> nat" where
  "ring_room k r = 2 ^ k - 1 - unat (head r)"

lemma push_with_room:
  assumes "first_lap k r" "0 < ring_room k r"
  shows "\<exists>r'. push d r = Inr (True, r') \<and> first_lap k r' \<and> contents r' = contents r @ [d] \<and> ring_room k r' = ring_room k r - 1"
proof -
  have "unat (head r) \<noteq> 2 ^ k - 1" using assms(2) by (simp add: ring_room_def)
  with push_first_lap [OF assms(1), of d] show ?thesis by (auto simp: ring_room_def)
qed

interpretation lap: bounded_queue "first_lap k" contents "ring_room k" push pop for k
proof
  fix r :: "'a ring" and d ds
  show "\<exists>r'. push d r = Inr (True, r') \<and> first_lap k r' \<and> contents r' = contents r @ [d] \<and> ring_room k r' = ring_room k r - 1"
    if "first_lap k r" "0 < ring_room k r"
    by (rule push_with_room [OF that])
  show "pop r = Inr (None, r)" if "first_lap k r" "contents r = []"
    using pop_first_lap [OF that(1)] that(2) by simp
  show "\<exists>r'. pop r = Inr (Some d, r') \<and> first_lap k r' \<and> contents r' = ds \<and> ring_room k r' = ring_room k r"
    if "first_lap k r" "contents r = d # ds"
    using pop_first_lap [OF that(1)] that(2) by (auto simp: ring_room_def)
qed

lemma ring_size_contents: "first_lap k r \<Longrightarrow> ring_size r = of_nat (length (contents r))"
  by (auto simp: ring_size_def contents_def first_lap_def of_nat_diff)

section \<open>Sequences of operations\<close>

datatype 'd op = Push_op 'd | Pop_op

datatype 'd res = Pushed bool | Popped "'d option"

fun exec :: "'d op \<Rightarrow> 'd ring \<Rightarrow> ('d res \<times> 'd ring) outcome" where
  "exec (Push_op d) r = outcome_bind (push d r) (\<lambda>(ok, r'). Inr (Pushed ok, r'))"
| "exec Pop_op r = outcome_bind (pop r) (\<lambda>(x, r'). Inr (Popped x, r'))"

fun exec_all :: "'d op list \<Rightarrow> 'd ring \<Rightarrow> ('d res list \<times> 'd ring) outcome" where
  "exec_all [] r = Inr ([], r)"
| "exec_all (p # ps) r =
     outcome_bind (exec p r) (\<lambda>(x, r'). outcome_bind (exec_all ps r') (\<lambda>(xs, r''). Inr (x # xs, r'')))"

text \<open>The abstract queue: a list, first in first out.\<close>

fun fifo :: "'d op \<Rightarrow> 'd list \<Rightarrow> 'd res \<times> 'd list" where
  "fifo (Push_op d) q = (Pushed True, q @ [d])"
| "fifo Pop_op [] = (Popped None, [])"
| "fifo Pop_op (d # q) = (Popped (Some d), q)"

fun fifo_all :: "'d op list \<Rightarrow> 'd list \<Rightarrow> 'd res list \<times> 'd list" where
  "fifo_all [] q = ([], q)"
| "fifo_all (p # ps) q = (case fifo p q of (x, q') \<Rightarrow> (case fifo_all ps q' of (xs, q'') \<Rightarrow> (x # xs, q'')))"

definition pushes :: "'d op list \<Rightarrow> nat" where
  "pushes ps = length (filter (\<lambda>p. p \<noteq> Pop_op) ps)"

definition pops_done :: "'d res list \<Rightarrow> nat" where
  "pops_done xs = length (filter (\<lambda>x. \<exists>d. x = Popped (Some d)) xs)"

lemma exec_first_lap:
  assumes inv: "first_lap k r" and room: "p \<noteq> Pop_op \<longrightarrow> unat (head r) < 2 ^ k - 1"
  shows "\<exists>r'. exec p r = Inr (fst (fifo p (contents r)), r') \<and> first_lap k r' \<and>
     contents r' = snd (fifo p (contents r)) \<and> unat (head r') = unat (head r) + (if p = Pop_op then 0 else 1) \<and>
     unat (tail r') = unat (tail r) + (if \<exists>d. fst (fifo p (contents r)) = Popped (Some d) then 1 else 0)"
proof (cases p)
  case (Push_op d)
  then show ?thesis using push_first_lap [OF inv, of d] room by auto
next
  case Pop_op
  then show ?thesis using pop_first_lap [OF inv] inv by (cases "contents r") auto
qed

lemma exec_all_first_lap:
  "first_lap k r \<Longrightarrow> unat (head r) + pushes ps \<le> 2 ^ k - 1 \<Longrightarrow>
   \<exists>r'. exec_all ps r = Inr (fst (fifo_all ps (contents r)), r') \<and> first_lap k r' \<and>
     contents r' = snd (fifo_all ps (contents r)) \<and> unat (head r') = unat (head r) + pushes ps \<and>
     unat (tail r') = unat (tail r) + pops_done (fst (fifo_all ps (contents r)))"
proof (induction ps arbitrary: r)
  case Nil
  then show ?case by (simp add: pushes_def pops_done_def)
next
  case (Cons p ps)
  have "p \<noteq> Pop_op \<longrightarrow> unat (head r) < 2 ^ k - 1" using Cons.prems(2) by (auto simp: pushes_def)
  from exec_first_lap [OF Cons.prems(1) this] obtain r1 where
    r1: "exec p r = Inr (fst (fifo p (contents r)), r1)" "first_lap k r1"
      "contents r1 = snd (fifo p (contents r))" "unat (head r1) = unat (head r) + (if p = Pop_op then 0 else 1)"
      "unat (tail r1) = unat (tail r) + (if \<exists>d. fst (fifo p (contents r)) = Popped (Some d) then 1 else 0)"
    by blast
  have "unat (head r1) + pushes ps \<le> 2 ^ k - 1" using Cons.prems(2) by (simp add: r1(4) pushes_def split: if_splits)
  from Cons.IH [OF r1(2) this] obtain r2 where
    r2: "exec_all ps r1 = Inr (fst (fifo_all ps (contents r1)), r2)" "first_lap k r2"
      "contents r2 = snd (fifo_all ps (contents r1))" "unat (head r2) = unat (head r1) + pushes ps"
      "unat (tail r2) = unat (tail r1) + pops_done (fst (fifo_all ps (contents r1)))"
    by blast
  show ?case
    using r1 r2 by (intro exI [of _ r2]) (auto simp: pushes_def pops_done_def split: prod.splits)
qed

section \<open>Threads under the spin lock\<close>

text \<open>
  Where a thread is in push or pop. Test takes the lock with lock\_test\_and\_set, Spin retries with
  val\_cas; the critical section reads head and tail and decides (Check), accesses the slot (Slot),
  advances its counter (Advance) and releases the lock (Release).
\<close>

datatype 'd pc =
    Idle
  | Test "'d op"
  | Spin "'d op"
  | Check "'d op"
  | Slot "'d op"
  | Advance "'d op" "'d res"
  | Release "'d op" "'d res"
  | Crashed

record 'd shared =
  ring :: "'d ring"
  lock :: u64
  pcs :: "nat \<Rightarrow> 'd pc"
  done_ops :: "('d op \<times> 'd res) list"

definition goto :: "nat \<Rightarrow> 'd pc \<Rightarrow> 'd shared \<Rightarrow> 'd shared" where
  "goto t c s = s\<lparr>pcs := (pcs s)(t := c)\<rparr>"

text \<open>The slot access of an operation: the stored ring, and what Advance will return.\<close>

fun access :: "'d op \<Rightarrow> 'd ring \<Rightarrow> ('d res \<times> 'd ring) outcome" where
  "access (Push_op d) r = outcome_bind (store (head r) d r) (\<lambda>r'. Inr (Pushed True, r'))"
| "access Pop_op r = outcome_bind (load (tail r) r) (\<lambda>d. Inr (Popped (Some d), r))"

fun refused :: "'d op \<Rightarrow> 'd ring \<Rightarrow> bool" where
  "refused (Push_op d) r = full r"
| "refused Pop_op r = empty_ring r"

fun refusal :: "'d op \<Rightarrow> 'd res" where
  "refusal (Push_op d) = Pushed False"
| "refusal Pop_op = Popped None"

fun advance :: "'d op \<Rightarrow> 'd ring \<Rightarrow> 'd ring" where
  "advance (Push_op d) r = r\<lparr>head := head r + 1\<rparr>"
| "advance Pop_op r = r\<lparr>tail := tail r + 1\<rparr>"

inductive step :: "'d shared \<Rightarrow> 'd shared \<Rightarrow> bool" where
  step_call: "pcs s t = Idle \<Longrightarrow> step s (goto t (Test p) s)"
| step_test: "pcs s t = Test p \<Longrightarrow>
    step s (goto t (if lock s \<noteq> 0 then Spin p else Check p) (s\<lparr>lock := 1\<rparr>))"
| step_spin: "pcs s t = Spin p \<Longrightarrow>
    step s (if lock s = 0 then goto t (Check p) (s\<lparr>lock := 1\<rparr>) else s)"
| step_check: "pcs s t = Check p \<Longrightarrow>
    step s (goto t (if refused p (ring s) then Release p (refusal p) else Slot p) s)"
| step_slot: "pcs s t = Slot p \<Longrightarrow> access p (ring s) = Inr (x, r') \<Longrightarrow>
    step s (goto t (Advance p x) (s\<lparr>ring := r'\<rparr>))"
| step_fault: "pcs s t = Slot p \<Longrightarrow> access p (ring s) = Inl e \<Longrightarrow> step s (goto t Crashed s)"
| step_advance: "pcs s t = Advance p x \<Longrightarrow>
    step s (goto t (Release p x) (s\<lparr>ring := advance p (ring s)\<rparr>))"
| step_release: "pcs s t = Release p x \<Longrightarrow>
    step s (goto t Idle (s\<lparr>lock := 0, done_ops := done_ops s @ [(p, x)]\<rparr>))"

inductive_cases stepE: "step s s'"

definition start :: "'d ring \<Rightarrow> 'd shared" where
  "start r = \<lparr>ring = r, lock = 0, pcs = (\<lambda>_. Idle), done_ops = []\<rparr>"

abbreviation reachable :: "'d ring \<Rightarrow> 'd shared \<Rightarrow> bool" where
  "reachable r s \<equiv> step\<^sup>*\<^sup>* (start r) s"

fun critical :: "'d pc \<Rightarrow> bool" where
  "critical Idle = False"
| "critical (Test p) = False"
| "critical (Spin p) = False"
| "critical c = True"

text \<open>
  What the thread in the critical section has already done to the ring the last complete
  operation left.
\<close>

fun in_progress :: "'d pc \<Rightarrow> 'd ring \<Rightarrow> 'd ring \<Rightarrow> bool" where
  "in_progress (Check p) base r = (r = base)"
| "in_progress (Slot p) base r = (r = base \<and> \<not> refused p base)"
| "in_progress (Advance p x) base r = (\<not> refused p base \<and> access p base = Inr (x, r))"
| "in_progress (Release p x) base r = (exec p base = Inr (x, r))"
| "in_progress Crashed base r = (r = base \<and> (\<exists>p e. exec p base = Inl e))"
| "in_progress c base r = False"

definition conc_inv :: "'d ring \<Rightarrow> 'd shared \<Rightarrow> bool" where
  "conc_inv r0 s \<longleftrightarrow>
     (\<exists>base. exec_all (map fst (done_ops s)) r0 = Inr (map snd (done_ops s), base) \<and>
        (if lock s = 0 then ring s = base \<and> (\<forall>t. \<not> critical (pcs s t))
         else \<exists>t. in_progress (pcs s t) base (ring s) \<and> (\<forall>u. critical (pcs s u) \<longleftrightarrow> u = t)))"

lemma exec_refused: "refused p r \<Longrightarrow> exec p r = Inr (refusal p, r)"
  by (cases p) (simp_all add: push_def pop_def)

lemma exec_access:
  "\<not> refused p r \<Longrightarrow> exec p r = outcome_bind (access p r) (\<lambda>(x, r'). Inr (x, advance p r'))"
proof (cases p)
  case (Push_op d)
  assume "\<not> refused p r"
  then show ?thesis
    using Push_op by (cases "store (head r) d r") (auto simp: push_def store_def split: option.splits if_splits)
next
  case Pop_op
  assume "\<not> refused p r"
  then show ?thesis using Pop_op by (cases "load (tail r) r") (auto simp: pop_def)
qed

lemma exec_all_append:
  "exec_all ps r = Inr (xs, r') \<Longrightarrow> exec p r' = Inr (x, r'') \<Longrightarrow> exec_all (ps @ [p]) r = Inr (xs @ [x], r'')"
proof (induction ps arbitrary: r xs)
  case (Cons q qs)
  then show ?case by (auto simp: outcome_bind_Inr_iff)
qed simp

lemma conc_inv_start: "conc_inv r (start r)"
  by (simp add: conc_inv_def start_def)

text \<open>A step of a thread outside the critical section that leaves it outside and keeps the ring.\<close>

lemma conc_inv_outside:
  assumes "conc_inv r0 s" "\<not> critical (pcs s t)" "\<not> critical c" "(lock s' = 0) = (lock s = 0)"
    "ring s' = ring s" "done_ops s' = done_ops s" "pcs s' = (pcs s)(t := c)"
  shows "conc_inv r0 s'"
proof (cases "lock s = 0")
  case True
  then show ?thesis using assms by (auto simp: conc_inv_def)
next
  case False
  from assms(1) False obtain base u where
    u: "exec_all (map fst (done_ops s)) r0 = Inr (map snd (done_ops s), base)"
       "in_progress (pcs s u) base (ring s)" "\<forall>v. critical (pcs s v) \<longleftrightarrow> v = u"
    by (auto simp: conc_inv_def)
  then have "u \<noteq> t" using assms(2) by auto
  then show ?thesis
    using u assms False unfolding conc_inv_def
    by (intro exI [of _ base]) (auto intro!: exI [of _ u])
qed

text \<open>A thread that takes the free lock.\<close>

lemma conc_inv_enter:
  assumes "conc_inv r0 s" "lock s = 0"
  shows "conc_inv r0 (goto t (Check p) (s\<lparr>lock := 1\<rparr>))"
  using assms unfolding conc_inv_def by (auto simp: goto_def intro!: exI [of _ t])

text \<open>A step inside the critical section.\<close>

lemma conc_inv_inside:
  assumes inv: "conc_inv r0 s" and crit: "critical (pcs s t)" "critical c"
    and prog: "\<And>base. in_progress (pcs s t) base (ring s) \<Longrightarrow> in_progress c base r'"
  shows "conc_inv r0 (goto t c (s\<lparr>ring := r'\<rparr>))"
proof -
  from inv crit(1) have "lock s \<noteq> 0" by (auto simp: conc_inv_def)
  with inv obtain base u where
    u: "exec_all (map fst (done_ops s)) r0 = Inr (map snd (done_ops s), base)"
       "in_progress (pcs s u) base (ring s)" "\<forall>v. critical (pcs s v) \<longleftrightarrow> v = u"
    by (auto simp: conc_inv_def)
  then have "u = t" using crit(1) by auto
  with u prog crit(2) \<open>lock s \<noteq> 0\<close> show ?thesis
    unfolding conc_inv_def goto_def by (intro exI [of _ base]) (auto intro!: exI [of _ t])
qed

lemma conc_inv_leave:
  assumes inv: "conc_inv r0 s" and pc: "pcs s t = Release p x"
  shows "conc_inv r0 (goto t Idle (s\<lparr>lock := 0, done_ops := done_ops s @ [(p, x)]\<rparr>))"
proof -
  have "critical (pcs s t)" by (simp add: pc)
  with inv have "lock s \<noteq> 0" by (auto simp: conc_inv_def)
  with inv obtain base u where
    u: "exec_all (map fst (done_ops s)) r0 = Inr (map snd (done_ops s), base)"
       "in_progress (pcs s u) base (ring s)" "\<forall>v. critical (pcs s v) \<longleftrightarrow> v = u"
    by (auto simp: conc_inv_def)
  then have "u = t" using pc by auto
  then have "exec p base = Inr (x, ring s)" using u(2) pc by simp
  from exec_all_append [OF u(1) this] u(3) \<open>u = t\<close> show ?thesis
    unfolding conc_inv_def goto_def by auto
qed

lemma same_ring: "s\<lparr>ring := ring s\<rparr> = s"
  by simp

lemma step_conc_inv:
  assumes "step s s'" "conc_inv r0 s"
  shows "conc_inv r0 s'"
  using assms
proof (induction rule: step.induct)
  case (step_call s t p)
  then show ?case by - (rule conc_inv_outside [of r0 s t "Test p"], simp_all add: goto_def)
next
  case (step_test s t p)
  show ?case
  proof (cases "lock s = 0")
    case True
    with conc_inv_enter [OF step_test(2)] show ?thesis by simp
  next
    case False
    with step_test show ?thesis by - (rule conc_inv_outside [of r0 s t "Spin p"], simp_all add: goto_def)
  qed
next
  case (step_spin s t p)
  with conc_inv_enter [OF step_spin(2)] show ?case by simp
next
  case (step_check s t p)
  have "conc_inv r0 (goto t (if refused p (ring s) then Release p (refusal p) else Slot p) (s\<lparr>ring := ring s\<rparr>))"
    using step_check by - (rule conc_inv_inside, auto simp: exec_refused)
  then show ?case by simp
next
  case (step_slot s t p x r')
  then show ?case by - (rule conc_inv_inside, auto)
next
  case (step_fault s t p e)
  have "exec p (ring s) = Inl e" if "\<not> refused p (ring s)"
    using exec_access [OF that] step_fault(2) by simp
  then have "conc_inv r0 (goto t Crashed (s\<lparr>ring := ring s\<rparr>))"
    using step_fault by - (rule conc_inv_inside, auto)
  then show ?case by simp
next
  case (step_advance s t p x)
  then show ?case by - (rule conc_inv_inside, auto simp: exec_access)
next
  case (step_release s t p x)
  then show ?case by - (rule conc_inv_leave)
qed

lemma reachable_conc_inv: "reachable r s \<Longrightarrow> conc_inv r s"
  by (induction rule: rtranclp_induct) (auto intro: conc_inv_start step_conc_inv)

section \<open>Properties\<close>

text \<open>C9. init with a size up to 2^30 terminates and gives a queue whose first 2^k - 1 pushes, interleaved with
  any pops, behave exactly as an unbounded first-in first-out queue, where 2^k is the least power of
  two that is not below the size.\<close>

theorem ring_fifo_first_lap:
  assumes "sz \<le> 2 ^ 30"
  shows "\<exists>k r. init d0 sz ring_new = Some (True, r) \<and> sz \<le> 2 ^ k \<and> (0 < k \<longrightarrow> 2 ^ (k - 1) < sz) \<and>
     (\<forall>ps. pushes ps \<le> 2 ^ k - 1 \<longrightarrow>
        (\<exists>r'. exec_all ps r = Inr (fst (fifo_all ps []), r') \<and> contents r' = snd (fifo_all ps [])))"
proof -
  from init_first_lap [OF assms, of d0] obtain k r where
    r: "init d0 sz ring_new = Some (True, r)" "first_lap k r" "head r = 0" "contents r = []"
      "sz \<le> 2 ^ k" "0 < k \<longrightarrow> 2 ^ (k - 1) < sz"
    by blast
  have "\<exists>r'. exec_all ps r = Inr (fst (fifo_all ps []), r') \<and> contents r' = snd (fifo_all ps [])"
    if "pushes ps \<le> 2 ^ k - 1" for ps
    using exec_all_first_lap [OF r(2), of ps] that by (auto simp: r(3,4))
  then have "\<forall>ps. pushes ps \<le> 2 ^ k - 1 \<longrightarrow>
      (\<exists>r'. exec_all ps r = Inr (fst (fifo_all ps []), r') \<and> contents r' = snd (fifo_all ps []))"
    by (intro allI impI)
  with r(1,5,6) show ?thesis by - (rule exI [of _ k], rule exI [of _ r], intro conjI)
qed

text \<open>After 2^k - 1 pushes the next push is refused when nothing was popped yet; once something was popped,
  it stores into the slot behind the end of the allocation.\<close>

lemma ring_second_lap_out_of_bounds:
  assumes "sz \<le> 2 ^ 30"
  shows "\<exists>k r. init d0 sz ring_new = Some (True, r) \<and> sz \<le> 2 ^ k \<and> (0 < k \<longrightarrow> 2 ^ (k - 1) < sz) \<and>
     (\<forall>ps. pushes ps = 2 ^ k - 1 \<longrightarrow>
        (\<exists>xs r'. exec_all ps r = Inr (xs, r') \<and>
           push d r' = (if pops_done xs = 0 then Inr (False, r') else Inl Out_Of_Bounds)))"
proof -
  from init_first_lap [OF assms, of d0] obtain k r where
    r: "init d0 sz ring_new = Some (True, r)" "first_lap k r" "head r = 0" "tail r = 0" "contents r = []"
      "sz \<le> 2 ^ k" "0 < k \<longrightarrow> 2 ^ (k - 1) < sz"
    by blast
  have "\<exists>xs r'. exec_all ps r = Inr (xs, r') \<and> push d r' = (if pops_done xs = 0 then Inr (False, r') else Inl Out_Of_Bounds)"
    if "pushes ps = 2 ^ k - 1" for ps
  proof -
    from exec_all_first_lap [OF r(2), of ps] that obtain r' where
      r': "exec_all ps r = Inr (fst (fifo_all ps (contents r)), r')" "first_lap k r'" "unat (head r') = 2 ^ k - 1"
        "unat (tail r') = pops_done (fst (fifo_all ps (contents r)))"
      by (auto simp: r(3,4))
    have "tail r' = 0 \<longleftrightarrow> pops_done (fst (fifo_all ps (contents r))) = 0"
      using r'(4) by (simp add: unat_eq_zero [symmetric])
    with push_first_lap [OF r'(2), of d] r'(1,3) show ?thesis by simp
  qed
  then have "\<forall>ps. pushes ps = 2 ^ k - 1 \<longrightarrow> (\<exists>xs r'. exec_all ps r = Inr (xs, r') \<and>
      push d r' = (if pops_done xs = 0 then Inr (False, r') else Inl Out_Of_Bounds))"
    by (intro allI impI)
  with r(1,6,7) show ?thesis by - (rule exI [of _ k], rule exI [of _ r], intro conjI)
qed

lemma ring_fifo_first_lap_witness:
  "\<exists>k r. init (0 :: nat) 4 ring_new = Some (True, r) \<and> 4 \<le> (2 :: int) ^ k \<and>
     (\<exists>r'. exec_all [Push_op 5, Pop_op] r = Inr ([Pushed True, Popped (Some 5)], r'))"
proof -
  from ring_fifo_first_lap [of 4 "0 :: nat"] obtain k r where
    k: "init (0 :: nat) 4 ring_new = Some (True, r)" "(4 :: int) \<le> 2 ^ k"
      "\<forall>ps. pushes ps \<le> 2 ^ k - 1 \<longrightarrow> (\<exists>r'. exec_all ps r = Inr (fst (fifo_all ps []), r') \<and> contents r' = snd (fifo_all ps []))"
    by auto
  have "k \<noteq> 0" using k(2) by (intro notI) simp
  then have "(2 :: nat) ^ 1 \<le> 2 ^ k" by (intro power_increasing) simp_all
  then have "pushes [Push_op (5 :: nat), Pop_op] \<le> 2 ^ k - 1" by (simp add: pushes_def)
  with k(3) have "\<exists>r'. exec_all [Push_op 5, Pop_op] r = Inr (fst (fifo_all [Push_op 5, Pop_op] []), r')" by blast
  with k(1,2) show ?thesis by auto
qed

lemma ring_second_lap_out_of_bounds_witness:
  "\<exists>k r. init (0 :: nat) 2 ring_new = Some (True, r) \<and>
     (\<forall>ps. pushes ps = 2 ^ k - 1 \<longrightarrow>
        (\<exists>xs r'. exec_all ps r = Inr (xs, r') \<and>
           push 7 r' = (if pops_done xs = 0 then Inr (False, r') else Inl Out_Of_Bounds)))"
proof -
  have "(2 :: int) \<le> 2 ^ 30" by simp
  from ring_second_lap_out_of_bounds [OF this, of "0 :: nat" 7] show ?thesis
    by (elim exE conjE) (intro exI conjI; assumption)
qed

text \<open>C8. However the steps of any number of threads interleave, at most one thread is in the critical section
  of push and pop, and the completed operations, in the order in which they release the lock,
  returned exactly what the sequential operations return in that order; whenever the lock is free the
  queue is the one the sequential run leaves.\<close>

theorem ring_threads_linearizable:
  assumes "reachable r s"
  shows "(critical (pcs s t) \<longrightarrow> critical (pcs s u) \<longrightarrow> t = u) \<and> (critical (pcs s t) \<longrightarrow> lock s \<noteq> 0) \<and>
     (\<exists>r'. exec_all (map fst (done_ops s)) r = Inr (map snd (done_ops s), r') \<and> (lock s = 0 \<longrightarrow> ring s = r'))"
  using reachable_conc_inv [OF assms] unfolding conc_inv_def by (auto split: if_splits)

text \<open>
  Two threads on a ring of size 4: while the first pushes, the second finds the lock taken and spins; it enters when the
  push is complete, and the first, calling again, spins.
\<close>

definition ring_of_three :: "nat ring" where
  "ring_of_three = \<lparr>first_init = False, head = 0, tail = 0, real_queue_size = 3, queue_vec = Some [0, 0, 0]\<rparr>"

definition two_threads_state :: "nat shared" where
  "two_threads_state = \<lparr>ring = ring_of_three\<lparr>head := 1, queue_vec := Some [7, 0, 0]\<rparr>, lock = 1,
     pcs = (\<lambda>_. Idle)(3 := Spin (Push_op 8), 2 := Slot Pop_op), done_ops = [(Push_op 7, Pushed True)]\<rparr>"

lemma step_on: "reachable r s \<Longrightarrow> step s s1 \<Longrightarrow> s1 = s2 \<Longrightarrow> reachable r s2"
  by (auto intro: rtranclp.rtrancl_into_rtrancl)

lemma two_threads_reachable: "reachable ring_of_three two_threads_state"
proof -
  define r1 :: "nat ring" where "r1 = ring_of_three\<lparr>queue_vec := Some [7, 0, 0]\<rparr>"
  define r2 where "r2 = r1\<lparr>head := 1\<rparr>"
  let ?p = "Push_op (7 :: nat)" and ?q = "Pop_op :: nat op" and ?o = "\<lambda>_ :: nat. Idle :: nat pc"
  define s :: "nat ring \<Rightarrow> u64 \<Rightarrow> nat pc \<Rightarrow> nat pc \<Rightarrow> (nat op \<times> nat res) list \<Rightarrow> nat shared"
    where "s r l a b d = \<lparr>ring = r, lock = l, pcs = ?o(3 := a, 2 := b), done_ops = d\<rparr>" for r l a b d
  have sel: "pcs (s r l a b d) 3 = a" "pcs (s r l a b d) 2 = b" "lock (s r l a b d) = l" "ring (s r l a b d) = r" "done_ops (s r l a b d) = d"
    "goto 3 x (s r l a b d) = s r l x b d" "goto 2 x (s r l a b d) = s r l a x d"
    "(s r l a b d)\<lparr>lock := l1\<rparr> = s r l1 a b d" "(s r l a b d)\<lparr>ring := r'\<rparr> = s r' l a b d"
    "(s r l a b d)\<lparr>done_ops := d1\<rparr> = s r l a b d1" for r l a b d x l1 r' d1
    by (auto simp: s_def goto_def fun_eq_iff)
  have "start ring_of_three = s ring_of_three 0 Idle Idle []" by (auto simp: start_def s_def)
  then have "reachable ring_of_three (s ring_of_three 0 Idle Idle [])" by simp
  then have "reachable ring_of_three (s ring_of_three 0 (Test ?p) Idle [])" by (rule step_on [OF _ step_call [where t = 3]]) (simp_all add: sel)
  then have "reachable ring_of_three (s ring_of_three 1 (Check ?p) Idle [])" by (rule step_on [OF _ step_test [where t = 3]]) (simp_all add: sel)
  then have "reachable ring_of_three (s ring_of_three 1 (Check ?p) (Test ?q) [])" by (rule step_on [OF _ step_call [where t = 2]]) (simp_all add: sel)
  then have "reachable ring_of_three (s ring_of_three 1 (Check ?p) (Spin ?q) [])" by (rule step_on [OF _ step_test [where t = 2]]) (simp_all add: sel)
  then have "reachable ring_of_three (s ring_of_three 1 (Slot ?p) (Spin ?q) [])"
    by (rule step_on [OF _ step_check [where t = 3 and p = ?p]]) (simp_all add: sel refused.simps full_def ring_of_three_def)
  then have "reachable ring_of_three (s r1 1 (Advance ?p (Pushed True)) (Spin ?q) [])"
    by (rule step_on [OF _ step_slot [where t = 3 and p = ?p and x = "Pushed True" and r' = r1]]) (simp_all add: sel access.simps store_def slot_of_def ring_of_three_def r1_def)
  then have "reachable ring_of_three (s r2 1 (Release ?p (Pushed True)) (Spin ?q) [])"
    by (rule step_on [OF _ step_advance [where t = 3 and p = ?p]]) (simp_all add: sel advance.simps r2_def r1_def ring_of_three_def)
  then have "reachable ring_of_three (s r2 0 Idle (Spin ?q) [(?p, Pushed True)])"
    by (rule step_on [OF _ step_release [where t = 3]]) (simp_all add: sel)
  then have "reachable ring_of_three (s r2 1 Idle (Check ?q) [(?p, Pushed True)])"
    by (rule step_on [OF _ step_spin [where t = 2]]) (simp_all add: sel)
  then have "reachable ring_of_three (s r2 1 (Test (Push_op 8)) (Check ?q) [(?p, Pushed True)])"
    by (rule step_on [OF _ step_call [where t = 3 and p = "Push_op 8"]]) (simp_all add: sel)
  then have "reachable ring_of_three (s r2 1 (Spin (Push_op 8)) (Check ?q) [(?p, Pushed True)])"
    by (rule step_on [OF _ step_test [where t = 3]]) (simp_all add: sel)
  then have "reachable ring_of_three (s r2 1 (Spin (Push_op 8)) (Slot ?q) [(?p, Pushed True)])"
    by (rule step_on [OF _ step_check [where t = 2 and p = ?q]]) (simp_all add: sel refused.simps empty_ring_def r2_def r1_def ring_of_three_def)
  then show ?thesis by (simp add: two_threads_state_def s_def r2_def r1_def ring_of_three_def)
qed

lemma ring_threads_linearizable_witness:
  "reachable ring_of_three two_threads_state \<and> critical (pcs two_threads_state 2) \<and> \<not> critical (pcs two_threads_state 3) \<and>
   lock two_threads_state \<noteq> 0 \<and> done_ops two_threads_state = [(Push_op 7, Pushed True)] \<and>
   (\<exists>r'. exec_all [Push_op 7] ring_of_three = Inr ([Pushed True], r'))"
proof -
  have d: "done_ops two_threads_state = [(Push_op 7, Pushed True)]" and two: "critical (pcs two_threads_state 2)"
    by (simp_all add: two_threads_state_def)
  note at = ring_threads_linearizable [OF two_threads_reachable]
  have "\<not> critical (pcs two_threads_state 3)" using conjunct1 [OF at [of 2 3]] two by auto
  moreover have "lock two_threads_state \<noteq> 0" using at [of 2 2] two by blast
  moreover have "\<exists>r'. exec_all [Push_op 7] ring_of_three = Inr ([Pushed True], r')" using at [of 2 2] by (auto simp: d)
  ultimately show ?thesis using two_threads_reachable two d by blast
qed

end
