(* ===== verification/Matrix.thy ===== *)
theory Matrix
  imports Matrix_Stat Ring_Buffer
begin

text \<open>
  The monitor: src/src/monitor/matrix.cpp, matrix.h (the interface the threads use), matrix\_item\_map.cpp
  (marks that have begun, by token), matrix\_collector.cpp (the queues to the collecting thread and its loop),
  matrix\_item.h and matrix\_scope.h. Items are objects at addresses (\<open>objs\<close>, the living ones); a mark that
  has begun and a queue hold addresses. Each method is one step: the buckets' mutexes and the rings' locks
  make the shared accesses atomic, the rest is the thread's own.
\<close>

section \<open>State\<close>

record item =
  item_persistent :: bool
  operation :: int
  val :: u64
  item_name :: string
  item_result :: string

definition MatrixItem_new :: "int \<Rightarrow> string \<Rightarrow> u64 \<Rightarrow> bool \<Rightarrow> item" where
  "MatrixItem_new op n v pers =
     \<lparr>item_persistent = pers, operation = op, val = v, item_name = n, item_result = []\<rparr>"

definition kSet :: int where "kSet = 0"
definition kAdd :: int where "kAdd = 1"
definition kSub :: int where "kSub = 2"
definition kReset :: int where "kReset = 3"
definition kTimeDistribute :: int where "kTimeDistribute = 4"

text \<open>
  \<open>token_ids\<close> is the thread-local counter of each thread; \<open>seq_id\<close> the static counter in GetQueue.
  \<open>collected\<close> is the map the collecting thread fills, \<open>published\<close> the one of the last full period.
\<close>

record matrix =
  objs :: "nat \<Rightarrow> item option"
  next_obj :: nat
  bucket_count :: u32
  buckets :: "(u64 \<times> nat) list list"
  token_ids :: "u32 \<Rightarrow> u32"
  queue_count :: u32
  queues :: "nat ring list"
  seq_id :: u64
  queue_push_failed_times :: int
  pause_push_stop_times :: int
  collected :: stat_map
  published :: stat_map

definition new_item :: "item \<Rightarrow> matrix \<Rightarrow> nat \<times> matrix" where
  "new_item it w = (next_obj w, w\<lparr>objs := (objs w)(next_obj w \<mapsto> it), next_obj := next_obj w + 1\<rparr>)"

definition delete_item :: "nat \<Rightarrow> matrix \<Rightarrow> matrix outcome" where
  "delete_item p w =
     (case objs w p of None \<Rightarrow> Inl Use_After_Free | Some it \<Rightarrow> Inr (w\<lparr>objs := (objs w)(p := None)\<rparr>))"

section \<open>Marks\<close>

text \<open>\<open>buckets_[token & (bucket_count_ - 1)]\<close>: the mask is computed in 32 bits.\<close>

definition bucket_index :: "u64 \<Rightarrow> matrix \<Rightarrow> nat" where
  "bucket_index token w = unat (and token (ucast (bucket_count w - 1)))"

definition bucket_GenerateToken :: "u64 \<Rightarrow> string \<Rightarrow> u64 \<Rightarrow> matrix \<Rightarrow> (int \<times> matrix) outcome" where
  "bucket_GenerateToken token n now w =
     (let i = bucket_index token w; (p, w1) = new_item (MatrixItem_new kTimeDistribute n now False) w
      in if i < length (buckets w)
         then (case map_of (buckets w1 ! i) token of
                 None \<Rightarrow> Inr (0, w1\<lparr>buckets := (buckets w1)[i := (token, p) # buckets w1 ! i]\<rparr>)
               | Some q \<Rightarrow> outcome_bind (delete_item p w1) (\<lambda>w2. Inr (-1, w2)))
         else Inl Out_Of_Bounds)"

definition GenerateToken :: "u32 \<Rightarrow> string \<Rightarrow> u64 \<Rightarrow> matrix \<Rightarrow> (u64 \<times> matrix) outcome" where
  "GenerateToken thr n now w =
     (let c = token_ids w thr + 1; w1 = w\<lparr>token_ids := (token_ids w)(thr := c)\<rparr>;
          token = or (push_bit 32 (ucast thr)) (ucast c)
      in outcome_bind (bucket_GenerateToken token n now w1) (\<lambda>(ok, w2).
           Inr (if ok \<noteq> 0 then 0 else token, w2)))"

text \<open>The entry is taken out; the item's value becomes the time since it was made.\<close>

definition FetchToken :: "u64 \<Rightarrow> u64 \<Rightarrow> matrix \<Rightarrow> (nat option \<times> matrix) outcome" where
  "FetchToken token now w =
     (let i = bucket_index token w
      in if i < length (buckets w)
         then (case map_of (buckets w ! i) token of
                 None \<Rightarrow> Inr (None, w)
               | Some p \<Rightarrow>
                   (case objs w p of
                      None \<Rightarrow> Inl Use_After_Free
                    | Some it \<Rightarrow>
                        Inr (Some p, w\<lparr>objs := (objs w)(p \<mapsto> it\<lparr>val := now - val it\<rparr>),
                           buckets := (buckets w)[i := filter (\<lambda>e. fst e \<noteq> token) (buckets w ! i)]\<rparr>)))
         else Inl Out_Of_Bounds)"

section \<open>The queues\<close>

definition MAX_PUSH_FAILED_TO_PAUSE :: int where "MAX_PUSH_FAILED_TO_PAUSE = 100"
definition PAUSE_TIMES_SECOND :: int where "PAUSE_TIMES_SECOND = 29"

text \<open>The round robin of GetQueue; \<open>queue_.at\<close> throws when there is no such queue.\<close>

definition GetQueue :: "matrix \<Rightarrow> (nat \<times> matrix) outcome" where
  "GetQueue w =
     (if queue_count w = 0 then Inl Division_By_Zero
      else let sid = seq_id w + 1; i = unat (sid mod ucast (queue_count w))
           in if i < length (queues w) then Inr (i, w\<lparr>seq_id := sid\<rparr>) else Inl Out_Of_Range_Exception)"

definition Send :: "nat \<Rightarrow> int \<Rightarrow> matrix \<Rightarrow> (int \<times> matrix) outcome" where
  "Send p now w =
     (if now < pause_push_stop_times w then Inr (-1, w)
      else outcome_bind (GetQueue w) (\<lambda>(i, w1).
        outcome_bind (push p (queues w1 ! i)) (\<lambda>(ok, q).
          let w2 = w1\<lparr>queues := (queues w1)[i := q]\<rparr>
          in if \<not> ok
             then let n = queue_push_failed_times w2 + 1; w3 = w2\<lparr>queue_push_failed_times := n\<rparr>
                  in Inr (-2, if n > MAX_PUSH_FAILED_TO_PAUSE
                              then w3\<lparr>pause_push_stop_times := now + PAUSE_TIMES_SECOND, queue_push_failed_times := 0\<rparr>
                              else w3)
             else Inr (0, w2))))"

definition SendToCollector :: "nat \<Rightarrow> int \<Rightarrow> matrix \<Rightarrow> (int \<times> matrix) outcome" where
  "SendToCollector p now w =
     outcome_bind (Send p now w) (\<lambda>(r, w1).
       if r \<noteq> 0 then outcome_bind (delete_item p w1) (\<lambda>w2. Inr (r, w2)) else Inr (0, w1))"

text \<open>\<open>Set\<close>, \<open>Add\<close>, \<open>Sub\<close>, their persistent forms and \<open>Reset\<close> send a new item and ignore the result.\<close>

definition send_new :: "item \<Rightarrow> int \<Rightarrow> matrix \<Rightarrow> matrix outcome" where
  "send_new it now w =
     (case new_item it w of (p, w1) \<Rightarrow> outcome_bind (SendToCollector p now w1) (\<lambda>(r, w2). Inr w2))"

definition matrix_Set :: "string \<Rightarrow> u32 \<Rightarrow> int \<Rightarrow> matrix \<Rightarrow> matrix outcome" where
  "matrix_Set n v = send_new (MatrixItem_new kSet n (ucast v) False)"

definition matrix_Add :: "string \<Rightarrow> u32 \<Rightarrow> int \<Rightarrow> matrix \<Rightarrow> matrix outcome" where
  "matrix_Add n v = send_new (MatrixItem_new kAdd n (ucast v) False)"

definition matrix_Sub :: "string \<Rightarrow> u32 \<Rightarrow> int \<Rightarrow> matrix \<Rightarrow> matrix outcome" where
  "matrix_Sub n v = send_new (MatrixItem_new kSub n (ucast v) False)"

definition PersistentSet :: "string \<Rightarrow> u32 \<Rightarrow> int \<Rightarrow> matrix \<Rightarrow> matrix outcome" where
  "PersistentSet n v = send_new (MatrixItem_new kSet n (ucast v) True)"

definition PersistentAdd :: "string \<Rightarrow> u32 \<Rightarrow> int \<Rightarrow> matrix \<Rightarrow> matrix outcome" where
  "PersistentAdd n v = send_new (MatrixItem_new kAdd n (ucast v) True)"

definition PersistentSub :: "string \<Rightarrow> u32 \<Rightarrow> int \<Rightarrow> matrix \<Rightarrow> matrix outcome" where
  "PersistentSub n v = send_new (MatrixItem_new kSub n (ucast v) True)"

definition matrix_Reset :: "string \<Rightarrow> int \<Rightarrow> matrix \<Rightarrow> matrix outcome" where
  "matrix_Reset n = send_new (MatrixItem_new kReset n 0 False)"

definition MarkBegin :: "u32 \<Rightarrow> string \<Rightarrow> u64 \<Rightarrow> matrix \<Rightarrow> (u64 \<times> matrix) outcome" where
  "MarkBegin thr n now w = GenerateToken thr n now w"

definition MarkEnd_with :: "(item \<Rightarrow> item) \<Rightarrow> u64 \<Rightarrow> u64 \<Rightarrow> int \<Rightarrow> matrix \<Rightarrow> (int \<times> matrix) outcome" where
  "MarkEnd_with f token now sec w =
     outcome_bind (FetchToken token now w) (\<lambda>(r, w1).
       case r of
         None \<Rightarrow> Inr (-1, w1)
       | Some p \<Rightarrow>
           (case objs w1 p of
              None \<Rightarrow> Inl Use_After_Free
            | Some it \<Rightarrow>
                outcome_bind (SendToCollector p sec (w1\<lparr>objs := (objs w1)(p \<mapsto> f it)\<rparr>)) (\<lambda>(r, w2).
                  Inr (if r \<noteq> 0 then -1 else 0, w2))))"

definition MarkEnd :: "u64 \<Rightarrow> u64 \<Rightarrow> int \<Rightarrow> matrix \<Rightarrow> (int \<times> matrix) outcome" where
  "MarkEnd = MarkEnd_with id"

definition MarkEnd_result :: "u64 \<Rightarrow> string \<Rightarrow> u64 \<Rightarrow> int \<Rightarrow> matrix \<Rightarrow> (int \<times> matrix) outcome" where
  "MarkEnd_result token result = MarkEnd_with (\<lambda>it. it\<lparr>item_result := result\<rparr>) token"

definition MarkEnd_succeed :: "u64 \<Rightarrow> bool \<Rightarrow> u64 \<Rightarrow> int \<Rightarrow> matrix \<Rightarrow> (int \<times> matrix) outcome" where
  "MarkEnd_succeed token succeed =
     MarkEnd_with (\<lambda>it. it\<lparr>item_result := (if succeed then ''OK'' else ''ERR'')\<rparr>) token"


section \<open>The collecting thread\<close>

definition process_item :: "item \<Rightarrow> stat_map \<Rightarrow> stat_map" where
  "process_item it m =
     (if operation it = kSet then map_Set (item_name it) (ucast (val it)) (item_persistent it) m
      else if operation it = kAdd then map_Add (item_name it) (ucast (val it)) (item_persistent it) m
      else if operation it = kSub then map_Sub (item_name it) (ucast (val it)) (item_persistent it) m
      else if operation it = kReset then map_Reset (item_name it) m
      else if operation it = kTimeDistribute
           then (if item_result it = [] then TimeDistrubute (item_name it) (sint (val it)) (item_persistent it) m
                 else TimeDistrubute_result (item_name it) (item_result it) (sint (val it)) (item_persistent it) m)
      else m)"

text \<open>One turn of the loop of ProcessQueue behind its test; \<open>pop\<close> may give nothing, then the turn ends.\<close>

definition queue_turn :: "nat \<Rightarrow> matrix \<Rightarrow> matrix outcome" where
  "queue_turn i w =
     outcome_bind (pop (queues w ! i)) (\<lambda>(r, q).
       let w1 = w\<lparr>queues := (queues w)[i := q]\<rparr>
       in case r of
            None \<Rightarrow> Inr w1
          | Some p \<Rightarrow>
              (case objs w1 p of
                 None \<Rightarrow> Inl Use_After_Free
               | Some it \<Rightarrow> delete_item p (w1\<lparr>collected := process_item it (collected w1)\<rparr>)))"

partial_function (option) ProcessQueue :: "nat \<Rightarrow> matrix \<Rightarrow> matrix run" where
  "ProcessQueue i w =
     (if ring_size (queues w ! i) > 0
      then (case queue_turn i w of Inl e \<Rightarrow> Some (Inl e) | Inr w1 \<Rightarrow> ProcessQueue i w1)
      else yields w)"

fun process_from :: "nat list \<Rightarrow> matrix \<Rightarrow> matrix run" where
  "process_from [] w = yields w"
| "process_from (i # is') w = run_bind (ProcessQueue i w) (process_from is')"

definition ProcessQueueList :: "matrix \<Rightarrow> matrix run" where
  "ProcessQueueList w = process_from [0..<unat (queue_count w)] w"

text \<open>
  The thread's file: \<open>files\<close> holds what was written to each open FILE, \<open>fp\<close> the FILE the loop writes to.
  One round of the loop of Run: the name of the day, the dump after 30 seconds, the queues. \<open>opened\<close> is whether
  fopen succeeds. The result tells whether the thread goes on.
\<close>

record collector_thread =
  fp :: nat
  files :: "nat \<Rightarrow> string list option"
  next_file :: nat
  monitor_file_name :: string

definition two_digits :: "nat \<Rightarrow> string" where
  "two_digits n = (if n < 10 then ''0'' else []) @ dec n"

definition AppendData :: "string \<Rightarrow> nat \<times> nat \<times> nat \<Rightarrow> string" where
  "AppendData pre day = (case day of (y, mo, d) \<Rightarrow> pre @ ''.'' @ dec y @ ''_'' @ two_digits mo @ ''_'' @ two_digits d)"

definition fclose :: "nat \<Rightarrow> collector_thread \<Rightarrow> collector_thread outcome" where
  "fclose f t = (case files t f of None \<Rightarrow> Inl Use_After_Free | Some x \<Rightarrow> Inr (t\<lparr>files := (files t)(f := None)\<rparr>))"

definition fwrite :: "string \<Rightarrow> nat \<Rightarrow> collector_thread \<Rightarrow> collector_thread outcome" where
  "fwrite x f t =
     (case files t f of None \<Rightarrow> Inl Use_After_Free | Some xs \<Rightarrow> Inr (t\<lparr>files := (files t)(f \<mapsto> xs @ [x])\<rparr>))"

text \<open>The FILE opened here goes to a variable of the inner block, which hides the loop's.\<close>

definition change_file :: "string \<Rightarrow> bool \<Rightarrow> collector_thread \<Rightarrow> (bool \<times> collector_thread) outcome" where
  "change_file new_name opened t =
     (if new_name \<noteq> monitor_file_name t
      then outcome_bind (fclose (fp t) t) (\<lambda>t1.
             let t2 = t1\<lparr>monitor_file_name := new_name\<rparr>
             in if opened then Inr (True, t2\<lparr>files := (files t2)(next_file t2 \<mapsto> []), next_file := next_file t2 + 1\<rparr>)
                else Inr (False, t2))
      else Inr (True, t))"

definition publish :: "nat \<times> nat \<times> nat \<Rightarrow> int \<Rightarrow> collector_thread \<times> matrix \<Rightarrow> (collector_thread \<times> matrix) outcome" where
  "publish clock now tw = (case tw of (t, w) \<Rightarrow>
     (if now - uint (map_start (collected w)) \<ge> 30
      then let m = Freeze clock now (collected w)
           in outcome_bind (fwrite (map_ToStringSimple m) (fp t) t) (\<lambda>t1.
                Inr (t1, w\<lparr>published := m, collected := Inherit m (StatMap_new (of_int now))\<rparr>))
      else Inr (t, w)))"

definition Run_round ::
  "string \<Rightarrow> bool \<Rightarrow> nat \<times> nat \<times> nat \<Rightarrow> int \<Rightarrow> collector_thread \<times> matrix \<Rightarrow> (bool \<times> collector_thread \<times> matrix) run" where
  "Run_round new_name opened clock now tw = (case tw of (t, w) \<Rightarrow>
     (case change_file new_name opened t of
        Inl e \<Rightarrow> Some (Inl e)
      | Inr (goes_on, t1) \<Rightarrow>
          if \<not> goes_on then yields (False, t1, w)
          else (case publish clock now (t1, w) of
                  Inl e \<Rightarrow> Some (Inl e)
                | Inr (t2, w1) \<Rightarrow> run_bind (ProcessQueueList w1) (\<lambda>w2. yields (True, t2, w2)))))"

section \<open>Setting up and tearing down\<close>

definition MatrixItemMap_new :: "u32 \<Rightarrow> matrix \<Rightarrow> matrix" where
  "MatrixItemMap_new n w = w\<lparr>bucket_count := n, buckets := replicate (unat n) []\<rparr>"

text \<open>\<open>init(queue_size)\<close> takes an int.\<close>

definition MatrixCollector_new :: "u32 \<Rightarrow> u32 \<Rightarrow> int \<Rightarrow> matrix \<Rightarrow> matrix option" where
  "MatrixCollector_new queue_bucket queue_size now w =
     (if queue_bucket = 0 then Some (w\<lparr>queue_count := 0, queues := [], published := StatMap_new (of_int now),
          queue_push_failed_times := 0, pause_push_stop_times := 0, collected := StatMap_new (of_int now)\<rparr>)
      else (case init 0 (sint queue_size) ring_new of
        None \<Rightarrow> None
      | Some (ok, r) \<Rightarrow>
          Some (w\<lparr>queue_count := queue_bucket, queues := replicate (unat queue_bucket) r, published := StatMap_new (of_int now),
            queue_push_failed_times := 0, pause_push_stop_times := 0, collected := StatMap_new (of_int now)\<rparr>)))"

text \<open>The process before Init: the heap, and the counters that are static.\<close>

definition matrix_none :: matrix where
  "matrix_none = \<lparr>objs = (\<lambda>_. None), next_obj = 0, bucket_count = 0, buckets = [], token_ids = (\<lambda>_. 0), queue_count = 0,
     queues = [], seq_id = 0, queue_push_failed_times = 0, pause_push_stop_times = 0,
     collected = StatMap_new 0, published = StatMap_new 0\<rparr>"

text \<open>Start never fails, so neither does what Init does after its three tests.\<close>

definition GlobalMatrix_Init :: "u32 \<Rightarrow> u32 \<Rightarrow> u32 \<Rightarrow> int \<Rightarrow> matrix \<Rightarrow> (int \<times> matrix option) option" where
  "GlobalMatrix_Init item_map_bucket queue_bucket queue_size now w =
     (if and item_map_bucket (item_map_bucket - 1) \<noteq> 0 then Some (-1, None)
      else if and queue_bucket (queue_bucket - 1) \<noteq> 0 then Some (-1, None)
      else if and queue_size (queue_size - 1) \<noteq> 0 then Some (-1, None)
      else (case MatrixCollector_new queue_bucket queue_size now (MatrixItemMap_new item_map_bucket w) of
              None \<Rightarrow> None
            | Some w1 \<Rightarrow> Some (0, Some w1)))"

text \<open>The queues and the buckets are freed, the items they point to are not.\<close>

definition GlobalMatrix_Destroy :: "matrix option \<Rightarrow> (matrix \<times> int) outcome" where
  "GlobalMatrix_Destroy g =
     (case g of
        None \<Rightarrow> Inl Null_Dereference
      | Some w \<Rightarrow> Inr (w\<lparr>bucket_count := 0, buckets := [], queue_count := 0, queues := []\<rparr>, 0))"

section \<open>Scopes and counters\<close>

datatype scope_mode = ModeLazy | ModeAutoSuccess | ModeAutoFail

definition MatrixScope_new :: "string \<Rightarrow> u64 \<Rightarrow> matrix \<Rightarrow> nat \<times> matrix" where
  "MatrixScope_new n now = new_item (MatrixItem_new kTimeDistribute n now False)"

definition on_item :: "(item \<Rightarrow> item) \<Rightarrow> nat \<Rightarrow> matrix \<Rightarrow> matrix outcome" where
  "on_item f p w = (case objs w p of None \<Rightarrow> Inl Use_After_Free | Some it \<Rightarrow> Inr (w\<lparr>objs := (objs w)(p \<mapsto> f it)\<rparr>))"

definition SetOkay :: "bool \<Rightarrow> nat \<Rightarrow> matrix \<Rightarrow> matrix outcome" where
  "SetOkay ok = on_item (\<lambda>it. it\<lparr>item_result := (if ok then ''OK'' else ''ERR'')\<rparr>)"

definition SetResult :: "string \<Rightarrow> nat \<Rightarrow> matrix \<Rightarrow> matrix outcome" where
  "SetResult result = on_item (\<lambda>it. it\<lparr>item_result := result\<rparr>)"

definition scope_result :: "scope_mode \<Rightarrow> u64 \<Rightarrow> item \<Rightarrow> item" where
  "scope_result mode now it =
     (let it1 = it\<lparr>val := now - val it\<rparr>
      in if item_result it1 = [] \<and> mode \<noteq> ModeLazy
         then it1\<lparr>item_result := (if mode = ModeAutoFail then ''ERR'' else ''OK'')\<rparr> else it1)"

text \<open>\<open>ready\<close>: whether there is a global matrix.\<close>

definition MatrixScope_delete :: "bool \<Rightarrow> scope_mode \<Rightarrow> u64 \<Rightarrow> int \<Rightarrow> nat \<Rightarrow> matrix \<Rightarrow> matrix outcome" where
  "MatrixScope_delete ready mode now sec p w =
     outcome_bind (on_item (scope_result mode now) p w) (\<lambda>w1.
       if ready then outcome_bind (SendToCollector p sec w1) (\<lambda>(r, w2). Inr w2) else delete_item p w1)"

definition Counter_Set :: "bool \<Rightarrow> string \<Rightarrow> u32 \<Rightarrow> int \<Rightarrow> matrix \<Rightarrow> matrix outcome" where
  "Counter_Set ready n v sec w = (if ready then matrix_Set n v sec w else Inr w)"

definition Counter_Add :: "bool \<Rightarrow> string \<Rightarrow> u32 \<Rightarrow> int \<Rightarrow> matrix \<Rightarrow> matrix outcome" where
  "Counter_Add ready n v sec w = (if ready then matrix_Add n v sec w else Inr w)"

definition Counter_Sub :: "bool \<Rightarrow> string \<Rightarrow> u32 \<Rightarrow> int \<Rightarrow> matrix \<Rightarrow> matrix outcome" where
  "Counter_Sub ready n v sec w = (if ready then matrix_Sub n v sec w else Inr w)"

definition Counter_Reset :: "bool \<Rightarrow> string \<Rightarrow> int \<Rightarrow> matrix \<Rightarrow> matrix outcome" where
  "Counter_Reset ready n sec w = (if ready then matrix_Reset n sec w else Inr w)"

definition Counter_Incr :: "bool \<Rightarrow> string \<Rightarrow> int \<Rightarrow> matrix \<Rightarrow> matrix outcome" where
  "Counter_Incr ready n sec w = (if ready then matrix_Add n 1 sec w else Inr w)"

definition Counter_Decr :: "bool \<Rightarrow> string \<Rightarrow> int \<Rightarrow> matrix \<Rightarrow> matrix outcome" where
  "Counter_Decr ready n sec w = (if ready then matrix_Sub n 1 sec w else Inr w)"

definition Counter_Distribution :: "bool \<Rightarrow> string \<Rightarrow> u32 \<Rightarrow> int \<Rightarrow> matrix \<Rightarrow> matrix outcome" where
  "Counter_Distribution ready n v sec w =
     (if ready then send_new (MatrixItem_new kTimeDistribute n (ucast v) False) sec w else Inr w)"


section \<open>Who holds an item\<close>

text \<open>
  The items that marks and queues hold. The invariant, with \<open>F\<close> the items the running method has in its hands:
  every living item is held exactly once, and each queue takes \<open>n\<close> more items.
\<close>

definition items_held :: "matrix \<Rightarrow> nat multiset" where
  "items_held w = mset (map snd (concat (buckets w))) + mset (concat (map contents (queues w)))"

definition queues_ok :: "nat \<Rightarrow> nat \<Rightarrow> matrix \<Rightarrow> bool" where
  "queues_ok k n w \<longleftrightarrow> (\<forall>q \<in> set (queues w). first_lap k q) \<and> (\<forall>q \<in> set (queues w). n \<le> ring_room k q) \<and>
     queue_count w \<noteq> 0 \<and> length (queues w) = unat (queue_count w) \<and> pause_push_stop_times w = 0"

definition buckets_ok :: "matrix \<Rightarrow> bool" where
  "buckets_ok w \<longleftrightarrow> bucket_count w \<noteq> 0 \<and> length (buckets w) = unat (bucket_count w) \<and>
     (\<forall>b \<in> set (buckets w). distinct (map fst b))"

definition owned :: "nat multiset \<Rightarrow> matrix \<Rightarrow> bool" where
  "owned F w \<longleftrightarrow> items_held w + F = mset_set (dom (objs w)) \<and> finite (dom (objs w)) \<and> (\<forall>p \<in> dom (objs w). p < next_obj w)"

definition matrix_ok :: "nat \<Rightarrow> nat \<Rightarrow> nat multiset \<Rightarrow> matrix \<Rightarrow> bool" where
  "matrix_ok k n F w \<longleftrightarrow> queues_ok k n w \<and> buckets_ok w \<and> owned F w"

lemma queues_ok_cong:
  "queues w' = queues w \<Longrightarrow> queue_count w' = queue_count w \<Longrightarrow> pause_push_stop_times w' = pause_push_stop_times w \<Longrightarrow>
     queues_ok k n w' = queues_ok k n w"
  by (simp add: queues_ok_def)

lemma buckets_ok_cong: "buckets w' = buckets w \<Longrightarrow> bucket_count w' = bucket_count w \<Longrightarrow> buckets_ok w' = buckets_ok w"
  by (simp add: buckets_ok_def)

lemma owned_cong:
  "buckets w' = buckets w \<Longrightarrow> queues w' = queues w \<Longrightarrow> dom (objs w') = dom (objs w) \<Longrightarrow> next_obj w' = next_obj w \<Longrightarrow>
     owned F w' = owned F w"
  by (simp add: owned_def items_held_def)

lemma matrix_ok_cong:
  "queues w' = queues w \<Longrightarrow> queue_count w' = queue_count w \<Longrightarrow> buckets w' = buckets w \<Longrightarrow> bucket_count w' = bucket_count w \<Longrightarrow>
     dom (objs w') = dom (objs w) \<Longrightarrow> next_obj w' = next_obj w \<Longrightarrow>
     pause_push_stop_times w' = pause_push_stop_times w \<Longrightarrow> matrix_ok k n F w' = matrix_ok k n F w"
  unfolding matrix_ok_def using queues_ok_cong buckets_ok_cong owned_cong by metis

lemma queues_ok_less: "queues_ok k n w \<Longrightarrow> m \<le> n \<Longrightarrow> queues_ok k m w"
  by (auto simp: queues_ok_def)

lemma matrix_ok_less: "matrix_ok k n F w \<Longrightarrow> m \<le> n \<Longrightarrow> matrix_ok k m F w"
  by (auto simp: matrix_ok_def intro: queues_ok_less)

lemma owned_held: "owned F w \<Longrightarrow> p \<in># items_held w + F \<Longrightarrow> \<exists>it. objs w p = Some it"
  by (auto simp: owned_def)

lemma matrix_ok_held: "matrix_ok k n (add_mset p F) w \<Longrightarrow> \<exists>it. objs w p = Some it"
  by (rule owned_held [of "add_mset p F"]) (simp_all add: matrix_ok_def)

lemma owned_new_item:
  assumes "owned F w"
  shows "owned (add_mset (next_obj w) F) (snd (new_item it w))"
proof -
  have new: "next_obj w \<notin> dom (objs w)" using assms by (auto simp: owned_def)
  have "items_held (snd (new_item it w)) = items_held w" by (simp add: items_held_def new_item_def)
  then show ?thesis using assms new by (auto simp: owned_def new_item_def less_Suc_eq)
qed

lemma matrix_ok_new_item:
  "matrix_ok k n F w \<Longrightarrow> new_item it w = (p, w1) \<Longrightarrow> matrix_ok k n (add_mset p F) w1 \<and> objs w1 p = Some it"
  using owned_new_item [of F w it] queues_ok_cong [of w1 w] buckets_ok_cong [of w1 w]
  by (auto simp: matrix_ok_def new_item_def)

lemma owned_delete:
  assumes "owned (add_mset p F) w"
  shows "owned F (w\<lparr>objs := (objs w)(p := None)\<rparr>)"
proof -
  have p: "p \<in> dom (objs w)" using owned_held [OF assms, of p] by auto
  have "items_held (w\<lparr>objs := (objs w)(p := None)\<rparr>) = items_held w" by (simp add: items_held_def)
  moreover have "items_held w + F = mset_set (dom (objs w) - {p})"
    using assms p by (simp add: owned_def mset_set_Diff add_mset_remove_trivial_eq) (metis add_mset_remove_trivial)
  ultimately show ?thesis using assms by (auto simp: owned_def)
qed

lemma matrix_ok_delete:
  assumes "matrix_ok k n (add_mset p F) w"
  shows "delete_item p w = Inr (w\<lparr>objs := (objs w)(p := None)\<rparr>) \<and> matrix_ok k n F (w\<lparr>objs := (objs w)(p := None)\<rparr>)"
  using matrix_ok_held [OF assms] assms owned_delete [of p F w]
  by (auto simp: matrix_ok_def delete_item_def queues_ok_def buckets_ok_def)


section \<open>Sending keeps the accounts\<close>

lemma unat_ucast_u64: "unat (ucast (x :: u32) :: u64) = unat x"
proof -
  have "unat x < 2 ^ 32" using unsigned_less [of x] by simp
  then have "unat (of_nat (unat x) :: u64) = unat x" by (intro unat_of_nat_u64) simp
  then show ?thesis by (simp only: of_nat_unat)
qed

text \<open>The item goes from the method's hands to a mark or a queue, and back.\<close>

lemma owned_give:
  assumes "owned (add_mset p F) w" "items_held w' = add_mset p (items_held w)" "dom (objs w') = dom (objs w)" "next_obj w' = next_obj w"
  shows "owned F w'"
proof -
  have "items_held w' + F = items_held w + add_mset p F" by (simp add: assms(2))
  with assms(1,3,4) show ?thesis by (simp only: owned_def) simp
qed

lemma owned_take:
  assumes "owned F w" "add_mset p (items_held w') = items_held w" "dom (objs w') = dom (objs w)" "next_obj w' = next_obj w"
  shows "owned (add_mset p F) w'"
proof -
  have "items_held w' + add_mset p F = items_held w + F" by (simp flip: assms(2))
  with assms(1,3,4) show ?thesis by (simp only: owned_def) simp
qed

lemma GetQueue_ok:
  assumes "queues_ok k n w"
  shows "\<exists>i. GetQueue w = Inr (i, w\<lparr>seq_id := seq_id w + 1\<rparr>) \<and> i < length (queues w)"
proof -
  have n: "0 < unat (queue_count w)" using assms by (simp add: queues_ok_def unat_gt_0)
  have len: "length (queues w) = unat (queue_count w)" using assms by (simp add: queues_ok_def)
  have "unat (ucast (queue_count w) :: u64) = unat (queue_count w)" by (rule unat_ucast_u64)
  then have "unat ((seq_id w + 1) mod ucast (queue_count w)) < unat (queue_count w)"
    using n by (simp add: unat_mod_distrib)
  with assms show ?thesis by (simp add: GetQueue_def queues_ok_def Let_def)
qed

lemma pending_push:
  assumes "i < length (queues w)" "contents q = contents (queues w ! i) @ [p]"
  shows "items_held (w\<lparr>queues := (queues w)[i := q]\<rparr>) = add_mset p (items_held w)"
  using lap.held_update [OF assms(1), of q] assms(2) by (simp add: items_held_def lap.held_def)

lemma pending_pop:
  assumes "i < length (queues w)" "contents (queues w ! i) = p # contents q"
  shows "add_mset p (items_held (w\<lparr>queues := (queues w)[i := q]\<rparr>)) = items_held w"
  using lap.held_update [OF assms(1), of q] assms(2) by (simp add: items_held_def lap.held_def)

lemma Send_ok:
  assumes ok: "matrix_ok k (Suc n) (add_mset p F) w"
  shows "\<exists>r w1. Send p now w = Inr (r, w1) \<and> matrix_ok k n (if r = 0 then F else add_mset p F) w1 \<and>
     buckets w1 = buckets w \<and> bucket_count w1 = bucket_count w \<and> objs w1 = objs w \<and> (0 \<le> now \<longrightarrow> r = 0) \<and>
     (r = 0 \<longrightarrow> (\<exists>i < length (queues w). contents (queues w1 ! i) = contents (queues w ! i) @ [p]))"
proof (cases "now < pause_push_stop_times w")
  case True
  moreover have "pause_push_stop_times w = 0" using ok by (simp add: matrix_ok_def queues_ok_def)
  ultimately show ?thesis using matrix_ok_less [OF ok, of n] by (simp add: Send_def)
next
  case False
  have q: "queues_ok k (Suc n) w" using ok by (simp add: matrix_ok_def)
  obtain i where i: "GetQueue w = Inr (i, w\<lparr>seq_id := seq_id w + 1\<rparr>)" "i < length (queues w)"
    using GetQueue_ok [OF q] by blast
  have laps: "\<forall>q \<in> set (queues w). first_lap k q" and rooms: "\<forall>q \<in> set (queues w). Suc n \<le> ring_room k q"
    using q by (simp_all add: queues_ok_def)
  have room: "Suc n \<le> ring_room k (queues w ! i)" using rooms i(2) by simp
  obtain r where r: "push p (queues w ! i) = Inr (True, r)" "\<forall>q \<in> set ((queues w)[i := r]). first_lap k q"
      "ring_room k r = ring_room k (queues w ! i) - 1" "contents r = contents (queues w ! i) @ [p]"
    using lap.push_at [OF laps i(2), of p] room by auto
  let ?w = "w\<lparr>seq_id := seq_id w + 1, queues := (queues w)[i := r]\<rparr>"
  have "Send p now w = Inr (0, ?w)"
    using False i(1) r(1) by (simp add: Send_def Let_def)
  moreover have "queues_ok k n ?w"
  proof -
    have "\<forall>q \<in> set (queues w). n \<le> ring_room k q" "n \<le> ring_room k r" using rooms room r(3) by auto
    then show ?thesis using lap.all_update [of "queues w" "\<lambda>q. n \<le> ring_room k q" r i] r(2) q by (simp add: queues_ok_def)
  qed
  moreover have "buckets_ok ?w" using ok by (simp add: matrix_ok_def buckets_ok_def)
  moreover have "owned F ?w"
  proof -
    have "items_held ?w = add_mset p (items_held w)"
      using pending_push [OF i(2) r(4)] by (simp add: items_held_def)
    then show ?thesis using ok by (simp add: matrix_ok_def owned_def)
  qed
  moreover have "contents (queues ?w ! i) = contents (queues w ! i) @ [p]" using i(2) r(4) by simp
  ultimately have "Send p now w = Inr (0, ?w)" "matrix_ok k n F ?w"
    "\<exists>i < length (queues w). contents (queues ?w ! i) = contents (queues w ! i) @ [p]"
    using i(2) unfolding matrix_ok_def by blast+
  then show ?thesis by (intro exI [of _ 0] exI [of _ ?w] conjI) simp_all
qed

lemma SendToCollector_ok:
  assumes ok: "matrix_ok k (Suc n) (add_mset p F) w"
  shows "\<exists>r w1. SendToCollector p now w = Inr (r, w1) \<and> matrix_ok k n F w1 \<and>
     buckets w1 = buckets w \<and> bucket_count w1 = bucket_count w \<and> (\<forall>q. q \<noteq> p \<longrightarrow> objs w1 q = objs w q) \<and> (0 \<le> now \<longrightarrow> r = 0) \<and>
     (r = 0 \<longrightarrow> objs w1 p = objs w p \<and> (\<exists>i < length (queues w). contents (queues w1 ! i) = contents (queues w ! i) @ [p]))"
proof -
  obtain r w1 where s: "Send p now w = Inr (r, w1)" "matrix_ok k n (if r = 0 then F else add_mset p F) w1"
      "buckets w1 = buckets w" "bucket_count w1 = bucket_count w" "objs w1 = objs w" "0 \<le> now \<longrightarrow> r = 0"
      "r = 0 \<longrightarrow> (\<exists>i < length (queues w). contents (queues w1 ! i) = contents (queues w ! i) @ [p])"
    using Send_ok [OF ok, of now] by blast
  show ?thesis
  proof (cases "r = 0")
    case True
    then show ?thesis using s by (intro exI [of _ 0] exI [of _ w1]) (simp add: SendToCollector_def)
  next
    case False
    then have "matrix_ok k n (add_mset p F) w1" using s(2) by simp
    from matrix_ok_delete [OF this] False s show ?thesis
      by (intro exI [of _ r] exI [of _ "w1\<lparr>objs := (objs w1)(p := None)\<rparr>"]) (simp add: SendToCollector_def)
  qed
qed

lemma not_in_hand:
  assumes "owned (add_mset p F) w" "q \<in># items_held w"
  shows "q \<noteq> p"
proof
  assume "q = p"
  then have "0 < count (items_held w) p" using assms(2) by (simp add: count_greater_zero_iff)
  then have many: "1 < count (items_held w + add_mset p F) p" by simp
  have eq: "items_held w + add_mset p F = mset_set (dom (objs w))" using assms(1) unfolding owned_def by (elim conjE)
  have "1 < count (mset_set (dom (objs w))) p" using many unfolding eq .
  then show False by (simp add: count_mset_set' split: if_splits)
qed

text \<open>What every method leaves alone: the marks of the tokens it is not called with.\<close>

definition marked :: "u64 \<Rightarrow> nat \<Rightarrow> item \<Rightarrow> matrix \<Rightarrow> bool" where
  "marked token p it w \<longleftrightarrow> map_of (buckets w ! bucket_index token w) token = Some p \<and> objs w p = Some it"

lemma bucket_index_less: "buckets_ok w \<Longrightarrow> bucket_index token w < length (buckets w)"
proof -
  assume ok: "buckets_ok w"
  have "unat (bucket_count w - 1) < unat (bucket_count w)"
    using ok by (simp add: buckets_ok_def unat_minus_one unat_gt_0)
  moreover have "unat (ucast (bucket_count w - 1) :: u64) = unat (bucket_count w - 1)" by (rule unat_ucast_u64)
  moreover have "bucket_index token w \<le> unat (ucast (bucket_count w - 1) :: u64)"
    unfolding bucket_index_def by (metis word_and_le1 word_le_nat_alt)
  ultimately show ?thesis using ok by (simp add: buckets_ok_def)
qed

lemma entry_pending:
  assumes "buckets_ok w" "map_of (buckets w ! bucket_index token w) token = Some p"
  shows "p \<in># items_held w"
proof -
  have "(token, p) \<in> set (buckets w ! bucket_index token w)" using assms(2) by (auto dest: map_of_SomeD)
  moreover have "buckets w ! bucket_index token w \<in> set (buckets w)" using bucket_index_less [OF assms(1)] by simp
  ultimately have "(token, p) \<in> set (concat (buckets w))" unfolding set_concat by blast
  then have "p \<in> snd ` set (concat (buckets w))" by force
  then show ?thesis unfolding items_held_def by (simp del: set_concat)
qed

lemma marked_pending: "buckets_ok w \<Longrightarrow> marked token p it w \<Longrightarrow> p \<in># items_held w"
  unfolding marked_def using entry_pending by blast

lemma marked_cong:
  "buckets w' = buckets w \<Longrightarrow> bucket_count w' = bucket_count w \<Longrightarrow> objs w' p = objs w p \<Longrightarrow> marked token p it w' = marked token p it w"
  by (simp add: marked_def bucket_index_def)


lemma bucket_update:
  "i < length bs \<Longrightarrow>
     mset (map snd (concat (bs[i := b]))) + mset (map snd (bs ! i)) = mset (map snd (concat bs)) + mset (map snd b)"
proof (induction bs arbitrary: i)
  case (Cons x bs)
  then show ?case by (cases i) (simp_all add: ac_simps)
qed simp

lemma bucket_remove:
  "distinct (map fst b) \<Longrightarrow> map_of b t = Some p \<Longrightarrow>
     add_mset p (mset (map snd (filter (\<lambda>e. fst e \<noteq> t) b))) = mset (map snd b)"
proof (induction b)
  case (Cons e b)
  show ?case
  proof (cases "fst e = t")
    case True
    then have "\<forall>x \<in> set b. fst x \<noteq> t" using Cons.prems(1) by (auto simp: image_iff)
    then have "filter (\<lambda>e. fst e \<noteq> t) b = b" by (simp add: filter_id_conv)
    with True Cons.prems(2) show ?thesis by (cases e) simp
  next
    case False
    with Cons show ?thesis by (cases e) (simp add: add_mset_commute)
  qed
qed simp

lemma bucket_moved: "X + Y = Z + V \<Longrightarrow> add_mset p V = Y \<Longrightarrow> add_mset p X = (Z :: nat multiset)"
  by (metis add_right_cancel union_mset_add_mset_left union_mset_add_mset_right)

lemma map_of_filter_fst: "map_of (filter (\<lambda>e. fst e \<noteq> t) b) u = (if u = t then None else map_of b u)"
  by (induction b) auto

lemma buckets_ok_update: "buckets_ok w \<Longrightarrow> distinct (map fst b) \<Longrightarrow> buckets_ok (w\<lparr>buckets := (buckets w)[i := b]\<rparr>)"
  using set_update_subset_insert [of "buckets w" i b] by (auto simp: buckets_ok_def)

lemma bucket_index_buckets [simp]:
  "bucket_index t (w\<lparr>buckets := b\<rparr>) = bucket_index t w" "bucket_index t (w\<lparr>objs := os\<rparr>) = bucket_index t w"
  "bucket_index t (w\<lparr>objs := os, buckets := b\<rparr>) = bucket_index t w" "bucket_index t (w\<lparr>token_ids := c\<rparr>) = bucket_index t w"
  "bucket_index t (snd (new_item it w)) = bucket_index t w"
  by (simp_all add: bucket_index_def new_item_def)

section \<open>Marks keep the accounts\<close>

lemma bucket_GenerateToken_ok:
  assumes ok: "matrix_ok k n F w"
  shows "\<exists>r w1. bucket_GenerateToken token nm now w = Inr (r, w1) \<and> matrix_ok k n F w1 \<and>
     (\<forall>t p it. marked t p it w \<longrightarrow> marked t p it w1) \<and>
     (r = 0 \<longrightarrow> (\<exists>p. marked token p (MatrixItem_new kTimeDistribute nm now False) w1))"
proof -
  let ?it = "MatrixItem_new kTimeDistribute nm now False"
  let ?i = "bucket_index token w"
  obtain p w1 where new: "new_item ?it w = (p, w1)" by (cases "new_item ?it w")
  have ok1: "matrix_ok k n (add_mset p F) w1" "objs w1 p = Some ?it"
    using matrix_ok_new_item [OF ok new] by simp_all
  have same: "buckets w1 = buckets w" "bucket_count w1 = bucket_count w" "p = next_obj w" "objs w1 = (objs w)(p \<mapsto> ?it)"
    using new by (auto simp: new_item_def)
  have kept: "marked t q it w1" if "marked t q it w" for t q it
  proof -
    have "q < next_obj w" using that ok by (auto simp: marked_def matrix_ok_def owned_def)
    with that same show ?thesis by (simp add: marked_def bucket_index_def)
  qed
  have b: "buckets_ok w" using ok by (simp add: matrix_ok_def)
  have i: "?i < length (buckets w)" by (rule bucket_index_less [OF b])
  show ?thesis
  proof (cases "map_of (buckets w ! ?i) token")
    case (Some q)
    let ?w = "w1\<lparr>objs := (objs w1)(p := None)\<rparr>"
    have "\<forall>t q it. marked t q it w \<longrightarrow> marked t q it ?w"
      using kept not_in_hand [of p F w1] marked_pending [of w1] ok1(1) b
      by (fastforce simp: marked_def matrix_ok_def)
    with Some matrix_ok_delete [OF ok1(1)] i show ?thesis
      by (intro exI [of _ "-1"] exI [of _ ?w]) (simp add: bucket_GenerateToken_def new same(1))
  next
    case None
    let ?b = "(token, p) # buckets w ! ?i"
    let ?w = "w1\<lparr>buckets := (buckets w1)[?i := ?b]\<rparr>"
    have "distinct (map fst (buckets w ! ?i))" using b i by (simp add: buckets_ok_def)
    then have dist: "distinct (map fst ?b)" using None by (simp add: map_of_eq_None_iff)
    have "items_held ?w = add_mset p (items_held w1)"
      using bucket_update [OF i, of ?b] by (simp add: items_held_def same(1))
    with ok1(1) have "owned F ?w" by (intro owned_give [of p F w1]) (simp_all add: matrix_ok_def)
    moreover have "buckets_ok ?w" using ok1(1) by (intro buckets_ok_update [OF _ dist]) (simp add: matrix_ok_def)
    moreover have "queues_ok k n ?w" using ok1(1) queues_ok_cong [of ?w w1] by (simp add: matrix_ok_def)
    ultimately have "matrix_ok k n F ?w" by (simp add: matrix_ok_def)
    moreover have "marked t q it ?w" if "marked t q it w" for t q it
      using kept [OF that] None i by (auto simp: marked_def nth_list_update same(1) bucket_index_def same(2))
    moreover have "marked token p ?it ?w" using i ok1(2) by (simp add: marked_def same(1,2) bucket_index_def)
    ultimately show ?thesis
      using None i by (intro exI [of _ 0] exI [of _ ?w]) (auto simp: bucket_GenerateToken_def new same(1) Let_def)
  qed
qed

lemma GenerateToken_ok:
  assumes ok: "matrix_ok k n F w"
  shows "\<exists>r w1. GenerateToken thr nm now w = Inr (r, w1) \<and> matrix_ok k n F w1 \<and>
     (\<forall>t p it. marked t p it w \<longrightarrow> marked t p it w1) \<and>
     (r \<noteq> 0 \<longrightarrow> (\<exists>p. marked r p (MatrixItem_new kTimeDistribute nm now False) w1))"
proof -
  let ?w = "w\<lparr>token_ids := (token_ids w)(thr := token_ids w thr + 1)\<rparr>"
  let ?token = "or (push_bit 32 (ucast thr)) (ucast (token_ids w thr + 1)) :: u64"
  have "matrix_ok k n F ?w" using ok matrix_ok_cong [of ?w w] by simp
  from bucket_GenerateToken_ok [OF this, of ?token nm now] obtain r w1 where
    w1: "bucket_GenerateToken ?token nm now ?w = Inr (r, w1)" "matrix_ok k n F w1"
      "\<forall>t p it. marked t p it ?w \<longrightarrow> marked t p it w1"
      "r = 0 \<longrightarrow> (\<exists>p. marked ?token p (MatrixItem_new kTimeDistribute nm now False) w1)"
    by blast
  have "marked t p it ?w = marked t p it w" for t p it by (simp add: marked_def)
  with w1 show ?thesis
    by (intro exI [of _ "if r \<noteq> 0 then 0 else ?token"] exI [of _ w1]) (simp add: GenerateToken_def Let_def)
qed

lemma FetchToken_ok:
  assumes ok: "matrix_ok k n F w" and entry: "map_of (buckets w ! bucket_index token w) token = Some p"
  shows "\<exists>it w1. objs w p = Some it \<and> FetchToken token now w = Inr (Some p, w1) \<and> matrix_ok k n (add_mset p F) w1 \<and>
     objs w1 p = Some (it\<lparr>val := now - val it\<rparr>) \<and> queues w1 = queues w \<and>
     (\<forall>t q j. t \<noteq> token \<longrightarrow> marked t q j w \<longrightarrow> marked t q j w1)"
proof -
  let ?i = "bucket_index token w"
  let ?b = "filter (\<lambda>e. fst e \<noteq> token) (buckets w ! ?i)"
  have b: "buckets_ok w" and o: "owned F w" using ok by (simp_all add: matrix_ok_def)
  have i: "?i < length (buckets w)" by (rule bucket_index_less [OF b])
  from entry_pending [OF b entry] owned_held [OF o, of p] obtain it where it: "objs w p = Some it" by auto
  let ?w = "w\<lparr>objs := (objs w)(p \<mapsto> it\<lparr>val := now - val it\<rparr>), buckets := (buckets w)[?i := ?b]\<rparr>"
  have d: "distinct (map fst (buckets w ! ?i))" using b i by (simp add: buckets_ok_def)
  then have dist: "distinct (map fst ?b)" by (simp add: distinct_map_filter)
  have "add_mset p (items_held ?w) = items_held w"
    using bucket_moved [OF bucket_update [OF i, of ?b] bucket_remove [OF d entry]] unfolding items_held_def
    by (simp del: mset_map map_concat mset_concat)
  moreover have "dom (objs ?w) = dom (objs w)" using it by auto
  ultimately have "owned (add_mset p F) ?w" by (intro owned_take [OF o]) simp_all
  then have ok1: "matrix_ok k n (add_mset p F) ?w"
    using ok buckets_ok_update [OF b dist] by (simp add: matrix_ok_def queues_ok_def buckets_ok_def)
  have "marked t q j ?w" if t: "t \<noteq> token" and m: "marked t q j w" for t q j
  proof -
    have e: "map_of (buckets ?w ! bucket_index t ?w) t = Some q"
      using m t i by (auto simp: marked_def nth_list_update map_of_filter_fst)
    have "q \<in># items_held ?w" using ok1 by (intro entry_pending [OF _ e]) (simp add: matrix_ok_def)
    then have "q \<noteq> p" using not_in_hand ok1 unfolding matrix_ok_def by blast
    with e m show ?thesis by (simp add: marked_def)
  qed
  with it entry i ok1 show ?thesis
    by (intro exI [of _ it] exI [of _ ?w]) (simp add: FetchToken_def Let_def)
qed


lemma MarkEnd_with_ok:
  assumes ok: "matrix_ok k (Suc n) F w"
  shows "\<exists>r w2. MarkEnd_with f token now sec w = Inr (r, w2) \<and> matrix_ok k n F w2 \<and>
     (\<forall>t q j. t \<noteq> token \<longrightarrow> marked t q j w \<longrightarrow> marked t q j w2) \<and>
     (\<forall>p it. marked token p it w \<longrightarrow> 0 \<le> sec \<longrightarrow> r = 0 \<and> objs w2 p = Some (f (it\<lparr>val := now - val it\<rparr>)) \<and>
        (\<exists>i < length (queues w). contents (queues w2 ! i) = contents (queues w ! i) @ [p]))"
proof (cases "map_of (buckets w ! bucket_index token w) token")
  case None
  have "bucket_index token w < length (buckets w)" using ok by (intro bucket_index_less) (simp add: matrix_ok_def)
  with None have "FetchToken token now w = Inr (None, w)" by (simp add: FetchToken_def Let_def)
  with None matrix_ok_less [OF ok, of n] show ?thesis
    by (intro exI [of _ "-1"] exI [of _ w]) (simp add: MarkEnd_with_def marked_def)
next
  case (Some p)
  from FetchToken_ok [OF ok Some, of now] obtain it w1 where
    w1: "objs w p = Some it" "FetchToken token now w = Inr (Some p, w1)" "matrix_ok k (Suc n) (add_mset p F) w1"
      "objs w1 p = Some (it\<lparr>val := now - val it\<rparr>)" "queues w1 = queues w"
      "\<forall>t q j. t \<noteq> token \<longrightarrow> marked t q j w \<longrightarrow> marked t q j w1"
    by blast
  let ?it = "f (it\<lparr>val := now - val it\<rparr>)"
  let ?w = "w1\<lparr>objs := (objs w1)(p \<mapsto> ?it)\<rparr>"
  have ok1: "matrix_ok k (Suc n) (add_mset p F) ?w"
    using w1(3,4) matrix_ok_cong [of ?w w1] by (simp add: insert_absorb domIff)
  from SendToCollector_ok [OF ok1, of sec] obtain r w2 where
    w2: "SendToCollector p sec ?w = Inr (r, w2)" "matrix_ok k n F w2" "buckets w2 = buckets ?w" "bucket_count w2 = bucket_count ?w"
      "\<forall>q. q \<noteq> p \<longrightarrow> objs w2 q = objs ?w q" "0 \<le> sec \<longrightarrow> r = 0"
      "r = 0 \<longrightarrow> objs w2 p = objs ?w p \<and> (\<exists>i < length (queues ?w). contents (queues w2 ! i) = contents (queues ?w ! i) @ [p])"
    by blast
  have "MarkEnd_with f token now sec w = Inr (if r \<noteq> 0 then -1 else 0, w2)"
    using w1(2,4) w2(1) by (simp add: MarkEnd_with_def)
  moreover have "marked t q j w2" if t: "t \<noteq> token" and m: "marked t q j w" for t q j
  proof -
    have m1: "marked t q j w1" using w1(6) t m by blast
    then have "q \<noteq> p"
      using not_in_hand [of p F w1] marked_pending [of w1] w1(3) unfolding matrix_ok_def by blast
    with m1 w2(3,4,5) show ?thesis using marked_cong [of w2 w1 q t j] by simp
  qed
  moreover have "(if r \<noteq> 0 then -1 else 0) = (0 :: int) \<and> objs w2 q = Some (f (j\<lparr>val := now - val j\<rparr>)) \<and>
      (\<exists>i < length (queues w). contents (queues w2 ! i) = contents (queues w ! i) @ [q])"
    if "marked token q j w" "0 \<le> sec" for q j
    using that Some w1(1,5) w2(6,7) by (auto simp: marked_def)
  ultimately show ?thesis using w2(2)
    by (intro exI [of _ "if r \<noteq> 0 then -1 else 0"] exI [of _ w2] conjI allI impI) blast+
qed

lemma send_new_ok:
  assumes ok: "matrix_ok k (Suc n) F w"
  shows "\<exists>w2. send_new it sec w = Inr w2 \<and> matrix_ok k n F w2 \<and> (\<forall>t q j. marked t q j w \<longrightarrow> marked t q j w2)"
proof -
  obtain p w1 where new: "new_item it w = (p, w1)" by (cases "new_item it w")
  have ok1: "matrix_ok k (Suc n) (add_mset p F) w1" using matrix_ok_new_item [OF ok new] by simp
  from SendToCollector_ok [OF ok1, of sec] obtain r w2 where
    w2: "SendToCollector p sec w1 = Inr (r, w2)" "matrix_ok k n F w2" "buckets w2 = buckets w1" "bucket_count w2 = bucket_count w1"
      "\<forall>q. q \<noteq> p \<longrightarrow> objs w2 q = objs w1 q"
    by blast
  have "marked t q j w2" if m: "marked t q j w" for t q j
  proof -
    have "q < next_obj w" using m ok by (auto simp: marked_def matrix_ok_def owned_def)
    then have "q \<noteq> p" "objs w1 q = objs w q" "buckets w1 = buckets w" "bucket_count w1 = bucket_count w"
      using new by (auto simp: new_item_def)
    with m w2(3,4,5) show ?thesis using marked_cong [of w2 w q t j] by simp
  qed
  with new w2(1,2) show ?thesis by (intro exI [of _ w2]) (simp add: send_new_def)
qed

lemma queue_turn_ok:
  assumes ok: "matrix_ok k n F w" and i: "i < length (queues w)" and c: "contents (queues w ! i) = p # ps"
  shows "\<exists>it w1. objs w p = Some it \<and> queue_turn i w = Inr w1 \<and> matrix_ok k n F w1 \<and>
     collected w1 = process_item it (collected w) \<and> queue_count w1 = queue_count w \<and>
     contents (queues w1 ! i) = ps \<and> (\<forall>j. j \<noteq> i \<longrightarrow> queues w1 ! j = queues w ! j) \<and>
     objs w1 = (objs w)(p := None) \<and>
     (\<forall>t q j. marked t q j w \<longrightarrow> marked t q j w1)"
proof -
  have q: "queues_ok k n w" and b: "buckets_ok w" and o: "owned F w" using ok by (simp_all add: matrix_ok_def)
  have laps: "\<forall>q \<in> set (queues w). first_lap k q" and rooms: "\<forall>q \<in> set (queues w). n \<le> ring_room k q"
    using q by (simp_all add: queues_ok_def)
  from lap.pop_at [OF laps i c] obtain r where
    r: "pop (queues w ! i) = Inr (Some p, r)" "\<forall>q \<in> set ((queues w)[i := r]). first_lap k q"
      "ring_room k r = ring_room k (queues w ! i)" "contents r = ps"
    by blast
  let ?w = "w\<lparr>queues := (queues w)[i := r]\<rparr>"
  have pend: "add_mset p (items_held ?w) = items_held w" using pending_pop [OF i, of p r] c r(4) by simp
  have "p \<in># add_mset p (items_held ?w)" by simp
  then have "p \<in># items_held w + F" unfolding pend by simp
  from owned_held [OF o this] obtain it where it: "objs w p = Some it" by blast
  let ?w1 = "?w\<lparr>collected := process_item it (collected w)\<rparr>"
  have "queues_ok k n ?w1"
  proof -
    have "n \<le> ring_room k (queues w ! i)" using rooms i by (metis nth_mem)
    then have "n \<le> ring_room k r" by (simp only: r(3))
    then have "\<forall>q \<in> set ((queues w)[i := r]). n \<le> ring_room k q" by (rule lap.all_update [OF rooms])
    with r(2) q show ?thesis by (simp add: queues_ok_def)
  qed
  moreover have "buckets_ok ?w1" using b by (simp add: buckets_ok_def)
  moreover have "owned (add_mset p F) ?w1"
    using pend by (intro owned_take [OF o]) (simp_all add: items_held_def)
  ultimately have ok1: "matrix_ok k n (add_mset p F) ?w1" by (simp add: matrix_ok_def)
  let ?w2 = "?w1\<lparr>objs := (objs ?w1)(p := None)\<rparr>"
  have turn: "queue_turn i w = Inr ?w2"
    using r(1) it matrix_ok_delete [OF ok1] by (simp add: queue_turn_def)
  have kept: "marked t s j ?w2" if m: "marked t s j w" for t s j
  proof -
    have "marked t s j ?w1" using m marked_cong [of ?w1 w] by simp
    moreover from this have "s \<noteq> p"
      using not_in_hand [of p F ?w1] marked_pending [of ?w1] ok1 unfolding matrix_ok_def by blast
    ultimately show ?thesis by (simp add: marked_def bucket_index_def)
  qed
  have ok2: "matrix_ok k n F ?w2" using matrix_ok_delete [OF ok1] by simp
  have "contents (queues ?w2 ! i) = ps" using i r(4) by simp
  moreover have "\<forall>j. j \<noteq> i \<longrightarrow> queues ?w2 ! j = queues w ! j" "collected ?w2 = process_item it (collected w)"
    "queue_count ?w2 = queue_count w" "objs ?w2 = (objs w)(p := None)"
    by simp_all
  moreover have "\<forall>t s j. marked t s j w \<longrightarrow> marked t s j ?w2" using kept by blast
  ultimately show ?thesis using it turn ok2 by blast
qed


section \<open>Calls of any thread\<close>

datatype monitor_call =
    Set_call string u32 int | Add_call string u32 int | Sub_call string u32 int
  | PSet_call string u32 int | PAdd_call string u32 int | PSub_call string u32 int
  | Reset_call string int
  | Begin_call u32 string u64
  | End_call u64 u64 int | End_result_call u64 string u64 int | End_succeed_call u64 bool u64 int
  | Turn_call nat

text \<open>\<open>Turn_call\<close> is one turn of the collecting thread at a queue that is not empty.\<close>

fun call_step :: "monitor_call \<Rightarrow> matrix \<Rightarrow> matrix outcome" where
  "call_step (Set_call n v sec) w = matrix_Set n v sec w"
| "call_step (Add_call n v sec) w = matrix_Add n v sec w"
| "call_step (Sub_call n v sec) w = matrix_Sub n v sec w"
| "call_step (PSet_call n v sec) w = PersistentSet n v sec w"
| "call_step (PAdd_call n v sec) w = PersistentAdd n v sec w"
| "call_step (PSub_call n v sec) w = PersistentSub n v sec w"
| "call_step (Reset_call n sec) w = matrix_Reset n sec w"
| "call_step (Begin_call thr n now) w = outcome_bind (MarkBegin thr n now w) (\<lambda>(r, w1). Inr w1)"
| "call_step (End_call t now sec) w = outcome_bind (MarkEnd t now sec w) (\<lambda>(r, w1). Inr w1)"
| "call_step (End_result_call t res now sec) w = outcome_bind (MarkEnd_result t res now sec w) (\<lambda>(r, w1). Inr w1)"
| "call_step (End_succeed_call t ok now sec) w = outcome_bind (MarkEnd_succeed t ok now sec w) (\<lambda>(r, w1). Inr w1)"
| "call_step (Turn_call i) w =
     (if i < length (queues w) \<and> ring_size (queues w ! i) > 0 then queue_turn i w else Inr w)"

fun run_calls :: "monitor_call list \<Rightarrow> matrix \<Rightarrow> matrix outcome" where
  "run_calls [] w = Inr w"
| "run_calls (c # cs) w = outcome_bind (call_step c w) (run_calls cs)"

fun ends :: "u64 \<Rightarrow> monitor_call \<Rightarrow> bool" where
  "ends t (End_call u now sec) = (u = t)"
| "ends t (End_result_call u res now sec) = (u = t)"
| "ends t (End_succeed_call u ok now sec) = (u = t)"
| "ends t c = False"

lemmas sends = matrix_Set_def matrix_Add_def matrix_Sub_def PersistentSet_def PersistentAdd_def PersistentSub_def matrix_Reset_def
lemmas mark_ends = MarkEnd_def MarkEnd_result_def MarkEnd_succeed_def

lemma ring_size_pos:
  assumes "first_lap k r"
  shows "ring_size r > 0 \<longleftrightarrow> contents r \<noteq> []"
proof -
  have "length (contents r) < 2 ^ 64"
  proof -
    from assms obtain v where v: "queue_vec r = Some v" "length v = 2 ^ k - 1" "k \<le> 30" by (auto simp: first_lap_def)
    have "length (contents r) \<le> length v" by (simp add: contents_def v(1))
    also have "\<dots> < 2 ^ 64"
    proof -
      have "(2 :: nat) ^ k \<le> 2 ^ 30" using v(3) by (intro power_increasing) simp_all
      then show ?thesis unfolding v(2) by simp
    qed
    finally show ?thesis .
  qed
  then have "unat (ring_size r) = length (contents r)" by (simp only: ring_size_contents [OF assms] unat_of_nat_u64)
  then show ?thesis by (simp add: word_gt_0 flip: unat_gt_0)
qed

lemma call_step_ok:
  assumes ok: "matrix_ok k (Suc n) {#} w"
  shows "\<exists>w1. call_step c w = Inr w1 \<and> matrix_ok k n {#} w1 \<and>
     (\<forall>t q j. \<not> ends t c \<longrightarrow> marked t q j w \<longrightarrow> marked t q j w1)"
proof -
  have mark: ?thesis
    if "call_step c w = outcome_bind (MarkEnd_with f token now sec w) (\<lambda>(r, w1). Inr w1)" "\<And>t. ends t c \<longleftrightarrow> token = t"
    for f token now sec
    using MarkEnd_with_ok [OF ok, of f token now sec] that by fastforce
  have send: ?thesis if "call_step c w = send_new it sec w" for it sec
    using send_new_ok [OF ok, of it sec] that by auto
  show ?thesis
  proof (cases c)
    case (Begin_call thr nm now)
    from GenerateToken_ok [OF ok, of thr nm now] obtain r w1 where
      "GenerateToken thr nm now w = Inr (r, w1)" "matrix_ok k (Suc n) {#} w1" "\<forall>t p it. marked t p it w \<longrightarrow> marked t p it w1"
      by blast
    then show ?thesis using Begin_call matrix_ok_less [of k "Suc n" "{#}" w1 n] by (simp add: MarkBegin_def)
  next
    case (Turn_call i)
    show ?thesis
    proof (cases "i < length (queues w) \<and> ring_size (queues w ! i) > 0")
      case True
      then have "first_lap k (queues w ! i)" using ok by (simp add: matrix_ok_def queues_ok_def)
      with True obtain p ps where "contents (queues w ! i) = p # ps" by (auto simp: ring_size_pos neq_Nil_conv)
      from queue_turn_ok [OF ok _ this] True obtain w1 where
        "queue_turn i w = Inr w1" "matrix_ok k (Suc n) {#} w1" "\<forall>t q j. marked t q j w \<longrightarrow> marked t q j w1"
        by blast
      then show ?thesis using Turn_call True matrix_ok_less [of k "Suc n" "{#}" w1 n] by simp
    next
      case False
      then show ?thesis using Turn_call matrix_ok_less [OF ok, of n] by auto
    qed
  next
    case (End_call t now sec)
    then show ?thesis by (intro mark [of id t now sec]) (simp_all add: mark_ends)
  next
    case (End_result_call t res now sec)
    then show ?thesis by (intro mark [of "\<lambda>it. it\<lparr>item_result := res\<rparr>" t now sec]) (simp_all add: mark_ends)
  next
    case (End_succeed_call t s now sec)
    then show ?thesis
      by (intro mark [of "\<lambda>it. it\<lparr>item_result := (if s then ''OK'' else ''ERR'')\<rparr>" t now sec]) (simp_all add: mark_ends)
  qed (rule send, simp add: sends)+
qed


lemma run_calls_ok:
  "matrix_ok k (n + length cs) {#} w \<Longrightarrow>
     \<exists>w1. run_calls cs w = Inr w1 \<and> matrix_ok k n {#} w1 \<and>
       (\<forall>t q j. (\<forall>c \<in> set cs. \<not> ends t c) \<longrightarrow> marked t q j w \<longrightarrow> marked t q j w1)"
proof (induction cs arbitrary: w)
  case (Cons c cs)
  have "matrix_ok k (Suc (n + length cs)) {#} w" using Cons.prems by simp
  from call_step_ok [OF this, of c] obtain w1 where
    w1: "call_step c w = Inr w1" "matrix_ok k (n + length cs) {#} w1"
      "\<forall>t q j. \<not> ends t c \<longrightarrow> marked t q j w \<longrightarrow> marked t q j w1"
    by blast
  from Cons.IH [OF w1(2)] obtain w2 where
    w2: "run_calls cs w1 = Inr w2" "matrix_ok k n {#} w2"
      "\<forall>t q j. (\<forall>c \<in> set cs. \<not> ends t c) \<longrightarrow> marked t q j w1 \<longrightarrow> marked t q j w2"
    by blast
  from w1 w2 show ?case by (intro exI [of _ w2]) simp
qed simp

lemma run_calls_append: "run_calls (cs @ ds) w = outcome_bind (run_calls cs w) (run_calls ds)"
proof (induction cs arbitrary: w)
  case (Cons c cs)
  then show ?case by (cases "call_step c w") simp_all
qed simp

text \<open>What Init leaves: empty buckets and queues, room for the size of a queue less one.\<close>

lemma Init_ok:
  assumes i: "GlobalMatrix_Init ib qb qs now matrix_none = Some (0, Some w)"
    and nz: "ib \<noteq> 0" "qb \<noteq> 0" and size: "unat qs \<le> 2 ^ 30" and n: "n < unat qs"
  shows "\<exists>k. matrix_ok k n {#} w"
proof -
  have "int (unat qs) \<le> 2 ^ 30" using size by (metis of_nat_le_numeral_power_cancel_iff)
  then have qs: "uint qs \<le> 2 ^ 30" by (simp only: uint_nat)
  have "signed_take_bit 31 i = i" if "0 \<le> i" "i \<le> 2 ^ 30" for i :: int
    using that by (intro signed_take_bit_int_eq_self) simp_all
  from this [OF _ qs] have "signed_take_bit 31 (uint qs) = uint qs" by simp
  then have "sint qs = uint qs" by (simp add: sint_uint)
  then have s: "sint qs = int (unat qs)" by (simp only: uint_nat)
  have "sint qs \<le> 2 ^ 30" using qs \<open>sint qs = uint qs\<close> by simp
  from init_first_lap [OF this, of "0 :: nat"] obtain k and r :: "nat ring" where
    r: "init 0 (sint qs) ring_new = Some (True, r)" "first_lap k r" "head r = 0" "contents r = []" "sint qs \<le> 2 ^ k"
    by blast
  have "unat qs \<le> 2 ^ k" using r(5) unfolding s by (metis of_nat_le_numeral_power_cancel_iff)
  then have room: "n \<le> ring_room k r" using n by (simp add: ring_room_def r(3))
  have w: "w = (MatrixItemMap_new ib matrix_none)\<lparr>queue_count := qb, queues := replicate (unat qb) r, published := StatMap_new (of_int now),
      queue_push_failed_times := 0, pause_push_stop_times := 0, collected := StatMap_new (of_int now)\<rparr>"
    using i nz(2) r(1) by (simp add: GlobalMatrix_Init_def MatrixCollector_new_def split: if_splits)
  have "queues_ok k n w" using room r(2) nz(2) by (simp add: queues_ok_def w)
  moreover have "buckets_ok w" using nz(1) by (simp add: buckets_ok_def w MatrixItemMap_new_def)
  moreover have "owned {#} w"
    by (simp add: owned_def items_held_def w MatrixItemMap_new_def matrix_none_def r(4) map_replicate concat_replicate_trivial)
  ultimately show ?thesis unfolding matrix_ok_def by blast
qed


section \<open>Draining the queues\<close>

text \<open>The items behind addresses.\<close>

definition items_at :: "matrix \<Rightarrow> nat list \<Rightarrow> item list" where
  "items_at w ps = map (\<lambda>p. the (objs w p)) ps"

lemma in_queue_not_head:
  assumes "matrix_ok k n F w" "i < length (queues w)" "contents (queues w ! i) = p # ps"
    "j < length (queues w)" "q \<in> set (contents (queues w ! j))" "j \<noteq> i \<or> q \<in> set ps"
  shows "q \<noteq> p"
proof -
  from queue_turn_ok [OF assms(1-3)] obtain w1 where w1: "matrix_ok k n F w1" "contents (queues w1 ! i) = ps"
      "\<forall>j. j \<noteq> i \<longrightarrow> queues w1 ! j = queues w ! j" "objs w1 = (objs w)(p := None)" "queue_count w1 = queue_count w"
    by blast
  have len: "length (queues w1) = length (queues w)"
    using w1(1,5) assms(1) by (simp add: matrix_ok_def queues_ok_def)
  have "q \<in> set (contents (queues w1 ! j))" using assms(5,6) w1(2,3) by (cases "j = i") auto
  moreover have "queues w1 ! j \<in> set (queues w1)" using assms(4) len by simp
  ultimately have "q \<in> set (concat (map contents (queues w1)))" unfolding set_concat set_map by blast
  then have "q \<in># items_held w1 + F" unfolding items_held_def by (simp del: set_concat)
  from owned_held [OF _ this] w1(1,4) show ?thesis by (auto simp: matrix_ok_def)
qed

lemma ProcessQueue_ok:
  "matrix_ok k n F w \<Longrightarrow> i < length (queues w) \<Longrightarrow>
   \<exists>w1. ProcessQueue i w = yields w1 \<and> matrix_ok k n F w1 \<and> queue_count w1 = queue_count w \<and>
     collected w1 = fold process_item (items_at w (contents (queues w ! i))) (collected w) \<and>
     contents (queues w1 ! i) = [] \<and> (\<forall>j. j \<noteq> i \<longrightarrow> queues w1 ! j = queues w ! j) \<and>
     (\<forall>j < length (queues w). j \<noteq> i \<longrightarrow> items_at w1 (contents (queues w ! j)) = items_at w (contents (queues w ! j)))"
proof (induction "contents (queues w ! i)" arbitrary: w)
  case Nil
  have "first_lap k (queues w ! i)" using Nil.prems by (simp add: matrix_ok_def queues_ok_def)
  then have "\<not> ring_size (queues w ! i) > 0" using ring_size_pos Nil.hyps by metis
  then have "ProcessQueue i w = yields w" by (subst ProcessQueue.simps) simp
  with Nil show ?case by (intro exI [of _ w]) (simp add: items_at_def flip: Nil.hyps)
next
  case (Cons p ps)
  note c = Cons.hyps(2) [symmetric]
  from queue_turn_ok [OF Cons.prems c] obtain it w1 where
    w1: "objs w p = Some it" "queue_turn i w = Inr w1" "matrix_ok k n F w1" "collected w1 = process_item it (collected w)"
      "queue_count w1 = queue_count w" "contents (queues w1 ! i) = ps" "\<forall>j. j \<noteq> i \<longrightarrow> queues w1 ! j = queues w ! j"
      "objs w1 = (objs w)(p := None)"
    by blast
  have len: "length (queues w1) = length (queues w)"
    using w1(3,5) Cons.prems(1) by (simp add: matrix_ok_def queues_ok_def)
  have "first_lap k (queues w ! i)" using Cons.prems by (simp add: matrix_ok_def queues_ok_def)
  then have "ring_size (queues w ! i) > 0" using ring_size_pos c by (metis list.discI)
  then have first: "ProcessQueue i w = ProcessQueue i w1" using w1(2) by (subst ProcessQueue.simps) simp
  have "i < length (queues w1)" using Cons.prems(2) len by simp
  from Cons.hyps(1) [OF w1(6) [symmetric] w1(3) this] obtain w2 where
    w2: "ProcessQueue i w1 = yields w2" "matrix_ok k n F w2" "queue_count w2 = queue_count w1"
      "collected w2 = fold process_item (items_at w1 (contents (queues w1 ! i))) (collected w1)"
      "contents (queues w2 ! i) = []" "\<forall>j. j \<noteq> i \<longrightarrow> queues w2 ! j = queues w1 ! j"
      "\<forall>j < length (queues w1). j \<noteq> i \<longrightarrow> items_at w2 (contents (queues w1 ! j)) = items_at w1 (contents (queues w1 ! j))"
    by blast
  have same: "items_at w1 qs = items_at w qs" if "\<forall>q \<in> set qs. q \<noteq> p" for qs
    using that by (simp add: items_at_def w1(8))
  have "items_at w1 ps = items_at w ps"
    using in_queue_not_head [OF Cons.prems c Cons.prems(2)] c by (intro same) auto
  then have col: "collected w2 = fold process_item (items_at w (contents (queues w ! i))) (collected w)"
    using w1(1,4,6) w2(4) by (simp add: c) (simp add: items_at_def)
  have "items_at w2 (contents (queues w ! j)) = items_at w (contents (queues w ! j))"
    if j: "j < length (queues w)" "j \<noteq> i" for j
  proof -
    have "items_at w1 (contents (queues w ! j)) = items_at w (contents (queues w ! j))"
      using in_queue_not_head [OF Cons.prems c j(1)] j(2) by (intro same) auto
    with w2(7) w1(7) j len show ?thesis by auto
  qed
  with first w1(5,7) w2(1,2,3,5,6) col show ?case by auto
qed

lemma process_from_ok:
  "matrix_ok k n F w \<Longrightarrow> distinct is \<Longrightarrow> set is \<subseteq> {..<length (queues w)} \<Longrightarrow>
   \<exists>w1. process_from is w = yields w1 \<and> matrix_ok k n F w1 \<and> queue_count w1 = queue_count w \<and>
     collected w1 = fold process_item (items_at w (concat (map (\<lambda>i. contents (queues w ! i)) is))) (collected w) \<and>
     (\<forall>i \<in> set is. contents (queues w1 ! i) = []) \<and> (\<forall>j. j \<notin> set is \<longrightarrow> queues w1 ! j = queues w ! j)"
proof (induction "is" arbitrary: w)
  case Nil
  then show ?case by (simp add: items_at_def)
next
  case (Cons i js)
  have i: "i < length (queues w)" using Cons.prems(3) by simp
  from ProcessQueue_ok [OF Cons.prems(1) i] obtain w1 where
    w1: "ProcessQueue i w = yields w1" "matrix_ok k n F w1" "queue_count w1 = queue_count w"
      "collected w1 = fold process_item (items_at w (contents (queues w ! i))) (collected w)"
      "contents (queues w1 ! i) = []" "\<forall>j. j \<noteq> i \<longrightarrow> queues w1 ! j = queues w ! j"
      "\<forall>j < length (queues w). j \<noteq> i \<longrightarrow> items_at w1 (contents (queues w ! j)) = items_at w (contents (queues w ! j))"
    by blast
  have len: "length (queues w1) = length (queues w)"
    using w1(2,3) Cons.prems(1) by (simp add: matrix_ok_def queues_ok_def)
  have "distinct js" "set js \<subseteq> {..<length (queues w1)}" using Cons.prems(2,3) len by auto
  from Cons.IH [OF w1(2) this] obtain w2 where
    w2: "process_from js w1 = yields w2" "matrix_ok k n F w2" "queue_count w2 = queue_count w1"
      "collected w2 = fold process_item (items_at w1 (concat (map (\<lambda>i. contents (queues w1 ! i)) js))) (collected w1)"
      "\<forall>i \<in> set js. contents (queues w2 ! i) = []" "\<forall>j. j \<notin> set js \<longrightarrow> queues w2 ! j = queues w1 ! j"
    by blast
  have one: "items_at w1 (contents (queues w1 ! j)) = items_at w (contents (queues w ! j))" if "j \<in> set js" for j
  proof -
    have "j \<noteq> i" "j < length (queues w)" using that Cons.prems(2,3) by auto
    with w1(6,7) show ?thesis by simp
  qed
  have "items_at w1 (concat (map (\<lambda>i. contents (queues w1 ! i)) js)) = items_at w (concat (map (\<lambda>i. contents (queues w ! i)) js))"
    unfolding items_at_def map_concat map_map comp_def
    by (rule arg_cong [where f = concat], rule map_cong [OF refl], rule one [unfolded items_at_def])
  then have "collected w2 = fold process_item (items_at w (concat (map (\<lambda>i. contents (queues w ! i)) (i # js)))) (collected w)"
    using w1(4) w2(4) by (simp add: items_at_def)
  moreover have "contents (queues w2 ! i) = []" using w1(5) w2(6) Cons.prems(2) by simp
  ultimately show ?case using w1 w2 by auto
qed


section \<open>Behaviour at the edges\<close>

text \<open>Init takes 0 for a power of two: without buckets a mark reads behind the array, without queues the turn divides by zero.\<close>

lemma Init_accepts_zero:
  "GlobalMatrix_Init 0 qb qs now w = Some (0, Some w1) \<Longrightarrow>
     MarkBegin thr nm t w1 = Inl Out_Of_Bounds"
proof -
  assume i: "GlobalMatrix_Init 0 qb qs now w = Some (0, Some w1)"
  have b: "buckets w1 = []"
    using i by (auto simp: GlobalMatrix_Init_def MatrixCollector_new_def MatrixItemMap_new_def split: if_splits option.splits)
  show ?thesis
    by (simp add: MarkBegin_def GenerateToken_def bucket_GenerateToken_def Let_def b split: prod.split)
qed

lemma no_queue_divides_by_zero: "queue_count w = 0 \<Longrightarrow> pause_push_stop_times w \<le> sec \<Longrightarrow> matrix_Set n v sec w = Inl Division_By_Zero"
  by (simp add: sends send_new_def new_item_def SendToCollector_def Send_def GetQueue_def)

text \<open>Destroying a matrix that was not made, and what is left of one that was: its items.\<close>

lemma Destroy_without_Init: "GlobalMatrix_Destroy None = Inl Null_Dereference"
  by (simp add: GlobalMatrix_Destroy_def)

lemma Destroy_leaks:
  "GlobalMatrix_Destroy (Some w) = Inr (w1, r) \<Longrightarrow> objs w1 = objs w \<and> items_held w1 = {#}"
  by (auto simp: GlobalMatrix_Destroy_def items_held_def)

text \<open>The protection against overload: after more than 100 refused pushes nothing is pushed for 29 seconds.\<close>

lemma Send_paused: "sec < pause_push_stop_times w \<Longrightarrow> SendToCollector p sec w = outcome_bind (delete_item p w) (\<lambda>w1. Inr (-1, w1))"
  by (simp add: SendToCollector_def Send_def)

text \<open>
  The first dump after a change of the file's name goes to the FILE that was closed: the FILE opened for it is
  in the inner variable.
\<close>

lemma rotation_breaks_dump:
  assumes "new_name \<noteq> monitor_file_name t" "files t (fp t) \<noteq> None" "fp t \<noteq> next_file t"
    "now - uint (map_start (collected w)) \<ge> 30"
  shows "Run_round new_name True clock now (t, w) = Some (Inl Use_After_Free)"
  using assms by (auto simp: Run_round_def change_file_def fclose_def publish_def fwrite_def Let_def)

lemma second_rotation_closes_twice:
  assumes "new_name \<noteq> monitor_file_name t" "files t (fp t) = None"
  shows "Run_round new_name opened clock now (t, w) = Some (Inl Use_After_Free)"
  using assms by (auto simp: Run_round_def change_file_def fclose_def)

section \<open>Properties\<close>

text \<open>C35. After Init with powers of two that are not 0, any sequence of calls of any threads, among them turns of the
  collecting thread, that is shorter than the size of a queue succeeds, and afterwards every living item is held exactly once, by
  a mark or by a queue: no item is lost, deleted twice or used after its deletion. The bound keeps every ring in its first
  lap: a push behind it writes outside the array of the ring (\<open>ring_second_lap_out_of_bounds\<close>), so nothing can be said
  of longer runs.\<close>

theorem monitor_items_accounted:
  assumes "GlobalMatrix_Init ib qb qs now matrix_none = Some (0, Some w)" "ib \<noteq> 0" "qb \<noteq> 0" "unat qs \<le> 2 ^ 30"
    "length cs < unat qs"
  shows "\<exists>w'. run_calls cs w = Inr w' \<and> items_held w' = mset_set (dom (objs w')) \<and> finite (dom (objs w'))"
proof -
  from Init_ok [OF assms] obtain k where "matrix_ok k (0 + length cs) {#} w" by auto
  from run_calls_ok [OF this] show ?thesis by (auto simp: matrix_ok_def owned_def)
qed

text \<open>C36. A mark measures the time between its begin and its end. As long as no other call ends the same token and fewer calls were
  made since Init than a queue has slots (the first lap of the rings), whatever other threads call before the mark and in between,
  MarkEnd succeeds and puts the item begun under the token behind one of the queues with its name, the time passed and
  the result.\<close>

theorem mark_is_measured:
  assumes "GlobalMatrix_Init ib qb qs now matrix_none = Some (0, Some w)" "ib \<noteq> 0" "qb \<noteq> 0" "unat qs \<le> 2 ^ 30"
    "run_calls cs w = Inr w1" "MarkBegin thr nm t0 w1 = Inr (token, w2)" "token \<noteq> 0"
    "run_calls ds w2 = Inr w3" "list_all (\<lambda>c. \<not> ends token c) ds" "length cs + length ds + 2 < unat qs" "0 \<le> sec"
  shows "\<exists>w4 i p. MarkEnd_result token res t1 sec w3 = Inr (0, w4) \<and> i < length (queues w3) \<and>
     contents (queues w4 ! i) = contents (queues w3 ! i) @ [p] \<and>
     objs w4 p = Some ((MatrixItem_new kTimeDistribute nm (t1 - t0) False)\<lparr>item_result := res\<rparr>)"
proof -
  have "(length ds + 2) + length cs < unat qs" using assms(10) by simp
  from Init_ok [OF assms(1-4) this] obtain k where "matrix_ok k ((length ds + 2) + length cs) {#} w" by blast
  from run_calls_ok [OF this] assms(5) have "matrix_ok k (length ds + 2) {#} w1" by auto
  from GenerateToken_ok [OF this, of thr nm t0] assms(6,7) obtain p where
    p: "matrix_ok k (length ds + 2) {#} w2" "marked token p (MatrixItem_new kTimeDistribute nm t0 False) w2"
    by (auto simp: MarkBegin_def)
  from p(1) have "matrix_ok k (2 + length ds) {#} w2" by (simp add: add.commute)
  from run_calls_ok [OF this] assms(8,9) p(2) have
    m: "matrix_ok k (Suc 1) {#} w3" "marked token p (MatrixItem_new kTimeDistribute nm t0 False) w3"
    by (auto simp: list_all_iff numeral_2_eq_2)
  from MarkEnd_with_ok [OF m(1), of "\<lambda>it. it\<lparr>item_result := res\<rparr>" token t1 sec] obtain r w4 where
    e: "MarkEnd_with (\<lambda>it. it\<lparr>item_result := res\<rparr>) token t1 sec w3 = Inr (r, w4)"
      "marked token p (MatrixItem_new kTimeDistribute nm t0 False) w3 \<longrightarrow> 0 \<le> sec \<longrightarrow>
         r = 0 \<and> objs w4 p = Some ((MatrixItem_new kTimeDistribute nm t0 False)
           \<lparr>val := t1 - val (MatrixItem_new kTimeDistribute nm t0 False), item_result := res\<rparr>) \<and>
         (\<exists>i < length (queues w3). contents (queues w4 ! i) = contents (queues w3 ! i) @ [p])"
    by blast
  with m(2) assms(11) show ?thesis
    by (intro exI [of _ w4]) (auto simp: MarkEnd_result_def MatrixItem_new_def)
qed



text \<open>The properties at a concrete monitor: four buckets, two queues of size 8.\<close>

lemma size_loop_8: "size_loop 1 8 = Some 8"
  by (simp add: size_loop.simps [of 1] size_loop.simps [of 2] size_loop.simps [of 4] size_loop.simps [of 8])

definition example_ring :: "nat ring" where
  "example_ring = ring_new\<lparr>first_init := False, real_queue_size := 7, queue_vec := Some (replicate 7 0)\<rparr>"

definition example_matrix :: matrix where
  "example_matrix = matrix_none\<lparr>bucket_count := 4, buckets := [[], [], [], []], queue_count := 2, queues := [example_ring, example_ring],
     published := StatMap_new 5, queue_push_failed_times := 0, pause_push_stop_times := 0, collected := StatMap_new 5\<rparr>"

lemma Init_example: "GlobalMatrix_Init 4 2 8 5 matrix_none = Some (0, Some example_matrix)"
proof -
  have r: "init 0 8 ring_new = Some (True, example_ring)"
    by (simp add: init_def ring_new_def size_loop_8 example_ring_def)
  have a: "and (4 :: u32) 3 = 0" "and (2 :: u32) 1 = 0" "and (8 :: u32) 7 = 0" by simp_all
  have n: "unat (4 :: u32) = 4" "unat (2 :: u32) = 2" by simp_all
  have "replicate 4 ([] :: (u64 \<times> nat) list) = [[], [], [], []]" "replicate 2 example_ring = [example_ring, example_ring]"
    by (simp_all add: numeral_eq_Suc)
  then show ?thesis
    by (simp add: GlobalMatrix_Init_def MatrixCollector_new_def MatrixItemMap_new_def example_matrix_def r a n)
qed

lemma monitor_items_accounted_witness:
  "\<exists>w'. run_calls [Begin_call 7 ''a'' 100, Set_call ''b'' 3 6, Turn_call 1] example_matrix = Inr w' \<and>
     items_held w' = mset_set (dom (objs w')) \<and> finite (dom (objs w'))"
proof -
  have "length [Begin_call 7 ''a'' 100, Set_call ''b'' 3 6, Turn_call 1] < unat (8 :: u32)" by simp
  from monitor_items_accounted [OF Init_example _ _ _ this] show ?thesis by simp
qed


lemma mark_is_measured_witness:
  "\<exists>token w2 w3 w4 i p. MarkBegin 7 ''a'' 100 example_matrix = Inr (token, w2) \<and> run_calls [Set_call ''b'' 3 6] w2 = Inr w3 \<and>
     MarkEnd_result token ''OK'' 350 6 w3 = Inr (0, w4) \<and>
     contents (queues w4 ! i) = contents (queues w3 ! i) @ [p] \<and>
     objs w4 p = Some ((MatrixItem_new kTimeDistribute ''a'' 250 False)\<lparr>item_result := ''OK''\<rparr>)"
proof -
  have i: "bucket_index (or (push_bit 32 (ucast (7 :: u32))) (ucast (1 :: u32))) example_matrix = 1"
    by code_simp
  have t: "(or (push_bit 32 (ucast (7 :: u32))) (ucast (1 :: u32)) :: u64) \<noteq> 0" by code_simp
  obtain token w2 where b: "MarkBegin 7 ''a'' 100 example_matrix = Inr (token, w2)" "token \<noteq> 0"
    using i t by (simp add: MarkBegin_def GenerateToken_def bucket_GenerateToken_def new_item_def bucket_index_def example_matrix_def
        matrix_none_def Let_def)
  have "3 < unat (8 :: u32)" by simp
  from Init_ok [OF Init_example _ _ _ this] obtain k where "matrix_ok k 3 {#} example_matrix" by auto
  from GenerateToken_ok [OF this, of 7 "''a''" 100] b have "matrix_ok k 3 {#} w2" by (simp add: MarkBegin_def)
  then have "matrix_ok k (2 + length [Set_call ''b'' 3 6]) {#} w2" by simp
  from run_calls_ok [OF this] obtain w3 where r: "run_calls [Set_call ''b'' 3 6] w2 = Inr w3" by blast
  have "length ([] :: monitor_call list) + length [Set_call ''b'' 3 6] + 2 < unat (8 :: u32)" by simp
  from mark_is_measured [OF Init_example _ _ _ _ b r _ this, of 6 "''OK''" 350] obtain w4 i p where
    "MarkEnd_result token ''OK'' 350 6 w3 = Inr (0, w4)" "contents (queues w4 ! i) = contents (queues w3 ! i) @ [p]"
    "objs w4 p = Some ((MatrixItem_new kTimeDistribute ''a'' (350 - 100) False)\<lparr>item_result := ''OK''\<rparr>)"
    by auto
  with b(1) r show ?thesis by auto
qed


end
