(* ===== verification/Application.thy ===== *)
theory Application
  imports Acceptor Client_Start Matrix
begin

text \<open>
  The life of an application: src/src/app/appbase.cpp, with Init, Start, Stop and Wait of service/service\_manager.cpp and
  net\_thread\_mgr/net\_thread\_mgr.cpp. The main thread goes through phases; between two phases a signal may run AppStop,
  as the handler the application installs does. What the system and the callbacks of the application answer is the
  record app_env. A thread is a flag: whether it was told to stop.
\<close>

section \<open>The threads of the network\<close>

record net_manager =
  nm_acceptor :: acceptor
  nm_io :: io_threads
  acceptor_runs :: bool
  io_runs :: bool

definition IoThreads_Init :: "int \<Rightarrow> io_threads" where
  "IoThreads_Init n = \<lparr>drivers = replicate (nat n) InitEventData, io_queues = replicate (nat n) []\<rparr>"

text \<open>The address of the acceptor, the answers for each configured address, and the reserve descriptor.\<close>

definition addresses_of :: "service_config \<Rightarrow> (nat \<Rightarrow> listen_answers) \<Rightarrow> (string \<times> listen_answers) list" where
  "addresses_of conf ans = map (\<lambda>i. (sc_address (server_configs conf ! i), ans i)) [0..<length (server_configs conf)]"

definition NetThreadManager_Init ::
  "service_config \<Rightarrow> u64 \<Rightarrow> (nat \<Rightarrow> listen_answers) \<Rightarrow> int \<Rightarrow> int set \<Rightarrow> (bool \<times> net_manager \<times> int set) outcome" where
  "NetThreadManager_Init conf self ans dev_null S =
     map_sum id (\<lambda>(ok, t, S1). (ok, \<lparr>nm_acceptor = t, nm_io = IoThreads_Init (io_thread_count conf), acceptor_runs = False, io_runs = False\<rparr>, S1))
       (acceptor_Init self (addresses_of conf ans) (AcceptorThread_new dev_null S))"

text \<open>Starting an event thread does not fail.\<close>

definition NetThreadManager_Start :: "net_manager \<Rightarrow> bool \<times> net_manager" where
  "NetThreadManager_Start n = (True, n\<lparr>acceptor_runs := True, io_runs := True\<rparr>)"

definition NetThreadManager_Stop :: "net_manager \<Rightarrow> net_manager" where
  "NetThreadManager_Stop n = n\<lparr>acceptor_runs := False, io_runs := False\<rparr>"

definition NetThreadManager_delete :: "net_manager \<Rightarrow> int set \<Rightarrow> int set" where
  "NetThreadManager_delete n S = AcceptorThread_delete (nm_acceptor n) S"

section \<open>The service manager\<close>

text \<open>\<open>handlers\<close> are the service threads in the order of their ids, each with is\_run.\<close>

record service_manager =
  net_thread_mgr :: "nat option"
  nets :: "nat \<rightharpoonup> net_manager"
  next_net :: nat
  sm_config :: service_config
  handlers :: "(int \<times> bool) list"
  global_matrix :: "matrix option"
  sm_fds :: "int set"

definition ServiceManager_new :: "int set \<Rightarrow> service_manager" where
  "ServiceManager_new S = \<lparr>net_thread_mgr = None, nets = Map.empty, next_net = 0, sm_config = ServiceConfig_new, handlers = [],
     global_matrix = None, sm_fds = S\<rparr>"

record app_env =
  e_argv :: "string list"
  e_disk :: disk
  e_on_start :: int
  e_on_after_start :: int
  e_acceptor :: u64
  e_listen :: "nat \<Rightarrow> listen_answers"
  e_dev_null :: int
  e_now :: int
  e_clients :: start_answers

definition at_net :: "service_manager \<Rightarrow> (nat \<times> net_manager) outcome" where
  "at_net s = (case net_thread_mgr s of
     None \<Rightarrow> Inl Null_Dereference
   | Some p \<Rightarrow> (case nets s p of None \<Rightarrow> Inl Use_After_Free | Some n \<Rightarrow> Inr (p, n)))"

definition ServiceManager_Init :: "app_env \<Rightarrow> service_config \<Rightarrow> service_manager \<Rightarrow> (int \<times> service_manager) run" where
  "ServiceManager_Init env conf s =
     (let p = next_net s; s1 = s\<lparr>net_thread_mgr := Some p, next_net := Suc p\<rparr> in
      case NetThreadManager_Init conf (e_acceptor env) (e_listen env) (e_dev_null env) (sm_fds s) of
        Inl e \<Rightarrow> Some (Inl e)
      | Inr (ok, n, S1) \<Rightarrow>
          if \<not> ok then yields (-1, s1\<lparr>sm_fds := NetThreadManager_delete n S1\<rparr>)
          else (case GlobalMatrix_Init (monitor_token_bucket conf) (monitor_queue_bucket conf) (monitor_queue_size conf) (e_now env) matrix_none of
                  None \<Rightarrow> None
                | Some (r, g) \<Rightarrow>
                    yields (0, s1\<lparr>nets := (nets s)(p \<mapsto> n), sm_fds := S1, sm_config := conf,
                                 global_matrix := (if r = 0 then g else global_matrix s)\<rparr>)))"

definition thread_count :: "service_manager \<Rightarrow> nat" where
  "thread_count s = nat (service_handle_thread_count (sm_config s))"

definition ServiceManager_Start :: "service_manager \<Rightarrow> (int \<times> service_manager) outcome" where
  "ServiceManager_Start s =
     outcome_bind (at_net s) (\<lambda>(p, n).
       case NetThreadManager_Start n of (ok, n1) \<Rightarrow>
         let s1 = s\<lparr>nets := (nets s)(p \<mapsto> n1)\<rparr> in
         if \<not> ok then Inr (-1, s1)
         else Inr (0, s1\<lparr>handlers := handlers s @ map (\<lambda>cn. (int cn, True)) [0..<thread_count s]\<rparr>))"

text \<open>ThreadWait joins the threads by their index; it returns when all of them have ended.\<close>

definition ThreadWait_returns :: "service_manager \<Rightarrow> bool outcome" where
  "ThreadWait_returns s =
     (if thread_count s \<le> length (handlers s) then Inr (list_all (\<lambda>h. \<not> snd h) (take (thread_count s) (handlers s))) else Inl Out_Of_Bounds)"

definition ThreadStop :: "service_manager \<Rightarrow> service_manager outcome" where
  "ThreadStop s =
     (if thread_count s \<le> length (handlers s)
      then Inr (s\<lparr>handlers := map (\<lambda>h. (fst h, False)) (take (thread_count s) (handlers s)) @ drop (thread_count s) (handlers s)\<rparr>)
      else Inl Out_Of_Bounds)"

text \<open>Stop deletes what net\_thread\_mgr\_ points to and leaves the pointer as it is.\<close>

definition ServiceManager_Stop :: "service_manager \<Rightarrow> service_manager outcome" where
  "ServiceManager_Stop s =
     outcome_bind (at_net s) (\<lambda>(p, n).
     outcome_bind (ThreadStop (s\<lparr>nets := (nets s)(p \<mapsto> NetThreadManager_Stop n)\<rparr>)) (\<lambda>s1.
     outcome_bind (GlobalMatrix_Destroy (global_matrix s1)) (\<lambda>_.
       Inr (s1\<lparr>nets := (nets s1)(p := None), sm_fds := NetThreadManager_delete n (sm_fds s1), global_matrix := None\<rparr>))))"

section \<open>The application\<close>

datatype phase = Ph_Load | Ph_OnStart | Ph_Init | Ph_Start | Ph_Clients | Ph_OnAfterStart | Ph_Wait | Ph_Stop | Ph_Returned int

record app =
  phase :: phase
  parser :: cmd_parser
  loaded_config :: "config_info option"
  sm :: service_manager
  groups :: router_maps
  cw :: clients_world
  reconnecting :: bool
  stops :: nat

definition AppBase_new :: "int set \<Rightarrow> clients_world \<Rightarrow> app" where
  "AppBase_new S w = \<lparr>phase = Ph_Load, parser = AppCmdParser_new, loaded_config = None, sm = ServiceManager_new S,
     groups = Map.empty, cw = w, reconnecting = False, stops = 0\<rparr>"

text \<open>Up to and with HandleSignal: from the next phase on signals run AppStop.\<close>

definition load_phase :: "app_env \<Rightarrow> app \<Rightarrow> app" where
  "load_phase env a =
     (case app_ParseCmd (e_argv env) (parser a) of (r, p) \<Rightarrow>
        let a1 = a\<lparr>parser := p\<rparr>; failed = a1\<lparr>phase := Ph_Returned (-1)\<rparr> in
        if r \<noteq> 0 then failed
        else if logger_config p = [] then failed
        else if application_config p = [] then failed
        else (case LoadConfig (application_config p) (e_disk env) ConfigInfo_new of (r2, ci) \<Rightarrow>
                if r2 \<noteq> 0 then failed else a1\<lparr>loaded_config := Some ci, phase := Ph_OnStart\<rparr>))"

definition AppStop :: "app \<Rightarrow> app outcome" where
  "AppStop a =
     (case mgr_Stop (groups a) (cw a) of (g, w) \<Rightarrow>
        map_sum id (\<lambda>s. a\<lparr>groups := g, cw := w, reconnecting := False, sm := s, stops := Suc (stops a)\<rparr>) (ServiceManager_Stop (sm a)))"

text \<open>\<open>if (0 != ...) return -1;\<close>\<close>

definition goes_on :: "int \<Rightarrow> phase \<Rightarrow> app \<Rightarrow> app" where
  "goes_on r next_phase a = a\<lparr>phase := (if r \<noteq> 0 then Ph_Returned (-1) else next_phase)\<rparr>"

definition at_config :: "app \<Rightarrow> config_info outcome" where
  "at_config a = (case loaded_config a of None \<Rightarrow> Inl Null_Dereference | Some ci \<Rightarrow> Inr ci)"

definition main_step :: "app_env \<Rightarrow> app \<Rightarrow> app run" where
  "main_step env a =
     (case phase a of
        Ph_Load \<Rightarrow> yields (load_phase env a)
      | Ph_OnStart \<Rightarrow> yields (goes_on (e_on_start env) Ph_Init a)
      | Ph_Init \<Rightarrow> run_bind (Some (at_config a)) (\<lambda>ci.
          run_bind (ServiceManager_Init env (service_conf ci) (sm a)) (\<lambda>(r, s). yields (goes_on r Ph_Start (a\<lparr>sm := s\<rparr>))))
      | Ph_Start \<Rightarrow> Some (map_sum id (\<lambda>(r, s). goes_on r Ph_Clients (a\<lparr>sm := s\<rparr>)) (ServiceManager_Start (sm a)))
      | Ph_Clients \<Rightarrow> Some (outcome_bind (at_config a) (\<lambda>ci.
          map_sum id (\<lambda>(r, up, g, w). goes_on r Ph_OnAfterStart (a\<lparr>reconnecting := up, groups := g, cw := w\<rparr>))
            (mgr_Start (e_clients env) (client_routers_conf ci) (groups a) (cw a))))
      | Ph_OnAfterStart \<Rightarrow> yields (goes_on (e_on_after_start env) Ph_Wait a)
      | Ph_Wait \<Rightarrow> Some (map_sum id (\<lambda>ended. if ended then a\<lparr>phase := Ph_Stop\<rparr> else a) (ThreadWait_returns (sm a)))
      | Ph_Stop \<Rightarrow> Some (map_sum id (\<lambda>a1. a1\<lparr>phase := Ph_Returned 0\<rparr>) (AppStop a))
      | Ph_Returned r \<Rightarrow> yields a)"

definition handles_signals :: "phase \<Rightarrow> bool" where
  "handles_signals p = (case p of Ph_Load \<Rightarrow> False | Ph_Returned r \<Rightarrow> False | _ \<Rightarrow> True)"

inductive app_reach :: "app_env \<Rightarrow> int set \<Rightarrow> clients_world \<Rightarrow> app outcome \<Rightarrow> bool" for env S w where
  started: "app_reach env S w (Inr (AppBase_new S w))"
| main_goes_on: "app_reach env S w (Inr a) \<Longrightarrow> main_step env a = Some r \<Longrightarrow> app_reach env S w r"
| signal_stops: "app_reach env S w (Inr a) \<Longrightarrow> handles_signals (phase a) \<Longrightarrow> app_reach env S w (AppStop a)"


section \<open>What holds in every phase\<close>

fun stage :: "phase \<Rightarrow> nat" where
  "stage Ph_Load = 0"
| "stage Ph_OnStart = 1"
| "stage Ph_Init = 2"
| "stage Ph_Start = 3"
| "stage Ph_Clients = 4"
| "stage Ph_OnAfterStart = 5"
| "stage Ph_Wait = 6"
| "stage Ph_Stop = 7"
| "stage (Ph_Returned r) = 8"

definition dangling :: "service_manager \<Rightarrow> bool" where
  "dangling s \<longleftrightarrow> (case net_thread_mgr s of None \<Rightarrow> False | Some p \<Rightarrow> nets s p = None)"

definition stop_inv :: "app \<Rightarrow> bool" where
  "stop_inv a \<longleftrightarrow>
     (stage (phase a) \<le> 2 \<longrightarrow> net_thread_mgr (sm a) = None \<and> handlers (sm a) = [] \<and> stops a = 0) \<and>
     (stops a \<noteq> 0 \<longrightarrow> dangling (sm a)) \<and>
     (stops a = 0 \<longrightarrow> list_all snd (handlers (sm a))) \<and>
     (phase a = Ph_Stop \<and> stops a = 0 \<longrightarrow> thread_count (sm a) = 0) \<and>
     (phase a = Ph_Returned 0 \<longrightarrow> thread_count (sm a) = 0)"

lemma dangling_faults: "dangling s \<Longrightarrow> at_net s = Inl Use_After_Free"
  by (auto simp: dangling_def at_net_def split: option.splits)

lemma AppStop_dangling: "dangling (sm a) \<Longrightarrow> AppStop a = Inl Use_After_Free"
  by (simp add: AppStop_def ServiceManager_Stop_def dangling_faults case_prod_beta)

lemma ServiceManager_Stop_dangles:
  assumes "ServiceManager_Stop s = Inr s1"
  shows "\<not> dangling s \<and> net_thread_mgr s \<noteq> None \<and> dangling s1 \<and> sm_config s1 = sm_config s"
proof -
  obtain p n where n: "at_net s = Inr (p, n)" using assms by (auto simp: ServiceManager_Stop_def outcome_bind_Inr_iff)
  obtain s2 where s2: "ThreadStop (s\<lparr>nets := (nets s)(p \<mapsto> NetThreadManager_Stop n)\<rparr>) = Inr s2"
    and s1: "s1 = s2\<lparr>nets := (nets s2)(p := None), sm_fds := NetThreadManager_delete n (sm_fds s2), global_matrix := None\<rparr>"
    using assms n by (auto simp: ServiceManager_Stop_def outcome_bind_Inr_iff)
  have "net_thread_mgr s = Some p" "nets s p = Some n" using n by (auto simp: at_net_def split: option.splits)
  moreover have "net_thread_mgr s2 = net_thread_mgr s" "sm_config s2 = sm_config s" using s2 by (auto simp: ThreadStop_def thread_count_def split: if_splits)
  ultimately show ?thesis by (simp add: dangling_def s1)
qed

lemma AppStop_dangles:
  assumes "AppStop a = Inr a1"
  shows "\<not> dangling (sm a) \<and> net_thread_mgr (sm a) \<noteq> None \<and> dangling (sm a1) \<and> sm_config (sm a1) = sm_config (sm a) \<and>
     phase a1 = phase a \<and> stops a1 = Suc (stops a)"
proof -
  obtain s1 where s1: "ServiceManager_Stop (sm a) = Inr s1" and a1: "sm a1 = s1" "phase a1 = phase a" "stops a1 = Suc (stops a)"
    using assms by (cases "ServiceManager_Stop (sm a)") (auto simp: AppStop_def case_prod_beta)
  from ServiceManager_Stop_dangles [OF s1] a1 show ?thesis by simp
qed

lemma stop_inv_signal: "stop_inv a \<Longrightarrow> handles_signals (phase a) \<Longrightarrow> AppStop a = Inr a1 \<Longrightarrow> stop_inv a1"
  using AppStop_dangles [of a a1] by (auto simp: stop_inv_def handles_signals_def)

lemma ServiceManager_Init_keeps:
  "ServiceManager_Init env conf s = Some (Inr (r, s1)) \<Longrightarrow> handlers s1 = handlers s"
  by (auto simp: ServiceManager_Init_def Let_def split: sum.splits prod.splits if_splits option.splits)

lemma ServiceManager_Start_ends:
  assumes "ServiceManager_Start s = Inr (r, s1)"
  shows "\<not> dangling s \<and> r = 0 \<and> handlers s1 = handlers s @ map (\<lambda>cn. (int cn, True)) [0..<thread_count s] \<and> sm_config s1 = sm_config s"
proof -
  obtain p n where n: "at_net s = Inr (p, n)" using assms by (auto simp: ServiceManager_Start_def outcome_bind_Inr_iff)
  then have "\<not> dangling s" using dangling_faults [of s] by auto
  then show ?thesis using assms n by (auto simp: ServiceManager_Start_def NetThreadManager_Start_def)
qed

lemma stop_inv_goes_on:
  "stop_inv a \<Longrightarrow> 2 < stage p \<Longrightarrow> p \<noteq> Ph_Stop \<Longrightarrow> p \<noteq> Ph_Returned 0 \<Longrightarrow> stop_inv (goes_on r p a)"
  by (auto simp: stop_inv_def goes_on_def)

lemma main_Init:
  assumes "phase a = Ph_Init" "main_step env a = Some (Inr a1)"
  obtains ci r s where "ServiceManager_Init env (service_conf ci) (sm a) = Some (Inr (r, s))" "a1 = goes_on r Ph_Start (a\<lparr>sm := s\<rparr>)"
    "loaded_config a = Some ci"
proof -
  obtain ci where ci: "loaded_config a = Some ci" using assms by (cases "loaded_config a") (auto simp: main_step_def at_config_def)
  obtain x where x: "ServiceManager_Init env (service_conf ci) (sm a) = Some (Inr x)"
    using assms ci by (auto simp: main_step_def at_config_def run_bind_def split: option.splits sum.splits)
  obtain r s where rs: "x = (r, s)" by (cases x)
  have "a1 = goes_on r Ph_Start (a\<lparr>sm := s\<rparr>)" using assms ci x rs by (simp add: main_step_def at_config_def)
  with that ci x rs show ?thesis by blast
qed

lemma main_Clients:
  assumes "phase a = Ph_Clients" "main_step env a = Some (Inr a1)"
  obtains ci r up g w where "loaded_config a = Some ci" "mgr_Start (e_clients env) (client_routers_conf ci) (groups a) (cw a) = Inr (r, up, g, w)"
    "a1 = goes_on r Ph_OnAfterStart (a\<lparr>reconnecting := up, groups := g, cw := w\<rparr>)"
proof -
  obtain ci where ci: "loaded_config a = Some ci" using assms by (cases "loaded_config a") (auto simp: main_step_def at_config_def)
  obtain x where x: "mgr_Start (e_clients env) (client_routers_conf ci) (groups a) (cw a) = Inr x"
    using assms ci by (cases "mgr_Start (e_clients env) (client_routers_conf ci) (groups a) (cw a)") (auto simp: main_step_def at_config_def)
  obtain r up g w where rs: "x = (r, up, g, w)" by (cases x)
  have "a1 = goes_on r Ph_OnAfterStart (a\<lparr>reconnecting := up, groups := g, cw := w\<rparr>)"
    using assms ci x rs by (simp add: main_step_def at_config_def)
  with that ci x rs show ?thesis by blast
qed

lemma stop_inv_main:
  assumes inv: "stop_inv a" and run: "main_step env a = Some (Inr a1)"
  shows "stop_inv a1"
proof (cases "phase a")
  case Ph_Load
  then have "a1 = load_phase env a" using run by (simp add: main_step_def)
  then show ?thesis using inv Ph_Load by (auto simp: load_phase_def Let_def stop_inv_def split: prod.split)
next
  case Ph_OnStart
  then have "a1 = goes_on (e_on_start env) Ph_Init a" using run by (simp add: main_step_def)
  then show ?thesis using inv Ph_OnStart by (auto simp: goes_on_def stop_inv_def)
next
  case Ph_Init
  obtain ci r s where s: "ServiceManager_Init env (service_conf ci) (sm a) = Some (Inr (r, s))" and a1: "a1 = goes_on r Ph_Start (a\<lparr>sm := s\<rparr>)"
    and "loaded_config a = Some ci" by (rule main_Init [OF Ph_Init run])
  have "handlers s = []" "stops a = 0" using ServiceManager_Init_keeps [OF s] inv Ph_Init by (simp_all add: stop_inv_def)
  then show ?thesis by (simp add: a1 goes_on_def stop_inv_def)
next
  case Ph_Start
  then obtain r s where s: "ServiceManager_Start (sm a) = Inr (r, s)" and a1: "a1 = goes_on r Ph_Clients (a\<lparr>sm := s\<rparr>)"
    using run by (cases "ServiceManager_Start (sm a)") (auto simp: main_step_def)
  from ServiceManager_Start_ends [OF s] inv have "stops a = 0" "list_all snd (handlers s)"
    by (auto simp: stop_inv_def list_all_iff)
  then show ?thesis by (simp add: a1 goes_on_def stop_inv_def)
next
  case Ph_Clients
  obtain ci r up g w where "loaded_config a = Some ci" "mgr_Start (e_clients env) (client_routers_conf ci) (groups a) (cw a) = Inr (r, up, g, w)"
      and "a1 = goes_on r Ph_OnAfterStart (a\<lparr>reconnecting := up, groups := g, cw := w\<rparr>)" by (rule main_Clients [OF Ph_Clients run])
  then show ?thesis using inv Ph_Clients by (auto simp: stop_inv_def goes_on_def)
next
  case Ph_OnAfterStart
  then have "a1 = goes_on (e_on_after_start env) Ph_Wait a" using run by (simp add: main_step_def)
  then show ?thesis using inv by (simp add: stop_inv_goes_on)
next
  case Ph_Wait
  obtain ended where e: "ThreadWait_returns (sm a) = Inr ended" and a1: "a1 = (if ended then a\<lparr>phase := Ph_Stop\<rparr> else a)"
    using run Ph_Wait by (cases "ThreadWait_returns (sm a)") (auto simp: main_step_def)
  have "thread_count (sm a) = 0" if "ended" "stops a = 0"
  proof -
    have "list_all snd (handlers (sm a))" using inv that(2) by (simp add: stop_inv_def)
    moreover have "thread_count (sm a) \<le> length (handlers (sm a))" "list_all (\<lambda>h. \<not> snd h) (take (thread_count (sm a)) (handlers (sm a)))"
      using e that(1) by (auto simp: ThreadWait_returns_def split: if_splits)
    ultimately show ?thesis by (cases "thread_count (sm a)"; cases "handlers (sm a)") auto
  qed
  then show ?thesis using inv Ph_Wait by (auto simp: a1 stop_inv_def)
next
  case Ph_Stop
  then obtain a2 where a2: "AppStop a = Inr a2" and a1: "a1 = a2\<lparr>phase := Ph_Returned 0\<rparr>"
    using run by (cases "AppStop a") (auto simp: main_step_def)
  from AppStop_dangles [OF a2] inv Ph_Stop show ?thesis by (auto simp: a1 stop_inv_def thread_count_def)
next
  case (Ph_Returned r)
  then show ?thesis using run inv by (simp add: main_step_def)
qed

lemma app_stop_inv: "app_reach env S w (Inr a) \<Longrightarrow> stop_inv a"
proof (induction "Inr a :: app outcome" arbitrary: a rule: app_reach.induct)
  case started
  then show ?case by (simp add: stop_inv_def AppBase_new_def ServiceManager_new_def)
next
  case (main_goes_on a1)
  then show ?case using stop_inv_main by blast
next
  case (signal_stops a1)
  then show ?case using stop_inv_signal by metis
qed


section \<open>What a started application has\<close>

definition is_pow2_or_0 :: "u32 \<Rightarrow> bool" where
  "is_pow2_or_0 x \<longleftrightarrow> and x (x - 1) = 0"

definition matrix_ready :: "config_info \<Rightarrow> service_manager \<Rightarrow> bool" where
  "matrix_ready ci s \<longleftrightarrow>
     (global_matrix s \<noteq> None) = (is_pow2_or_0 (monitor_token_bucket (service_conf ci)) \<and>
        is_pow2_or_0 (monitor_queue_bucket (service_conf ci)) \<and> is_pow2_or_0 (monitor_queue_size (service_conf ci)))"

definition net_ready :: "bool \<Rightarrow> config_info \<Rightarrow> service_manager \<Rightarrow> bool" where
  "net_ready runs ci s \<longleftrightarrow>
     (\<exists>p n. net_thread_mgr s = Some p \<and> nets s p = Some n \<and> listening_fds (nm_acceptor n) \<noteq> [] \<and>
        length (drivers (nm_io n)) = nat (io_thread_count (service_conf ci)) \<and> acceptor_runs n = runs \<and> io_runs n = runs)"

definition start_inv :: "app_env \<Rightarrow> app \<Rightarrow> bool" where
  "start_inv env a \<longleftrightarrow> stops a = 0 \<longrightarrow>
     (stage (phase a) \<le> 2 \<longrightarrow> handlers (sm a) = [] \<and> global_matrix (sm a) = None) \<and>
     (1 \<le> stage (phase a) \<and> stage (phase a) \<le> 7 \<longrightarrow>
        (\<exists>ci. loaded_config a = Some ci \<and> LoadConfig (application_config (parser a)) (e_disk env) ConfigInfo_new = (0, ci) \<and>
           (3 \<le> stage (phase a) \<longrightarrow> sm_config (sm a) = service_conf ci \<and> matrix_ready ci (sm a) \<and> net_ready (4 \<le> stage (phase a)) ci (sm a) \<and>
              handlers (sm a) = (if 4 \<le> stage (phase a) then map (\<lambda>i. (int i, True)) [0..<nat (service_handle_thread_count (service_conf ci))] else [])) \<and>
           (5 \<le> stage (phase a) \<longrightarrow> rc_name ` set (client_routers_conf ci) \<subseteq> dom (groups a))))"

lemma groups_loop_names:
  "groups_loop ans rcs n g w = Inr (ret, n1, g1, w1) \<Longrightarrow> dom g \<subseteq> dom g1 \<and> (ret = 0 \<longrightarrow> rc_name ` set rcs \<subseteq> dom g1)"
proof (induction rcs arbitrary: n g w)
  case (Cons rc rcs)
  show ?case
  proof (cases "g (rc_name rc)")
    case (Some gr)
    then have "groups_loop ans rcs n g w = Inr (ret, n1, g1, w1)" using Cons.prems by simp
    from Cons.IH [OF this] Some show ?thesis by auto
  next
    case None
    obtain ret1 n2 gr w2 where st: "routers_Start ans (sigle_send_sigle_recv rc) (rc_clients rc) n ClientRouters_new w = Inr (ret1, n2, gr, w2)"
      using Cons.prems None by (cases "routers_Start ans (sigle_send_sigle_recv rc) (rc_clients rc) n ClientRouters_new w") auto
    have more: "(if ret1 \<noteq> 0 then Inr (-1, n2, g, routers_delete gr w2) else groups_loop ans rcs n2 (g(rc_name rc \<mapsto> gr)) w2)
        = Inr (ret, n1, g1, w1)"
      using Cons.prems None st by simp
    show ?thesis
    proof (cases "ret1 = 0")
      case True
      then have "groups_loop ans rcs n2 (g(rc_name rc \<mapsto> gr)) w2 = Inr (ret, n1, g1, w1)" using more by simp
      from Cons.IH [OF this] have "dom (g(rc_name rc \<mapsto> gr)) \<subseteq> dom g1" "ret = 0 \<longrightarrow> rc_name ` set rcs \<subseteq> dom g1" by blast+
      moreover have "dom (g(rc_name rc \<mapsto> gr)) = insert (rc_name rc) (dom g)" by simp
      ultimately show ?thesis by (simp del: dom_fun_upd)
    next
      case False
      with more show ?thesis by auto
    qed
  qed
qed simp

lemma mgr_Start_names: "mgr_Start ans confs g w = Inr (0, up, g1, w1) \<Longrightarrow> rc_name ` set confs \<subseteq> dom g1"
proof (cases "confs = []")
  case False
  assume "mgr_Start ans confs g w = Inr (0, up, g1, w1)"
  then obtain n where "groups_loop ans confs 0 g w = Inr (0, n, g1, w1)"
    using False by (cases "groups_loop ans confs 0 g w") (auto simp: mgr_Start_def)
  from groups_loop_names [OF this] show ?thesis by simp
qed simp

lemma GlobalMatrix_Init_result:
  assumes "GlobalMatrix_Init ib qb qs now w = Some (r, g)"
  shows "(r = 0 \<longrightarrow> g \<noteq> None) \<and> (r = 0 \<longleftrightarrow> is_pow2_or_0 ib \<and> is_pow2_or_0 qb \<and> is_pow2_or_0 qs)"
proof (cases "MatrixCollector_new qb qs now (MatrixItemMap_new ib w)")
  case None
  then show ?thesis using assms by (auto simp: GlobalMatrix_Init_def is_pow2_or_0_def None split: if_splits)
next
  case (Some w1)
  show ?thesis using assms by (auto simp: GlobalMatrix_Init_def is_pow2_or_0_def Some split: if_splits)
qed

lemma NetThreadManager_Init_ready:
  assumes "NetThreadManager_Init conf self ans dev S = Inr (True, n, S1)"
  shows "listening_fds (nm_acceptor n) \<noteq> [] \<and> length (drivers (nm_io n)) = nat (io_thread_count conf) \<and> \<not> acceptor_runs n \<and> \<not> io_runs n"
proof -
  obtain ok t S2 where run: "acceptor_Init self (addresses_of conf ans) (AcceptorThread_new dev S) = Inr (ok, t, S2)"
    using assms by (cases "acceptor_Init self (addresses_of conf ans) (AcceptorThread_new dev S)") (auto simp: NetThreadManager_Init_def)
  have ok: "ok" and n: "n = \<lparr>nm_acceptor = t, nm_io = IoThreads_Init (io_thread_count conf), acceptor_runs = False, io_runs = False\<rparr>"
    using assms run by (simp_all add: NetThreadManager_Init_def)
  have "listened_fd_list t \<noteq> []"
    using run ok by (cases "listen_loop self (addresses_of conf ans) (AcceptorThread_new dev S)") (auto simp: acceptor_Init_def)
  then show ?thesis by (simp add: n IoThreads_Init_def listening_fds_def)
qed

lemma ServiceManager_Init_ready:
  assumes "ServiceManager_Init env conf s = Some (Inr (0, s1))" "conf = service_conf ci" "handlers s = []" "global_matrix s = None"
  shows "sm_config s1 = conf \<and> matrix_ready ci s1 \<and> net_ready False ci s1 \<and> handlers s1 = []"
proof -
  obtain ok n S1 where net: "NetThreadManager_Init conf (e_acceptor env) (e_listen env) (e_dev_null env) (sm_fds s) = Inr (ok, n, S1)"
    using assms(1) by (auto simp: ServiceManager_Init_def Let_def split: sum.splits)
  then have ok: ok using assms(1) by (auto simp: ServiceManager_Init_def Let_def split: if_splits)
  obtain r g where m: "GlobalMatrix_Init (monitor_token_bucket conf) (monitor_queue_bucket conf) (monitor_queue_size conf) (e_now env) matrix_none = Some (r, g)"
    using assms(1) net ok by (auto simp: ServiceManager_Init_def Let_def split: option.splits)
  have s1: "s1 = s\<lparr>net_thread_mgr := Some (next_net s), next_net := Suc (next_net s), nets := (nets s)(next_net s \<mapsto> n), sm_fds := S1,
      sm_config := conf, global_matrix := (if r = 0 then g else global_matrix s)\<rparr>"
    using assms(1) net ok m by (simp add: ServiceManager_Init_def Let_def)
  have "matrix_ready ci s1" using GlobalMatrix_Init_result [OF m] assms(2,4) by (simp add: matrix_ready_def s1)
  moreover have "net_ready False ci s1" using NetThreadManager_Init_ready [of conf] net ok assms(2) by (auto simp: net_ready_def s1)
  ultimately show ?thesis using assms(3) by (simp add: s1)
qed

lemma ServiceManager_Start_ready:
  assumes "ServiceManager_Start s = Inr (r, s1)" "net_ready False ci s"
  shows "net_ready True ci s1 \<and> global_matrix s1 = global_matrix s"
proof -
  obtain p n where n: "net_thread_mgr s = Some p" "nets s p = Some n" "listening_fds (nm_acceptor n) \<noteq> []"
    "length (drivers (nm_io n)) = nat (io_thread_count (service_conf ci))" using assms(2) unfolding net_ready_def by blast
  then have "at_net s = Inr (p, n)" by (simp add: at_net_def)
  then have "s1 = s\<lparr>nets := (nets s)(p \<mapsto> n\<lparr>acceptor_runs := True, io_runs := True\<rparr>),
      handlers := handlers s @ map (\<lambda>cn. (int cn, True)) [0..<thread_count s]\<rparr>"
    using assms(1) by (simp add: ServiceManager_Start_def NetThreadManager_Start_def Let_def)
  then show ?thesis using n by (simp add: net_ready_def)
qed


lemma start_inv_main:
  assumes stop: "stop_inv a" and inv: "start_inv env a" and run: "main_step env a = Some (Inr a1)"
  shows "start_inv env a1"
proof (cases "stops a = 0")
  case False
  then have dang: "dangling (sm a)" and late: "2 < stage (phase a)" using stop by (auto simp: stop_inv_def)
  have "stops a1 \<noteq> 0"
  proof (cases "phase a")
    case Ph_Clients
    obtain ci r up g w where "loaded_config a = Some ci" "mgr_Start (e_clients env) (client_routers_conf ci) (groups a) (cw a) = Inr (r, up, g, w)"
      "a1 = goes_on r Ph_OnAfterStart (a\<lparr>reconnecting := up, groups := g, cw := w\<rparr>)" by (rule main_Clients [OF Ph_Clients run])
    then show ?thesis using False by (simp add: goes_on_def)
  next
    case Ph_Wait
    obtain ended where "a1 = (if ended then a\<lparr>phase := Ph_Stop\<rparr> else a)"
      using run Ph_Wait by (cases "ThreadWait_returns (sm a)") (auto simp: main_step_def)
    then show ?thesis using False by simp
  next
    case Ph_Start
    then show ?thesis using run dangling_faults [OF dang] by (simp add: main_step_def ServiceManager_Start_def)
  next
    case Ph_Stop
    then show ?thesis using run AppStop_dangling [of a, OF dang] by (simp add: main_step_def)
  next
    case Ph_OnAfterStart
    then have "a1 = goes_on (e_on_after_start env) Ph_Wait a" using run by (simp add: main_step_def)
    then show ?thesis using False by (simp add: goes_on_def)
  next
    case (Ph_Returned r)
    then show ?thesis using run False by (simp add: main_step_def)
  qed (use late in simp_all)
  then show ?thesis by (simp add: start_inv_def)
next
  case st: True
  show ?thesis
  proof (cases "phase a")
    case Ph_Load
    then have "a1 = load_phase env a" using run by (simp add: main_step_def)
    then show ?thesis using inv Ph_Load st by (auto simp: load_phase_def Let_def start_inv_def split: prod.split)
  next
    case Ph_OnStart
    then have "a1 = goes_on (e_on_start env) Ph_Init a" using run by (simp add: main_step_def)
    then show ?thesis using inv Ph_OnStart st by (auto simp: goes_on_def start_inv_def)
  next
    case Ph_Init
    obtain ci r s where s: "ServiceManager_Init env (service_conf ci) (sm a) = Some (Inr (r, s))" and a1: "a1 = goes_on r Ph_Start (a\<lparr>sm := s\<rparr>)"
      and ci: "loaded_config a = Some ci" by (rule main_Init [OF Ph_Init run])
    show ?thesis
    proof (cases "r = 0")
      case False
      then show ?thesis by (simp add: a1 goes_on_def start_inv_def)
    next
      case True
      have h: "handlers (sm a) = []" "global_matrix (sm a) = None"
        "LoadConfig (application_config (parser a)) (e_disk env) ConfigInfo_new = (0, ci)" using inv Ph_Init st ci by (auto simp: start_inv_def)
      from ServiceManager_Init_ready [OF s [unfolded True] refl h(1,2)] h(3) ci show ?thesis
        by (simp add: a1 True goes_on_def start_inv_def)
    qed
  next
    case Ph_Start
    then obtain r s where s: "ServiceManager_Start (sm a) = Inr (r, s)" and a1: "a1 = goes_on r Ph_Clients (a\<lparr>sm := s\<rparr>)"
      using run by (cases "ServiceManager_Start (sm a)") (auto simp: main_step_def)
    obtain ci where ci: "loaded_config a = Some ci" "LoadConfig (application_config (parser a)) (e_disk env) ConfigInfo_new = (0, ci)"
      "sm_config (sm a) = service_conf ci" "matrix_ready ci (sm a)" "net_ready False ci (sm a)" "handlers (sm a) = []"
      using inv Ph_Start st by (auto simp: start_inv_def)
    have "r = 0" "handlers s = map (\<lambda>i. (int i, True)) [0..<nat (service_handle_thread_count (service_conf ci))]"
      "sm_config s = service_conf ci" "net_ready True ci s" "matrix_ready ci s"
      using ServiceManager_Start_ends [OF s] ServiceManager_Start_ready [OF s ci(5)] ci by (simp_all add: thread_count_def matrix_ready_def)
    then show ?thesis using ci(1,2) by (simp add: a1 goes_on_def start_inv_def)
  next
    case Ph_Clients
    obtain ci where ci: "loaded_config a = Some ci" using inv Ph_Clients st by (auto simp: start_inv_def)
    obtain r up g w where m: "mgr_Start (e_clients env) (client_routers_conf ci) (groups a) (cw a) = Inr (r, up, g, w)"
      and a1: "a1 = goes_on r Ph_OnAfterStart (a\<lparr>reconnecting := up, groups := g, cw := w\<rparr>)"
      using run Ph_Clients ci by (cases "mgr_Start (e_clients env) (client_routers_conf ci) (groups a) (cw a)") (auto simp: main_step_def at_config_def)
    show ?thesis
    proof (cases "r = 0")
      case False
      then show ?thesis by (simp add: a1 goes_on_def start_inv_def)
    next
      case True
      from mgr_Start_names [OF m [unfolded True]] inv Ph_Clients st ci show ?thesis
        by (simp add: a1 True goes_on_def start_inv_def)
    qed
  next
    case Ph_OnAfterStart
    then have "a1 = goes_on (e_on_after_start env) Ph_Wait a" using run by (simp add: main_step_def)
    then show ?thesis using inv Ph_OnAfterStart st by (auto simp: goes_on_def start_inv_def)
  next
    case Ph_Wait
    obtain ended where "a1 = (if ended then a\<lparr>phase := Ph_Stop\<rparr> else a)"
      using run Ph_Wait by (cases "ThreadWait_returns (sm a)") (auto simp: main_step_def)
    then show ?thesis using inv Ph_Wait st by (auto simp: start_inv_def)
  next
    case Ph_Stop
    then obtain a2 where "a1 = a2\<lparr>phase := Ph_Returned 0\<rparr>"
      using run by (cases "AppStop a") (auto simp: main_step_def)
    then show ?thesis by (simp add: start_inv_def)
  next
    case (Ph_Returned r)
    then show ?thesis using run inv by (simp add: main_step_def)
  qed
qed

lemma app_start_inv: "app_reach env S w (Inr a) \<Longrightarrow> start_inv env a"
proof (induction "Inr a :: app outcome" arbitrary: a rule: app_reach.induct)
  case started
  then show ?case by (simp add: start_inv_def AppBase_new_def ServiceManager_new_def)
next
  case (main_goes_on a1)
  then show ?case using start_inv_main app_stop_inv by blast
next
  case (signal_stops a1)
  have "stops a = Suc (stops a1)" using AppStop_dangles signal_stops by metis
  then show ?case by (simp add: start_inv_def)
qed


section \<open>Properties\<close>

text \<open>While the main thread waits and nothing has stopped the application, everything it started runs: the configuration
  is the one of its file, the acceptor listens on at least one address, as many I/O threads and service threads run as
  configured, the service threads with the ids from 0, every configured name has its group of clients, and the monitor
  exists exactly if its three sizes are powers of two.\<close>

lemma started_application_runs:
  assumes "app_reach env S w (Inr a)" "phase a = Ph_Wait" "stops a = 0"
  shows "\<exists>ci p n. LoadConfig (application_config (parser a)) (e_disk env) ConfigInfo_new = (0, ci) \<and>
     net_thread_mgr (sm a) = Some p \<and> nets (sm a) p = Some n \<and> acceptor_runs n \<and> io_runs n \<and> listening_fds (nm_acceptor n) \<noteq> [] \<and>
     length (drivers (nm_io n)) = nat (io_thread_count (service_conf ci)) \<and>
     handlers (sm a) = map (\<lambda>i. (int i, True)) [0..<nat (service_handle_thread_count (service_conf ci))] \<and>
     rc_name ` set (client_routers_conf ci) \<subseteq> dom (groups a) \<and>
     (global_matrix (sm a) \<noteq> None) = (is_pow2_or_0 (monitor_token_bucket (service_conf ci)) \<and>
        is_pow2_or_0 (monitor_queue_bucket (service_conf ci)) \<and> is_pow2_or_0 (monitor_queue_size (service_conf ci)))"
proof -
  obtain ci where ci: "LoadConfig (application_config (parser a)) (e_disk env) ConfigInfo_new = (0, ci)" "matrix_ready ci (sm a)"
    "net_ready True ci (sm a)" "handlers (sm a) = map (\<lambda>i. (int i, True)) [0..<nat (service_handle_thread_count (service_conf ci))]"
    "rc_name ` set (client_routers_conf ci) \<subseteq> dom (groups a)"
    using app_start_inv [OF assms(1)] assms(2,3) by (auto simp: start_inv_def)
  obtain p n where "net_thread_mgr (sm a) = Some p" "nets (sm a) p = Some n" "listening_fds (nm_acceptor n) \<noteq> []"
    "length (drivers (nm_io n)) = nat (io_thread_count (service_conf ci))" "acceptor_runs n" "io_runs n"
    using ci(3) unfolding net_ready_def by blast
  with ci show ?thesis unfolding matrix_ready_def by blast
qed

text \<open>An application that has service threads never ends as AppRun means to: its threads end only after a signal has
  run AppStop, which deletes the threads of the network but keeps the pointer to them, and AppStop, which AppRun runs again
  behind the wait, as any further signal does, uses the deleted object. AppRun returns 0 only without service threads.\<close>

lemma second_stop_faults:
  assumes "app_reach env S w (Inr a)"
  shows "(stops a \<noteq> 0 \<longrightarrow> AppStop a = Inl Use_After_Free) \<and>
     (phase a = Ph_Stop \<and> service_handle_thread_count (sm_config (sm a)) > 0 \<longrightarrow> main_step env a = Some (Inl Use_After_Free)) \<and>
     (phase a = Ph_Returned 0 \<longrightarrow> service_handle_thread_count (sm_config (sm a)) \<le> 0)"
proof -
  have inv: "stop_inv a" by (rule app_stop_inv [OF assms])
  have one: "AppStop a = Inl Use_After_Free" if "stops a \<noteq> 0" using inv that by (intro AppStop_dangling) (simp add: stop_inv_def)
  moreover have "main_step env a = Some (Inl Use_After_Free)"
    if "phase a = Ph_Stop" "service_handle_thread_count (sm_config (sm a)) > 0"
  proof -
    have "stops a \<noteq> 0" using inv that by (auto simp: stop_inv_def thread_count_def)
    with one that(1) show ?thesis by (simp add: main_step_def)
  qed
  moreover have "service_handle_thread_count (sm_config (sm a)) \<le> 0" if "phase a = Ph_Returned 0"
    using inv that by (simp add: stop_inv_def thread_count_def)
  ultimately show ?thesis by blast
qed

text \<open>An application with one address, one service thread, no clients and a monitor; its configuration file.\<close>

definition example_file :: string where
  "example_file = concat (map (\<lambda>l. l @ [CHR 0x0A])
     [''[io_service]'', ''service_handle_thread_count=1'', ''monitor_token_bucket=4'', ''monitor_queue_bucket=2'', ''monitor_queue_size=8'',
      ''[service0]'', ''address=rapid://127.0.0.1:80''])"

definition example_env :: app_env where
  "example_env = \<lparr>e_argv = [''app'', ''-c'', ''c'', ''-l'', ''l''], e_disk = [''c'' \<mapsto> example_file], e_on_start = 0, e_on_after_start = 0,
     e_acceptor = 17, e_listen = (\<lambda>_. example_listen 5 0), e_dev_null = 3, e_now = 5, e_clients = example_answers\<rparr>"

definition example_config :: config_info where
  "example_config = \<lparr>service_conf = \<lparr>io_thread_count = 2, service_handle_thread_count = 1, service_count = 1,
     server_configs = [\<lparr>sc_address = ''rapid://127.0.0.1:80'', sc_name = []\<rparr>], router_file = [], coroutine_size = 512,
     monitor_file_name = [], monitor_token_bucket = 4, monitor_queue_bucket = 2, monitor_queue_size = 8\<rparr>, client_routers_conf = []\<rparr>"

lemma example_loaded:
  "load_phase example_env (AppBase_new {1} no_clients) = (AppBase_new {1} no_clients)
     \<lparr>parser := \<lparr>help_mode = False, daemon_mode = False, logger_config = ''l'', application_config = ''c''\<rparr>,
      loaded_config := Some example_config, phase := Ph_OnStart\<rparr>"
proof -
  have "app_ParseCmd (e_argv example_env) AppCmdParser_new =
     (0, \<lparr>help_mode = False, daemon_mode = False, logger_config = ''l'', application_config = ''c''\<rparr>)" by code_simp
  moreover have "LoadConfig ''c'' (e_disk example_env) ConfigInfo_new = (0, example_config)" by code_simp
  ultimately show ?thesis by (simp add: load_phase_def AppBase_new_def)
qed

lemma example_waits:
  "\<exists>a. app_reach example_env {1} no_clients (Inr a) \<and> phase a = Ph_Wait \<and> stops a = 0 \<and> groups a = Map.empty \<and>
     sm_config (sm a) = service_conf example_config"
proof -
  define a0 where "a0 = AppBase_new {1} no_clients"
  have r0: "app_reach example_env {1} no_clients (Inr a0)" unfolding a0_def by (rule started)
  define a1 where "a1 = load_phase example_env a0"
  have a1: "phase a1 = Ph_OnStart" "loaded_config a1 = Some example_config" "sm a1 = ServiceManager_new {1}" "groups a1 = Map.empty" "stops a1 = 0"
    unfolding a1_def a0_def example_loaded by (simp_all add: AppBase_new_def)
  have "main_step example_env a0 = Some (Inr a1)" by (simp add: main_step_def a0_def a1_def AppBase_new_def)
  with r0 have r1: "app_reach example_env {1} no_clients (Inr a1)" by (rule main_goes_on)
  define a2 where "a2 = a1\<lparr>phase := Ph_Init\<rparr>"
  have "main_step example_env a1 = Some (Inr a2)" by (simp add: main_step_def a1 a2_def goes_on_def example_env_def)
  with r1 have r2: "app_reach example_env {1} no_clients (Inr a2)" by (rule main_goes_on)
  obtain d where d: "listen_at 17 (''rapid://127.0.0.1:80'', example_listen 5 0) (AcceptorThread_new 3 {1}) =
     Inr (\<lparr>listened_fd_list = [(5, uint kRapidMessage, 80)], acceptor_driver = d, idle_fd = 3\<rparr>, {5, 3, 1})" using example_listens by blast
  have addrs: "addresses_of (service_conf example_config) (e_listen example_env) = [(''rapid://127.0.0.1:80'', example_listen 5 0)]"
    by (simp add: addresses_of_def example_config_def example_env_def)
  obtain n where n: "NetThreadManager_Init (service_conf example_config) 17 (e_listen example_env) 3 {1} = Inr (True, n, {5, 3, 1})"
    using d by (simp add: NetThreadManager_Init_def addrs acceptor_Init_def)
  define s where "s = (ServiceManager_new {1})\<lparr>net_thread_mgr := Some 0, next_net := Suc 0, nets := [0 \<mapsto> n], sm_fds := {5, 3, 1},
    sm_config := service_conf example_config, global_matrix := Some example_matrix\<rparr>"
  have "ServiceManager_Init example_env (service_conf example_config) (ServiceManager_new {1}) = Some (Inr (0, s))"
    using n Init_example by (simp add: ServiceManager_Init_def Let_def s_def ServiceManager_new_def example_env_def example_config_def)
  then have "main_step example_env a2 = Some (Inr (a2\<lparr>sm := s, phase := Ph_Start\<rparr>))"
    by (simp add: main_step_def a2_def a1 at_config_def goes_on_def)
  with r2 have r3: "app_reach example_env {1} no_clients (Inr (a2\<lparr>sm := s, phase := Ph_Start\<rparr>))" by (rule main_goes_on)
  obtain s1 where s1: "ServiceManager_Start s = Inr (0, s1)" "sm_config s1 = service_conf example_config"
    by (simp add: ServiceManager_Start_def at_net_def s_def ServiceManager_new_def NetThreadManager_Start_def Let_def)
  then have "main_step example_env (a2\<lparr>sm := s, phase := Ph_Start\<rparr>) = Some (Inr (a2\<lparr>sm := s1, phase := Ph_Clients\<rparr>))"
    by (simp add: main_step_def goes_on_def)
  with r3 have r4: "app_reach example_env {1} no_clients (Inr (a2\<lparr>sm := s1, phase := Ph_Clients\<rparr>))" by (rule main_goes_on)
  have conf: "client_routers_conf example_config = []" by (simp add: example_config_def)
  have "main_step example_env (a2\<lparr>sm := s1, phase := Ph_Clients\<rparr>) = Some (Inr (a2\<lparr>sm := s1, phase := Ph_OnAfterStart, reconnecting := False\<rparr>))"
    by (simp add: main_step_def a2_def a1 at_config_def conf mgr_Start_def goes_on_def)
  with r4 have r5: "app_reach example_env {1} no_clients (Inr (a2\<lparr>sm := s1, phase := Ph_OnAfterStart, reconnecting := False\<rparr>))" by (rule main_goes_on)
  have "main_step example_env (a2\<lparr>sm := s1, phase := Ph_OnAfterStart, reconnecting := False\<rparr>) =
     Some (Inr (a2\<lparr>sm := s1, phase := Ph_Wait, reconnecting := False\<rparr>))"
    by (simp add: main_step_def goes_on_def example_env_def)
  with r5 have "app_reach example_env {1} no_clients (Inr (a2\<lparr>sm := s1, phase := Ph_Wait, reconnecting := False\<rparr>))" by (rule main_goes_on)
  then show ?thesis using s1(2) a1
    by (intro exI [of _ "a2\<lparr>sm := s1, phase := Ph_Wait, reconnecting := False\<rparr>"]) (simp add: a2_def)
qed

lemma started_application_runs_witness:
  "\<exists>a p n. app_reach example_env {1} no_clients (Inr a) \<and> net_thread_mgr (sm a) = Some p \<and> nets (sm a) p = Some n \<and>
     acceptor_runs n \<and> io_runs n \<and> listening_fds (nm_acceptor n) \<noteq> [] \<and> phase a = Ph_Wait"
proof -
  obtain a where a: "app_reach example_env {1} no_clients (Inr a)" "phase a = Ph_Wait" "stops a = 0" using example_waits by blast
  from started_application_runs [OF a] a show ?thesis by blast
qed

section \<open>Edges\<close>

text \<open>Signals are handled from before the service manager is set up: one that comes then dereferences a null pointer.\<close>

lemma early_signal_faults: "net_thread_mgr (sm a) = None \<Longrightarrow> AppStop a = Inl Null_Dereference"
  by (simp add: AppStop_def ServiceManager_Stop_def at_net_def case_prod_beta)

text \<open>One that comes between Init and Start of the service manager stops threads that do not exist yet.\<close>

lemma signal_before_start_faults:
  "net_thread_mgr (sm a) = Some p \<Longrightarrow> nets (sm a) p = Some n \<Longrightarrow> handlers (sm a) = [] \<Longrightarrow> 0 < thread_count (sm a) \<Longrightarrow>
     AppStop a = Inl Out_Of_Bounds"
  by (simp add: AppStop_def ServiceManager_Stop_def at_net_def case_prod_beta ThreadStop_def thread_count_def)

text \<open>The result of GlobalMatrix::Init is not tested: without a monitor the application starts, and stopping it faults.\<close>

lemma stop_without_monitor_faults:
  "net_thread_mgr (sm a) = Some p \<Longrightarrow> nets (sm a) p = Some n \<Longrightarrow> thread_count (sm a) \<le> length (handlers (sm a)) \<Longrightarrow>
     global_matrix (sm a) = None \<Longrightarrow> AppStop a = Inl Null_Dereference"
  by (simp add: AppStop_def ServiceManager_Stop_def at_net_def case_prod_beta ThreadStop_def thread_count_def GlobalMatrix_Destroy_def)

end
