(* ===== verification/Async_Client.thy ===== *)
theory Async_Client
  imports Client_Connect
begin

text \<open>
  The client of an asynchronous protocol: src/src/net/async\_sequence.cpp, async\_client\_connect.cpp and the
  handling of outgoing messages in net\_thread\_mgr/io\_thread\_data\_run.cpp. Everything here runs in the
  I/O thread the connection is registered with.

  Messages are objects at addresses: \<open>store\<close> holds those the I/O thread owns. Handing one to a service
  thread or destroying it takes it out of the store, and touching it afterwards is the fault
  Use\_After\_Free. A timer's function\_data points at the sequence\_id of a message, that is at the message. The
  timers are those of this connection in the thread's heap.
\<close>

section \<open>State\<close>

record async_world =
  con :: "unit client_connect"
  registery :: "u64 \<rightharpoonup> nat"
  seq_list :: "nat list"
  seq_timers :: "(unit, nat) timer"
  io_threads :: nat
  store :: "nat \<rightharpoonup> message"
  service_queues :: "message list list"
  id_hs :: u32
  reconnect :: reconnect_thread

definition deref :: "nat \<Rightarrow> async_world \<Rightarrow> message run" where
  "deref a w = (case store w a of None \<Rightarrow> Some (Inl Use_After_Free) | Some m \<Rightarrow> yields m)"

definition free_message :: "nat \<Rightarrow> async_world \<Rightarrow> async_world" where
  "free_message a w = w\<lparr>store := (store w)(a := None)\<rparr>"

definition to_service :: "message \<Rightarrow> async_world \<Rightarrow> async_world run" where
  "to_service m w =
     Some (map_sum id (\<lambda>(i, q). w\<lparr>id_hs := i, service_queues := q\<rparr>) (SendToServiceHandle m (id_hs w) (service_queues w)))"

section \<open>The sequence of waiting requests\<close>

text \<open>IoThreads::StartTimer and CancelTimer do nothing for a thread that does not exist.\<close>

definition thread_ok :: "async_world \<Rightarrow> bool" where
  "thread_ok w \<longleftrightarrow> \<not> (register_thread_id (con w) < 0 \<or> register_thread_id (con w) \<ge> int (io_threads w))"

definition seq_timer_data :: "nat \<Rightarrow> async_world \<Rightarrow> (unit, nat) timer_data" where
  "seq_timer_data dat w = \<lparr>time_out_ms = ucast (timeout_ms (con w)), time_proc = Some (), function_data = dat, coro_id = -1\<rparr>"

definition seq_StartTimer :: "u64 \<Rightarrow> nat \<Rightarrow> async_world \<Rightarrow> u64 \<times> async_world" where
  "seq_StartTimer now dat w =
     (if thread_ok w
      then (case AddTimer now (ucast (timeout_ms (con w))) (seq_timer_data dat w) (seq_timers w) of
              (i, h) \<Rightarrow> (word_of_nat i, w\<lparr>seq_timers := h\<rparr>))
      else (0, w))"

definition seq_CancelTimer :: "u64 \<Rightarrow> async_world \<Rightarrow> async_world run" where
  "seq_CancelTimer timer_id w =
     (if timer_id > 0 \<and> register_thread_id (con w) \<ge> 0 \<and> thread_ok w
      then map_option (\<lambda>(_, h). Inr (w\<lparr>seq_timers := h\<rparr>)) (DelTimer (unat timer_id) (seq_timers w))
      else yields w)"

definition seq_Put :: "u64 \<Rightarrow> nat \<Rightarrow> async_world \<Rightarrow> (int \<times> async_world) run" where
  "seq_Put now a w =
     run_bind (deref a w) (\<lambda>m.
       if registery w (sequence_id m) \<noteq> None then yields (-1, w)
       else (case seq_StartTimer now a (w\<lparr>registery := (registery w)(sequence_id m \<mapsto> a)\<rparr>) of
               (i, w1) \<Rightarrow> yields (0, w1\<lparr>store := (store w1)(a \<mapsto> m\<lparr>timer_out_id := i\<rparr>), seq_list := seq_list w1 @ [a]\<rparr>)))"

definition seq_Get :: "u64 \<Rightarrow> async_world \<Rightarrow> (nat option \<times> async_world) run" where
  "seq_Get sid w =
     (case registery w sid of
        None \<Rightarrow> yields (None, w)
      | Some a \<Rightarrow>
          let w1 = w\<lparr>registery := (registery w)(sid := None)\<rparr>
          in run_bind (deref a w1) (\<lambda>m.
             run_bind (seq_CancelTimer (timer_out_id m) w1) (\<lambda>w2.
               yields (Some a, w2\<lparr>seq_list := removeAll a (seq_list w2)\<rparr>))))"

definition seq_Clear :: "async_world \<Rightarrow> nat list \<times> async_world" where
  "seq_Clear w = (seq_list w, w\<lparr>seq_list := [], registery := Map.empty\<rparr>)"

section \<open>Answers and closing\<close>

definition send_back :: "nat \<Rightarrow> u8 \<Rightarrow> async_world \<Rightarrow> async_world run" where
  "send_back a st w =
     run_bind (deref a w) (\<lambda>m.
       map_option (map_sum id (\<lambda>(i, q). (free_message a w)\<lparr>id_hs := i, service_queues := q\<rparr>))
         (Some (DoSendBack m st (id_hs w) (service_queues w))))"

fun send_back_all :: "nat list \<Rightarrow> async_world \<Rightarrow> async_world run" where
  "send_back_all [] w = yields w"
| "send_back_all (a # as) w =
     run_bind (deref a w) (\<lambda>m.
     run_bind (if timer_out_id m > 0 then seq_CancelTimer (timer_out_id m) w else yields w) (\<lambda>w1.
     run_bind (send_back a kInternalFailure w1) (\<lambda>w2. send_back_all as w2)))"

definition CleanSequenceQueue :: "async_world \<Rightarrow> async_world run" where
  "CleanSequenceQueue w = (case seq_Clear w of (clear_list, w1) \<Rightarrow> send_back_all clear_list w1)"

text \<open>ClientConnect::OnClose; the registration with the event driver is not part of this state.\<close>

definition async_OnClose :: "u64 \<Rightarrow> nat \<Rightarrow> async_world \<Rightarrow> async_world run" where
  "async_OnClose now self w =
     run_bind (CleanSequenceQueue w) (\<lambda>w1.
       case CancelTimer (con w1) (reconnect w1) of
         None \<Rightarrow> None
       | Some (c, r) \<Rightarrow>
           (case StartReconnectTimer now self (CleanClient c) r of (_, c', r') \<Rightarrow> yields (w1\<lparr>con := c', reconnect := r'\<rparr>)))"

definition OnTimeout :: "u64 \<Rightarrow> nat \<Rightarrow> nat \<Rightarrow> async_world \<Rightarrow> async_world run" where
  "OnTimeout now self a w =
     run_bind (deref a w) (\<lambda>m.
     run_bind (if type_id m = kHeartBeatMessage then async_OnClose now self w else yields w) (send_back a kStatusTimeout))"

definition seq_OnTimer :: "u64 \<Rightarrow> nat \<Rightarrow> nat \<Rightarrow> async_world \<Rightarrow> async_world run" where
  "seq_OnTimer now self dat w =
     run_bind (deref dat w) (\<lambda>m.
     run_bind (seq_Get (sequence_id m) w) (\<lambda>(msg, w1).
       case msg of None \<Rightarrow> yields w1 | Some a \<Rightarrow> OnTimeout now self a w1))"

section \<open>Messages in and out\<close>

definition async_OnDecodeMessage :: "u64 \<Rightarrow> nat \<Rightarrow> message \<Rightarrow> async_world \<Rightarrow> async_world run" where
  "async_OnDecodeMessage now self msg w =
     run_bind (seq_Get (sequence_id msg) w) (\<lambda>(keeper, w1).
       case keeper of
         None \<Rightarrow> yields w1
       | Some a \<Rightarrow>
           run_bind (deref a w1) (\<lambda>k.
             if type_id k = kHeartBeatMessage then yields (free_message a w1)
             else to_service (answer_of now (int self) k msg) (free_message a w1)))"

text \<open>The protocol's Encode, as far as it returns: whether it took the message, and the outgoing buffer.\<close>

type_synonym encoder = "message \<Rightarrow> char buffer \<Rightarrow> (bool \<times> char buffer) option"

definition async_EncodeMsg :: "encoder \<Rightarrow> u64 \<Rightarrow> nat \<Rightarrow> async_world \<Rightarrow> (int \<times> async_world) run" where
  "async_EncodeMsg Encode now a w =
     (if con_status (con w) \<noteq> kConnected then yields (-1, w)
      else run_bind (deref a w) (\<lambda>m.
        case Encode m (outbuf (con w)) of
          None \<Rightarrow> None
        | Some (ok, out) \<Rightarrow>
            let w1 = w\<lparr>con := (con w)\<lparr>outbuf := out\<rparr>\<rparr>
            in if \<not> ok then yields (-2, w1)
               else if direction m \<noteq> kOnlySend
               then run_bind (seq_Put now a w1) (\<lambda>(r, w2). yields (if r \<noteq> 0 then -3 else 0, w2))
               else yields (0, w1)))"

definition HandleIoMessageFailed :: "nat \<Rightarrow> async_world \<Rightarrow> async_world run" where
  "HandleIoMessageFailed a w =
     run_bind (deref a w) (\<lambda>m.
       if direction m = kOutgoingRequest then to_service (m\<lparr>status := kInternalFailure\<rparr>) (free_message a w)
       else yields (free_message a w))"

text \<open>
  An outgoing message for this connection. Behind a successful EncodeMsg the connection is connected, so
  the OnWrite that follows is that of the base class.
\<close>

definition HandleIoMessageEvent :: "encoder \<Rightarrow> u64 \<Rightarrow> nat \<Rightarrow> write_result list \<Rightarrow> async_world \<Rightarrow> async_world run" where
  "HandleIoMessageEvent Encode now a writes w =
     run_bind (deref a w) (\<lambda>m.
       if (direction m = kOnlySend \<or> direction m = kOutgoingRequest) \<and> now - birthtime m > INNER_QUERY_SEND_PROTECT_TIME
       then HandleIoMessageFailed a w
       else if descriptor_id m = 0 then HandleIoMessageFailed a w
       else run_bind (async_EncodeMsg Encode now a w) (\<lambda>(r, w1).
              if r \<noteq> 0 then HandleIoMessageFailed a w1
              else run_bind (deref a w1) (\<lambda>m1.
                let w2 = (if direction m1 = kOnlySend \<or> direction m1 = kOutgoingResponse then free_message a w1 else w1)
                in yields (w2\<lparr>con := snd (OnWrite writes (con w2))\<rparr>))))"


section \<open>Invariant\<close>

text \<open>
  Every object the thread owns is a waiting request: it is in the list once and registered under its
  sequence id; every pending timer is that of a waiting request. The converse does not hold: the Pop with which
  ProcessTimer follows OnTimer takes the timer of another request away, which then waits without one.
\<close>

definition waiting :: "async_world \<Rightarrow> nat \<Rightarrow> message \<Rightarrow> bool" where
  "waiting w a m \<longleftrightarrow> registery w (sequence_id m) = Some a \<and> direction m = kOutgoingRequest \<and> type_id m \<noteq> kHeartBeatMessage \<and>
     timer_out_id m > 0"

text \<open>
  The request's timer handle may be given to DelTimer: it is pending, or no timer is, and Erase of an empty heap
  does nothing. Otherwise Erase works on a node that is no longer in the heap.
\<close>

definition timer_left :: "async_world \<Rightarrow> message \<Rightarrow> bool" where
  "timer_left w m \<longleftrightarrow> heap_Size (seq_timers w) = 0 \<or> heap_map (seq_timers w) (unat (timer_out_id m)) \<noteq> None"

text \<open>The pending timer of the request at an address is its own.\<close>

definition timed :: "async_world \<Rightarrow> nat \<Rightarrow> bool" where
  "timed w a = (case store w a of
     None \<Rightarrow> False
   | Some m \<Rightarrow> (case heap_map (seq_timers w) (unat (timer_out_id m)) of None \<Rightarrow> False | Some td \<Rightarrow> function_data td = a))"

definition service_ok :: "async_world \<Rightarrow> bool" where
  "service_ok w \<longleftrightarrow> service_queues w \<noteq> [] \<and> length (service_queues w) < 2 ^ 31"

definition reconnect_ok :: "async_world \<Rightarrow> bool" where
  "reconnect_ok w \<longleftrightarrow> timer_inv (re_timer (reconnect w)) \<and> heartbeat_timer (con w) = 0 \<and>
     (reconnect_timer (con w) \<noteq> 0 \<longrightarrow> heap_map (re_timer (reconnect w)) (unat (reconnect_timer (con w))) \<noteq> None)"

definition async_inv :: "async_world \<Rightarrow> bool" where
  "async_inv w \<longleftrightarrow> timer_inv (seq_timers w) \<and> thread_ok w \<and> service_ok w \<and> reconnect_ok w \<and>
     distinct (seq_list w) \<and> set (seq_list w) = dom (store w) \<and>
     (\<forall>a m. store w a = Some m \<longrightarrow> waiting w a m) \<and>
     (\<forall>k a. registery w k = Some a \<longrightarrow> (\<exists>m. store w a = Some m \<and> sequence_id m = k)) \<and>
     (\<forall>i td. heap_map (seq_timers w) i = Some td \<longrightarrow>
        (\<exists>m. store w (function_data td) = Some m \<and> unat (timer_out_id m) = i))"

text \<open>The identity a request keeps through its answer, and the two places a request can be.\<close>

definition ident :: "message \<Rightarrow> u64 \<times> int \<times> int" where
  "ident m = (sequence_id m, coroutine_id m, handle_id m)"

definition pending :: "async_world \<Rightarrow> (u64 \<times> int \<times> int) multiset" where
  "pending w = image_mset (\<lambda>a. ident (the (store w a))) (mset (seq_list w))"

definition answered :: "async_world \<Rightarrow> (u64 \<times> int \<times> int) multiset" where
  "answered w = image_mset ident (mset (concat (service_queues w)))"

section \<open>The parts of a step\<close>

lemma mset_concat_update:
  "i < length qs \<Longrightarrow> mset (concat (qs[i := qs ! i @ [m]])) = add_mset m (mset (concat qs))"
proof -
  assume i: "i < length qs"
  then have qs: "qs = take i qs @ qs ! i # drop (Suc i) qs" by (simp add: id_take_nth_drop)
  have "qs[i := qs ! i @ [m]] = take i qs @ (qs ! i @ [m]) # drop (Suc i) qs" using i by (rule upd_conv_take_nth_drop)
  then have "mset (concat (qs[i := qs ! i @ [m]])) = add_mset m (mset (concat (take i qs @ qs ! i # drop (Suc i) qs)))" by simp
  with qs show ?thesis by simp
qed

text \<open>A message for a service thread arrives, and nothing else changes.\<close>

lemma SendToServiceHandle_ok:
  assumes "queues \<noteq> []" "length queues < 2 ^ 31"
  shows "\<exists>i' q'. SendToServiceHandle m i queues = Inr (i', q') \<and> q' \<noteq> [] \<and> length q' = length queues \<and>
     mset (concat q') = add_mset m (mset (concat queues))"
proof -
  let ?at = "if own_handle (length queues) m then nat (handle_id m) else unat i mod length queues"
  have "?at < length queues" using assms(1) by (auto simp: own_handle_def)
  then have "mset (concat (queues[?at := queues ! ?at @ [m]])) = add_mset m (mset (concat queues))" by (rule mset_concat_update)
  with SendToServiceHandle_lands [OF assms, of m i] assms(1) show ?thesis by (simp add: Let_def)
qed

lemma DelTimer_ok:
  "timer_inv h \<Longrightarrow> heap_map h i \<noteq> None \<Longrightarrow>
     \<exists>h'. DelTimer i h = Some (0, h') \<and> timer_inv h' \<and> heap_map h' = (heap_map h)(i := None)"
  by (rule timer_inv_DelTimer)

text \<open>
  Get of a registered id takes the request out of the registry, the list and the timers; the object
  stays with the caller.
\<close>

definition taken :: "async_world \<Rightarrow> nat \<Rightarrow> message \<Rightarrow> async_world \<Rightarrow> bool" where
  "taken w a m w' \<longleftrightarrow> store w' = store w \<and> con w' = con w \<and> io_threads w' = io_threads w \<and> reconnect w' = reconnect w \<and>
     service_queues w' = service_queues w \<and> id_hs w' = id_hs w \<and>
     registery w' = (registery w)(sequence_id m := None) \<and> seq_list w' = removeAll a (seq_list w) \<and>
     timer_inv (seq_timers w') \<and> heap_map (seq_timers w') = (heap_map (seq_timers w))(unat (timer_out_id m) := None)"

lemma seq_CancelTimer_ok:
  assumes "timer_inv (seq_timers w)" "thread_ok w" "t > 0" "heap_map (seq_timers w) (unat t) \<noteq> None"
  shows "\<exists>h'. seq_CancelTimer t w = yields (w\<lparr>seq_timers := h'\<rparr>) \<and> timer_inv h' \<and>
     heap_map h' = (heap_map (seq_timers w))(unat t := None)"
  using DelTimer_ok [OF assms(1,4)] assms(2,3) by (auto simp: seq_CancelTimer_def thread_ok_def)

lemma seq_CancelTimer_left:
  assumes "timer_inv (seq_timers w)" "thread_ok w" "t > 0" "heap_Size (seq_timers w) = 0 \<or> heap_map (seq_timers w) (unat t) \<noteq> None"
  shows "\<exists>h'. seq_CancelTimer t w = yields (w\<lparr>seq_timers := h'\<rparr>) \<and> timer_inv h' \<and>
     heap_map h' = (heap_map (seq_timers w))(unat t := None)"
proof (cases "heap_map (seq_timers w) (unat t) = None")
  case False
  with seq_CancelTimer_ok [OF assms(1-3)] show ?thesis by simp
next
  case True
  with assms(4) have empty: "num_items (seq_timers w) = 0" by (simp add: heap_Size_def)
  then have "seq_CancelTimer t w = yields (w\<lparr>seq_timers := seq_timers w\<rparr>)"
    using assms(2,3) by (simp add: seq_CancelTimer_def thread_ok_def DelTimer_def Erase_none)
  moreover have "heap_map (seq_timers w) = (heap_map (seq_timers w))(unat t := None)" using True by (simp add: fun_upd_idem)
  ultimately show ?thesis using assms(1) by blast
qed

lemma seq_Get_taken:
  assumes "async_inv w" "store w a = Some m" "timer_left w m"
  shows "\<exists>w'. seq_Get (sequence_id m) w = yields (Some a, w') \<and> taken w a m w'"
proof -
  have wait: "waiting w a m" using assms by (simp add: async_inv_def)
  let ?w1 = "w\<lparr>registery := (registery w)(sequence_id m := None)\<rparr>"
  have "timer_inv (seq_timers ?w1)" "thread_ok ?w1" using assms(1) by (simp_all add: async_inv_def thread_ok_def)
  from seq_CancelTimer_left [OF this, of "timer_out_id m"] wait assms(3) obtain h' where
    h': "seq_CancelTimer (timer_out_id m) ?w1 = yields (?w1\<lparr>seq_timers := h'\<rparr>)" "timer_inv h'"
      "heap_map h' = (heap_map (seq_timers w))(unat (timer_out_id m) := None)" by (auto simp: waiting_def timer_left_def)
  have "deref a ?w1 = yields m" using assms(2) by (simp add: deref_def)
  with h' wait show ?thesis by (simp add: seq_Get_def waiting_def Let_def taken_def)
qed

lemma seq_Get_none: "registery w sid = None \<Longrightarrow> seq_Get sid w = yields (None, w)"
  by (simp add: seq_Get_def)

text \<open>A request that was taken and then answered or destroyed leaves the invariant intact.\<close>

lemma taken_inv:
  assumes inv: "async_inv w" and a: "store w a = Some m" and t: "taken w a m w'"
    and w'': "store w'' = (store w')(a := None)" "registery w'' = registery w'" "seq_list w'' = seq_list w'"
      "seq_timers w'' = seq_timers w'" "con w'' = con w'" "io_threads w'' = io_threads w'" "reconnect w'' = reconnect w'"
    and serv: "service_ok w''"
  shows "async_inv w''" and "pending w = add_mset (ident m) (pending w'')"
proof -
  have wait: "waiting w a m" using inv a by (simp add: async_inv_def)
  have other: "sequence_id n \<noteq> sequence_id m" if "store w b = Some n" "b \<noteq> a" for b n
  proof -
    have "waiting w b n" using inv that by (simp add: async_inv_def)
    with wait that(2) show ?thesis by (auto simp: waiting_def)
  qed
  have waits: "waiting w'' b n" if "store w'' b = Some n" for b n
  proof -
    have b: "b \<noteq> a" "store w b = Some n" using that t w''(1) by (auto simp: taken_def split: if_splits)
    then have "waiting w b n" using inv by (simp add: async_inv_def)
    with other [OF b(2,1)] t w'' show ?thesis by (auto simp: waiting_def taken_def)
  qed
  have list: "set (seq_list w'') = dom (store w'')" "distinct (seq_list w'')"
    using inv t w'' by (auto simp: async_inv_def taken_def distinct_removeAll)
  have regs: "\<exists>n. store w'' b = Some n \<and> sequence_id n = k" if "registery w'' k = Some b" for k b
  proof -
    have k: "k \<noteq> sequence_id m" "registery w k = Some b" using that t w''(2) by (auto simp: taken_def split: if_splits)
    then obtain n where n: "store w b = Some n" "sequence_id n = k" using inv by (simp add: async_inv_def) blast
    have "b \<noteq> a" using n k(1) a by auto
    with n t w''(1) show ?thesis by (simp add: taken_def)
  qed
  have timers: "\<exists>n. store w'' (function_data td) = Some n \<and> unat (timer_out_id n) = i"
    if "heap_map (seq_timers w'') i = Some td" for i td
  proof -
    have i: "i \<noteq> unat (timer_out_id m)" "heap_map (seq_timers w) i = Some td"
      using that t w''(4) by (auto simp: taken_def split: if_splits)
    then obtain n where n: "store w (function_data td) = Some n" "unat (timer_out_id n) = i"
      using inv by (simp add: async_inv_def) blast
    have "function_data td \<noteq> a" using n i(1) a by auto
    with n t w''(1) show ?thesis by (simp add: taken_def)
  qed
  show "async_inv w''"
    using inv t w'' serv list waits regs timers by (auto simp: async_inv_def taken_def thread_ok_def reconnect_ok_def)
  have "a \<in> set (seq_list w)" "distinct (seq_list w)" using inv a by (auto simp: async_inv_def)
  then have "mset (seq_list w) = add_mset a (mset (removeAll a (seq_list w)))"
    by (simp add: distinct_remove1_removeAll [symmetric])
  then have "pending w = add_mset (ident m) (image_mset (\<lambda>b. ident (the (store w b))) (mset (removeAll a (seq_list w))))"
    by (simp add: pending_def a)
  also have "image_mset (\<lambda>b. ident (the (store w b))) (mset (removeAll a (seq_list w))) = pending w''"
    unfolding pending_def w''(3) using t by (auto simp: taken_def w''(1) intro!: image_mset_cong)
  finally show "pending w = add_mset (ident m) (pending w'')" .
qed


section \<open>Operations\<close>

text \<open>AsyncSequence::OnTimer as the receiver ProcessTimer calls; the heap it works on is the one being processed.\<close>

definition async_callback :: "u64 \<Rightarrow> nat \<Rightarrow> (unit, nat) timer_data \<Rightarrow> async_world run \<Rightarrow> (unit, nat) timer \<Rightarrow> async_world run \<times> (unit, nat) timer" where
  "async_callback now self td r h =
     (case r of
        Some (Inr w) \<Rightarrow>
          (case seq_OnTimer now self (function_data td) (w\<lparr>seq_timers := h\<rparr>) of
             Some (Inr w') \<Rightarrow> (yields w', seq_timers w')
           | bad \<Rightarrow> (bad, h))
      | bad \<Rightarrow> (bad, h))"

text \<open>
  A freshly allocated message is handed to the I/O thread; a message arrives; the I/O thread processes
  its timers; the connection is closed.
\<close>

datatype async_op =
    Submit u64 nat message "write_result list"
  | Response u64 message
  | Fire u64
  | Close u64

fun async_exec :: "encoder \<Rightarrow> nat \<Rightarrow> async_op \<Rightarrow> async_world \<Rightarrow> async_world run" where
  "async_exec Encode self (Submit now a m writes) w =
     HandleIoMessageEvent Encode now a writes (w\<lparr>store := (store w)(a \<mapsto> m)\<rparr>)"
| "async_exec Encode self (Response now msg) w = async_OnDecodeMessage now self msg w"
| "async_exec Encode self (Fire now) w =
     (case ProcessTimer (async_callback now self) now (yields w) (seq_timers w) of
        None \<Rightarrow> None
      | Some (r, h) \<Rightarrow> run_bind r (\<lambda>w'. yields (w'\<lparr>seq_timers := h\<rparr>)))"
| "async_exec Encode self (Close now) w = async_OnClose now self w"

text \<open>
  What the steps may rely on: new objects have new addresses, the addresses of heap nodes are not null and fit into 64 bits,
  Encode returns, the clock is
  below 2^63 ms; a client only submits requests and one-way messages, none of them heartbeats,
  which the protocols of this client refuse to encode. An answer does not come for a request whose timer an earlier
  time-out of another request took away, unless no timer is left at all, and neither does a close while there is such a
  request: they would hand the heap a node it no longer holds. Time-outs are not restricted.
\<close>

fun op_ok :: "encoder \<Rightarrow> nat \<Rightarrow> async_op \<Rightarrow> async_world \<Rightarrow> bool" where
  "op_ok Encode self (Submit now a m writes) w \<longleftrightarrow>
     store w a = None \<and> (direction m = kOutgoingRequest \<or> direction m = kOnlySend) \<and> type_id m \<noteq> kHeartBeatMessage \<and>
     Encode m (outbuf (con w)) \<noteq> None \<and> now + ucast (timeout_ms (con w)) < 2 ^ 63 \<and>
     fst (AddTimer now (ucast (timeout_ms (con w))) (seq_timer_data a w) (seq_timers w)) \<in> {1 ..< 2 ^ 64}"
| "op_ok Encode self (Response now msg) w \<longleftrightarrow>
     (case registery w (sequence_id msg) of
        None \<Rightarrow> True
      | Some a \<Rightarrow> (case store w a of None \<Rightarrow> True | Some m \<Rightarrow> timer_left w m))"
| "op_ok Encode self (Fire now) w \<longleftrightarrow> True"
| "op_ok Encode self (Close now) w \<longleftrightarrow> now + 300 < 2 ^ 63 \<and>
     (heap_Size (seq_timers w) = 0 \<or> list_all (timed w) (seq_list w)) \<and>
     (case CancelTimer (con w) (reconnect w) of
        None \<Rightarrow> True
      | Some (c, r) \<Rightarrow> fst (AddTimer now 300 (client_timer self kClientTimerTypeReconnect 300) (re_timer r)) \<in> {1 ..< 2 ^ 64})"

text \<open>The requests a step submits.\<close>

fun submitted :: "async_op \<Rightarrow> (u64 \<times> int \<times> int) multiset" where
  "submitted (Submit now a m writes) = (if direction m = kOutgoingRequest then {#ident m#} else {#})"
| "submitted _ = {#}"


section \<open>Every step keeps the invariant and accounts for the requests\<close>

lemma answer_ident [simp]: "ident (answer_of now self k msg) = ident k"
  by (simp add: answer_of_def ident_def Let_def split: option.split)

lemma status_ident [simp]: "ident (m\<lparr>status := st\<rparr>) = ident m" "ident (m\<lparr>timer_out_id := i\<rparr>) = ident m"
  by (simp_all add: ident_def)

lemma to_service_ok:
  assumes "service_ok w"
  shows "\<exists>i q. to_service m w = yields (w\<lparr>id_hs := i, service_queues := q\<rparr>) \<and> service_ok (w\<lparr>id_hs := i, service_queues := q\<rparr>) \<and>
     answered (w\<lparr>id_hs := i, service_queues := q\<rparr>) = add_mset (ident m) (answered w)"
proof -
  from assms SendToServiceHandle_ok [of "service_queues w" m "id_hs w"] obtain i q where
    "SendToServiceHandle m (id_hs w) (service_queues w) = Inr (i, q)" "q \<noteq> []" "length q = length (service_queues w)"
    "mset (concat q) = add_mset m (mset (concat (service_queues w)))" by (auto simp: service_ok_def)
  with assms show ?thesis
    by (intro exI [of _ i] exI [of _ q]) (simp add: to_service_def service_ok_def answered_def)
qed

text \<open>The steps' common part: the request is taken, answered with its own identity, and forgotten.\<close>

lemma answer_taken:
  assumes inv: "async_inv w" and a: "store w a = Some m" and t: "taken w a m w1" and r: "ident r = ident m"
  shows "\<exists>w'. to_service r (free_message a w1) = yields w' \<and> async_inv w' \<and>
     pending w = add_mset (ident m) (pending w') \<and> answered w' = add_mset (ident m) (answered w) \<and> con w' = con w \<and> reconnect w' = reconnect w"
proof -
  have "service_ok (free_message a w1)" using inv t by (simp add: async_inv_def taken_def service_ok_def free_message_def)
  from to_service_ok [OF this, of r] obtain i q where
    s: "to_service r (free_message a w1) = yields ((free_message a w1)\<lparr>id_hs := i, service_queues := q\<rparr>)"
      "service_ok ((free_message a w1)\<lparr>id_hs := i, service_queues := q\<rparr>)"
      "answered ((free_message a w1)\<lparr>id_hs := i, service_queues := q\<rparr>) = add_mset (ident r) (answered (free_message a w1))" by blast
  have "answered (free_message a w1) = answered w" using t by (simp add: answered_def free_message_def taken_def)
  moreover have "con ((free_message a w1)\<lparr>id_hs := i, service_queues := q\<rparr>) = con w"
      "reconnect ((free_message a w1)\<lparr>id_hs := i, service_queues := q\<rparr>) = reconnect w"
    using t by (simp_all add: free_message_def taken_def)
  ultimately show ?thesis
    using s r taken_inv [OF inv a t _ _ _ _ _ _ _ s(2)] by (auto simp: free_message_def)
qed

lemma send_back_to_service:
  "deref a w = yields m \<Longrightarrow> type_id m \<noteq> kHeartBeatMessage \<Longrightarrow> direction m \<noteq> kOnlySend \<Longrightarrow>
     send_back a st w = to_service (m\<lparr>status := st\<rparr>) (free_message a w)"
  by (simp add: send_back_def DoSendBack_def to_service_def free_message_def)

lemma waiting_not_only_send: "waiting w a m \<Longrightarrow> type_id m \<noteq> kHeartBeatMessage \<and> direction m \<noteq> kOnlySend"
  by (simp add: waiting_def directions)

lemma async_Response:
  assumes inv: "async_inv w" and ok: "op_ok Encode self (Response now msg) w"
  shows "\<exists>w'. async_OnDecodeMessage now self msg w = yields w' \<and> async_inv w' \<and> pending w' + answered w' = pending w + answered w"
proof (cases "registery w (sequence_id msg)")
  case None
  with inv show ?thesis by (simp add: async_OnDecodeMessage_def seq_Get_none)
next
  case (Some a)
  then obtain k where k: "store w a = Some k" "sequence_id k = sequence_id msg" using inv by (simp add: async_inv_def) blast
  have "timer_left w k" using ok Some k(1) by simp
  from seq_Get_taken [OF inv k(1) this] obtain w1 where w1: "seq_Get (sequence_id msg) w = yields (Some a, w1)" "taken w a k w1"
    by (auto simp: k(2))
  have "waiting w a k" using inv k(1) by (simp add: async_inv_def)
  moreover have "deref a w1 = yields k" using w1(2) k(1) by (simp add: deref_def taken_def)
  moreover from answer_taken [OF inv k(1) w1(2) answer_ident, of now "int self" msg] obtain w' where
    "to_service (answer_of now (int self) k msg) (free_message a w1) = yields w'" "async_inv w'"
    "pending w = add_mset (ident k) (pending w')" "answered w' = add_mset (ident k) (answered w)" by blast
  ultimately show ?thesis
    using w1(1) by (intro exI [of _ w']) (simp add: async_OnDecodeMessage_def waiting_def)
qed

text \<open>OnTimer on the address of a waiting request gives it up.\<close>

lemma seq_OnTimer_gives_up:
  assumes inv: "async_inv w" and a: "store w a = Some m" and left: "timer_left w m"
  shows "\<exists>w1 w'. taken w a m w1 \<and> to_service (m\<lparr>status := kStatusTimeout\<rparr>) (free_message a w1) = yields w' \<and>
     seq_OnTimer now self a w = yields w' \<and> async_inv w' \<and>
     pending w = add_mset (ident m) (pending w') \<and> answered w' = add_mset (ident m) (answered w)"
proof -
  have wait: "waiting w a m" using inv a by (simp add: async_inv_def)
  from seq_Get_taken [OF inv a left] obtain w1 where w1: "seq_Get (sequence_id m) w = yields (Some a, w1)" "taken w a m w1" by blast
  have d: "deref a w = yields m" "deref a w1 = yields m" using a w1(2) by (simp_all add: deref_def taken_def)
  note nh = waiting_not_only_send [OF wait]
  from answer_taken [OF inv a w1(2) status_ident(1), of kStatusTimeout] obtain w' where
    w': "to_service (m\<lparr>status := kStatusTimeout\<rparr>) (free_message a w1) = yields w'" "async_inv w'"
      "pending w = add_mset (ident m) (pending w')" "answered w' = add_mset (ident m) (answered w)" by blast
  have "seq_OnTimer now self a w = send_back a kStatusTimeout w1"
    using d w1(1) nh by (simp add: seq_OnTimer_def OnTimeout_def)
  then show ?thesis
    using w1(2) w' send_back_to_service [OF d(2), of kStatusTimeout] nh by auto
qed


text \<open>
  Closing: once the list and the registry are emptied, the state is read with those requests that are
  still to be answered put back.
\<close>

definition with_waiting :: "(u64 \<rightharpoonup> nat) \<Rightarrow> nat list \<Rightarrow> async_world \<Rightarrow> async_world" where
  "with_waiting R as w = w\<lparr>registery := R, seq_list := as\<rparr>"

lemma with_waiting_sel [simp]:
  "store (with_waiting R as w) = store w" "seq_timers (with_waiting R as w) = seq_timers w" "con (with_waiting R as w) = con w"
  "service_queues (with_waiting R as w) = service_queues w" "id_hs (with_waiting R as w) = id_hs w"
  "reconnect (with_waiting R as w) = reconnect w" "io_threads (with_waiting R as w) = io_threads w"
  "registery (with_waiting R as w) = R" "seq_list (with_waiting R as w) = as" "thread_ok (with_waiting R as w) = thread_ok w"
  "answered (with_waiting R as w) = answered w"
  by (simp_all add: with_waiting_def thread_ok_def answered_def)

lemma send_back_all_ok:
  "async_inv (with_waiting R as w) \<Longrightarrow> heap_Size (seq_timers w) = 0 \<or> list_all (timed w) as \<Longrightarrow> registery w = Map.empty \<Longrightarrow> seq_list w = [] \<Longrightarrow>
     \<exists>w'. send_back_all as w = yields w' \<and> async_inv w' \<and> seq_list w' = [] \<and>
       answered w' = pending (with_waiting R as w) + answered w \<and> con w' = con w \<and> reconnect w' = reconnect w"
proof (induction as arbitrary: R w)
  case Nil
  have "store w a = None" for a using Nil(1) by (auto simp: async_inv_def)
  then have "R = Map.empty" using Nil(1) by (auto simp: async_inv_def fun_eq_iff intro!: option.exhaust [of "R k" for k])
  then have "with_waiting R [] w = w" using Nil(3,4) by (simp add: with_waiting_def)
  then show ?case using Nil by (simp add: pending_def)
next
  case (Cons a as)
  let ?v = "with_waiting R (a # as) w"
  note inv = Cons.prems(1)
  have "insert a (set as) = dom (store w)" using inv by (simp add: async_inv_def)
  then obtain m where m: "store w a = Some m" by blast
  then have wait: "waiting ?v a m" using inv by (simp add: async_inv_def)
  have "timer_inv (seq_timers w)" "thread_ok w" using inv by (simp_all add: async_inv_def)
  moreover have "heap_Size (seq_timers w) = 0 \<or> heap_map (seq_timers w) (unat (timer_out_id m)) \<noteq> None"
    using Cons.prems(2) m by (auto simp: timed_def split: option.splits)
  ultimately obtain h where
    h: "seq_CancelTimer (timer_out_id m) w = yields (w\<lparr>seq_timers := h\<rparr>)" "timer_inv h"
      "heap_map h = (heap_map (seq_timers w))(unat (timer_out_id m) := None)"
    using seq_CancelTimer_left [of w "timer_out_id m"] wait by (auto simp: waiting_def)
  let ?w1 = "w\<lparr>seq_timers := h\<rparr>" and ?R = "R(sequence_id m := None)"
  have d: "deref a w = yields m" "deref a ?w1 = yields m" using m by (simp_all add: deref_def)
  note nh = waiting_not_only_send [OF wait]
  have "a \<notin> set as" using inv by (simp add: async_inv_def)
  then have t: "taken ?v a m (with_waiting ?R as ?w1)" using h by (simp add: taken_def)
  have "service_ok (free_message a ?w1)" using inv by (simp add: async_inv_def service_ok_def free_message_def)
  from to_service_ok [OF this, of "m\<lparr>status := kInternalFailure\<rparr>"] obtain i q where
    s: "send_back a kInternalFailure ?w1 = yields ((free_message a ?w1)\<lparr>id_hs := i, service_queues := q\<rparr>)"
      "service_ok ((free_message a ?w1)\<lparr>id_hs := i, service_queues := q\<rparr>)"
      "answered ((free_message a ?w1)\<lparr>id_hs := i, service_queues := q\<rparr>) = add_mset (ident m) (answered (free_message a ?w1))"
    using send_back_to_service [OF d(2), of kInternalFailure] nh by auto
  define w2 where "w2 = (free_message a ?w1)\<lparr>id_hs := i, service_queues := q\<rparr>"
  have w2: "store w2 = (store w)(a := None)" "seq_timers w2 = h" "con w2 = con w" "reconnect w2 = reconnect w" "io_threads w2 = io_threads w"
      "registery w2 = Map.empty" "seq_list w2 = []" "answered w2 = add_mset (ident m) (answered w)"
    using s(3) Cons.prems(3,4) by (simp_all add: w2_def free_message_def answered_def)
  have "service_ok (with_waiting ?R as w2)" using s(2) by (simp add: w2_def service_ok_def)
  from taken_inv [OF inv _ t, of "with_waiting ?R as w2"] this m w2
  have v2: "async_inv (with_waiting ?R as w2)" "pending ?v = add_mset (ident m) (pending (with_waiting ?R as w2))" by simp_all
  have left: "heap_Size (seq_timers w2) = 0 \<or> list_all (timed w2) as"
  proof (cases "heap_Size (seq_timers w) = 0")
    case True
    then have "heap_map h = Map.empty" using no_timer_left [of "seq_timers w"] inv h(3) by (simp add: async_inv_def heap_Size_def)
    then show ?thesis using no_timer_left [OF h(2)] by (simp add: w2(2) heap_Size_def)
  next
    case False
    then have all: "timed w a" "\<And>b. b \<in> set as \<Longrightarrow> timed w b" using Cons.prems(2) by (simp_all add: list_all_iff)
    have "timed w2 b" if "b \<in> set as" for b
    proof -
      have "b \<noteq> a" using that \<open>a \<notin> set as\<close> by blast
      with all(1) all(2) [OF that] m show ?thesis by (auto simp: timed_def w2(1,2) h(3) split: option.splits)
    qed
    then show ?thesis by (simp add: list_all_iff)
  qed
  from Cons.IH [OF v2(1) left w2(6,7)] obtain w' where
    w': "send_back_all as w2 = yields w'" "async_inv w'" "seq_list w' = []"
      "answered w' = pending (with_waiting ?R as w2) + answered w2" "con w' = con w2" "reconnect w' = reconnect w2" by blast
  have "send_back_all (a # as) w = send_back_all as w2"
    using d(1) wait h(1) s(1) by (simp add: waiting_def w2_def)
  with w' v2(2) w2 show ?case by (intro exI [of _ w']) simp
qed

lemma CleanSequenceQueue_ok:
  assumes "async_inv w" "heap_Size (seq_timers w) = 0 \<or> list_all (timed w) (seq_list w)"
  shows "\<exists>w'. CleanSequenceQueue w = yields w' \<and> async_inv w' \<and> seq_list w' = [] \<and> answered w' = pending w + answered w \<and>
     con w' = con w \<and> reconnect w' = reconnect w"
proof -
  let ?w1 = "w\<lparr>seq_list := [], registery := Map.empty\<rparr>"
  have w: "with_waiting (registery w) (seq_list w) ?w1 = w" by (simp add: with_waiting_def)
  have "answered ?w1 = answered w" by (simp add: answered_def)
  moreover have "timed ?w1 = timed w" by (auto simp: timed_def fun_eq_iff split: option.splits)
  ultimately show ?thesis using send_back_all_ok [of "registery w" "seq_list w" ?w1] assms
    by (simp add: w CleanSequenceQueue_def seq_Clear_def)
qed

text \<open>The parts of the state OnClose and OnWrite may change do not matter to the requests.\<close>

lemma con_change:
  assumes "async_inv w" "register_thread_id c = register_thread_id (con w)" "reconnect_ok (w\<lparr>con := c, reconnect := r\<rparr>)"
  shows "async_inv (w\<lparr>con := c, reconnect := r\<rparr>)" "pending (w\<lparr>con := c, reconnect := r\<rparr>) = pending w"
    "answered (w\<lparr>con := c, reconnect := r\<rparr>) = answered w"
  using assms by (auto simp: async_inv_def waiting_def thread_ok_def service_ok_def pending_def answered_def)

lemma CancelTimer_ok:
  assumes "timer_inv (re_timer r)" "heartbeat_timer c = 0"
    "reconnect_timer c \<noteq> 0 \<longrightarrow> heap_map (re_timer r) (unat (reconnect_timer c)) \<noteq> None"
  shows "\<exists>c' r'. CancelTimer c r = Some (c', r') \<and> timer_inv (re_timer r') \<and> c' = c\<lparr>reconnect_timer := 0\<rparr>"
proof (cases "reconnect_timer c = 0")
  case True
  then have "c\<lparr>reconnect_timer := 0\<rparr> = c" by simp
  with True assms show ?thesis by (simp add: CancelTimer_def)
next
  case False
  with DelTimer_ok [OF assms(1), of "unat (reconnect_timer c)"] assms(2,3) show ?thesis
    by (auto simp: CancelTimer_def ClientReconnect_CancelTimer_def)
qed

lemma async_Close:
  assumes inv: "async_inv w" and ok: "op_ok Encode self (Close now) w"
  shows "\<exists>w'. async_OnClose now self w = yields w' \<and> async_inv w' \<and> seq_list w' = [] \<and> pending w' + answered w' = pending w + answered w"
proof -
  have "heap_Size (seq_timers w) = 0 \<or> list_all (timed w) (seq_list w)" using ok by simp
  from CleanSequenceQueue_ok [OF inv this] obtain w1 where
    w1: "CleanSequenceQueue w = yields w1" "async_inv w1" "seq_list w1 = []" "answered w1 = pending w + answered w"
      "con w1 = con w" "reconnect w1 = reconnect w" by blast
  have "reconnect_ok w" using inv by (simp add: async_inv_def)
  then obtain c r where
    c: "CancelTimer (con w) (reconnect w) = Some (c, r)" "timer_inv (re_timer r)" "c = (con w)\<lparr>reconnect_timer := 0\<rparr>"
    using CancelTimer_ok [of "reconnect w" "con w"] by (auto simp: reconnect_ok_def)
  obtain i h where add: "AddTimer now 300 (client_timer self kClientTimerTypeReconnect 300) (re_timer r) = (i, h)" by fastforce
  have i: "0 < i" "i < 2 ^ 64" "now + 300 < 2 ^ 63" using ok c(1) add by auto
  have h: "timer_inv h" "heap_map h i \<noteq> None"
    using timer_inv_AddTimer [OF c(2) _ i(3) add] by (simp_all add: client_timer_def)
  define c' where "c' = (if is_running r then (CleanClient c)\<lparr>reconnect_timer := word_of_nat i\<rparr> else CleanClient c)"
  define r' where "r' = (if is_running r then r\<lparr>re_timer := h\<rparr> else r)"
  have run: "async_OnClose now self w = yields (w1\<lparr>con := c', reconnect := r'\<rparr>)"
    using w1(1,5,6) c(1,3) add
    by (auto simp: async_OnClose_def StartReconnectTimer_def ClientReconnect_StartTimer_def CleanClient_def Clean_def c'_def r'_def
        client_timer_def)
  have "reconnect_ok (w1\<lparr>con := c', reconnect := r'\<rparr>)" "register_thread_id c' = register_thread_id (con w1)"
    using h c(2,3) inv w1(5) i by (auto simp: reconnect_ok_def async_inv_def c'_def r'_def CleanClient_def Clean_def unat_of_nat take_bit_nat_eq_self)
  from con_change [OF w1(2) this(2,1)] run w1 show ?thesis by (simp add: pending_def)
qed


lemma OnWrite_con:
  "register_thread_id (snd (OnWrite ws c)) = register_thread_id c" "reconnect_timer (snd (OnWrite ws c)) = reconnect_timer c"
  "heartbeat_timer (snd (OnWrite ws c)) = heartbeat_timer c"
  for c :: "'p client_connect"
  by (auto simp: OnWrite_def OnReadWriteClose_def split: prod.split)

text \<open>A message that is refused is answered with a failure, or destroyed if nobody waits for it.\<close>

lemma refused_ok:
  assumes inv: "async_inv w" and a: "store w a = None" "store v = (store w)(a \<mapsto> m)" and dir: "direction m = kOutgoingRequest \<or> direction m = kOnlySend"
    and v: "registery v = registery w" "seq_list v = seq_list w" "seq_timers v = seq_timers w" "service_queues v = service_queues w"
      "id_hs v = id_hs w" "io_threads v = io_threads w" "reconnect v = reconnect w"
      "register_thread_id (con v) = register_thread_id (con w)" "reconnect_timer (con v) = reconnect_timer (con w)"
      "heartbeat_timer (con v) = heartbeat_timer (con w)"
  shows "\<exists>w'. HandleIoMessageFailed a v = yields w' \<and> async_inv w' \<and> pending w' = pending w \<and>
     answered w' = (if direction m = kOutgoingRequest then {#ident m#} else {#}) + answered w"
proof -
  have d: "deref a v = yields m" using a(2) by (simp add: deref_def)
  have st: "store (free_message a v) = store w" using a by (auto simp: free_message_def fun_eq_iff)
  have same: "async_inv w' \<and> pending w' = pending w"
    if "store w' = store w" "registery w' = registery w" "seq_list w' = seq_list w" "seq_timers w' = seq_timers w"
      "io_threads w' = io_threads w" "reconnect w' = reconnect w" "con w' = con v" "service_ok w'" for w'
    using that inv v by (auto simp: async_inv_def waiting_def thread_ok_def reconnect_ok_def pending_def)
  have serv: "service_ok (free_message a v)" using inv v by (simp add: async_inv_def service_ok_def free_message_def)
  have ans: "answered (free_message a v) = answered w" using v by (simp add: answered_def free_message_def)
  show ?thesis
  proof (cases "direction m = kOutgoingRequest")
    case False
    have "async_inv (free_message a v) \<and> pending (free_message a v) = pending w"
      using st v serv by (intro same) (simp_all add: free_message_def)
    with False d ans show ?thesis by (simp add: HandleIoMessageFailed_def)
  next
    case True
    from to_service_ok [OF serv, of "m\<lparr>status := kInternalFailure\<rparr>"] obtain i q where
      q: "to_service (m\<lparr>status := kInternalFailure\<rparr>) (free_message a v) = yields ((free_message a v)\<lparr>id_hs := i, service_queues := q\<rparr>)"
        "service_ok ((free_message a v)\<lparr>id_hs := i, service_queues := q\<rparr>)"
        "answered ((free_message a v)\<lparr>id_hs := i, service_queues := q\<rparr>) = add_mset (ident m) (answered (free_message a v))"
      by (auto simp: status_ident)
    let ?w' = "(free_message a v)\<lparr>id_hs := i, service_queues := q\<rparr>"
    have "async_inv ?w' \<and> pending ?w' = pending w" using st v q(2) by (intro same) (simp_all add: free_message_def)
    with True d ans q(1,3) show ?thesis by (simp add: HandleIoMessageFailed_def)
  qed
qed

text \<open>Put of a fresh object under an id nobody waits for.\<close>

lemma seq_Put_ok:
  assumes inv: "async_inv w" and a: "store w a = None" "store v = (store w)(a \<mapsto> m)" and dir: "direction m = kOutgoingRequest"
    and hb: "type_id m \<noteq> kHeartBeatMessage" and new: "registery w (sequence_id m) = None"
    and v: "registery v = registery w" "seq_list v = seq_list w" "seq_timers v = seq_timers w" "service_queues v = service_queues w"
      "io_threads v = io_threads w" "reconnect v = reconnect w" "con v = (con w)\<lparr>outbuf := out\<rparr>"
    and clock: "now + ucast (timeout_ms (con w)) < 2 ^ 63"
    and add: "AddTimer now (ucast (timeout_ms (con w))) (seq_timer_data a w) (seq_timers w) = (i, h)" "0 < i" "i < 2 ^ 64"
  shows "\<exists>v'. seq_Put now a v = yields (0, v') \<and> async_inv v' \<and> pending v' = add_mset (ident m) (pending w) \<and> answered v' = answered w \<and>
     (\<exists>n. store v' a = Some n \<and> direction n = direction m)"
proof -
  have h: "timer_inv h" "heap_map (seq_timers w) i = None"
      "heap_map h = (heap_map (seq_timers w))(i \<mapsto> (seq_timer_data a w)\<lparr>time_out_ms := now + ucast (timeout_ms (con w))\<rparr>)"
    using inv timer_inv_AddTimer [OF _ _ clock add(1)] by (simp_all add: async_inv_def seq_timer_data_def)
  let ?m = "m\<lparr>timer_out_id := word_of_nat i\<rparr>"
  define v' where "v' = v\<lparr>registery := (registery w)(sequence_id m \<mapsto> a), seq_timers := h, store := (store v)(a \<mapsto> ?m),
      seq_list := seq_list w @ [a]\<rparr>"
  have i: "unat (word_of_nat i :: u64) = i" using add(3) by (rule unat_of_nat_u64)
  then have i0: "0 < (word_of_nat i :: u64)" using add(2) by (metis unat_0 neq0_conv word_gt_0)
  have th: "thread_ok v" "thread_ok (v\<lparr>registery := R\<rparr>)" for R using inv v by (simp_all add: async_inv_def thread_ok_def)
  have run: "seq_Put now a v = yields (0, v')"
    using a(2) new v th add(1)
    by (simp add: seq_Put_def deref_def seq_StartTimer_def seq_timer_data_def v'_def)
  have st: "store v' = (store w)(a \<mapsto> ?m)" using a(2) by (simp add: v'_def)
  have fresh: "a \<notin> set (seq_list w)" using inv a(1) by (auto simp: async_inv_def)
  have notimer: "function_data td \<noteq> a" if "heap_map (seq_timers w) j = Some td" for j td
  proof
    assume "function_data td = a"
    moreover have "\<exists>m. store w (function_data td) = Some m" using inv that by (simp add: async_inv_def) blast
    ultimately show False using a(1) by simp
  qed
  have waits: "waiting v' b n" if "store v' b = Some n" for b n
  proof (cases "b = a")
    case True
    with that have "n = ?m" by (simp add: st)
    with True h(3) dir hb i i0 show ?thesis by (simp add: waiting_def v'_def seq_timer_data_def)
  next
    case False
    with that have w: "waiting w b n" using inv by (simp add: st async_inv_def)
    then have "sequence_id n \<noteq> sequence_id m" using new by (auto simp: waiting_def)
    with w h(3) show ?thesis by (auto simp: waiting_def v'_def)
  qed
  have regs: "\<exists>n. store v' b = Some n \<and> sequence_id n = k" if "registery v' k = Some b" for k b
  proof (cases "k = sequence_id m")
    case True
    with that show ?thesis by (simp add: st) (simp add: v'_def)
  next
    case False
    with that have "registery w k = Some b" by (simp add: v'_def)
    then obtain n where "store w b = Some n" "sequence_id n = k" using inv by (simp add: async_inv_def) blast
    with a(1) show ?thesis by (auto simp: st)
  qed
  have timers: "\<exists>n. store v' (function_data td) = Some n \<and> unat (timer_out_id n) = j"
    if "heap_map (seq_timers v') j = Some td" for j td
  proof (cases "j = i")
    case True
    with that h(3) have "function_data td = a" by (auto simp: v'_def seq_timer_data_def)
    with True i show ?thesis by (simp add: st)
  next
    case False
    with that h(3) have j: "heap_map (seq_timers w) j = Some td" by (simp add: v'_def)
    then obtain n where "store w (function_data td) = Some n" "unat (timer_out_id n) = j" using inv by (simp add: async_inv_def) blast
    with notimer [OF j] show ?thesis by (simp add: st)
  qed
  have basic: "timer_inv (seq_timers v')" "thread_ok v'" "service_ok v'" "reconnect_ok v'"
    using inv v h(1) by (simp_all add: v'_def async_inv_def thread_ok_def service_ok_def reconnect_ok_def)
  have list: "distinct (seq_list v')" "set (seq_list v') = dom (store v')"
  proof -
    have "distinct (seq_list w)" "set (seq_list w) = dom (store w)" using inv by (simp_all add: async_inv_def)
    then show "distinct (seq_list v')" "set (seq_list v') = dom (store v')" using fresh by (simp_all add: st) (simp_all add: v'_def)
  qed
  have "async_inv v'" unfolding async_inv_def using basic list waits regs timers by blast
  moreover have "pending v' = add_mset (ident m) (pending w)"
    using fresh by (simp add: pending_def st) (auto simp: v'_def intro!: image_mset_cong)
  moreover have "answered v' = answered w" using v by (simp add: answered_def v'_def)
  ultimately show ?thesis using run st by auto
qed


lemma free_message_inv:
  assumes "async_inv w" "store w a = None" "store v = (store w)(a \<mapsto> m)"
    and "registery v = registery w" "seq_list v = seq_list w" "seq_timers v = seq_timers w" "service_queues v = service_queues w"
      "io_threads v = io_threads w" "reconnect v = reconnect w" "con v = (con w)\<lparr>outbuf := out\<rparr>"
  shows "async_inv (free_message a v)" "pending (free_message a v) = pending w" "answered (free_message a v) = answered w"
proof -
  have st: "store (free_message a v) = store w" using assms(2,3) by (auto simp: free_message_def fun_eq_iff)
  have "registery (free_message a v) = registery w" "seq_list (free_message a v) = seq_list w"
      "seq_timers (free_message a v) = seq_timers w" "service_queues (free_message a v) = service_queues w"
      "io_threads (free_message a v) = io_threads w" "reconnect (free_message a v) = reconnect w"
      "con (free_message a v) = (con w)\<lparr>outbuf := out\<rparr>"
    using assms(4-) by (simp_all add: free_message_def)
  with st assms(1) show "async_inv (free_message a v)" "pending (free_message a v) = pending w"
      "answered (free_message a v) = answered w"
    by (auto simp: async_inv_def waiting_def thread_ok_def reconnect_ok_def service_ok_def pending_def answered_def)
qed

lemma OnWrite_step:
  assumes "async_inv w"
  shows "async_inv (w\<lparr>con := snd (OnWrite ws (con w))\<rparr>)" "pending (w\<lparr>con := snd (OnWrite ws (con w))\<rparr>) = pending w"
    "answered (w\<lparr>con := snd (OnWrite ws (con w))\<rparr>) = answered w"
proof -
  have "reconnect_ok w" using assms by (simp add: async_inv_def)
  then have "reconnect_ok (w\<lparr>con := snd (OnWrite ws (con w)), reconnect := reconnect w\<rparr>)"
    by (simp add: reconnect_ok_def OnWrite_con)
  from con_change [OF assms OnWrite_con(1) this]
  show "async_inv (w\<lparr>con := snd (OnWrite ws (con w))\<rparr>)" "pending (w\<lparr>con := snd (OnWrite ws (con w))\<rparr>) = pending w"
    "answered (w\<lparr>con := snd (OnWrite ws (con w))\<rparr>) = answered w" by simp_all
qed

lemma async_Submit:
  assumes inv: "async_inv w" and ok: "op_ok Encode self (Submit now a m writes) w"
  shows "\<exists>w'. HandleIoMessageEvent Encode now a writes (w\<lparr>store := (store w)(a \<mapsto> m)\<rparr>) = yields w' \<and> async_inv w' \<and>
     pending w' + answered w' = pending w + answered w + submitted (Submit now a m writes)"
proof -
  let ?v = "w\<lparr>store := (store w)(a \<mapsto> m)\<rparr>"
  have a: "store w a = None" and dir: "direction m = kOutgoingRequest \<or> direction m = kOnlySend" and hb: "type_id m \<noteq> kHeartBeatMessage"
    and clock: "now + ucast (timeout_ms (con w)) < 2 ^ 63" using ok by simp_all
  have d: "deref a ?v = yields m" by (simp add: deref_def)
  have dirs: "direction m \<noteq> kOutgoingResponse" using dir by (auto simp: directions)
  have refused: "\<exists>w'. HandleIoMessageFailed a (?v\<lparr>con := (con w)\<lparr>outbuf := out\<rparr>\<rparr>) = yields w' \<and> async_inv w' \<and>
      pending w' + answered w' = pending w + answered w + submitted (Submit now a m writes)" for out
    using refused_ok [OF inv a _ dir, of "?v\<lparr>con := (con w)\<lparr>outbuf := out\<rparr>\<rparr>"] by auto
  have same: "?v\<lparr>con := (con w)\<lparr>outbuf := outbuf (con w)\<rparr>\<rparr> = ?v" by simp
  consider "now - birthtime m > INNER_QUERY_SEND_PROTECT_TIME" | "descriptor_id m = 0" | "con_status (con w) \<noteq> kConnected"
    | "\<not> now - birthtime m > INNER_QUERY_SEND_PROTECT_TIME" "descriptor_id m \<noteq> 0" "con_status (con w) = kConnected" by blast
  then show ?thesis
  proof cases
    case 4
    obtain enc out where enc: "Encode m (outbuf (con w)) = Some (enc, out)" using ok by auto
    let ?u = "?v\<lparr>con := (con w)\<lparr>outbuf := out\<rparr>\<rparr>"
    have fresh: "store ?u = (store w)(a \<mapsto> m)" "con ?u = (con w)\<lparr>outbuf := out\<rparr>" by simp_all
    show ?thesis
    proof (cases "enc \<and> direction m = kOnlySend")
      case True
      have "con (free_message a ?u) = con ?u" by (simp add: free_message_def)
      with free_message_inv [OF inv a fresh(1) _ _ _ _ _ _ fresh(2)] OnWrite_step [of "free_message a ?u" writes] 4 True d enc dir
      show ?thesis
        by (auto simp: HandleIoMessageEvent_def async_EncodeMsg_def deref_def directions)
    next
      case notsend: False
      show ?thesis
      proof (cases "enc \<and> registery w (sequence_id m) = None")
        case True
        with notsend dir have req: "direction m = kOutgoingRequest" by auto
        obtain i h where add: "AddTimer now (ucast (timeout_ms (con w))) (seq_timer_data a w) (seq_timers w) = (i, h)" by fastforce
        have i: "0 < i" "i < 2 ^ 64" using ok by (simp_all add: add)
        from seq_Put_ok [OF inv a fresh(1) req hb _ _ _ _ _ _ _ fresh(2) clock add i] True obtain v' n where
          v': "seq_Put now a ?u = yields (0, v')" "async_inv v'" "pending v' = add_mset (ident m) (pending w)" "answered v' = answered w"
            "store v' a = Some n" "direction n = direction m" by auto
        from OnWrite_step [OF v'(2), of writes] 4 True notsend d enc v' req show ?thesis
          by (simp add: HandleIoMessageEvent_def async_EncodeMsg_def deref_def directions)
      next
        case False
        have "run_bind (async_EncodeMsg Encode now a ?v) (\<lambda>(r, w1). if r \<noteq> 0 then HandleIoMessageFailed a w1 else X w1) =
            HandleIoMessageFailed a ?u" for X
          using 4 False notsend d enc by (auto simp: async_EncodeMsg_def seq_Put_def deref_def Let_def)
        with refused [of out] 4 d show ?thesis by (simp add: HandleIoMessageEvent_def)
      qed
    qed
  next
    case 1
    with d dir have "HandleIoMessageEvent Encode now a writes ?v = HandleIoMessageFailed a ?v"
      by (auto simp: HandleIoMessageEvent_def)
    with refused [of "outbuf (con w)"] same show ?thesis by simp
  next
    case 2
    with d have "HandleIoMessageEvent Encode now a writes ?v = HandleIoMessageFailed a ?v"
      by (auto simp: HandleIoMessageEvent_def)
    with refused [of "outbuf (con w)"] same show ?thesis by simp
  next
    case 3
    with d have "HandleIoMessageEvent Encode now a writes ?v = HandleIoMessageFailed a ?v"
      by (auto simp: HandleIoMessageEvent_def async_EncodeMsg_def)
    with refused [of "outbuf (con w)"] same show ?thesis by simp
  qed
qed


text \<open>Only the timers may change.\<close>

lemma fewer_timers:
  assumes "async_inv w" "timer_inv h" "\<And>i td. heap_map h i = Some td \<Longrightarrow> heap_map (seq_timers w) i = Some td"
  shows "async_inv (w\<lparr>seq_timers := h\<rparr>)" "pending (w\<lparr>seq_timers := h\<rparr>) = pending w" "answered (w\<lparr>seq_timers := h\<rparr>) = answered w"
  using assms by (auto simp: async_inv_def waiting_def thread_ok_def reconnect_ok_def service_ok_def pending_def answered_def)

lemma to_service_timers: "to_service m w = yields w' \<Longrightarrow> seq_timers w' = seq_timers w"
  by (cases "SendToServiceHandle m (id_hs w) (service_queues w)") (auto simp: to_service_def)

text \<open>A due timer: its request gives up, and the callback leaves the other timers to the Pop.\<close>

lemma async_callback_fires:
  assumes inv: "async_inv w" and top: "Top (seq_timers w) = Some td"
  shows "\<exists>i w'. heap_map (seq_timers w) i = Some td \<and> async_callback now self td (yields w) (seq_timers w) = (yields w', seq_timers w') \<and>
     async_inv w' \<and> pending w' + answered w' = pending w + answered w \<and> heap_map (seq_timers w') = (heap_map (seq_timers w))(i := None)"
proof -
  have tinv: "timer_inv (seq_timers w)" using inv by (simp add: async_inv_def)
  from timer_Pop [OF tinv top] obtain i where i: "heap_map (seq_timers w) i = Some td" by blast
  then obtain m where m: "store w (function_data td) = Some m" "unat (timer_out_id m) = i" using inv by (simp add: async_inv_def) blast
  have "timer_left w m" using m(2) i by (simp add: timer_left_def)
  from seq_OnTimer_gives_up [OF inv m(1) this, of now self] obtain w1 w' where
    w1: "taken w (function_data td) m w1" and
    w': "to_service (m\<lparr>status := kStatusTimeout\<rparr>) (free_message (function_data td) w1) = yields w'"
      "seq_OnTimer now self (function_data td) w = yields w'" "async_inv w'"
      "pending w = add_mset (ident m) (pending w')" "answered w' = add_mset (ident m) (answered w)" by blast
  have "heap_map (seq_timers w') = (heap_map (seq_timers w))(i := None)"
    using w1 to_service_timers [OF w'(1)] m(2) by (simp add: taken_def free_message_def)
  moreover have "w\<lparr>seq_timers := seq_timers w\<rparr> = w" by simp
  then have "async_callback now self td (yields w) (seq_timers w) = (yields w', seq_timers w')"
    using w'(2) by (simp add: async_callback_def)
  ultimately show ?thesis using i w'(3-5) by (intro exI [of _ i] exI [of _ w']) simp
qed

text \<open>The callback puts the heap it is given in place of that of the state.\<close>

lemma async_callback_heap: "async_callback now self td (yields w) h = async_callback now self td (yields (w\<lparr>seq_timers := h\<rparr>)) h"
  by (simp add: async_callback_def)

lemma accounts_timers [simp]: "pending (w\<lparr>seq_timers := h\<rparr>) = pending w" "answered (w\<lparr>seq_timers := h\<rparr>) = answered w"
  by (simp_all add: pending_def answered_def)

lemma async_Fire:
  "async_inv (w\<lparr>seq_timers := h\<rparr>) \<Longrightarrow> \<exists>w' h'. process_loop (async_callback now self) now (yields w) h = Some (yields w', h') \<and>
     async_inv (w'\<lparr>seq_timers := h'\<rparr>) \<and> pending w' + answered w' = pending w + answered w"
proof (induction "card (dom (heap_map h))" arbitrary: w h rule: less_induct)
  case less
  let ?cb = "async_callback now self" and ?v = "w\<lparr>seq_timers := h\<rparr>"
  note inv = less.prems
  have tinv: "timer_inv h" using inv by (simp add: async_inv_def)
  show ?case
  proof (cases "\<exists>td. Top h = Some td \<and> due now td")
    case False
    then have "process_loop ?cb now (yields w) h = Some (yields w, h)" by (subst process_loop.simps) (auto split: option.splits)
    with inv show ?thesis by blast
  next
    case True
    then obtain td where td: "Top h = Some td" "due now td" by blast
    then have "Top (seq_timers ?v) = Some td" by simp
    from async_callback_fires [OF inv this, of now self] obtain i w1 where
      i: "heap_map h i = Some td" "?cb td (yields w) h = (yields w1, seq_timers w1)"
        "async_inv w1" "pending w1 + answered w1 = pending w + answered w" "heap_map (seq_timers w1) = (heap_map h)(i := None)"
      unfolding async_callback_heap [of now self td w h] by auto
    define h1 where "h1 = seq_timers w1"
    have w1: "w1\<lparr>seq_timers := h1\<rparr> = w1" by (simp add: h1_def)
    have h1: "timer_inv h1" "heap_map h1 = (heap_map h)(i := None)" using i(3,5) by (simp_all add: h1_def async_inv_def)
    show ?thesis
    proof (cases "Top h1")
      case None
      then have empty: "num_items h1 = 0" by (simp add: Top_def split: if_splits)
      have "process_loop ?cb now (yields w1) h1 = Some (yields w1, h1)" by (subst process_loop.simps) (simp add: None)
      then have "process_loop ?cb now (yields w) h = Some (yields w1, h1)"
        by (subst process_loop.simps) (simp add: td i(2) h1_def [symmetric] Pop_none [OF empty])
      with i(3,4) show ?thesis by (intro exI [of _ w1] exI [of _ h1]) (simp add: w1)
    next
      case (Some v)
      from timer_Pop [OF h1(1) Some] obtain k h2 where
        k: "Pop timer_less h1 = Some (k, h2)" "timer_inv h2" "heap_map h2 = (heap_map h1)(k := None)" by blast
      have "\<And>j t. heap_map h2 j = Some t \<Longrightarrow> heap_map (seq_timers w1) j = Some t" by (simp add: k(3) h1_def split: if_splits)
      from fewer_timers(1) [OF i(3) k(2) this] have w2: "async_inv (w1\<lparr>seq_timers := h2\<rparr>)" .
      have "dom (heap_map h2) \<subset> dom (heap_map h)" using i(1) by (auto simp: k(3) h1(2) split: if_splits)
      moreover have "finite (dom (heap_map h))" by (rule by_feature.hq.fin [OF timer_heap_inv [OF tinv]])
      ultimately have "card (dom (heap_map h2)) < card (dom (heap_map h))" by (intro psubset_card_mono)
      from less.hyps [OF this w2] obtain w' h' where
        w': "process_loop ?cb now (yields w1) h2 = Some (yields w', h')"
          "async_inv (w'\<lparr>seq_timers := h'\<rparr>)" "pending w' + answered w' = pending w1 + answered w1" by blast
      have "process_loop ?cb now (yields w) h = Some (yields w', h')"
        by (subst process_loop.simps) (simp add: td i(2) h1_def [symmetric] k(1) w'(1))
      with w'(2,3) i(4) show ?thesis by (intro exI [of _ w'] exI [of _ h']) simp
    qed
  qed
qed

lemma async_step:
  assumes "async_inv w" "op_ok Encode self op w"
  shows "\<exists>w'. async_exec Encode self op w = yields w' \<and> async_inv w' \<and> pending w' + answered w' = pending w + answered w + submitted op"
proof (cases op)
  case (Submit now a m writes)
  with async_Submit [OF assms(1), of Encode self now a m writes] assms(2) show ?thesis by simp
next
  case (Response now msg)
  with async_Response [OF assms(1), of Encode self now msg] assms(2) show ?thesis by simp
next
  case (Fire now)
  have "timer_inv (seq_timers w)" using assms(1) by (simp add: async_inv_def)
  note loop = ProcessTimer_loop(1) [OF this, of "async_callback now self" now "yields w"]
  have "w\<lparr>seq_timers := seq_timers w\<rparr> = w" by simp
  with assms(1) have "async_inv (w\<lparr>seq_timers := seq_timers w\<rparr>)" by simp
  from async_Fire [OF this, of now self] obtain w' h where
    w': "process_loop (async_callback now self) now (yields w) (seq_timers w) = Some (yields w', h)"
      "async_inv (w'\<lparr>seq_timers := h\<rparr>)" "pending w' + answered w' = pending w + answered w" by blast
  with loop Fire show ?thesis by simp
next
  case (Close now)
  with async_Close [OF assms(1), of Encode self now] assms(2) show ?thesis by auto
qed

section \<open>Runs\<close>

fun run_ops :: "encoder \<Rightarrow> nat \<Rightarrow> async_op list \<Rightarrow> async_world \<Rightarrow> async_world run" where
  "run_ops Encode self [] w = yields w"
| "run_ops Encode self (op # ops) w = run_bind (async_exec Encode self op w) (run_ops Encode self ops)"

fun ops_ok :: "encoder \<Rightarrow> nat \<Rightarrow> async_op list \<Rightarrow> async_world \<Rightarrow> bool" where
  "ops_ok Encode self [] w = True"
| "ops_ok Encode self (op # ops) w =
     (op_ok Encode self op w \<and>
      (case async_exec Encode self op w of Some (Inr w') \<Rightarrow> ops_ok Encode self ops w' | _ \<Rightarrow> True))"

definition async_start :: "unit client_connect \<Rightarrow> nat \<Rightarrow> nat \<Rightarrow> reconnect_thread \<Rightarrow> async_world" where
  "async_start c threads handles r =
     \<lparr>con = c, registery = Map.empty, seq_list = [], seq_timers = timer_new \<lparr>time_out_ms = 0, time_proc = None, function_data = 0, coro_id = -1\<rparr>,
      io_threads = threads, store = Map.empty, service_queues = replicate handles [], id_hs = 0, reconnect = r\<rparr>"

lemma async_inv_start:
  assumes "0 \<le> register_thread_id c" "register_thread_id c < int threads" "0 < handles" "handles < 2 ^ 31"
    and "timer_inv (re_timer r)" "heartbeat_timer c = 0" "reconnect_timer c = 0"
  shows "async_inv (async_start c threads handles r)"
  using assms timer_inv_new [of "\<lparr>time_out_ms = 0, time_proc = None, function_data = 0 :: nat, coro_id = -1\<rparr> :: (unit, nat) timer_data"]
  by (simp add: async_inv_def async_start_def thread_ok_def service_ok_def reconnect_ok_def)

text \<open>C20. A connected asynchronous client, whatever requests, one-way messages, responses, turns of the I/O thread's timers (each
  the whole of ProcessTimer, with the Pop behind OnTimer) and closes come in whatever order, as long as no answer and no
  close comes for a request whose timer that Pop took away (\<open>timeout_strands_other_request\<close>) while other timers are pending:
  no step touches a message that was handed over or destroyed, every timer that is pending belongs to a request that is still waiting, and every request
  that was submitted is either waiting, once, or was answered exactly once, under its own sequence id, coroutine and handler.\<close>

theorem async_requests_answered_once:
  assumes "async_inv w" "ops_ok Encode self ops w"
  shows "\<exists>w'. run_ops Encode self ops w = yields w' \<and> async_inv w' \<and>
     pending w' + answered w' = pending w + answered w + sum_list (map submitted ops)"
  using assms
proof (induction ops arbitrary: w)
  case (Cons op ops)
  from async_step [OF Cons.prems(1), of Encode self op] Cons.prems(2) obtain w1 where
    w1: "async_exec Encode self op w = yields w1" "async_inv w1" "pending w1 + answered w1 = pending w + answered w + submitted op" by auto
  from Cons.IH [OF w1(2)] Cons.prems(2) w1(1) obtain w' where
    "run_ops Encode self ops w1 = yields w'" "async_inv w'"
    "pending w' + answered w' = pending w1 + answered w1 + sum_list (map submitted ops)" by auto
  with w1 show ?case by (simp add: add.assoc)
qed simp


lemma AddTimer_first: "fst (AddTimer cur after d (timer_new v0)) = 2"
  by (simp add: AddTimer_def Insert_def timer_new_def InitHeap_def heap_new_def Let_def up_loop.simps)

definition connected_client :: "unit client_connect" where
  "connected_client = (ClientConnect_new () 500 0)\<lparr>con_fd := 7, con_status := kConnected, register_thread_id := 0\<rparr>"

definition sample_world :: async_world where
  "sample_world = async_start connected_client 1 2
     \<lparr>is_running = True, re_timer = timer_new \<lparr>time_out_ms = 0, time_proc = None, function_data = 0, coro_id = -1\<rparr>\<rparr>"

definition request :: "u64 \<Rightarrow> message" where
  "request sid = RapidMessage_new\<lparr>direction := kOutgoingRequest, sequence_id := sid, descriptor_id := 42, birthtime := 1000\<rparr>"

definition take_all :: encoder where
  "take_all m b = Some (True, b)"

lemma sample_world_inv: "async_inv sample_world"
  unfolding sample_world_def
  by (rule async_inv_start) (simp_all add: connected_client_def ClientConnect_new_def timer_inv_new)

lemma submit_sample_ok: "op_ok take_all self (Submit 1000 1 (request 9) ws) sample_world"
  by (simp add: sample_world_def async_start_def request_def RapidMessage_new_def message_new_def take_all_def AddTimer_first
      connected_client_def ClientConnect_new_def kinds)

section \<open>A time-out takes another request's timer away\<close>

text \<open>The request whose timer fires takes itself out of the timers, and ProcessTimer then takes out the next one: of
  two waiting requests one of which is due, the due one gives up and the other stays waiting with no
  timer left. However late it gets, ProcessTimer never gives it up.\<close>

lemma timeout_strands_other_request:
  assumes "async_inv w" "Top (seq_timers w) = Some td" "due now td" "card (dom (heap_map (seq_timers w))) = 2"
  shows "\<exists>w' h' b m. ProcessTimer (async_callback now self) now (yields w) (seq_timers w) = Some (yields w', h') \<and>
     store w' b = Some m \<and> registery w' (sequence_id m) = Some b \<and> heap_map h' = Map.empty \<and>
     (\<forall>later. ProcessTimer (async_callback later self) later (yields w') h' = Some (yields w', h'))"
proof -
  let ?h = "seq_timers w"
  have inv: "timer_inv ?h" using assms(1) by (simp add: async_inv_def)
  from async_callback_fires [OF assms(1,2), of now self] obtain i w' where
    i: "heap_map ?h i = Some td" "async_callback now self td (yields w) ?h = (yields w', seq_timers w')"
      "async_inv w'" "heap_map (seq_timers w') = (heap_map ?h)(i := None)" by blast
  define h1 where "h1 = seq_timers w'"
  have h1: "timer_inv h1" "heap_map h1 = (heap_map ?h)(i := None)" using i(3,4) by (simp_all add: h1_def async_inv_def)
  have fin: "finite (dom (heap_map ?h))" using assms(4) by (metis card.infinite zero_neq_numeral)
  then have "card (dom (heap_map h1)) = 1" using assms(4) i(1) by (simp add: h1(2) domIff)
  then obtain k where k: "dom (heap_map h1) = {k}" by (auto simp: card_1_singleton_iff)
  then have "Top h1 \<noteq> None" using by_feature.hq.top_none [OF timer_heap_inv [OF h1(1)]] by auto
  then obtain v where v: "Top h1 = Some v" by blast
  from timer_Pop [OF h1(1) v] obtain j h2 where
    j: "Pop timer_less h1 = Some (j, h2)" "timer_inv h2" "heap_map h1 j = Some v" "heap_map h2 = (heap_map h1)(j := None)" by blast
  have "j = k" using k j(3) by auto
  then have empty: "heap_map h2 = Map.empty" using k by (simp add: j(4)) (metis Diff_cancel dom_eq_empty_conv dom_fun_upd)
  then have none: "Top h2 = None" using by_feature.hq.top_none [OF timer_heap_inv [OF j(2)]] by simp
  then have stop: "process_loop cb later x h2 = Some (x, h2)" for cb later and x :: "async_world run" by (subst process_loop.simps) simp
  have run: "ProcessTimer (async_callback now self) now (yields w) ?h = Some (yields w', h2)"
    unfolding ProcessTimer_loop(1) [OF inv] by (subst process_loop.simps) (simp add: assms(2,3) i(2) h1_def [symmetric] j(1) stop)
  from i(3) j(3) obtain n where n: "store w' (function_data v) = Some n"
    unfolding h1_def by (simp add: async_inv_def) blast
  then have "registery w' (sequence_id n) = Some (function_data v)" using i(3) by (simp add: async_inv_def waiting_def)
  with run n empty show ?thesis
    by (intro exI [of _ w'] exI [of _ h2] exI [of _ "function_data v"] exI [of _ n]) (simp add: ProcessTimer_loop(1) [OF j(2)] stop)
qed

subsection \<open>Two requests, one due\<close>

definition request_timer :: "nat \<Rightarrow> (unit, nat) timer_data" where
  "request_timer a = \<lparr>time_out_ms = 0, time_proc = Some (), function_data = a, coro_id = -1\<rparr>"

lemma AddTimer_second: "fst (AddTimer c2 a2 d2 (snd (AddTimer c1 a1 d1 (timer_new v0)))) = 3"
  by (simp add: AddTimer_def Insert_def timer_new_def InitHeap_def heap_new_def Let_def up_loop.simps put_node_def split: prod.split)

lemma two_waiting:
  "\<exists>w td. async_inv w \<and> Top (seq_timers w) = Some td \<and> due 1600 td \<and> card (dom (heap_map (seq_timers w))) = 2 \<and>
     pending w + answered w = {#(1, -1, -1), (2, -1, -1)#} \<and> op_ok Encode 42 (Response 1500 (request 1)) w"
proof -
  let ?v0 = "\<lparr>time_out_ms = 0, time_proc = None, function_data = 0 :: nat, coro_id = -1\<rparr> :: (unit, nat) timer_data"
  obtain i h1 where a1: "AddTimer 1000 500 (request_timer 10) (timer_new ?v0) = (i, h1)" by fastforce
  obtain j h2 where a2: "AddTimer 1400 500 (request_timer 20) h1 = (j, h2)" by fastforce
  have ids: "i = 2" "j = 3" using AddTimer_first [of 1000 500 "request_timer 10" ?v0] AddTimer_second [of 1400 500 "request_timer 20" 1000 500 "request_timer 10" ?v0]
    by (simp_all add: a1 a2)
  note new = timer_inv_new [of ?v0]
  have h1: "timer_inv h1" "heap_map h1 = [2 \<mapsto> (request_timer 10)\<lparr>time_out_ms := 1500\<rparr>]"
    using timer_inv_AddTimer [OF conjunct1 [OF new] _ _ a1] new by (simp_all add: request_timer_def ids)
  have h2: "timer_inv h2" "heap_map h2 = [2 \<mapsto> (request_timer 10)\<lparr>time_out_ms := 1500\<rparr>, 3 \<mapsto> (request_timer 20)\<lparr>time_out_ms := 1900\<rparr>]"
    using timer_inv_AddTimer [OF h1(1) _ _ a2] by (simp_all add: request_timer_def h1(2) ids)
  have "heap_map h2 \<noteq> Map.empty" by (simp add: h2(2))
  then obtain v where v: "Top h2 = Some v" using by_feature.hq.top_none [OF timer_heap_inv [OF h2(1)]] by fastforce
  have "\<not> timer_less ((request_timer 10)\<lparr>time_out_ms := 1500\<rparr>) v"
    using by_feature.hq.top_least [OF timer_heap_inv [OF h2(1)] v, of 2] by (simp add: h2(2))
  moreover have "v = (request_timer 10)\<lparr>time_out_ms := 1500\<rparr> \<or> v = (request_timer 20)\<lparr>time_out_ms := 1900\<rparr>"
    using timer_Pop [OF h2(1) v] by (auto simp: h2(2) split: if_splits)
  ultimately have v: "Top h2 = Some ((request_timer 10)\<lparr>time_out_ms := 1500\<rparr>)"
    using v by (auto simp: Compare_def GetTimeOut_def request_timer_def)
  define w where "w = sample_world\<lparr>registery := [1 \<mapsto> 10, 2 \<mapsto> 20], seq_list := [10, 20], seq_timers := h2,
      store := [10 \<mapsto> (request 1)\<lparr>timer_out_id := 2\<rparr>, 20 \<mapsto> (request 2)\<lparr>timer_out_id := 3\<rparr>]\<rparr>"
  have "thread_ok w \<and> service_ok w \<and> reconnect_ok w"
    using sample_world_inv by (simp add: w_def async_inv_def thread_ok_def service_ok_def reconnect_ok_def)
  moreover have "sequence_id (request k) = k" "direction (request k) = kOutgoingRequest" "type_id (request k) \<noteq> kHeartBeatMessage" for k
    by (simp_all add: request_def RapidMessage_new_def message_new_def kinds)
  ultimately have "async_inv w"
    using h2 by (auto simp: async_inv_def waiting_def w_def request_timer_def split: if_splits)
  moreover have "dom (heap_map h2) = {2, 3}" by (auto simp: h2(2))
  moreover have "pending w + answered w = {#(1, -1, -1), (2, -1, -1)#}"
    by (simp add: w_def pending_def answered_def ident_def request_def RapidMessage_new_def message_new_def sample_world_def async_start_def)
  moreover have "op_ok Encode 42 (Response 1500 (request 1)) w"
    using h2(2) by (simp add: w_def timer_left_def request_def RapidMessage_new_def message_new_def)
  ultimately show ?thesis using v
    by (intro exI [of _ w] exI [of _ "(request_timer 10)\<lparr>time_out_ms := 1500\<rparr>"]) (simp add: w_def due_def request_timer_def)
qed

lemma timeout_strands_other_request_witness:
  "\<exists>w w' h' b m. ProcessTimer (async_callback 1600 42) 1600 (yields w) (seq_timers w) = Some (yields w', h') \<and>
     store w' b = Some m \<and> heap_map h' = Map.empty"
proof -
  from two_waiting obtain w td where w: "async_inv w" "Top (seq_timers w) = Some td" "due 1600 td" "card (dom (heap_map (seq_timers w))) = 2"
    by blast
  from timeout_strands_other_request [OF w, of 42] show ?thesis by blast
qed

text \<open>
  A request that times out; two requests of which the first is answered and the second times out; and the same two when the first
  times out, taking the timer of the second away.
\<close>

theorem async_requests_answered_once_witness:
  "(\<exists>w'. run_ops take_all 42 [Submit 1000 1 (request 9) [], Fire 3000] sample_world = yields w' \<and>
     async_inv w' \<and> pending w' + answered w' = {#(9, -1, -1)#}) \<and>
   (\<exists>w w' w''. run_ops take_all 42 [Response 1500 (request 1), Fire 1600, Fire 5000] w = yields w' \<and>
     run_ops take_all 42 [Fire 1600, Fire 5000] w = yields w'' \<and> async_inv w' \<and> async_inv w'' \<and>
     pending w' + answered w' = {#(1, -1, -1), (2, -1, -1)#} \<and> pending w'' + answered w'' = {#(1, -1, -1), (2, -1, -1)#})"
proof
  have "ops_ok take_all 42 [Submit 1000 1 (request 9) [], Fire 3000] sample_world"
    using submit_sample_ok by (auto split: option.split sum.split simp del: op_ok.simps(1))
  from async_requests_answered_once [OF sample_world_inv this]
  show "\<exists>w'. run_ops take_all 42 [Submit 1000 1 (request 9) [], Fire 3000] sample_world = yields w' \<and>
     async_inv w' \<and> pending w' + answered w' = {#(9, -1, -1)#}"
    by (simp add: sample_world_def async_start_def pending_def answered_def request_def RapidMessage_new_def message_new_def ident_def)
next
  from two_waiting [of take_all] obtain w where
    w: "async_inv w" "pending w + answered w = {#(1, -1, -1), (2, -1, -1)#}" "op_ok take_all 42 (Response 1500 (request 1)) w" by blast
  then have "ops_ok take_all 42 [Response 1500 (request 1), Fire 1600, Fire 5000] w"
    by (auto split: option.split sum.split simp del: op_ok.simps(2))
  from async_requests_answered_once [OF w(1) this] w(2) obtain w' where
    first: "run_ops take_all 42 [Response 1500 (request 1), Fire 1600, Fire 5000] w = yields w'" "async_inv w'"
      "pending w' + answered w' = {#(1, -1, -1), (2, -1, -1)#}" by auto
  have "ops_ok take_all 42 [Fire 1600, Fire 5000] w" by (auto split: option.split sum.split)
  from async_requests_answered_once [OF w(1) this] w(2) obtain w'' where
    "run_ops take_all 42 [Fire 1600, Fire 5000] w = yields w''" "async_inv w''"
      "pending w'' + answered w'' = {#(1, -1, -1), (2, -1, -1)#}" by auto
  with first show "\<exists>w w' w''. run_ops take_all 42 [Response 1500 (request 1), Fire 1600, Fire 5000] w = yields w' \<and>
     run_ops take_all 42 [Fire 1600, Fire 5000] w = yields w'' \<and> async_inv w' \<and> async_inv w'' \<and>
     pending w' + answered w' = {#(1, -1, -1), (2, -1, -1)#} \<and> pending w'' + answered w'' = {#(1, -1, -1), (2, -1, -1)#}" by blast
qed

end
