(* ===== verification/Sync_Client.thy ===== *)
theory Sync_Client
  imports Async_Client
begin

text \<open>
  The client of a protocol that answers in order: src/src/net/sync\_sequence.cpp and
  sync\_client\_connect.cpp, on the state of Async\_Client (its registry is not used). The responses carry no id: the oldest
  waiting request is the one that is answered. \<open>single\<close> is sigle\_send\_sigle\_recv\_.
\<close>

section \<open>The sequence of waiting requests\<close>

definition SetBuzy :: "bool \<Rightarrow> bool \<Rightarrow> async_world \<Rightarrow> async_world" where
  "SetBuzy single b w = (if \<not> single then w else w\<lparr>con := (con w)\<lparr>is_buzy := b\<rparr>\<rparr>)"

definition TrySetBuzy :: "bool \<Rightarrow> async_world \<Rightarrow> bool \<times> async_world" where
  "TrySetBuzy single w =
     (if \<not> single then (True, w) else if is_buzy (con w) then (False, w) else (True, w\<lparr>con := (con w)\<lparr>is_buzy := True\<rparr>\<rparr>))"

text \<open>The timer's data is a null pointer; any of these timers closes the connection.\<close>

definition sync_Put :: "u64 \<Rightarrow> nat \<Rightarrow> async_world \<Rightarrow> (int \<times> async_world) run" where
  "sync_Put now a w =
     run_bind (deref a w) (\<lambda>m.
       case seq_StartTimer now 0 (w\<lparr>seq_list := seq_list w @ [a]\<rparr>) of
         (i, w1) \<Rightarrow> yields (0, w1\<lparr>store := (store w1)(a \<mapsto> m\<lparr>timer_out_id := i\<rparr>)\<rparr>))"

definition sync_Get :: "async_world \<Rightarrow> (nat option \<times> async_world) run" where
  "sync_Get w =
     (case seq_list w of
        [] \<Rightarrow> yields (None, w)
      | front # others \<Rightarrow>
          let w1 = w\<lparr>seq_list := others\<rparr>
          in run_bind (deref front w1) (\<lambda>m.
             if timer_out_id m > 0 then run_bind (seq_CancelTimer (timer_out_id m) w1) (\<lambda>w2. yields (Some front, w2))
             else yields (Some front, w1)))"

definition sync_Clear :: "async_world \<Rightarrow> nat list \<times> async_world" where
  "sync_Clear w = (seq_list w, w\<lparr>seq_list := []\<rparr>)"

text \<open>
  The loop reads \<open>clear_list.front()\<close> once more than there are messages, on an empty list; the value
  is not used. Its body is that of the asynchronous client.
\<close>

definition sync_CleanSequenceQueue :: "async_world \<Rightarrow> async_world run" where
  "sync_CleanSequenceQueue w = (case sync_Clear w of (clear_list, w1) \<Rightarrow> send_back_all clear_list w1)"

definition CleanSyncClient :: "bool \<Rightarrow> async_world \<Rightarrow> async_world" where
  "CleanSyncClient single w =
     SetBuzy single False (if con_status (con w) = kConnected then w\<lparr>con := CleanClient (con w)\<rparr> else w)"

definition sync_OnTimer :: "bool \<Rightarrow> u64 \<Rightarrow> nat \<Rightarrow> async_world \<Rightarrow> async_world run" where
  "sync_OnTimer single now self w =
     run_bind (sync_CleanSequenceQueue w) (\<lambda>w1.
       case CancelTimer (con w1) (reconnect w1) of
         None \<Rightarrow> None
       | Some (c, r) \<Rightarrow>
           let w2 = CleanSyncClient single (w1\<lparr>con := c, reconnect := r\<rparr>)
           in (case StartReconnectTimer now self (con w2) (reconnect w2) of (_, c', r') \<Rightarrow> yields (w2\<lparr>con := c', reconnect := r'\<rparr>)))"

section \<open>Messages in and out\<close>

definition sync_OnDecodeMessage :: "u64 \<Rightarrow> nat \<Rightarrow> message \<Rightarrow> async_world \<Rightarrow> async_world run" where
  "sync_OnDecodeMessage now self msg w =
     run_bind (sync_Get w) (\<lambda>(keeper, w1).
       case keeper of
         None \<Rightarrow> yields w1
       | Some a \<Rightarrow>
           run_bind (deref a w1) (\<lambda>k.
             if type_id k = kHeartBeatMessage \<or> direction k = kSendNoCareResponse \<or> direction k = kOnlySend
             then yields (free_message a w1)
             else to_service (answer_of now (int self) k msg) (free_message a w1)))"

definition sync_EncodeMsg :: "encoder \<Rightarrow> bool \<Rightarrow> u64 \<Rightarrow> nat \<Rightarrow> async_world \<Rightarrow> (int \<times> async_world) run" where
  "sync_EncodeMsg Encode single now a w =
     (if con_status (con w) \<noteq> kConnected then yields (-1, SetBuzy single False w)
      else run_bind (deref a w) (\<lambda>m.
        case Encode m (outbuf (con w)) of
          None \<Rightarrow> None
        | Some (ok, out) \<Rightarrow>
            let w1 = w\<lparr>con := (con w)\<lparr>outbuf := out\<rparr>\<rparr>
            in if \<not> ok then yields (-2, SetBuzy single False w1)
               else run_bind (sync_Put now a w1) (\<lambda>(r, w2). if r \<noteq> 0 then yields (-3, SetBuzy single False w2) else yields (0, w2))))"

definition sync_HandleIoMessageEvent ::
    "encoder \<Rightarrow> bool \<Rightarrow> u64 \<Rightarrow> nat \<Rightarrow> write_result list \<Rightarrow> async_world \<Rightarrow> async_world run" where
  "sync_HandleIoMessageEvent Encode single now a writes w =
     run_bind (deref a w) (\<lambda>m.
       if (direction m = kOnlySend \<or> direction m = kOutgoingRequest) \<and> now - birthtime m > INNER_QUERY_SEND_PROTECT_TIME
       then HandleIoMessageFailed a w
       else if descriptor_id m = 0 then HandleIoMessageFailed a w
       else run_bind (sync_EncodeMsg Encode single now a w) (\<lambda>(r, w1).
              if r \<noteq> 0 then HandleIoMessageFailed a w1
              else run_bind (deref a w1) (\<lambda>m1.
                let w2 = (if direction m1 = kOnlySend \<or> direction m1 = kOutgoingResponse then free_message a w1 else w1)
                in yields (w2\<lparr>con := snd (OnWrite writes (con w2))\<rparr>))))"

text \<open>DecodeMsg decodes only while a request waits; bytes beyond the last answer stay in the buffer.\<close>

partial_function (option) sync_decode_loop ::
    "(char buffer, message) decoder \<Rightarrow> u64 \<Rightarrow> nat \<Rightarrow> async_world \<Rightarrow> (bool \<times> async_world) run" where
  "sync_decode_loop Decode now self w =
     (if seq_list w = [] then yields (False, w)
      else (case Decode (inbuf (con w)) False of
              Inl e \<Rightarrow> Some (Inl e)
            | Inr (msg, b, failed) \<Rightarrow>
                let w1 = w\<lparr>con := (con w)\<lparr>inbuf := b\<rparr>\<rparr>
                in if failed then yields (True, w1)
                   else (case msg of
                           None \<Rightarrow> yields (False, w1)
                         | Some m \<Rightarrow>
                             (case sync_OnDecodeMessage now self m w1 of
                                None \<Rightarrow> None
                              | Some (Inl e) \<Rightarrow> Some (Inl e)
                              | Some (Inr w2) \<Rightarrow> sync_decode_loop Decode now self w2))))"

definition sync_DecodeMsg :: "(char buffer, message) decoder \<Rightarrow> bool \<Rightarrow> u64 \<Rightarrow> nat \<Rightarrow> async_world \<Rightarrow> (int \<times> async_world) run" where
  "sync_DecodeMsg Decode single now self w =
     run_bind (sync_decode_loop Decode now self w) (\<lambda>(failed, w'). yields (if failed then -1 else 0, SetBuzy single False w'))"

section \<open>Invariant and abstraction\<close>

definition sync_waiting :: "async_world \<Rightarrow> message \<Rightarrow> bool" where
  "sync_waiting w m \<longleftrightarrow> (direction m = kOutgoingRequest \<or> direction m = kSendNoCareResponse) \<and> type_id m \<noteq> kHeartBeatMessage \<and>
     timer_out_id m > 0 \<and> heap_map (seq_timers w) (unat (timer_out_id m)) \<noteq> None"

definition sync_inv :: "async_world \<Rightarrow> bool" where
  "sync_inv w \<longleftrightarrow> timer_inv (seq_timers w) \<and> thread_ok w \<and> service_ok w \<and> reconnect_ok w \<and>
     distinct (seq_list w) \<and> set (seq_list w) = dom (store w) \<and>
     (\<forall>a m. store w a = Some m \<longrightarrow> sync_waiting w m) \<and>
     (\<forall>a b m n. store w a = Some m \<longrightarrow> store w b = Some n \<longrightarrow> timer_out_id m = timer_out_id n \<longrightarrow> a = b)"

text \<open>The waiting line: who waits, in the order of the answers, and whether the answer is wanted.\<close>

definition line :: "async_world \<Rightarrow> ((u64 \<times> int \<times> int) \<times> bool) list" where
  "line w = map (\<lambda>a. let m = the (store w a) in (ident m, direction m = kOutgoingRequest)) (seq_list w)"

text \<open>A due timer is fired by ProcessTimer, which pops the heap behind OnTimer.\<close>

definition popped :: "async_world \<Rightarrow> async_world run" where
  "popped w = map_option (\<lambda>(_, h). Inr (w\<lparr>seq_timers := h\<rparr>)) (Pop timer_less (seq_timers w))"

datatype sync_op =
    Sync_Submit u64 nat message "write_result list"
  | Sync_Response u64 message
  | Sync_Timeout u64

fun sync_exec :: "encoder \<Rightarrow> bool \<Rightarrow> nat \<Rightarrow> sync_op \<Rightarrow> async_world \<Rightarrow> async_world run" where
  "sync_exec Encode single self (Sync_Submit now a m writes) w =
     sync_HandleIoMessageEvent Encode single now a writes (w\<lparr>store := (store w)(a \<mapsto> m)\<rparr>)"
| "sync_exec Encode single self (Sync_Response now msg) w = sync_OnDecodeMessage now self msg w"
| "sync_exec Encode single self (Sync_Timeout now) w = run_bind (sync_OnTimer single now self w) popped"

text \<open>Whether a submitted message is taken.\<close>

definition accepts :: "encoder \<Rightarrow> u64 \<Rightarrow> message \<Rightarrow> async_world \<Rightarrow> bool" where
  "accepts Encode now m w \<longleftrightarrow> \<not> (direction m = kOutgoingRequest \<and> now - birthtime m > INNER_QUERY_SEND_PROTECT_TIME) \<and>
     descriptor_id m \<noteq> 0 \<and> con_status (con w) = kConnected \<and> (\<exists>out. Encode m (outbuf (con w)) = Some (True, out))"

text \<open>The specification: a first-in first-out line and the answers given.\<close>

fun line_step :: "encoder \<Rightarrow> sync_op \<Rightarrow> async_world \<Rightarrow>
    ((u64 \<times> int \<times> int) \<times> bool) list \<times> (u64 \<times> int \<times> int) multiset \<Rightarrow>
    ((u64 \<times> int \<times> int) \<times> bool) list \<times> (u64 \<times> int \<times> int) multiset" where
  "line_step Encode (Sync_Submit now a m writes) w (ln, ans) =
     (if accepts Encode now m w then (ln @ [(ident m, direction m = kOutgoingRequest)], ans)
      else (ln, if direction m = kOutgoingRequest then add_mset (ident m) ans else ans))"
| "line_step Encode (Sync_Response now msg) w (ln, ans) =
     (case ln of [] \<Rightarrow> ([], ans) | (i, wanted) # ln1 \<Rightarrow> (ln1, if wanted then add_mset i ans else ans))"
| "line_step Encode (Sync_Timeout now) w (ln, ans) = ([], mset (map fst ln) + ans)"

fun sync_ok :: "encoder \<Rightarrow> bool \<Rightarrow> nat \<Rightarrow> sync_op \<Rightarrow> async_world \<Rightarrow> bool" where
  "sync_ok Encode single self (Sync_Submit now a m writes) w \<longleftrightarrow>
     store w a = None \<and> (direction m = kOutgoingRequest \<or> direction m = kSendNoCareResponse) \<and> type_id m \<noteq> kHeartBeatMessage \<and>
     Encode m (outbuf (con w)) \<noteq> None \<and> now + ucast (timeout_ms (con w)) < 2 ^ 63 \<and>
     fst (AddTimer now (ucast (timeout_ms (con w))) (seq_timer_data 0 w) (seq_timers w)) \<in> {1 ..< 2 ^ 64}"
| "sync_ok Encode single self (Sync_Timeout now) w \<longleftrightarrow> now + 300 < 2 ^ 63 \<and>
     (case CancelTimer (con w) (reconnect w) of
        None \<Rightarrow> True
      | Some (c, r) \<Rightarrow> fst (AddTimer now 300 (client_timer self kClientTimerTypeReconnect 300) (re_timer r)) \<in> {1 ..< 2 ^ 64})"
| "sync_ok Encode single self _ w \<longleftrightarrow> True"


section \<open>The parts of a step\<close>

text \<open>The oldest request leaves the line.\<close>

lemma line_drop:
  assumes inv: "sync_inv w" and l: "seq_list w = a # as" and a: "store w a = Some m"
    and w': "store w' = (store w)(a := None)" "seq_list w' = as" "con w' = con w" "io_threads w' = io_threads w" "reconnect w' = reconnect w"
      "timer_inv (seq_timers w')" "heap_map (seq_timers w') = (heap_map (seq_timers w))(unat (timer_out_id m) := None)"
    and serv: "service_ok w'"
  shows "sync_inv w'" and "line w = (ident m, direction m = kOutgoingRequest) # line w'"
proof -
  have other: "b \<noteq> a \<and> store w b = Some n \<and> unat (timer_out_id n) \<noteq> unat (timer_out_id m)" if "store w' b = Some n" for b n
  proof -
    have b: "b \<noteq> a" "store w b = Some n" using that w'(1) by (auto split: if_splits)
    then have "timer_out_id n \<noteq> timer_out_id m" using inv a unfolding sync_inv_def by metis
    with b show ?thesis by (auto dest: unsigned_word_eqI)
  qed
  have "sync_waiting w' n" if "store w' b = Some n" for b n
    using other [OF that] inv w'(7) by (auto simp: sync_inv_def sync_waiting_def)
  moreover have "b = c" if "store w' b = Some n" "store w' c = Some k" "timer_out_id n = timer_out_id k" for b c n k
    using other [OF that(1)] other [OF that(2)] that(3) inv unfolding sync_inv_def by metis
  moreover have "distinct (seq_list w')" "set (seq_list w') = dom (store w')" using inv l by (auto simp: sync_inv_def w'(1,2))
  moreover have "thread_ok w'" "reconnect_ok w'" using inv w'(3-5) by (simp_all add: sync_inv_def thread_ok_def reconnect_ok_def)
  ultimately show "sync_inv w'" unfolding sync_inv_def using w'(6) serv by blast
  have "a \<notin> set as" using inv l by (simp add: sync_inv_def)
  then show "line w = (ident m, direction m = kOutgoingRequest) # line w'"
    using a by (simp add: line_def l w'(1,2) Let_def)
qed

lemma cancel_own_timer:
  assumes "sync_inv w" "store w a = Some m" "store v = store w" "seq_timers v = seq_timers w" "con v = con w" "io_threads v = io_threads w"
  shows "\<exists>h. seq_CancelTimer (timer_out_id m) v = yields (v\<lparr>seq_timers := h\<rparr>) \<and> timer_inv h \<and>
     heap_map h = (heap_map (seq_timers w))(unat (timer_out_id m) := None) \<and> timer_out_id m > 0"
proof -
  have "timer_inv (seq_timers v)" "thread_ok v" "sync_waiting w m"
    using assms by (simp_all add: sync_inv_def thread_ok_def)
  with seq_CancelTimer_ok [of v "timer_out_id m"] assms(4) show ?thesis by (auto simp: sync_waiting_def)
qed

lemma sync_con_change:
  assumes "sync_inv w" "register_thread_id c = register_thread_id (con w)" "reconnect_ok (w\<lparr>con := c, reconnect := r\<rparr>)"
  shows "sync_inv (w\<lparr>con := c, reconnect := r\<rparr>)" "line (w\<lparr>con := c, reconnect := r\<rparr>) = line w"
    "answered (w\<lparr>con := c, reconnect := r\<rparr>) = answered w"
  using assms by (auto simp: sync_inv_def sync_waiting_def thread_ok_def service_ok_def line_def answered_def)

lemma sync_Response_ok:
  assumes inv: "sync_inv w"
  shows "\<exists>w'. sync_OnDecodeMessage now self msg w = yields w' \<and> sync_inv w' \<and>
     (line w', answered w') = line_step Encode (Sync_Response now msg) w (line w, answered w)"
proof (cases "seq_list w")
  case Nil
  with inv show ?thesis by (simp add: sync_OnDecodeMessage_def sync_Get_def line_def)
next
  case (Cons a as)
  have "set (seq_list w) = dom (store w)" using inv by (simp add: sync_inv_def)
  then obtain m where m: "store w a = Some m" using Cons by auto
  then have wait: "sync_waiting w m" using inv by (simp add: sync_inv_def)
  from cancel_own_timer [OF inv m, of "w\<lparr>seq_list := as\<rparr>"] obtain h where
    h: "seq_CancelTimer (timer_out_id m) (w\<lparr>seq_list := as\<rparr>) = yields (w\<lparr>seq_list := as, seq_timers := h\<rparr>)" "timer_inv h"
      "heap_map h = (heap_map (seq_timers w))(unat (timer_out_id m) := None)" "timer_out_id m > 0" by auto
  let ?w1 = "w\<lparr>seq_list := as, seq_timers := h\<rparr>"
  have get: "sync_Get w = yields (Some a, ?w1)" using h m by (simp add: sync_Get_def Cons deref_def)
  have d: "deref a ?w1 = yields m" using m by (simp add: deref_def)
  have serv: "service_ok (free_message a ?w1)" using inv by (simp add: sync_inv_def service_ok_def free_message_def)
  have ans: "answered (free_message a ?w1) = answered w" by (simp add: answered_def free_message_def)
  show ?thesis
  proof (cases "direction m = kOutgoingRequest")
    case False
    then have "direction m = kSendNoCareResponse" using wait by (simp add: sync_waiting_def)
    then have run: "sync_OnDecodeMessage now self msg w = yields (free_message a ?w1)" using get d by (simp add: sync_OnDecodeMessage_def)
    have "sync_inv (free_message a ?w1)" "line w = (ident m, direction m = kOutgoingRequest) # line (free_message a ?w1)"
      by (rule line_drop [OF inv Cons m]; use h serv in \<open>simp add: free_message_def\<close>)+
    with run False ans show ?thesis by simp
  next
    case True
    from to_service_ok [OF serv, of "answer_of now (int self) m msg"] obtain i q where
      q: "to_service (answer_of now (int self) m msg) (free_message a ?w1) = yields ((free_message a ?w1)\<lparr>id_hs := i, service_queues := q\<rparr>)"
        "service_ok ((free_message a ?w1)\<lparr>id_hs := i, service_queues := q\<rparr>)"
        "answered ((free_message a ?w1)\<lparr>id_hs := i, service_queues := q\<rparr>) = add_mset (ident m) (answered w)"
      unfolding ans by auto
    let ?w' = "(free_message a ?w1)\<lparr>id_hs := i, service_queues := q\<rparr>"
    have run: "sync_OnDecodeMessage now self msg w = yields ?w'"
      using get d q(1) True wait by (simp add: sync_OnDecodeMessage_def sync_waiting_def directions)
    have "sync_inv ?w'" "line w = (ident m, direction m = kOutgoingRequest) # line ?w'"
      by (rule line_drop [OF inv Cons m]; use h q(2) in \<open>simp add: free_message_def\<close>)+
    with run True q(3) show ?thesis by simp
  qed
qed

lemma sync_send_back_all:
  "sync_inv (w\<lparr>seq_list := as\<rparr>) \<Longrightarrow> seq_list w = [] \<Longrightarrow>
     \<exists>w'. send_back_all as w = yields w' \<and> sync_inv w' \<and> seq_list w' = [] \<and>
       answered w' = mset (map fst (line (w\<lparr>seq_list := as\<rparr>))) + answered w \<and> con w' = con w \<and> reconnect w' = reconnect w"
proof (induction as arbitrary: w)
  case Nil
  then have "w\<lparr>seq_list := []\<rparr> = w" by simp
  with Nil show ?case by (simp add: line_def)
next
  case (Cons a as)
  let ?v = "w\<lparr>seq_list := a # as\<rparr>"
  note inv = Cons.prems(1)
  have "insert a (set as) = dom (store w)" using inv by (simp add: sync_inv_def)
  then obtain m where m: "store w a = Some m" by blast
  then have mv: "store ?v a = Some m" by simp
  then have wait: "sync_waiting ?v m" using inv by (simp add: sync_inv_def)
  from cancel_own_timer [OF inv mv, of w] obtain h where
    h: "seq_CancelTimer (timer_out_id m) w = yields (w\<lparr>seq_timers := h\<rparr>)" "timer_inv h"
      "heap_map h = (heap_map (seq_timers w))(unat (timer_out_id m) := None)" "timer_out_id m > 0" by auto
  let ?w1 = "w\<lparr>seq_timers := h\<rparr>"
  have d: "deref a w = yields m" "deref a ?w1 = yields m" using m by (simp_all add: deref_def)
  have nh: "type_id m \<noteq> kHeartBeatMessage" "direction m \<noteq> kOnlySend" using wait by (auto simp: sync_waiting_def directions)
  have "service_ok (free_message a ?w1)" using inv by (simp add: sync_inv_def service_ok_def free_message_def)
  from to_service_ok [OF this, of "m\<lparr>status := kInternalFailure\<rparr>"] obtain i q where
    s: "send_back a kInternalFailure ?w1 = yields ((free_message a ?w1)\<lparr>id_hs := i, service_queues := q\<rparr>)"
      "service_ok ((free_message a ?w1)\<lparr>id_hs := i, service_queues := q\<rparr>)"
      "answered ((free_message a ?w1)\<lparr>id_hs := i, service_queues := q\<rparr>) = add_mset (ident m) (answered (free_message a ?w1))"
    using send_back_to_service [OF d(2), of kInternalFailure] nh by auto
  define w2 where "w2 = (free_message a ?w1)\<lparr>id_hs := i, service_queues := q\<rparr>"
  have w2: "con w2 = con w" "reconnect w2 = reconnect w" "seq_list w2 = []" "answered w2 = add_mset (ident m) (answered w)"
    using s(3) Cons.prems(2) by (simp_all add: w2_def free_message_def answered_def)
  have l: "seq_list ?v = a # as" by simp
  have v2: "sync_inv (w2\<lparr>seq_list := as\<rparr>)" "line ?v = (ident m, direction m = kOutgoingRequest) # line (w2\<lparr>seq_list := as\<rparr>)"
    by (rule line_drop [OF inv l mv]; use h s(2) in \<open>simp add: w2_def free_message_def service_ok_def\<close>)+
  from Cons.IH [OF v2(1) w2(3)] obtain w' where
    w': "send_back_all as w2 = yields w'" "sync_inv w'" "seq_list w' = []"
      "answered w' = mset (map fst (line (w2\<lparr>seq_list := as\<rparr>))) + answered w2" "con w' = con w2" "reconnect w' = reconnect w2" by blast
  have "send_back_all (a # as) w = send_back_all as w2" using d(1) h(1,4) s(1) by (simp add: w2_def)
  with w' v2(2) w2 show ?case by (intro exI [of _ w']) simp
qed


text \<open>When nobody waits, it does not matter what is popped.\<close>

lemma popped_ok:
  assumes inv: "sync_inv w" and nobody: "seq_list w = []"
  shows "\<exists>w'. popped w = yields w' \<and> sync_inv w' \<and> line w' = line w \<and> answered w' = answered w"
proof -
  have tinv: "timer_inv (seq_timers w)" using inv by (simp add: sync_inv_def)
  have "\<exists>i h. Pop timer_less (seq_timers w) = Some (i, h) \<and> timer_inv h"
  proof (cases "Top (seq_timers w)")
    case None
    then have "num_items (seq_timers w) = 0" by (simp add: Top_def split: if_splits)
    with tinv show ?thesis by (simp add: Pop_none)
  next
    case (Some td)
    from timer_Pop [OF tinv this] show ?thesis by blast
  qed
  then obtain i h where h: "Pop timer_less (seq_timers w) = Some (i, h)" "timer_inv h" by blast
  have "store w = Map.empty" using inv nobody by (simp add: sync_inv_def) (metis dom_eq_empty_conv)
  then have "sync_inv (w\<lparr>seq_timers := h\<rparr>)"
    using inv h(2) by (simp add: sync_inv_def thread_ok_def service_ok_def reconnect_ok_def)
  with h(1) show ?thesis by (simp add: popped_def line_def answered_def)
qed

lemma sync_Timeout_ok:
  assumes inv: "sync_inv w" and ok: "sync_ok Encode single self (Sync_Timeout now) w"
  shows "\<exists>w'. run_bind (sync_OnTimer single now self w) popped = yields w' \<and> sync_inv w' \<and>
     (line w', answered w') = line_step Encode (Sync_Timeout now) w (line w, answered w)"
proof -
  have same: "w\<lparr>seq_list := [], seq_list := seq_list w\<rparr> = w" by simp
  with inv sync_send_back_all [where as = "seq_list w" and w = "w\<lparr>seq_list := []\<rparr>"] obtain w1 where
    w1: "sync_CleanSequenceQueue w = yields w1" "sync_inv w1" "seq_list w1 = []"
      "answered w1 = mset (map fst (line w)) + answered w" "con w1 = con w" "reconnect w1 = reconnect w"
    by (auto simp: sync_CleanSequenceQueue_def sync_Clear_def answered_def)
  have "reconnect_ok w" using inv by (simp add: sync_inv_def)
  then obtain c r where
    c: "CancelTimer (con w) (reconnect w) = Some (c, r)" "timer_inv (re_timer r)" "c = (con w)\<lparr>reconnect_timer := 0\<rparr>"
    using CancelTimer_ok [of "reconnect w" "con w"] by (auto simp: reconnect_ok_def)
  obtain i h where add: "AddTimer now 300 (client_timer self kClientTimerTypeReconnect 300) (re_timer r) = (i, h)" by fastforce
  have i: "0 < i" "i < 2 ^ 64" "now + 300 < 2 ^ 63" using ok c(1) add by auto
  have h: "timer_inv h" "heap_map h i \<noteq> None"
    using timer_inv_AddTimer [OF c(2) _ i(3) add] by (simp_all add: client_timer_def)
  define c1 where "c1 = con (CleanSyncClient single (w1\<lparr>con := c, reconnect := r\<rparr>))"
  have c1: "register_thread_id c1 = register_thread_id (con w)" "reconnect_timer c1 = 0" "heartbeat_timer c1 = heartbeat_timer (con w)"
    by (simp_all add: c1_def CleanSyncClient_def SetBuzy_def CleanClient_def Clean_def c(3))
  have clean: "CleanSyncClient single (w1\<lparr>con := c, reconnect := r\<rparr>) = w1\<lparr>con := c1, reconnect := r\<rparr>"
    by (simp add: c1_def CleanSyncClient_def SetBuzy_def)
  define c' where "c' = (if is_running r then c1\<lparr>reconnect_timer := word_of_nat i\<rparr> else c1\<lparr>reconnect_timer := 0\<rparr>)"
  define r' where "r' = (if is_running r then r\<lparr>re_timer := h\<rparr> else r)"
  have time: "time_out_ms (client_timer self kClientTimerTypeReconnect 300) = 300" by (simp add: client_timer_def)
  have run: "sync_OnTimer single now self w = yields (w1\<lparr>con := c', reconnect := r'\<rparr>)"
    using w1(1,5,6) c(1) add c1(2) time
    by (simp add: sync_OnTimer_def clean StartReconnectTimer_def ClientReconnect_StartTimer_def c'_def r'_def)
  have "heartbeat_timer (con w) = 0" using inv by (simp add: sync_inv_def reconnect_ok_def)
  then have "reconnect_ok (w1\<lparr>con := c', reconnect := r'\<rparr>)" "register_thread_id c' = register_thread_id (con w1)"
    using h c(2) c1 w1(5) i(2) by (auto simp: reconnect_ok_def c'_def r'_def unat_of_nat take_bit_nat_eq_self)
  note w2 = sync_con_change [OF w1(2) this(2,1)]
  have "seq_list (w1\<lparr>con := c', reconnect := r'\<rparr>) = []" using w1(3) by simp
  from popped_ok [OF w2(1) this] run w1 w2 show ?thesis by (auto simp: line_def)
qed

text \<open>A refused message.\<close>

lemma sync_refused:
  assumes inv: "sync_inv w" and a: "store w a = None" "store v = (store w)(a \<mapsto> m)"
    and v: "seq_list v = seq_list w" "seq_timers v = seq_timers w" "service_queues v = service_queues w"
      "id_hs v = id_hs w" "io_threads v = io_threads w" "reconnect v = reconnect w"
      "register_thread_id (con v) = register_thread_id (con w)" "reconnect_timer (con v) = reconnect_timer (con w)"
      "heartbeat_timer (con v) = heartbeat_timer (con w)"
  shows "\<exists>w'. HandleIoMessageFailed a v = yields w' \<and> sync_inv w' \<and> line w' = line w \<and>
     answered w' = (if direction m = kOutgoingRequest then add_mset (ident m) (answered w) else answered w)"
proof -
  have d: "deref a v = yields m" using a(2) by (simp add: deref_def)
  have st: "store (free_message a v) = store w" using a by (auto simp: free_message_def fun_eq_iff)
  have same: "sync_inv w' \<and> line w' = line w"
    if "store w' = store w" "seq_list w' = seq_list w" "seq_timers w' = seq_timers w"
      "io_threads w' = io_threads w" "reconnect w' = reconnect w" "con w' = con v" "service_ok w'" for w'
    using that inv v by (auto simp: sync_inv_def sync_waiting_def thread_ok_def reconnect_ok_def line_def)
  have serv: "service_ok (free_message a v)" using inv v by (simp add: sync_inv_def service_ok_def free_message_def)
  have ans: "answered (free_message a v) = answered w" using v by (simp add: answered_def free_message_def)
  show ?thesis
  proof (cases "direction m = kOutgoingRequest")
    case False
    have "sync_inv (free_message a v) \<and> line (free_message a v) = line w"
      using st v serv by (intro same) (simp_all add: free_message_def)
    with False d ans show ?thesis by (simp add: HandleIoMessageFailed_def)
  next
    case True
    from to_service_ok [OF serv, of "m\<lparr>status := kInternalFailure\<rparr>"] obtain i q where
      q: "to_service (m\<lparr>status := kInternalFailure\<rparr>) (free_message a v) = yields ((free_message a v)\<lparr>id_hs := i, service_queues := q\<rparr>)"
        "service_ok ((free_message a v)\<lparr>id_hs := i, service_queues := q\<rparr>)"
        "answered ((free_message a v)\<lparr>id_hs := i, service_queues := q\<rparr>) = add_mset (ident m) (answered (free_message a v))"
      by (auto simp: status_ident)
    let ?w' = "(free_message a v)\<lparr>id_hs := i, service_queues := q\<rparr>"
    have "sync_inv ?w' \<and> line ?w' = line w" using st v q(2) by (intro same) (simp_all add: free_message_def)
    with True d ans q(1,3) show ?thesis by (simp add: HandleIoMessageFailed_def)
  qed
qed

text \<open>An accepted message joins the end of the line.\<close>

lemma sync_Put_ok:
  assumes inv: "sync_inv w" and a: "store w a = None" "store v = (store w)(a \<mapsto> m)"
    and dir: "direction m = kOutgoingRequest \<or> direction m = kSendNoCareResponse" and hb: "type_id m \<noteq> kHeartBeatMessage"
    and v: "seq_list v = seq_list w" "seq_timers v = seq_timers w" "service_queues v = service_queues w"
      "io_threads v = io_threads w" "reconnect v = reconnect w" "con v = (con w)\<lparr>outbuf := out\<rparr>"
    and clock: "now + ucast (timeout_ms (con w)) < 2 ^ 63"
    and add: "AddTimer now (ucast (timeout_ms (con w))) (seq_timer_data 0 w) (seq_timers w) = (i, h)" "0 < i" "i < 2 ^ 64"
  shows "\<exists>v'. sync_Put now a v = yields (0, v') \<and> sync_inv v' \<and> line v' = line w @ [(ident m, direction m = kOutgoingRequest)] \<and>
     answered v' = answered w \<and> (\<exists>n. store v' a = Some n \<and> direction n = direction m)"
proof -
  have h: "timer_inv h" "heap_map (seq_timers w) i = None"
      "heap_map h = (heap_map (seq_timers w))(i \<mapsto> (seq_timer_data 0 w)\<lparr>time_out_ms := now + ucast (timeout_ms (con w))\<rparr>)"
    using inv timer_inv_AddTimer [OF _ _ clock add(1)] by (simp_all add: sync_inv_def seq_timer_data_def)
  let ?m = "m\<lparr>timer_out_id := word_of_nat i\<rparr>"
  define v' where "v' = v\<lparr>seq_list := seq_list w @ [a], seq_timers := h, store := (store v)(a \<mapsto> ?m)\<rparr>"
  have i: "unat (word_of_nat i :: u64) = i" using add(3) by (rule unat_of_nat_u64)
  then have i0: "0 < (word_of_nat i :: u64)" using add(2) by (metis unat_0 neq0_conv word_gt_0)
  have th: "thread_ok (v\<lparr>seq_list := R\<rparr>)" for R using inv v by (simp add: sync_inv_def thread_ok_def)
  have run: "sync_Put now a v = yields (0, v')"
    using a(2) th v add(1)
    by (simp add: sync_Put_def deref_def seq_StartTimer_def seq_timer_data_def v'_def)
  have st: "store v' = (store w)(a \<mapsto> ?m)" using a(2) by (simp add: v'_def)
  have fresh: "a \<notin> set (seq_list w)" using inv a(1) by (auto simp: sync_inv_def)
  have old: "sync_waiting w n \<and> unat (timer_out_id n) \<noteq> i" if "store w b = Some n" for b n
  proof -
    have "sync_waiting w n" using that inv by (simp add: sync_inv_def)
    with h(2) show ?thesis by (auto simp: sync_waiting_def)
  qed
  have waits: "sync_waiting v' n" if "store v' b = Some n" for b n
  proof (cases "b = a")
    case True
    with that have "n = ?m" by (simp add: st)
    with h(3) dir hb i i0 show ?thesis by (simp add: sync_waiting_def v'_def)
  next
    case False
    with that have "store w b = Some n" by (simp add: st)
    from old [OF this] h(3) show ?thesis by (auto simp: sync_waiting_def v'_def)
  qed
  have ids: "b = c" if "store v' b = Some n" "store v' c = Some k" "timer_out_id n = timer_out_id k" for b c n k
  proof -
    have new: "unat (timer_out_id ?m) = i" using i by simp
    show ?thesis
    proof (cases "b = a \<or> c = a")
      case True
      then show ?thesis using that old [of b n] old [of c k] new by (auto simp: st split: if_splits)
    next
      case False
      then show ?thesis using that inv unfolding st sync_inv_def by (metis fun_upd_other)
    qed
  qed
  have basic: "timer_inv (seq_timers v')" "thread_ok v'" "service_ok v'" "reconnect_ok v'"
    using inv v h(1) by (simp_all add: v'_def sync_inv_def thread_ok_def service_ok_def reconnect_ok_def)
  have list: "distinct (seq_list v')" "set (seq_list v') = dom (store v')"
  proof -
    have "distinct (seq_list w)" "set (seq_list w) = dom (store w)" using inv by (simp_all add: sync_inv_def)
    then show "distinct (seq_list v')" "set (seq_list v') = dom (store v')" using fresh by (simp_all add: st) (simp_all add: v'_def)
  qed
  have "sync_inv v'" unfolding sync_inv_def using basic list waits ids by blast
  moreover have "line v' = line w @ [(ident m, direction m = kOutgoingRequest)]"
  proof -
    have "seq_list v' = seq_list w @ [a]" by (simp add: v'_def)
    then show ?thesis using fresh by (auto simp: line_def st Let_def)
  qed
  moreover have "answered v' = answered w" using v by (simp add: answered_def v'_def)
  ultimately show ?thesis using run st by auto
qed


lemma sync_OnWrite_step:
  assumes "sync_inv w"
  shows "sync_inv (w\<lparr>con := snd (OnWrite ws (con w))\<rparr>)" "line (w\<lparr>con := snd (OnWrite ws (con w))\<rparr>) = line w"
    "answered (w\<lparr>con := snd (OnWrite ws (con w))\<rparr>) = answered w"
proof -
  have "reconnect_ok w" using assms by (simp add: sync_inv_def)
  then have "reconnect_ok (w\<lparr>con := snd (OnWrite ws (con w)), reconnect := reconnect w\<rparr>)"
    by (simp add: reconnect_ok_def OnWrite_con)
  from sync_con_change [OF assms OnWrite_con(1) this]
  show "sync_inv (w\<lparr>con := snd (OnWrite ws (con w))\<rparr>)" "line (w\<lparr>con := snd (OnWrite ws (con w))\<rparr>) = line w"
    "answered (w\<lparr>con := snd (OnWrite ws (con w))\<rparr>) = answered w" by simp_all
qed

lemma sync_Submit_ok:
  assumes inv: "sync_inv w" and ok: "sync_ok Encode single self (Sync_Submit now a m writes) w"
  shows "\<exists>w'. sync_HandleIoMessageEvent Encode single now a writes (w\<lparr>store := (store w)(a \<mapsto> m)\<rparr>) = yields w' \<and> sync_inv w' \<and>
     (line w', answered w') = line_step Encode (Sync_Submit now a m writes) w (line w, answered w)"
proof -
  let ?v = "w\<lparr>store := (store w)(a \<mapsto> m)\<rparr>"
  have a: "store w a = None" and dir: "direction m = kOutgoingRequest \<or> direction m = kSendNoCareResponse"
    and hb: "type_id m \<noteq> kHeartBeatMessage" and clock: "now + ucast (timeout_ms (con w)) < 2 ^ 63" using ok by simp_all
  have d: "deref a ?v = yields m" by (simp add: deref_def)
  have dirs: "direction m \<noteq> kOutgoingResponse" "direction m \<noteq> kOnlySend" using dir by (auto simp: directions)
  have refused: "\<exists>w'. HandleIoMessageFailed a (SetBuzy s False (?v\<lparr>con := (con w)\<lparr>outbuf := out\<rparr>\<rparr>)) = yields w' \<and> sync_inv w' \<and>
      line w' = line w \<and> answered w' = (if direction m = kOutgoingRequest then add_mset (ident m) (answered w) else answered w)" for out s
    using sync_refused [OF inv a, of "SetBuzy s False (?v\<lparr>con := (con w)\<lparr>outbuf := out\<rparr>\<rparr>)" m] by (simp add: SetBuzy_def)
  have same: "SetBuzy False False (?v\<lparr>con := (con w)\<lparr>outbuf := outbuf (con w)\<rparr>\<rparr>) = ?v"
      "SetBuzy single False (?v\<lparr>con := (con w)\<lparr>outbuf := outbuf (con w)\<rparr>\<rparr>) = SetBuzy single False ?v" by (simp_all add: SetBuzy_def)
  show ?thesis
  proof (cases "accepts Encode now m w")
    case True
    then obtain out where enc: "Encode m (outbuf (con w)) = Some (True, out)" by (auto simp: accepts_def)
    let ?u = "?v\<lparr>con := (con w)\<lparr>outbuf := out\<rparr>\<rparr>"
    have fresh: "store ?u = (store w)(a \<mapsto> m)" "con ?u = (con w)\<lparr>outbuf := out\<rparr>" by simp_all
    obtain i h where add: "AddTimer now (ucast (timeout_ms (con w))) (seq_timer_data 0 w) (seq_timers w) = (i, h)" by fastforce
    have i: "0 < i" "i < 2 ^ 64" using ok by (simp_all add: add)
    from sync_Put_ok [OF inv a fresh(1) dir hb _ _ _ _ _ fresh(2) clock add i] obtain v' n where
      v': "sync_Put now a ?u = yields (0, v')" "sync_inv v'" "line v' = line w @ [(ident m, direction m = kOutgoingRequest)]"
        "answered v' = answered w" "store v' a = Some n" "direction n = direction m" by auto
    have "sync_HandleIoMessageEvent Encode single now a writes ?v = yields (v'\<lparr>con := snd (OnWrite writes (con v'))\<rparr>)"
      using True d enc v'(1,5,6) dirs
      by (auto simp: sync_HandleIoMessageEvent_def sync_EncodeMsg_def accepts_def deref_def)
    with sync_OnWrite_step [OF v'(2), of writes] v'(3,4) True show ?thesis by simp
  next
    case False
    have "\<exists>out s. sync_HandleIoMessageEvent Encode single now a writes ?v =
        HandleIoMessageFailed a (SetBuzy s False (?v\<lparr>con := (con w)\<lparr>outbuf := out\<rparr>\<rparr>))"
    proof (cases "direction m = kOutgoingRequest \<and> now - birthtime m > INNER_QUERY_SEND_PROTECT_TIME \<or> descriptor_id m = 0")
      case True
      then have "sync_HandleIoMessageEvent Encode single now a writes ?v = HandleIoMessageFailed a ?v"
        using d by (auto simp: sync_HandleIoMessageEvent_def)
      then show ?thesis using same(1) by metis
    next
      case late: False
      have step: "sync_HandleIoMessageEvent Encode single now a writes ?v = HandleIoMessageFailed a u"
        if "sync_EncodeMsg Encode single now a ?v = yields (r, u)" "r \<noteq> 0" for r u
        using that late d dirs by (auto simp: sync_HandleIoMessageEvent_def)
      show ?thesis
      proof (cases "con_status (con w) = kConnected")
        case False
        then have "sync_EncodeMsg Encode single now a ?v = yields (-1, SetBuzy single False ?v)" by (simp add: sync_EncodeMsg_def)
        from step [OF this] same(2) show ?thesis by (metis neg_equal_0_iff_equal one_neq_zero)
      next
        case conn: True
        obtain enc out where enc: "Encode m (outbuf (con w)) = Some (enc, out)" using ok by auto
        with False late conn have "\<not> enc" by (auto simp: accepts_def)
        then have "sync_EncodeMsg Encode single now a ?v = yields (-2, SetBuzy single False (?v\<lparr>con := (con w)\<lparr>outbuf := out\<rparr>\<rparr>))"
          using conn enc d by (simp add: sync_EncodeMsg_def)
        from step [OF this] show ?thesis by (metis neg_equal_0_iff_equal zero_neq_numeral)
      qed
    qed
    with refused False show ?thesis by fastforce
  qed
qed

section \<open>Properties\<close>

text \<open>C21. The client of an in-order protocol refines a first-in first-out line: an accepted message joins the end of the
  line, a response answers the head of the line under the head's identity (or is dropped when the head did not
  want one), a refused request is answered with a failure at once, and a timer answers everybody in
  the line and leaves it empty. No step touches a message that was handed over or destroyed.\<close>

theorem sync_requests_fifo:
  assumes "sync_inv w" "sync_ok Encode single self op w"
  shows "\<exists>w'. sync_exec Encode single self op w = yields w' \<and> sync_inv w' \<and>
     (line w', answered w') = line_step Encode op w (line w, answered w)"
proof (cases op)
  case (Sync_Submit now a m writes)
  with sync_Submit_ok [OF assms(1), of Encode single self now a m writes] assms(2) show ?thesis by simp
next
  case (Sync_Response now msg)
  with sync_Response_ok [OF assms(1)] show ?thesis by simp
next
  case (Sync_Timeout now)
  with sync_Timeout_ok [OF assms(1), of Encode single self now] assms(2) show ?thesis by simp
qed

theorem sync_requests_fifo_witness:
  "\<exists>w'. sync_exec take_all True 42 (Sync_Submit 1000 1 (request 9) []) sample_world = yields w' \<and> sync_inv w' \<and>
     line w' = [((9, -1, -1), True)]"
proof -
  have inv: "sync_inv sample_world"
    using sample_world_inv by (simp add: async_inv_def sync_inv_def sample_world_def async_start_def)
  have ok: "sync_ok take_all True 42 (Sync_Submit 1000 1 (request 9) []) sample_world"
    by (simp add: sample_world_def async_start_def request_def RapidMessage_new_def message_new_def take_all_def AddTimer_first
        connected_client_def ClientConnect_new_def kinds)
  have "accepts take_all 1000 (request 9) sample_world"
    by (simp add: accepts_def take_all_def sample_world_def async_start_def connected_client_def ClientConnect_new_def request_def
        INNER_QUERY_SEND_PROTECT_TIME_def)
  with sync_requests_fifo [OF inv ok] show ?thesis
    by (auto simp: line_def sample_world_def async_start_def ident_def request_def RapidMessage_new_def message_new_def)
qed

end
