(* ===== verification/Timer_Mgr.thy ===== *)
theory Timer_Mgr
  imports Prelude
begin

text \<open>
  The timer manager of the coroutine scheduler, src/src/common/timer_mgr.h and timer_mgr.cpp: a
  std::multimap from due time to (id, timer) and an unordered map from id to the multimap's
  iterator. The multimap is the list of its nodes in iteration order; an iterator is the number
  of a node, never used twice. The clock is an argument.
\<close>

section \<open>State and operations\<close>

record 'p titem =
  node :: nat
  due_at :: u64
  tid :: u64
  tproc :: 'p

record 'p timer_mgr =
  timer_map :: "'p titem list"
  id_map :: "u64 \<rightharpoonup> nat"
  next_item :: nat
  tmid :: u64

definition mgr_new :: "'p timer_mgr" where
  "mgr_new = \<lparr>timer_map = [], id_map = Map.empty, next_item = 0, tmid = 0\<rparr>"

text \<open>std::multimap::insert puts the new node behind the nodes with a key that is not larger.\<close>

fun multimap_insert :: "'p titem \<Rightarrow> 'p titem list \<Rightarrow> 'p titem list" where
  "multimap_insert x [] = [x]"
| "multimap_insert x (y # ys) =
     (if due_at y \<le> due_at x then y # multimap_insert x ys else x # y # ys)"

definition erase_item :: "nat \<Rightarrow> 'p titem list \<Rightarrow> 'p titem list" where
  "erase_item n xs = filter (\<lambda>x. node x \<noteq> n) xs"

definition GetTimerId :: "'p timer_mgr \<Rightarrow> u64 \<times> 'p timer_mgr" where
  "GetTimerId s =
     (let i = tmid s + 1 in if i > 0 then (i, s\<lparr>tmid := i\<rparr>) else (1, s\<lparr>tmid := 1\<rparr>))"

text \<open>unordered\_map::insert keeps the entry of a key that is already there.\<close>

definition AddTimerInThread :: "u64 \<Rightarrow> 'p \<Rightarrow> u64 \<Rightarrow> 'p timer_mgr \<Rightarrow> 'p timer_mgr" where
  "AddTimerInThread i timer w0 s =
     s\<lparr>timer_map := multimap_insert \<lparr>node = next_item s, due_at = w0, tid = i, tproc = timer\<rparr> (timer_map s),
       id_map := (case id_map s i of None \<Rightarrow> (id_map s)(i \<mapsto> next_item s) | Some _ \<Rightarrow> id_map s),
       next_item := next_item s + 1\<rparr>"

definition DelTimerInThread :: "u64 \<Rightarrow> 'p timer_mgr \<Rightarrow> 'p timer_mgr" where
  "DelTimerInThread i s =
     (case id_map s i of
        None \<Rightarrow> s
      | Some n \<Rightarrow> s\<lparr>id_map := (id_map s)(i := None), timer_map := erase_item n (timer_map s)\<rparr>)"

text \<open>The second test of the guard, \<open>after < 0\<close> on an unsigned value, is never true.\<close>

definition Mgr_AddTimer :: "u64 \<Rightarrow> 'p option \<Rightarrow> u64 \<Rightarrow> 'p timer_mgr \<Rightarrow> u64 \<times> 'p timer_mgr" where
  "Mgr_AddTimer now timer after s =
     (case timer of
        None \<Rightarrow> (-1, s)
      | Some p \<Rightarrow>
          if after < 0 then (-1, s)
          else (case GetTimerId s of (i, s1) \<Rightarrow> (i, AddTimerInThread i p (now + after) s1)))"

definition Mgr_DelTimer :: "u64 \<Rightarrow> 'p timer_mgr \<Rightarrow> int \<times> 'p timer_mgr" where
  "Mgr_DelTimer i s = (0, DelTimerInThread i s)"

text \<open>OnTimer may add and cancel timers: it acts on the client's state and the manager.\<close>

partial_function (option) run_loop ::
    "('p \<Rightarrow> u64 \<Rightarrow> 'w \<Rightarrow> 'p timer_mgr \<Rightarrow> 'w \<times> 'p timer_mgr) \<Rightarrow> u64 \<Rightarrow> 'w \<Rightarrow> 'p timer_mgr \<Rightarrow>
     ('w \<times> 'p timer_mgr) option" where
  "run_loop OnTimer now w s =
     (case timer_map s of
        [] \<Rightarrow> Some (w, s)
      | x # xs \<Rightarrow>
          if due_at x \<ge> now then Some (w, s)
          else
            let s1 = s\<lparr>timer_map := xs, id_map := (id_map s)(tid x := None)\<rparr>
            in (case OnTimer (tproc x) (tid x) w s1 of (w', s2) \<Rightarrow> run_loop OnTimer now w' s2))"

definition RunTimer ::
    "('p \<Rightarrow> u64 \<Rightarrow> 'w \<Rightarrow> 'p timer_mgr \<Rightarrow> 'w \<times> 'p timer_mgr) \<Rightarrow> u64 \<Rightarrow> 'w \<Rightarrow> 'p timer_mgr \<Rightarrow>
     ('w \<times> 'p timer_mgr) option" where
  "RunTimer OnTimer now w s = (if timer_map s = [] then Some (w, s) else run_loop OnTimer now w s)"

definition GetTimeMapSize :: "'p timer_mgr \<Rightarrow> nat" where
  "GetTimeMapSize s = length (timer_map s)"

text \<open>The destructor calls every pending timer in map order and empties both maps.\<close>

fun destroy_loop :: "('p \<Rightarrow> u64 \<Rightarrow> 'w \<Rightarrow> 'w) \<Rightarrow> 'p titem list \<Rightarrow> 'w \<Rightarrow> 'w" where
  "destroy_loop act [] w = w"
| "destroy_loop act (x # xs) w = destroy_loop act xs (act (tproc x) (tid x) w)"

definition mgr_destroy :: "('p \<Rightarrow> u64 \<Rightarrow> 'w \<Rightarrow> 'w) \<Rightarrow> 'w \<Rightarrow> 'p timer_mgr \<Rightarrow> 'w \<times> 'p timer_mgr" where
  "mgr_destroy act w s = (destroy_loop act (timer_map s) w, s\<lparr>timer_map := [], id_map := Map.empty\<rparr>)"

section \<open>Invariant and abstraction\<close>

text \<open>
  The multimap is sorted, its iterators and ids are distinct, and the id map holds exactly the ids
  of its nodes, each with the node's iterator.
\<close>

definition mgr_inv :: "'p timer_mgr \<Rightarrow> bool" where
  "mgr_inv s \<longleftrightarrow> sorted (map due_at (timer_map s)) \<and> distinct (map node (timer_map s)) \<and>
     distinct (map tid (timer_map s)) \<and> (\<forall>x \<in> set (timer_map s). node x < next_item s) \<and>
     id_map s = map_of (map (\<lambda>x. (tid x, node x)) (timer_map s))"

definition pending :: "'p timer_mgr \<Rightarrow> u64 \<rightharpoonup> u64 \<times> 'p" where
  "pending s = map_of (map (\<lambda>x. (tid x, (due_at x, tproc x))) (timer_map s))"

lemma set_multimap_insert [simp]: "set (multimap_insert x xs) = insert x (set xs)"
  by (induction xs) auto

lemma sorted_multimap_insert:
  "sorted (map due_at xs) \<Longrightarrow> sorted (map due_at (multimap_insert x xs))"
  by (induction xs) (auto intro: less_imp_le order_trans dest: not_le_imp_less)

lemma distinct_multimap_insert:
  "distinct (map f (multimap_insert x xs)) \<longleftrightarrow> distinct (map f (x # xs))"
  by (induction xs) auto

lemma map_of_multimap_insert:
  "f x \<notin> f ` set xs \<Longrightarrow>
     map_of (map (\<lambda>x. (f x, g x)) (multimap_insert x xs)) = (map_of (map (\<lambda>x. (f x, g x)) xs))(f x \<mapsto> g x)"
  by (induction xs) (auto simp: fun_eq_iff)

lemma map_of_filter_key:
  assumes "distinct (map h xs)" "distinct (map f xs)" "x \<in> set xs"
  shows "map_of (map (\<lambda>x. (f x, g x)) (filter (\<lambda>y. h y \<noteq> h x) xs)) = (map_of (map (\<lambda>x. (f x, g x)) xs))(f x := None)"
proof -
  have same: "h y \<noteq> h x \<longleftrightarrow> f y \<noteq> f x" if "y \<in> set xs" for y
    using assms that by (metis distinct_map inj_on_def)
  then have "filter (\<lambda>y. h y \<noteq> h x) xs = filter (\<lambda>y. f y \<noteq> f x) xs" by (intro filter_cong) auto
  moreover have "map_of (map (\<lambda>x. (f x, g x)) (filter (\<lambda>y. f y \<noteq> k) xs)) = (map_of (map (\<lambda>x. (f x, g x)) xs))(k := None)" for k
    by (induction xs) (auto simp: fun_eq_iff)
  ultimately show ?thesis by simp
qed

lemma id_map_pending: "mgr_inv s \<Longrightarrow> id_map s i = None \<longleftrightarrow> pending s i = None"
  by (simp add: mgr_inv_def pending_def map_of_eq_None_iff image_image)

lemma mgr_inv_new [inv_intros]: "mgr_inv mgr_new" and pending_new: "pending mgr_new = Map.empty"
  by (simp_all add: mgr_inv_def mgr_new_def pending_def)

lemma AddTimerInThread_spec:
  assumes inv: "mgr_inv s" and fresh: "pending s i = None"
  shows "mgr_inv (AddTimerInThread i p t s)" and "pending (AddTimerInThread i p t s) = (pending s)(i \<mapsto> (t, p))"
proof -
  have i: "i \<notin> tid ` set (timer_map s)"
    using fresh by (simp add: pending_def map_of_eq_None_iff image_image)
  have no_id: "id_map s i = None" using inv fresh by (simp add: id_map_pending)
  have n: "next_item s \<notin> node ` set (timer_map s)" using inv by (auto simp: mgr_inv_def)
  show "pending (AddTimerInThread i p t s) = (pending s)(i \<mapsto> (t, p))"
    using i by (simp add: pending_def AddTimerInThread_def map_of_multimap_insert)
  have "id_map s = map_of (map (\<lambda>x. (tid x, node x)) (timer_map s))" using inv by (simp add: mgr_inv_def)
  then show "mgr_inv (AddTimerInThread i p t s)"
    using inv i n no_id
    by (auto simp: mgr_inv_def AddTimerInThread_def map_of_multimap_insert distinct_multimap_insert
          sorted_multimap_insert)
qed

lemma DelTimerInThread_spec:
  assumes inv: "mgr_inv s"
  shows "mgr_inv (DelTimerInThread i s)" and "pending (DelTimerInThread i s) = (pending s)(i := None)"
proof -
  have "mgr_inv (DelTimerInThread i s) \<and> pending (DelTimerInThread i s) = (pending s)(i := None)"
  proof (cases "id_map s i")
    case None
    then have "pending s i = None" using inv by (simp add: id_map_pending)
    then show ?thesis using None inv by (simp add: DelTimerInThread_def fun_upd_idem)
  next
    case (Some n)
    then obtain x where x: "x \<in> set (timer_map s)" "tid x = i" "node x = n"
      using inv by (auto simp: mgr_inv_def dest!: map_of_SomeD)
    have d: "distinct (map node (timer_map s))" "distinct (map tid (timer_map s))"
      using inv by (simp_all add: mgr_inv_def)
    have rest: "DelTimerInThread i s =
        s\<lparr>id_map := (id_map s)(i := None), timer_map := filter (\<lambda>y. node y \<noteq> node x) (timer_map s)\<rparr>"
      by (simp add: DelTimerInThread_def Some erase_item_def x(3))
    have "sorted (map due_at (filter P (timer_map s)))" for P
      using inv by (simp add: mgr_inv_def sorted_filter)
    then show ?thesis
      using inv d map_of_filter_key [OF d x(1), of node] map_of_filter_key [OF d x(1), of "\<lambda>x. (due_at x, tproc x)"]
      unfolding rest by (simp add: mgr_inv_def pending_def x(2) distinct_map_filter)
  qed
  then show "mgr_inv (DelTimerInThread i s)" "pending (DelTimerInThread i s) = (pending s)(i := None)" by auto
qed

lemma Mgr_AddTimer_spec:
  assumes inv: "mgr_inv s" and fresh: "pending s (fst (GetTimerId s)) = None"
    and run: "Mgr_AddTimer now (Some p) after s = (i, s')"
  shows "mgr_inv s'" "i \<noteq> 0" "pending s i = None" "pending s' = (pending s)(i \<mapsto> (now + after, p))"
proof -
  obtain j s1 where g: "GetTimerId s = (j, s1)" by (cases "GetTimerId s")
  then have s1: "mgr_inv s1" "pending s1 = pending s" "j \<noteq> 0"
    using inv by (auto simp: GetTimerId_def Let_def mgr_inv_def pending_def split: if_splits)
  have "pending s1 j = None" using fresh by (simp add: g s1(2))
  note add = AddTimerInThread_spec [OF s1(1) this]
  have "s' = AddTimerInThread j p (now + after) s1" "i = j" using run by (auto simp: Mgr_AddTimer_def g)
  with add s1 fresh g show "mgr_inv s'" "i \<noteq> 0" "pending s i = None" "pending s' = (pending s)(i \<mapsto> (now + after, p))"
    by simp_all
qed

section \<open>RunTimer\<close>

definition late_ids :: "u64 \<Rightarrow> 'p timer_mgr \<Rightarrow> u64 set" where
  "late_ids now s = {i. \<exists>t p. pending s i = Some (t, p) \<and> t < now}"

lemma finite_late_ids: "finite (late_ids now s)"
  by (rule finite)

lemma run_step:
  assumes inv: "mgr_inv s" and x: "timer_map s = x # xs"
    and s1: "s1 = s\<lparr>timer_map := xs, id_map := (id_map s)(tid x := None)\<rparr>"
  shows "mgr_inv s1" "pending s1 = (pending s)(tid x := None)" "pending s (tid x) = Some (due_at x, tproc x)"
proof -
  have notin: "tid x \<notin> tid ` set xs" using inv by (auto simp: mgr_inv_def x)
  then have "map_of (map (\<lambda>x. (tid x, node x)) xs) (tid x) = None"
    by (simp add: map_of_eq_None_iff image_image)
  then show "mgr_inv s1" using inv by (auto simp: mgr_inv_def s1 x fun_upd_idem)
  from notin have "map_of (map (\<lambda>x. (tid x, due_at x, tproc x)) xs) (tid x) = None"
    by (simp add: map_of_eq_None_iff image_image)
  then show "pending s1 = (pending s)(tid x := None)" by (simp add: pending_def s1 x fun_upd_idem)
  show "pending s (tid x) = Some (due_at x, tproc x)" by (simp add: pending_def x)
qed

lemma nothing_late:
  assumes "mgr_inv s" "\<And>x xs. timer_map s = x # xs \<Longrightarrow> now \<le> due_at x"
  shows "late_ids now s = {}"
proof (cases "timer_map s")
  case Nil
  then show ?thesis by (simp add: late_ids_def pending_def)
next
  case (Cons x xs)
  have "now \<le> due_at y" if "y \<in> set (timer_map s)" for y
    using assms(2) [OF Cons] that assms(1) by (auto simp: mgr_inv_def Cons intro: order_trans)
  then have "\<not> due_at y < now" if "y \<in> set (timer_map s)" for y using that leD by blast
  then show ?thesis
    by (auto simp: late_ids_def pending_def dest!: map_of_SomeD dest: leD)
qed

text \<open>
  Callbacks that make no further timer late: AddTimer with any delay (a timer added for \<open>now\<close> is
  not late), and DelTimer of any id. \<open>I\<close> is what the client and its callbacks maintain.
\<close>

definition no_new_late ::
    "('w \<Rightarrow> 'p timer_mgr \<Rightarrow> bool) \<Rightarrow> ('p \<Rightarrow> u64 \<Rightarrow> 'w \<Rightarrow> 'p timer_mgr \<Rightarrow> 'w \<times> 'p timer_mgr) \<Rightarrow> u64 \<Rightarrow> bool" where
  "no_new_late I cb now \<longleftrightarrow> (\<forall>w s. I w s \<longrightarrow> mgr_inv s) \<and>
     (\<forall>x xs w s w' s'. I w s \<and> timer_map s = x # xs \<and> due_at x < now \<and>
        cb (tproc x) (tid x) w (s\<lparr>timer_map := xs, id_map := (id_map s)(tid x := None)\<rparr>) = (w', s') \<longrightarrow>
        I w' s' \<and> late_ids now s' \<subseteq> late_ids now s - {tid x})"

lemma run_loop_ends:
  assumes cb: "no_new_late I cb now"
  shows "I w s \<Longrightarrow> \<exists>w' s'. run_loop cb now w s = Some (w', s') \<and> I w' s' \<and> late_ids now s' = {}"
proof (induction "card (late_ids now s)" arbitrary: s w rule: less_induct)
  case less
  have inv: "mgr_inv s" using cb less.prems by (simp add: no_new_late_def)
  show ?case
  proof (cases "\<exists>x xs. timer_map s = x # xs \<and> due_at x < now")
    case False
    then have "run_loop cb now w s = Some (w, s)"
      by (subst run_loop.simps) (auto split: list.splits simp: not_less)
    moreover have "late_ids now s = {}"
      using False by (intro nothing_late [OF inv]) (auto simp: not_less)
    ultimately show ?thesis using less.prems by blast
  next
    case True
    then obtain x xs where x: "timer_map s = x # xs" "due_at x < now" by blast
    then have before: "(now \<le> due_at x) = False" by (simp add: not_le)
    define s1 where "s1 = s\<lparr>timer_map := xs, id_map := (id_map s)(tid x := None)\<rparr>"
    note step = run_step [OF inv x(1) s1_def]
    obtain w2 s2 where c: "cb (tproc x) (tid x) w s1 = (w2, s2)" by (cases "cb (tproc x) (tid x) w s1")
    have s2: "I w2 s2" "late_ids now s2 \<subseteq> late_ids now s - {tid x}"
      using cb less.prems x c unfolding no_new_late_def s1_def by blast+
    have "tid x \<in> late_ids now s" using step(3) x(2) by (auto simp: late_ids_def)
    then have "card (late_ids now s2) < card (late_ids now s)"
      using s2(2) by (intro psubset_card_mono [OF finite_late_ids]) auto
    from less.hyps [OF this s2(1)] show ?thesis
      by (subst run_loop.simps) (simp add: x(1) before s1_def [symmetric] c)
  qed
qed

text \<open>
  Callbacks that leave the manager alone, or only cancel the timer that is firing: its id is gone
  already, so the cancellation finds nothing.
\<close>

definition self_cancel ::
    "bool \<Rightarrow> ('p \<Rightarrow> u64 \<Rightarrow> 'w \<Rightarrow> 'w) \<Rightarrow> 'p \<Rightarrow> u64 \<Rightarrow> 'w \<Rightarrow> 'p timer_mgr \<Rightarrow> 'w \<times> 'p timer_mgr" where
  "self_cancel c act p i w s = (act p i w, if c then snd (Mgr_DelTimer i s) else s)"

lemma run_loop_fires:
  "mgr_inv s \<Longrightarrow>
     \<exists>s'. run_loop (self_cancel c act) now w s =
         Some (fold (\<lambda>x. act (tproc x) (tid x)) (takeWhile (\<lambda>x. due_at x < now) (timer_map s)) w, s') \<and>
       mgr_inv s' \<and> timer_map s' = dropWhile (\<lambda>x. due_at x < now) (timer_map s)"
proof (induction "timer_map s" arbitrary: s w)
  case Nil
  then show ?case by (subst run_loop.simps) simp
next
  case (Cons x xs)
  note x = Cons.hyps(2) [symmetric]
  define s1 where "s1 = s\<lparr>timer_map := xs, id_map := (id_map s)(tid x := None)\<rparr>"
  note step = run_step [OF Cons.prems x s1_def]
  have "id_map s1 (tid x) = None" by (simp add: s1_def)
  then have cb: "self_cancel c act (tproc x) (tid x) w s1 = (act (tproc x) (tid x) w, s1)"
    by (simp add: self_cancel_def Mgr_DelTimer_def DelTimerInThread_def)
  have xs: "timer_map s1 = xs" by (simp add: s1_def)
  note IH = Cons.hyps(1) [OF xs [symmetric] step(1), of "act (tproc x) (tid x) w", unfolded xs]
  show ?case
  proof (cases "due_at x < now")
    case True
    then have "(now \<le> due_at x) = False" by (simp add: not_le)
    with True IH show ?thesis
      by (subst run_loop.simps) (simp add: x s1_def [symmetric] cb)
  next
    case False
    then have "(now \<le> due_at x) = True" by (simp add: not_less)
    with False Cons.prems show ?thesis by (subst run_loop.simps) (simp add: x)
  qed
qed

lemma RunTimer_loop: "RunTimer cb now w s = run_loop cb now w s"
  by (simp add: RunTimer_def run_loop.simps)

lemma pending_filter:
  "distinct (map tid xs) \<Longrightarrow> map_of (map (\<lambda>x. (tid x, (due_at x, tproc x))) (filter P xs)) i =
     (case map_of (map (\<lambda>x. (tid x, x)) xs) i of None \<Rightarrow> None | Some x \<Rightarrow> if P x then Some (due_at x, tproc x) else None)"
proof (induction xs)
  case (Cons y ys)
  then have "map_of (map (\<lambda>x. (tid x, x)) ys) (tid y) = None"
    by (auto simp: map_of_eq_None_iff image_image)
  with Cons show ?case by auto
qed simp

lemma pending_dropWhile:
  assumes inv: "mgr_inv s" "mgr_inv s'" and drop: "timer_map s' = dropWhile (\<lambda>x. due_at x < now) (timer_map s)"
  shows "pending s' = (\<lambda>i. if i \<in> late_ids now s then None else pending s i)"
proof -
  have sorted: "sorted (map due_at (timer_map s))" and dist: "distinct (map tid (timer_map s))"
    using inv(1) by (simp_all add: mgr_inv_def)
  have "dropWhile (\<lambda>x. due_at x < now) xs = filter (\<lambda>x. \<not> due_at x < now) xs" if "sorted (map due_at xs)" for xs
    using that
  proof (induction xs)
    case (Cons x xs)
    have "filter (\<lambda>x. \<not> due_at x < now) xs = xs" if "\<not> due_at x < now"
    proof (rule filter_True, rule ballI)
      fix y assume "y \<in> set xs"
      then have "due_at x \<le> due_at y" using Cons.prems by simp
      with that show "\<not> due_at y < now" using le_less_trans by blast
    qed
    with Cons show ?case by auto
  qed simp
  then have f: "timer_map s' = filter (\<lambda>x. \<not> due_at x < now) (timer_map s)" using drop sorted by simp
  have "pending s i = (case map_of (map (\<lambda>x. (tid x, x)) (timer_map s)) i of None \<Rightarrow> None | Some x \<Rightarrow> Some (due_at x, tproc x))" for i
    using pending_filter [OF dist, of "\<lambda>_. True" i, unfolded if_True] by (simp add: pending_def)
  then show ?thesis
    unfolding fun_eq_iff late_ids_def pending_def f pending_filter [OF dist]
    by (auto split: option.splits simp: pending_def [symmetric])
qed

lemma takeWhile_sorted_filter:
  "sorted (map due_at xs) \<Longrightarrow> takeWhile (\<lambda>x. due_at x < now) xs = filter (\<lambda>x. due_at x < now) xs"
proof (induction xs)
  case (Cons x xs)
  have "filter (\<lambda>x. due_at x < now) xs = []" if "now \<le> due_at x"
  proof -
    have "now \<le> due_at y" if "y \<in> set xs" for y
      using Cons.prems that \<open>now \<le> due_at x\<close> by (auto intro: order_trans)
    then show ?thesis by (auto simp: filter_empty_conv dest: leD)
  qed
  then show ?case using Cons by (auto simp: not_less)
qed simp

section \<open>Properties\<close>

text \<open>C6. On a consistent manager, and with a timer id not in use, AddTimer returns a fresh non-zero id
  and adds exactly that timer at now + after, DelTimer of any id, known or not, removes exactly that
  id, and both keep the time map sorted and in step with the id map.\<close>

theorem timer_mgr_operations:
  assumes "mgr_inv s" "pending s (fst (GetTimerId s)) = None"
  shows "(case Mgr_AddTimer now (Some p) after s of (i, s') \<Rightarrow>
            mgr_inv s' \<and> i \<noteq> 0 \<and> pending s i = None \<and> pending s' = (pending s)(i \<mapsto> (now + after, p))) \<and>
         (case Mgr_DelTimer j s of (r, s') \<Rightarrow> r = 0 \<and> mgr_inv s' \<and> pending s' = (pending s)(j := None)) \<and>
         Mgr_AddTimer now None after s = (-1, s)"
proof -
  obtain i s' where "Mgr_AddTimer now (Some p) after s = (i, s')" by (cases "Mgr_AddTimer now (Some p) after s")
  with Mgr_AddTimer_spec [OF assms this] DelTimerInThread_spec [OF assms(1), of j] show ?thesis
    by (simp add: Mgr_DelTimer_def) (simp add: Mgr_AddTimer_def)
qed

lemma timer_mgr_operations_witness:
  "pending (snd (Mgr_AddTimer 10 (Some ''t'') 5 mgr_new)) 1 = Some (15, ''t'')"
proof -
  obtain i s' where run: "Mgr_AddTimer 10 (Some ''t'') 5 mgr_new = (i, s')" by fastforce
  then have i: "i = 1" by (auto simp: Mgr_AddTimer_def GetTimerId_def mgr_new_def)
  have "pending mgr_new (fst (GetTimerId (mgr_new :: string timer_mgr))) = None" by (simp add: pending_new)
  from timer_mgr_operations [OF mgr_inv_new this, where now = 10 and p = "''t''" and after = 5 and j = 0] show ?thesis
    by (simp add: run i pending_new)
qed

text \<open>C7. With callbacks that leave the manager alone or cancel the very timer that is firing, RunTimer
  returns after handing exactly the timers due before now to their callbacks, in the order of their
  due times, and keeps every other timer.\<close>

theorem RunTimer_fires_late:
  assumes "mgr_inv s"
  shows "\<exists>xs s'. RunTimer (self_cancel c act) now w s = Some (fold (\<lambda>x. act (tproc x) (tid x)) xs w, s') \<and>
     sorted (map due_at xs) \<and> distinct (map tid xs) \<and>
     set xs = {x \<in> set (timer_map s). due_at x < now} \<and> tid ` set xs = late_ids now s \<and>
     mgr_inv s' \<and> pending s' = (\<lambda>i. if i \<in> late_ids now s then None else pending s i)"
proof -
  let ?xs = "takeWhile (\<lambda>x. due_at x < now) (timer_map s)"
  from run_loop_fires [OF assms, of c act now w] obtain s' where
    s': "run_loop (self_cancel c act) now w s = Some (fold (\<lambda>x. act (tproc x) (tid x)) ?xs w, s')"
      "mgr_inv s'" "timer_map s' = dropWhile (\<lambda>x. due_at x < now) (timer_map s)"
    by blast
  have inv: "sorted (map due_at (timer_map s))" "distinct (map tid (timer_map s))"
    using assms by (simp_all add: mgr_inv_def)
  have xs: "?xs = filter (\<lambda>x. due_at x < now) (timer_map s)"
    by (rule takeWhile_sorted_filter [OF inv(1)])
  have ids: "tid ` set ?xs = late_ids now s"
  proof -
    have "pending s i = Some (t, p) \<longleftrightarrow> (\<exists>x \<in> set (timer_map s). tid x = i \<and> due_at x = t \<and> tproc x = p)" for i t p
      using inv(2) by (auto simp: pending_def map_of_eq_Some_iff comp_def image_iff)
    then show ?thesis unfolding late_ids_def xs by auto
  qed
  show ?thesis
    using s'(1,2) ids inv pending_dropWhile [OF assms s'(2,3)]
    by (intro exI [of _ ?xs] exI [of _ s'])
       (simp add: RunTimer_loop xs sorted_filter distinct_map_filter)
qed

text \<open>RunTimer returns with nothing late left whenever the callbacks make no further timer late, however
  many timers they add for now or later and cancel.\<close>

lemma RunTimer_ends:
  assumes "I w s" "no_new_late I cb now"
  shows "\<exists>w' s'. RunTimer cb now w s = Some (w', s') \<and> I w' s' \<and> late_ids now s' = {}"
  unfolding RunTimer_loop by (rule run_loop_ends [OF assms(2,1)])

text \<open>A callback that arms its timer again with delay 0, up to \<open>w\<close> times.\<close>

definition rearm :: "u64 \<Rightarrow> 'p \<Rightarrow> u64 \<Rightarrow> nat \<Rightarrow> 'p timer_mgr \<Rightarrow> nat \<times> 'p timer_mgr" where
  "rearm now p i w s = (if w = 0 then (w, s) else (w - 1, snd (Mgr_AddTimer now (Some p) 0 s)))"

definition ids_left :: "nat \<Rightarrow> 'p timer_mgr \<Rightarrow> bool" where
  "ids_left w s \<longleftrightarrow> mgr_inv s \<and> (\<forall>i \<in> dom (pending s). unat i \<le> unat (tmid s)) \<and> unat (tmid s) + w < 2 ^ 64"

lemma rearm_no_new_late: "no_new_late ids_left (rearm now) now"
proof -
  have "ids_left w' s' \<and> late_ids now s' \<subseteq> late_ids now s - {tid x}"
    if I: "ids_left w s" and x: "timer_map s = x # xs"
      and cb: "rearm now (tproc x) (tid x) w (s\<lparr>timer_map := xs, id_map := (id_map s)(tid x := None)\<rparr>) = (w', s')"
    for w w' and s s' :: "'p timer_mgr" and x xs
  proof -
    define s1 where "s1 = s\<lparr>timer_map := xs, id_map := (id_map s)(tid x := None)\<rparr>"
    note step = run_step [OF _ x s1_def]
    have s1: "mgr_inv s1" "pending s1 = (pending s)(tid x := None)" "tmid s1 = tmid s"
      using step I by (simp_all add: ids_left_def) (simp add: s1_def)
    have late1: "late_ids now s1 = late_ids now s - {tid x}" by (auto simp: late_ids_def s1(2))
    show ?thesis
    proof (cases "w = 0")
      case True
      then have "s' = s1" "w' = w" using cb by (simp_all add: rearm_def s1_def)
      then show ?thesis using I s1 late1 by (auto simp: ids_left_def)
    next
      case False
      then have up: "unat (tmid s + 1) = unat (tmid s) + 1"
        using I by (simp add: ids_left_def unat_word_ariths)
      then have pos: "tmid s + 1 > 0" by (metis add_is_0 unat_0 word_gt_0 zero_neq_one)
      obtain i s2 where add: "Mgr_AddTimer now (Some (tproc x)) 0 s1 = (i, s2)" by fastforce
      have g: "GetTimerId s1 = (tmid s + 1, s1\<lparr>tmid := tmid s + 1\<rparr>)" using pos by (simp add: GetTimerId_def Let_def s1(3))
      have "pending s1 (tmid s + 1) = None"
      proof (rule ccontr)
        assume "pending s1 (tmid s + 1) \<noteq> None"
        then have "tmid s + 1 \<in> dom (pending s)" by (auto simp: s1(2) split: if_splits)
        then have "unat (tmid s + 1) \<le> unat (tmid s)" using I by (simp only: ids_left_def)
        then show False using up by simp
      qed
      then have a: "mgr_inv s2" "pending s2 = (pending s1)(i \<mapsto> (now, tproc x))"
        using Mgr_AddTimer_spec [OF s1(1) _ add] by (simp_all add: g)
      have i: "i = tmid s + 1" "tmid s2 = tmid s + 1"
        using add by (auto simp: Mgr_AddTimer_def g AddTimerInThread_def)
      have "s' = s2" "w' = w - 1" using cb False add by (simp_all add: rearm_def s1_def)
      moreover have "ids_left (w - 1) s2"
        using I a False up by (auto simp: ids_left_def i s1(2) dest!: bspec)
      moreover have "late_ids now s2 \<subseteq> late_ids now s1" by (auto simp: late_ids_def a(2))
      ultimately show ?thesis using late1 by simp
    qed
  qed
  moreover have "mgr_inv s" if "ids_left w s" for w and s :: "'p timer_mgr" using that by (simp add: ids_left_def)
  ultimately show ?thesis unfolding no_new_late_def by blast
qed

lemma RunTimer_ends_witness:
  "\<exists>w' s'. RunTimer (rearm 20) 20 3 (snd (Mgr_AddTimer 10 (Some ''t'') 5 mgr_new)) = Some (w', s') \<and>
     ids_left w' s' \<and> late_ids 20 s' = {}"
proof (rule RunTimer_ends [OF _ rearm_no_new_late])
  have "Mgr_AddTimer 10 (Some ''t'') 5 mgr_new = (1, snd (Mgr_AddTimer 10 (Some ''t'') 5 mgr_new))"
    by (simp add: Mgr_AddTimer_def GetTimerId_def mgr_new_def)
  from Mgr_AddTimer_spec [OF mgr_inv_new _ this]
  have "mgr_inv (snd (Mgr_AddTimer 10 (Some ''t'') 5 mgr_new))"
    "pending (snd (Mgr_AddTimer 10 (Some ''t'') 5 mgr_new)) = [1 \<mapsto> (15, ''t'')]"
    by (simp_all add: pending_new)
  then show "ids_left 3 (snd (Mgr_AddTimer 10 (Some ''t'') 5 mgr_new))"
    by (simp add: ids_left_def) (simp add: Mgr_AddTimer_def GetTimerId_def mgr_new_def AddTimerInThread_def)
qed

text \<open>Two timers, due at 15 and at 60; at 20 the first is fired by a callback that cancels it, the second is kept.\<close>

definition two_managed :: "string timer_mgr" where
  "two_managed = snd (Mgr_AddTimer 10 (Some ''u'') 50 (snd (Mgr_AddTimer 10 (Some ''t'') 5 mgr_new)))"

lemma RunTimer_fires_late_witness:
  "\<exists>s'. RunTimer (self_cancel True (\<lambda>p i w. w @ [(p, i)])) 20 [] two_managed = Some ([(''t'', 1)], s') \<and> mgr_inv s' \<and>
     pending s' 1 = None \<and> pending s' 2 = Some (60, ''u'')"
proof -
  have s: "timer_map two_managed = [\<lparr>node = 0, due_at = 15, tid = 1, tproc = ''t''\<rparr>, \<lparr>node = 1, due_at = 60, tid = 2, tproc = ''u''\<rparr>]"
    "id_map two_managed = [1 \<mapsto> 0, 2 \<mapsto> 1]" "next_item two_managed = 2"
    by (simp_all add: two_managed_def Mgr_AddTimer_def GetTimerId_def AddTimerInThread_def mgr_new_def Let_def)
  have inv: "mgr_inv two_managed" by (auto simp: mgr_inv_def s)
  have p: "pending two_managed 1 = Some (15, ''t'')" "pending two_managed 2 = Some (60, ''u'')" by (simp_all add: pending_def s)
  from RunTimer_fires_late [OF inv, of True "\<lambda>p i w. w @ [(p, i)]" 20 "[]"] obtain xs s' where
    r: "RunTimer (self_cancel True (\<lambda>p i w. w @ [(p, i)])) 20 [] two_managed = Some (fold (\<lambda>x w. w @ [(tproc x, tid x)]) xs [], s')"
      "distinct (map tid xs)" "set xs = {x \<in> set (timer_map two_managed). due_at x < 20}" "mgr_inv s'"
      "pending s' = (\<lambda>i. if i \<in> late_ids 20 two_managed then None else pending two_managed i)" by blast
  have "set xs = {\<lparr>node = 0, due_at = 15, tid = 1, tproc = ''t''\<rparr>}" unfolding r(3) by (auto simp: s)
  then have "xs = [\<lparr>node = 0, due_at = 15, tid = 1, tproc = ''t''\<rparr>]" using r(2) by (cases xs rule: remdups_adj.cases) auto
  moreover have "1 \<in> late_ids 20 two_managed" "2 \<notin> late_ids 20 two_managed" using p by (auto simp: late_ids_def)
  ultimately show ?thesis using r(1,4,5) p by simp
qed

end
