(* ===== verification/Coroutine.thy ===== *)
theory Coroutine
  imports Clients Timer_Mgr
begin

text \<open>
  Coroutines and the service thread that runs them: src/src/coroutine/coroutine_impl.cpp, coroutine_schedule.cpp,
  coroutine_actor.cpp, coroutine_context.h and service/coroutine_service_handle.cpp. A context switch is a change of the field
  \<open>running\<close>: what a coroutine goes on with when it is resumed, its saved stack, is a value of a type 'k, below
  the place of the service thread's code at which it gave way. The order in which an unordered_set is iterated is an argument:
  \<open>ins\<close> tells where a new element goes.
\<close>

section \<open>Coroutines\<close>

definition kCoroutineInvalid :: int where "kCoroutineInvalid = 0"
definition kCoroutineReady :: int where "kCoroutineReady = 1"
definition kCoroutineRunning :: int where "kCoroutineRunning = 2"
definition kCoroutineSuspend :: int where "kCoroutineSuspend = 3"

lemmas coro_states = kCoroutineInvalid_def kCoroutineReady_def kCoroutineRunning_def kCoroutineSuspend_def

definition STACK_SIZE :: int where "STACK_SIZE = 256 * 1024"

record 'k actor =
  co_status :: int
  ctx_cap :: int
  stack_size :: int
  co_stack :: "'k option"
  is_waiting :: bool
  waiting_id :: u64
  msg_list :: "message list"

record 'k coro_sched =
  nco :: nat
  cap :: nat
  running :: int
  coctxs :: "'k actor option list"

definition CoNew :: "'k actor" where
  "CoNew = \<lparr>co_status = kCoroutineReady, ctx_cap = 0, stack_size = 0, co_stack = None, is_waiting = False, waiting_id = -1, msg_list = []\<rparr>"

text \<open>A negative number is a vector size no vector has.\<close>

definition CoroutineInit :: "int \<Rightarrow> 'k coro_sched outcome" where
  "CoroutineInit coroutine_size =
     (if coroutine_size < 0 then Inl Length_Error_Exception
      else Inr \<lparr>nco = 0, cap = nat coroutine_size, running = -1, coctxs = replicate (nat coroutine_size) None\<rparr>)"

definition CoroutineNew :: "'k coro_sched \<Rightarrow> int \<times> 'k coro_sched" where
  "CoroutineNew s =
     (if nco s \<ge> cap s
      then (int (cap s), s\<lparr>coctxs := coctxs s @ [Some CoNew], cap := cap s + 1, nco := nco s + 1\<rparr>)
      else case find (\<lambda>cid. coctxs s ! cid = None) (map (\<lambda>idx. (idx + nco s) mod cap s) [0..<cap s]) of
             None \<Rightarrow> (-1, s)
           | Some cid \<Rightarrow> (int cid, s\<lparr>coctxs := (coctxs s)[cid := Some CoNew], nco := nco s + 1\<rparr>))"

text \<open>\<open>corotine->coctxs[cid]\<close>, within the bounds the callers test.\<close>

definition ctx_at :: "int \<Rightarrow> 'k coro_sched \<Rightarrow> 'k actor option" where
  "ctx_at cid s = (if 0 \<le> cid \<and> cid < int (cap s) then coctxs s ! nat cid else None)"

definition set_ctx :: "int \<Rightarrow> 'k actor \<Rightarrow> 'k coro_sched \<Rightarrow> 'k coro_sched" where
  "set_ctx cid c s = s\<lparr>coctxs := (coctxs s)[nat cid := Some c]\<rparr>"

definition GetCoroutineCtx :: "int \<Rightarrow> 'k coro_sched \<Rightarrow> 'k actor option" where
  "GetCoroutineCtx cid s = ctx_at cid s"

definition CoroutineStatus :: "int \<Rightarrow> 'k coro_sched \<Rightarrow> int" where
  "CoroutineStatus cid s = (case ctx_at cid s of None \<Rightarrow> kCoroutineInvalid | Some c \<Rightarrow> co_status c)"

text \<open>Whether resuming switches, to the start of the coroutine's function or to its saved stack.\<close>

datatype 'k resumed = Not_Switched | Started | Continued "'k option"

definition CoroutineResume :: "int \<Rightarrow> 'k coro_sched \<Rightarrow> 'k resumed \<times> 'k coro_sched" where
  "CoroutineResume cid s =
     (if running s \<noteq> -1 then (Not_Switched, s)
      else case ctx_at cid s of
             None \<Rightarrow> (Not_Switched, s)
           | Some c \<Rightarrow>
               if co_status c = kCoroutineReady
               then (Started, (set_ctx cid (c\<lparr>co_status := kCoroutineRunning\<rparr>) s)\<lparr>running := cid\<rparr>)
               else if co_status c = kCoroutineSuspend
               then (Continued (co_stack c), (set_ctx cid (c\<lparr>co_status := kCoroutineRunning\<rparr>) s)\<lparr>running := cid\<rparr>)
               else (Not_Switched, s))"

text \<open>\<open>used\<close> is the part of the stack in use; what does not fit is not saved.\<close>

definition SaveStack :: "int \<Rightarrow> 'k \<Rightarrow> 'k actor \<Rightarrow> 'k actor" where
  "SaveStack used k c =
     (if used \<ge> STACK_SIZE then c
      else (if ctx_cap c < used then c\<lparr>ctx_cap := used\<rparr> else c)\<lparr>stack_size := used, co_stack := Some k\<rparr>)"

definition CoroutineYield :: "int \<Rightarrow> int \<Rightarrow> 'k \<Rightarrow> 'k coro_sched \<Rightarrow> (bool \<times> 'k coro_sched) outcome" where
  "CoroutineYield here_used used k s =
     (if running s < 0 then Inr (False, s)
      else case ctx_at (running s) s of
             None \<Rightarrow> Inl Null_Dereference
           | Some c \<Rightarrow>
               if here_used \<ge> STACK_SIZE then Inr (False, s)
               else Inr (True, (set_ctx (running s) ((SaveStack used k c)\<lparr>co_status := kCoroutineSuspend\<rparr>) s)\<lparr>running := -1\<rparr>))"

text \<open>The end of a coroutine's function.\<close>

definition MainFunc_end :: "'k coro_sched \<Rightarrow> 'k coro_sched" where
  "MainFunc_end s = s\<lparr>coctxs := (coctxs s)[nat (running s) := None], nco := nco s - 1, running := -1\<rparr>"

section \<open>Scheduling\<close>

record 'k schedule =
  coro_sche :: "'k coro_sched"
  all_coro_list :: "int list"
  available_coro_list :: "int list"
  active_coro_list :: "int list"
  cur_coroutine_id :: int

definition AddNewCoroutine :: "(int \<Rightarrow> int list \<Rightarrow> int list) \<Rightarrow> 'k schedule \<Rightarrow> int \<times> 'k schedule" where
  "AddNewCoroutine ins s =
     (case CoroutineNew (coro_sche s) of (cid, cs) \<Rightarrow>
        (cid, s\<lparr>coro_sche := cs, all_coro_list := all_coro_list s @ [cid],
               available_coro_list := (if cid \<in> set (available_coro_list s) then available_coro_list s else ins cid (available_coro_list s))\<rparr>))"

definition InitCoroSchedule :: "(int \<Rightarrow> int list \<Rightarrow> int list) \<Rightarrow> int \<Rightarrow> 'k schedule outcome" where
  "InitCoroSchedule ins coroutine_size =
     map_sum id (\<lambda>cs. ((\<lambda>s. snd (AddNewCoroutine ins s)) ^^ cap cs)
         \<lparr>coro_sche = cs, all_coro_list = [], available_coro_list = [], active_coro_list = [], cur_coroutine_id = -1\<rparr>)
       (CoroutineInit coroutine_size)"

definition GetAvailableCoroId :: "(int \<Rightarrow> int list \<Rightarrow> int list) \<Rightarrow> 'k schedule \<Rightarrow> int \<times> 'k schedule" where
  "GetAvailableCoroId ins s =
     (case available_coro_list s of
        cid # _ \<Rightarrow> (cid, s)
      | [] \<Rightarrow> (case AddNewCoroutine ins s of (cid, s') \<Rightarrow> (if cid \<ge> 0 then cid else -1, s')))"

definition sched_Yield :: "int \<Rightarrow> 'k \<Rightarrow> 'k schedule \<Rightarrow> (bool \<times> 'k schedule) outcome" where
  "sched_Yield used k s =
     map_sum id (\<lambda>(sw, cs). (sw, s\<lparr>cur_coroutine_id := -1, coro_sche := cs\<rparr>)) (CoroutineYield used used k (coro_sche s))"

definition sched_Yield_id :: "int \<Rightarrow> int \<Rightarrow> 'k \<Rightarrow> 'k schedule \<Rightarrow> (bool \<times> 'k schedule) outcome" where
  "sched_Yield_id coro used k s =
     (let s1 = s\<lparr>available_coro_list := removeAll coro (available_coro_list s)\<rparr>
      in if coro = running (coro_sche s1) then sched_Yield used k s1 else Inr (False, s1))"

definition CoroutineYieldToActive :: "int \<Rightarrow> int \<Rightarrow> 'k \<Rightarrow> 'k schedule \<Rightarrow> (bool \<times> 'k schedule) outcome" where
  "CoroutineYieldToActive coro used k s =
     (if coro < 0 \<or> coro \<ge> int (cap (coro_sche s)) then Inr (False, s)
      else if running (coro_sche s) = coro then Inr (False, s)
      else let s1 = s\<lparr>active_coro_list := active_coro_list s @ [coro]\<rparr>
           in if running (coro_sche s1) \<ge> 0 then sched_Yield used k s1 else Inr (False, s1))"

definition AfterYieldToAvailable :: "(int \<Rightarrow> int list \<Rightarrow> int list) \<Rightarrow> int \<Rightarrow> 'k schedule \<Rightarrow> 'k schedule" where
  "AfterYieldToAvailable ins coro s =
     s\<lparr>available_coro_list := (if coro \<in> set (available_coro_list s) then available_coro_list s else ins coro (available_coro_list s))\<rparr>"

definition sched_Resume :: "int \<Rightarrow> 'k schedule \<Rightarrow> 'k resumed \<times> 'k schedule" where
  "sched_Resume cid s =
     (if cid < 0 \<or> cid \<ge> int (cap (coro_sche s)) then (Not_Switched, s)
      else case CoroutineResume cid (coro_sche s) of (r, cs) \<Rightarrow> (r, s\<lparr>cur_coroutine_id := cid, coro_sche := cs\<rparr>))"

definition CoroutineResumeActive :: "'k schedule \<Rightarrow> bool \<times> 'k resumed \<times> 'k schedule" where
  "CoroutineResumeActive s =
     (if running (coro_sche s) \<ge> 0 then (False, Not_Switched, s)
      else case active_coro_list s of
             [] \<Rightarrow> (False, Not_Switched, s)
           | cid # ids \<Rightarrow>
               if cid < 0 \<or> cid \<ge> int (cap (coro_sche s)) then (False, Not_Switched, s\<lparr>active_coro_list := ids\<rparr>)
               else (case sched_Resume cid (s\<lparr>active_coro_list := ids\<rparr>) of (r, s') \<Rightarrow> (True, r, s')))"

section \<open>Messages of a coroutine\<close>

definition SetWaitingId :: "u64 \<Rightarrow> 'k actor \<Rightarrow> 'k actor" where
  "SetWaitingId sid c = c\<lparr>is_waiting := True, waiting_id := sid\<rparr>"

definition SendMessage :: "message \<Rightarrow> 'k actor \<Rightarrow> bool \<times> 'k actor" where
  "SendMessage m c =
     (if \<not> is_waiting c \<or> sequence_id m \<noteq> waiting_id c then (False, c)
      else (True, c\<lparr>msg_list := msg_list c @ [m], waiting_id := -1\<rparr>))"

text \<open>The end of RecieveMessage: the message that is there, if it answers the request that was sent.\<close>

definition take_message :: "u64 \<Rightarrow> 'k actor \<Rightarrow> message option \<times> message list \<times> 'k actor" where
  "take_message sid c =
     (let c1 = c\<lparr>is_waiting := False, waiting_id := -1\<rparr>
      in case msg_list c1 of
           [] \<Rightarrow> (None, [], c1)
         | m # ms \<Rightarrow> if sid \<noteq> sequence_id m then (None, [m], c1\<lparr>msg_list := ms\<rparr>) else (Some m, [], c1\<lparr>msg_list := ms\<rparr>))"

section \<open>The service thread\<close>

definition MAX_CORO_IDS :: int where "MAX_CORO_IDS = 100000"

text \<open>
  Where the code of a coroutine is: before RunTimer; in its loop, with the time it began at; before Process; in the loop over a batch of
  messages; in the handler of a message, with the calls it is still going to make; in RecieveMessage behind the yield, with the request and the
  timer; behind the yield on a message that is then destroyed.
\<close>

type_synonym calls = "(client \<times> message) list"

datatype place =
    Loop_Top | Timers u64 | Polling
  | Batch "message list"
  | Calls calls "message list"
  | Recv message u64 calls "message list"
  | Drop message "message list"

record coro_world =
  sched :: "place schedule"
  tmgr :: "int timer_mgr"
  inbox :: "message list"
  empty_times :: int
  cworld :: clients_world
  here :: place
  results :: "(int \<times> message option \<times> message option) list"
  handled :: "message list"
  dropped :: "message list"
  hdl_id :: int

text \<open>A yield of the running coroutine at a place; \<open>depth\<close> tells how much stack is in use there. Where nothing is switched the code goes on.\<close>

definition give_way :: "place \<Rightarrow> (bool \<times> place schedule) outcome \<Rightarrow> coro_world \<Rightarrow> coro_world outcome" where
  "give_way k r w = map_sum id (\<lambda>(sw, s). w\<lparr>sched := s, here := k\<rparr>) r"

definition yield_at :: "(place \<Rightarrow> int) \<Rightarrow> place \<Rightarrow> coro_world \<Rightarrow> coro_world outcome" where
  "yield_at depth k w = give_way k (sched_Yield (depth k) k (sched w)) w"

definition yield_to :: "(place \<Rightarrow> int) \<Rightarrow> int \<Rightarrow> place \<Rightarrow> coro_world \<Rightarrow> coro_world outcome" where
  "yield_to depth cid k w = give_way k (CoroutineYieldToActive cid (depth k) k (sched w)) w"

definition OnTimerCoro :: "(place \<Rightarrow> int) \<Rightarrow> int \<Rightarrow> place \<Rightarrow> coro_world \<Rightarrow> coro_world outcome" where
  "OnTimerCoro depth coro k w = (if coro < 0 then Inr (w\<lparr>here := k\<rparr>) else yield_to depth coro k w)"

definition timer_turn :: "(place \<Rightarrow> int) \<Rightarrow> u64 \<Rightarrow> coro_world \<Rightarrow> coro_world outcome" where
  "timer_turn depth t w =
     (case timer_map (tmgr w) of
        [] \<Rightarrow> Inr (w\<lparr>here := Polling\<rparr>)
      | x # xs \<Rightarrow>
          if due_at x \<ge> t then Inr (w\<lparr>here := Polling\<rparr>)
          else OnTimerCoro depth (tproc x) (Timers t)
                 (w\<lparr>tmgr := (tmgr w)\<lparr>timer_map := xs, id_map := (id_map (tmgr w))(tid x := None)\<rparr>\<rparr>))"

definition Process :: "(place \<Rightarrow> int) \<Rightarrow> coro_world \<Rightarrow> coro_world outcome" where
  "Process depth w =
     (if inbox w = []
      then let n = empty_times w + 1; w1 = w\<lparr>empty_times := n\<rparr>
           in if n mod 10 = 0 then yield_at depth Loop_Top w1 else Inr (w1\<lparr>here := Loop_Top\<rparr>)
      else Inr (w\<lparr>empty_times := 0, inbox := [], here := Batch (inbox w)\<rparr>))"

definition set_actor :: "int \<Rightarrow> place actor \<Rightarrow> coro_world \<Rightarrow> coro_world" where
  "set_actor cid c w = w\<lparr>sched := (sched w)\<lparr>coro_sche := set_ctx cid c (coro_sche (sched w))\<rparr>\<rparr>"

definition ProcessClientItem :: "(place \<Rightarrow> int) \<Rightarrow> message \<Rightarrow> message list \<Rightarrow> coro_world \<Rightarrow> coro_world outcome" where
  "ProcessClientItem depth m temp w =
     (if coroutine_id m < 0 then yield_at depth (Drop m temp) w
      else case GetCoroutineCtx (coroutine_id m) (coro_sche (sched w)) of
             None \<Rightarrow> Inl Null_Dereference
           | Some c \<Rightarrow>
               (case SendMessage m c of (ok, c') \<Rightarrow>
                  if ok then yield_to depth (coroutine_id m) (Batch temp) (set_actor (coroutine_id m) c' w)
                  else Inr (w\<lparr>dropped := dropped w @ [m], here := Batch temp\<rparr>)))"

text \<open>One message of ProcessMessageHandle. \<open>prog\<close> is the application's handler: the calls it makes for a message.\<close>

definition ProcessMessage :: "(place \<Rightarrow> int) \<Rightarrow> (message \<Rightarrow> calls) \<Rightarrow> u64 \<Rightarrow> message \<Rightarrow> message list \<Rightarrow> coro_world \<Rightarrow> coro_world outcome" where
  "ProcessMessage depth prog now m temp w =
     (if status m \<noteq> kStatusOK then yield_at depth (Drop m temp) w
      else if direction m = kIncomingRequest
      then if now - birthtime m > INNER_QUERY_SEND_PROTECT_TIME
           then Inr (w\<lparr>dropped := dropped w @ [m], here := Batch temp\<rparr>)
           else Inr (w\<lparr>handled := handled w @ [m], here := Calls (prog m) temp\<rparr>)
      else ProcessClientItem depth m temp w)"

definition answer :: "message option \<Rightarrow> message option \<Rightarrow> place \<Rightarrow> coro_world \<Rightarrow> coro_world" where
  "answer req resp k w = w\<lparr>results := results w @ [(cur_coroutine_id (sched w), req, resp)], here := k\<rparr>"

text \<open>DoRecieve with RecieveMessage up to its yield.\<close>

definition DoRecieve :: "(place \<Rightarrow> int) \<Rightarrow> u64 \<Rightarrow> u32 \<Rightarrow> message \<Rightarrow> calls \<Rightarrow> message list \<Rightarrow> coro_world \<Rightarrow> coro_world outcome" where
  "DoRecieve depth now timeout req cs temp w =
     (let cid = cur_coroutine_id (sched w) in
      case GetCoroutineCtx cid (coro_sche (sched w)) of
        None \<Rightarrow> Inr (answer (Some req) None (Calls cs temp) w)
      | Some c \<Rightarrow>
          let w1 = set_actor cid (SetWaitingId (sequence_id req) c) w in
          if cid \<noteq> coroutine_id req then Inr (answer (Some req) None (Calls cs temp) w1)
          else if msg_list c = []
          then if cid \<ge> MAX_CORO_IDS then Inl Out_Of_Bounds
               else (case Mgr_AddTimer now (Some cid) (ucast timeout) (tmgr w1) of (time_id, tm) \<Rightarrow>
                       give_way (Recv req time_id cs temp)
                         (sched_Yield_id cid (depth (Recv req time_id cs temp)) (Recv req time_id cs temp) (sched w1)) (w1\<lparr>tmgr := tm\<rparr>))
          else Inr (w1\<lparr>here := Recv req 0 cs temp\<rparr>))"

text \<open>RecieveMessage behind its yield, and the end of DoSendRecieve.\<close>

definition Recieved :: "(int \<Rightarrow> int list \<Rightarrow> int list) \<Rightarrow> message \<Rightarrow> u64 \<Rightarrow> calls \<Rightarrow> message list \<Rightarrow> coro_world \<Rightarrow> coro_world outcome" where
  "Recieved ins req time_id cs temp w =
     (let cid = cur_coroutine_id (sched w);
          w1 = (if time_id \<noteq> 0 then w\<lparr>sched := AfterYieldToAvailable ins cid (sched w), tmgr := snd (Mgr_DelTimer time_id (tmgr w))\<rparr> else w)
      in case GetCoroutineCtx cid (coro_sche (sched w1)) of
           None \<Rightarrow> Inl Null_Dereference
         | Some c \<Rightarrow>
             (case take_message (sequence_id req) c of (resp, lost, c') \<Rightarrow>
                let w2 = (set_actor cid c' w1)\<lparr>dropped := dropped w1 @ lost\<rparr>
                in case resp of
                     None \<Rightarrow> Inr (answer (Some req) None (Calls cs temp) w2)
                   | Some m \<Rightarrow>
                       if status m \<noteq> kStatusOK then Inr (answer (Some req) None (Calls cs temp) (w2\<lparr>dropped := dropped w2 @ [m]\<rparr>))
                       else Inr (answer (Some req) (Some m) (Calls cs temp) w2)))"

definition MakeCall :: "(place \<Rightarrow> int) \<Rightarrow> u64 \<Rightarrow> client \<Rightarrow> message \<Rightarrow> calls \<Rightarrow> message list \<Rightarrow> coro_world \<Rightarrow> coro_world outcome" where
  "MakeCall depth now c m cs temp w =
     outcome_bind (client_SendRecieve now m c ((cworld w)\<lparr>service_coro := Some (hdl_id w, cur_coroutine_id (sched w))\<rparr>)) (\<lambda>(req, cw).
       case req of
         None \<Rightarrow> Inr (answer None None (Calls cs temp) (w\<lparr>cworld := cw\<rparr>))
       | Some r \<Rightarrow> DoRecieve depth now (cl_timeout_ms c) r cs temp (w\<lparr>cworld := cw\<rparr>))"

definition coro_step :: "(int \<Rightarrow> int list \<Rightarrow> int list) \<Rightarrow> (place \<Rightarrow> int) \<Rightarrow> (message \<Rightarrow> calls) \<Rightarrow> u64 \<Rightarrow> coro_world \<Rightarrow> coro_world outcome" where
  "coro_step ins depth prog now w =
     (case here w of
        Loop_Top \<Rightarrow> Inr (w\<lparr>here := (if timer_map (tmgr w) = [] then Polling else Timers now)\<rparr>)
      | Timers t \<Rightarrow> timer_turn depth t w
      | Polling \<Rightarrow> Process depth w
      | Batch [] \<Rightarrow> Inr (w\<lparr>here := Loop_Top\<rparr>)
      | Batch (m # temp) \<Rightarrow> ProcessMessage depth prog now m temp w
      | Calls [] temp \<Rightarrow> Inr (w\<lparr>here := Batch temp\<rparr>)
      | Calls ((c, m) # cs) temp \<Rightarrow> MakeCall depth now c m cs temp w
      | Recv req time_id cs temp \<Rightarrow> Recieved ins req time_id cs temp w
      | Drop m temp \<Rightarrow> Inr (w\<lparr>dropped := dropped w @ [m], here := Batch temp\<rparr>))"

definition resumed_at :: "place resumed \<Rightarrow> coro_world \<Rightarrow> coro_world" where
  "resumed_at r w =
     (case r of
        Not_Switched \<Rightarrow> w
      | Started \<Rightarrow> w\<lparr>here := Loop_Top\<rparr>
      | Continued k \<Rightarrow> (case k of None \<Rightarrow> w | Some p \<Rightarrow> w\<lparr>here := p\<rparr>))"

text \<open>One round of the loop of CoroutineServiceHandler::Run.\<close>

definition main_step :: "(int \<Rightarrow> int list \<Rightarrow> int list) \<Rightarrow> coro_world \<Rightarrow> coro_world" where
  "main_step ins w =
     (case CoroutineResumeActive (sched w) of (got, r, s) \<Rightarrow>
        if got then resumed_at r (w\<lparr>sched := s\<rparr>)
        else if cur_coroutine_id s < 0
        then (case GetAvailableCoroId ins s of (cid, s1) \<Rightarrow>
                if cid < 0 then w\<lparr>sched := s1\<rparr>
                else (case sched_Resume cid s1 of (r, s2) \<Rightarrow> resumed_at r (w\<lparr>sched := s2\<rparr>)))
        else w\<lparr>sched := s\<rparr>)"

definition thread_step :: "(int \<Rightarrow> int list \<Rightarrow> int list) \<Rightarrow> (place \<Rightarrow> int) \<Rightarrow> (message \<Rightarrow> calls) \<Rightarrow> u64 \<Rightarrow> coro_world \<Rightarrow> coro_world outcome" where
  "thread_step ins depth prog now w =
     (if running (coro_sche (sched w)) < 0 then Inr (main_step ins w) else coro_step ins depth prog now w)"

section \<open>Invariant\<close>

abbreviation acts :: "coro_world \<Rightarrow> place actor option list" where "acts w \<equiv> coctxs (coro_sche (sched w))"
abbreviation run_of :: "coro_world \<Rightarrow> int" where "run_of w \<equiv> running (coro_sche (sched w))"
abbreviation avail :: "coro_world \<Rightarrow> int list" where "avail w \<equiv> available_coro_list (sched w)"
abbreviation active :: "coro_world \<Rightarrow> int list" where "active w \<equiv> active_coro_list (sched w)"

definition act :: "coro_world \<Rightarrow> nat \<Rightarrow> place actor" where
  "act w i = the (acts w ! i)"

text \<open>Where a coroutine is, and what it waits for: the request and the timer.\<close>

definition place_of :: "coro_world \<Rightarrow> nat \<Rightarrow> place option" where
  "place_of w i =
     (if run_of w = int i then Some (here w)
      else if co_status (act w i) = kCoroutineSuspend then co_stack (act w i) else None)"

definition recv_of :: "place option \<Rightarrow> (message \<times> u64) option" where
  "recv_of p = (case p of Some (Recv req tim cs temp) \<Rightarrow> Some (req, tim) | _ \<Rightarrow> None)"

lemma recv_of_simps [simp]:
  "recv_of None = None" "recv_of (Some Loop_Top) = None" "recv_of (Some (Timers t)) = None" "recv_of (Some Polling) = None"
  "recv_of (Some (Batch b)) = None" "recv_of (Some (Calls cs b)) = None" "recv_of (Some (Recv req tim cs b)) = Some (req, tim)"
  "recv_of (Some (Drop m b)) = None"
  by (simp_all add: recv_of_def)

definition wants :: "coro_world \<Rightarrow> nat \<Rightarrow> (message \<times> u64) option" where
  "wants w i = recv_of (place_of w i)"

definition woken :: "coro_world \<Rightarrow> nat \<Rightarrow> bool" where
  "woken w i \<longleftrightarrow> run_of w = int i \<or> int i \<in> set (active w)"

text \<open>The mail of a coroutine: nothing outside RecieveMessage; inside, either it waits, with a timer that is pending until it is
  woken, or it is woken with the one answer to its request.\<close>

definition mail_ok :: "(message \<times> u64) option \<Rightarrow> place actor \<Rightarrow> int timer_mgr \<Rightarrow> bool \<Rightarrow> nat \<Rightarrow> bool" where
  "mail_ok wnt c tm wk i \<longleftrightarrow>
     (case wnt of
        None \<Rightarrow> \<not> is_waiting c \<and> msg_list c = []
      | Some (req, tim) \<Rightarrow>
          is_waiting c \<and> tim \<noteq> 0 \<and> unat tim \<le> unat (tmid tm) \<and>
          (msg_list c = [] \<and> waiting_id c = sequence_id req \<and> ((\<exists>t. pending tm tim = Some (t, int i)) \<or> wk) \<or>
           wk \<and> (\<exists>m. msg_list c = [m] \<and> sequence_id m = sequence_id req \<and> status m = kStatusOK \<and> coroutine_id m = int i)))"

definition status_ok :: "bool \<Rightarrow> place actor \<Rightarrow> bool" where
  "status_ok rn c \<longleftrightarrow>
     (if rn then co_status c = kCoroutineRunning
      else co_status c = kCoroutineReady \<or> co_status c = kCoroutineSuspend \<and> co_stack c \<noteq> None)"

definition coherent :: "coro_world \<Rightarrow> nat \<Rightarrow> bool" where
  "coherent w i \<longleftrightarrow> acts w ! i \<noteq> None \<and> status_ok (run_of w = int i) (act w i) \<and>
     (int i \<in> set (avail w) \<longleftrightarrow> wants w i = None) \<and> mail_ok (wants w i) (act w i) (tmgr w) (woken w i) i"

definition timers_ok :: "coro_world \<Rightarrow> bool" where
  "timers_ok w \<longleftrightarrow> mgr_inv (tmgr w) \<and>
     (\<forall>tid t j. pending (tmgr w) tid = Some (t, j) \<longrightarrow> (\<exists>i req. i < length (acts w) \<and> j = int i \<and> wants w i = Some (req, tid))) \<and>
     (\<forall>i j req req' tid. i < length (acts w) \<longrightarrow> j < length (acts w) \<longrightarrow> wants w i = Some (req, tid) \<longrightarrow> wants w j = Some (req', tid) \<longrightarrow> i = j)"

definition active_ok :: "coro_world \<Rightarrow> bool" where
  "active_ok w \<longleftrightarrow> active w = [] \<or> run_of w = -1 \<and> (\<exists>i < length (acts w). active w = [int i] \<and> wants w i \<noteq> None)"

definition sched_ok :: "coro_world \<Rightarrow> bool" where
  "sched_ok w \<longleftrightarrow> cap (coro_sche (sched w)) = length (acts w) \<and> nco (coro_sche (sched w)) = length (acts w) \<and>
     cur_coroutine_id (sched w) = run_of w \<and> (run_of w = -1 \<or> (\<exists>r < length (acts w). run_of w = int r)) \<and>
     distinct (avail w) \<and> (\<forall>j \<in> set (avail w). 0 \<le> j \<and> j < int (length (acts w)))"

definition world_inv :: "coro_world \<Rightarrow> bool" where
  "world_inv w \<longleftrightarrow> sched_ok w \<and> active_ok w \<and> timers_ok w \<and> (\<forall>i < length (acts w). coherent w i)"

text \<open>Only the scheduler, the timers and the place of the running coroutine matter.\<close>

lemma world_inv_cong:
  assumes "sched w' = sched w" "tmgr w' = tmgr w" "here w' = here w"
  shows "world_inv w' = world_inv w"
proof -
  have "act w' = act w" "place_of w' = place_of w" using assms by (simp_all add: act_def place_of_def fun_eq_iff)
  then have "wants w' = wants w" "woken w' = woken w" using assms by (simp_all add: wants_def woken_def fun_eq_iff)
  with \<open>act w' = act w\<close> assms show ?thesis
    by (simp add: world_inv_def sched_ok_def active_ok_def timers_ok_def coherent_def)
qed

lemma world_inv_sets [simp]:
  "world_inv (w\<lparr>inbox := a\<rparr>) = world_inv w" "world_inv (w\<lparr>empty_times := b\<rparr>) = world_inv w" "world_inv (w\<lparr>cworld := c\<rparr>) = world_inv w"
  "world_inv (w\<lparr>results := d\<rparr>) = world_inv w" "world_inv (w\<lparr>handled := e\<rparr>) = world_inv w" "world_inv (w\<lparr>dropped := f\<rparr>) = world_inv w"
  by (rule world_inv_cong; simp)+

text \<open>The coroutine that runs.\<close>

lemma runner:
  assumes "world_inv w" "0 \<le> run_of w"
  obtains r c where "run_of w = int r" "r < length (acts w)" "cur_coroutine_id (sched w) = int r" "acts w ! r = Some c" "act w r = c"
    "place_of w r = Some (here w)" "wants w r = recv_of (Some (here w))" "active w = []" "ctx_at (int r) (coro_sche (sched w)) = Some c"
    "cap (coro_sche (sched w)) = length (acts w)"
proof -
  from assms obtain r where r: "run_of w = int r" "r < length (acts w)" "cur_coroutine_id (sched w) = int r" "cap (coro_sche (sched w)) = length (acts w)"
    by (auto simp: world_inv_def sched_ok_def)
  from assms r(2) obtain c where c: "acts w ! r = Some c" by (auto simp: world_inv_def coherent_def)
  have "active w = []" using assms by (auto simp: world_inv_def active_ok_def)
  with that r c show ?thesis by (simp add: act_def place_of_def wants_def ctx_at_def)
qed

text \<open>Going on elsewhere outside RecieveMessage.\<close>

lemma inv_here:
  assumes inv: "world_inv w" and run: "0 \<le> run_of w" and k: "recv_of (Some (here w)) = None" "recv_of (Some k) = None"
  shows "world_inv (w\<lparr>here := k\<rparr>)"
proof -
  have acts': "act (w\<lparr>here := k\<rparr>) = act w" by (simp add: act_def fun_eq_iff)
  have wants': "wants (w\<lparr>here := k\<rparr>) = wants w" using k by (simp add: wants_def place_of_def acts' fun_eq_iff)
  have woken': "woken (w\<lparr>here := k\<rparr>) = woken w" by (simp add: woken_def fun_eq_iff)
  from inv show ?thesis
    by (simp add: world_inv_def sched_ok_def active_ok_def timers_ok_def coherent_def acts' wants' woken')
qed

lemma inv_elsewhere:
  assumes "world_inv w" "0 \<le> run_of w" "recv_of (Some (here w)) = None" "recv_of (Some (here w')) = None" "sched w' = sched w" "tmgr w' = tmgr w"
  shows "world_inv w'"
  using inv_here [OF assms(1-4)] world_inv_cong [of w' "w\<lparr>here := here w'\<rparr>"] assms(5,6) by simp

section \<open>Giving way\<close>

lemma SaveStack_fields [simp]:
  "is_waiting (SaveStack u k c) = is_waiting c" "waiting_id (SaveStack u k c) = waiting_id c" "msg_list (SaveStack u k c) = msg_list c"
  by (simp_all add: SaveStack_def)

lemma SaveStack_stack: "u < STACK_SIZE \<Longrightarrow> co_stack (SaveStack u k c) = Some k"
  by (simp add: SaveStack_def)

definition parked :: "nat \<Rightarrow> place \<Rightarrow> int \<Rightarrow> coro_world \<Rightarrow> coro_world" where
  "parked r k u w = w\<lparr>sched := (sched w)\<lparr>cur_coroutine_id := -1,
       coro_sche := (coro_sche (sched w))\<lparr>coctxs := (acts w)[r := Some ((SaveStack u k (act w r))\<lparr>co_status := kCoroutineSuspend\<rparr>)], running := -1\<rparr>\<rparr>, here := k\<rparr>"

lemma sched_Yield_runs:
  assumes "run_of w = int r" "ctx_at (int r) (coro_sche (sched w)) = Some c" "act w r = c" "u < STACK_SIZE"
  shows "give_way k (sched_Yield u k (sched w)) w = Inr (parked r k u w)"
  using assms by (simp add: give_way_def sched_Yield_def CoroutineYield_def set_ctx_def parked_def)

lemma parked_views:
  assumes "run_of w = int r" "r < length (acts w)" "u < STACK_SIZE"
  shows "run_of (parked r k u w) = -1" "length (acts (parked r k u w)) = length (acts w)" "avail (parked r k u w) = avail w"
    "active (parked r k u w) = active w" "tmgr (parked r k u w) = tmgr w"
    "\<And>i. i \<noteq> r \<Longrightarrow> act (parked r k u w) i = act w i"
    "\<And>i. i \<noteq> r \<Longrightarrow> acts (parked r k u w) ! i = acts w ! i"
    "act (parked r k u w) r = (SaveStack u k (act w r))\<lparr>co_status := kCoroutineSuspend\<rparr>" "acts (parked r k u w) ! r \<noteq> None"
    "wants (parked r k u w) r = recv_of (Some k)" "\<And>i. i \<noteq> r \<Longrightarrow> wants (parked r k u w) i = wants w i"
  using assms by (simp_all add: parked_def act_def wants_def place_of_def SaveStack_stack)

text \<open>A coroutine outside RecieveMessage gives way.\<close>

lemma inv_parked:
  assumes inv: "world_inv w" and run: "run_of w = int r" and k: "recv_of (Some (here w)) = None" "recv_of (Some k) = None" and u: "u < STACK_SIZE"
  shows "world_inv (parked r k u w)"
proof -
  have r: "r < length (acts w)" using inv run by (auto simp: world_inv_def sched_ok_def)
  note v = parked_views [OF run r u, where k = k]
  have wr: "wants w r = None" using k run by (simp add: wants_def place_of_def)
  have wants': "wants (parked r k u w) = wants w"
    using v(10,11) k(2) wr by (metis ext)
  have "active w = []" using inv run by (auto simp: world_inv_def active_ok_def)
  then have "active_ok (parked r k u w)" by (simp add: active_ok_def v)
  moreover have "sched_ok (parked r k u w)" using inv by (auto simp: world_inv_def sched_ok_def v) (auto simp: parked_def)
  moreover have "timers_ok (parked r k u w)" using inv by (simp add: world_inv_def timers_ok_def v wants')
  moreover have "coherent (parked r k u w) i" if "i < length (acts w)" for i
  proof (cases "i = r")
    case True
    have "coherent w r" using inv r by (simp add: world_inv_def)
    then show ?thesis using wr True by (simp add: coherent_def v wants' mail_ok_def status_ok_def coro_states SaveStack_stack [OF u])
  next
    case False
    have "coherent w i" using inv that by (simp add: world_inv_def)
    with False run \<open>active w = []\<close> show ?thesis by (simp add: coherent_def v wants' woken_def)
  qed
  ultimately show ?thesis by (simp add: world_inv_def v)
qed

text \<open>A coroutine outside RecieveMessage gives way to one that waits, with an answer or because its timer ran out.\<close>

definition handed :: "nat \<Rightarrow> place actor \<Rightarrow> int timer_mgr \<Rightarrow> coro_world \<Rightarrow> coro_world" where
  "handed j c' tm w = w\<lparr>sched := (sched w)\<lparr>active_coro_list := [int j], coro_sche := set_ctx (int j) c' (coro_sche (sched w))\<rparr>, tmgr := tm\<rparr>"

lemma handed_views:
  assumes "j < length (acts w)"
  shows "run_of (handed j c' tm w) = run_of w" "length (acts (handed j c' tm w)) = length (acts w)" "avail (handed j c' tm w) = avail w"
    "active (handed j c' tm w) = [int j]" "tmgr (handed j c' tm w) = tm" "here (handed j c' tm w) = here w"
    "act (handed j c' tm w) i = (if i = j then c' else act w i)"
    "acts (handed j c' tm w) ! i = (if i = j then Some c' else acts w ! i)"
    "cap (coro_sche (sched (handed j c' tm w))) = cap (coro_sche (sched w))" "nco (coro_sche (sched (handed j c' tm w))) = nco (coro_sche (sched w))"
    "cur_coroutine_id (sched (handed j c' tm w)) = cur_coroutine_id (sched w)"
  using assms by (auto simp: handed_def set_ctx_def act_def)

lemma inv_handed:
  assumes inv: "world_inv w" and run: "run_of w = int r" and k: "recv_of (Some (here w)) = None" "recv_of (Some k) = None" and u: "u < STACK_SIZE"
    and j: "j < length (acts w)" "wants w j = Some (req, tim)"
    and c': "co_status c' = co_status (act w j)" "co_stack c' = co_stack (act w j)" "mail_ok (Some (req, tim)) c' tm True j"
    and tm: "mgr_inv tm" "tmid tm = tmid (tmgr w)" "\<And>t. t \<noteq> tim \<Longrightarrow> pending tm t = pending (tmgr w) t" "pending tm tim = pending (tmgr w) tim \<or> pending tm tim = None"
  shows "j \<noteq> r \<and> world_inv (parked r k u (handed j c' tm w))"
proof -
  have r: "r < length (acts w)" using inv run by (auto simp: world_inv_def sched_ok_def)
  have wr: "wants w r = None" using k run by (simp add: wants_def place_of_def)
  with j(2) have jr: "j \<noteq> r" by auto
  define w1 where "w1 = handed j c' tm w"
  note h = handed_views [OF j(1), of c' tm, folded w1_def]
  have run1: "run_of w1 = int r" and r1: "r < length (acts w1)" using run r by (simp_all add: h)
  note v = parked_views [OF run1 r1 u, where k = k]
  have wants1: "wants w1 = wants w" using c'(1,2) jr run by (auto simp: wants_def place_of_def h fun_eq_iff)
  have wants': "wants (parked r k u w1) = wants w" using v(10,11) k(2) wr wants1 by (metis ext)
  have "active_ok (parked r k u w1)" using j by (simp add: active_ok_def v wants' h)
  moreover have "sched_ok (parked r k u w1)" using inv by (auto simp: world_inv_def sched_ok_def v h) (auto simp: parked_def h)
  moreover have "timers_ok (parked r k u w1)"
  proof -
    have "pending tm t = Some x \<Longrightarrow> pending (tmgr w) t = Some x" for t x using tm(3) [of t] tm(4) by (cases "t = tim") auto
    with inv tm(1) show ?thesis unfolding world_inv_def timers_ok_def v wants' h by blast
  qed
  moreover have "coherent (parked r k u w1) i" if i: "i < length (acts w)" for i
  proof -
    have ok: "coherent w i" using inv i by (simp add: world_inv_def)
    consider "i = r" | "i = j" | "i \<noteq> r" "i \<noteq> j" by blast
    then show ?thesis
    proof cases
      case 1
      then show ?thesis using wr ok jr
        by (simp add: coherent_def v wants' h mail_ok_def status_ok_def coro_states SaveStack_stack [OF u])
    next
      case 2
      have "woken (parked r k u w1) j" by (simp add: woken_def v h)
      moreover have "\<not> run_of w = int j" using run jr by simp
      ultimately show ?thesis using 2 ok jr c' j(2) by (simp add: coherent_def v wants' h status_ok_def)
    next
      case 3
      have act0: "active w = []" using inv run by (auto simp: world_inv_def active_ok_def)
      have "woken (parked r k u w1) i = woken w i" using 3 run act0 by (simp add: woken_def v h)
      moreover have "mail_ok (wants w i) (act w i) tm wk i" if old: "mail_ok (wants w i) (act w i) (tmgr w) wk i" for wk
      proof (cases "wants w i")
        case None
        with old show ?thesis by (simp add: mail_ok_def)
      next
        case (Some p)
        obtain rq tid where p: "p = (rq, tid)" by (cases p)
        have "tid \<noteq> tim" using inv i j 3(2) Some p unfolding world_inv_def timers_ok_def by blast
        with old Some p tm(2,3) show ?thesis by (simp add: mail_ok_def)
      qed
      moreover have "run_of w \<noteq> int i" using 3(1) run by simp
      ultimately show ?thesis using 3 ok by (simp add: coherent_def v wants' h)
    qed
  qed
  ultimately show ?thesis using jr by (simp add: world_inv_def v h w1_def [symmetric])
qed

lemma yield_to_runs:
  assumes "run_of w = int r" "ctx_at (int r) (coro_sche (sched w)) = Some c" "act w r = c" "u < STACK_SIZE" "j < cap (coro_sche (sched w))" "j \<noteq> r"
    "active w = []"
  shows "give_way k (CoroutineYieldToActive (int j) u k (sched w)) w =
     Inr (parked r k u (w\<lparr>sched := (sched w)\<lparr>active_coro_list := [int j]\<rparr>\<rparr>))"
  using assms
  by (simp add: give_way_def CoroutineYieldToActive_def sched_Yield_def CoroutineYield_def set_ctx_def parked_def act_def)

section \<open>Waiting\<close>

definition begun :: "nat \<Rightarrow> message \<Rightarrow> int timer_mgr \<Rightarrow> coro_world \<Rightarrow> coro_world" where
  "begun r req tm w =
     w\<lparr>sched := (sched w)\<lparr>available_coro_list := removeAll (int r) (avail w), coro_sche := set_ctx (int r) (SetWaitingId (sequence_id req) (act w r)) (coro_sche (sched w))\<rparr>, tmgr := tm\<rparr>"

lemma begun_views:
  assumes "r < length (acts w)"
  shows "run_of (begun r req tm w) = run_of w" "length (acts (begun r req tm w)) = length (acts w)" "avail (begun r req tm w) = removeAll (int r) (avail w)"
    "active (begun r req tm w) = active w" "tmgr (begun r req tm w) = tm" "here (begun r req tm w) = here w"
    "act (begun r req tm w) i = (if i = r then SetWaitingId (sequence_id req) (act w r) else act w i)"
    "acts (begun r req tm w) ! i = (if i = r then Some (SetWaitingId (sequence_id req) (act w r)) else acts w ! i)"
    "cap (coro_sche (sched (begun r req tm w))) = cap (coro_sche (sched w))" "nco (coro_sche (sched (begun r req tm w))) = nco (coro_sche (sched w))"
    "cur_coroutine_id (sched (begun r req tm w)) = cur_coroutine_id (sched w)"
  using assms by (auto simp: begun_def set_ctx_def act_def)

lemma inv_begun:
  assumes inv: "world_inv w" and run: "run_of w = int r" and k: "recv_of (Some (here w)) = None" and u: "u < STACK_SIZE"
    and tm: "mgr_inv tm" "ti \<noteq> 0" "pending tm = (pending (tmgr w))(ti \<mapsto> (t, int r))" "unat ti \<le> unat (tmid tm)" "unat (tmid (tmgr w)) < unat ti"
  shows "world_inv (parked r (Recv req ti cs temp) u (begun r req tm w))"
proof -
  let ?k = "Recv req ti cs temp"
  have r: "r < length (acts w)" using inv run by (auto simp: world_inv_def sched_ok_def)
  have wr: "wants w r = None" using k run by (simp add: wants_def place_of_def)
  have act0: "active w = []" using inv run by (auto simp: world_inv_def active_ok_def)
  define w1 where "w1 = begun r req tm w"
  note h = begun_views [OF r, of req tm, folded w1_def]
  have run1: "run_of w1 = int r" and r1: "r < length (acts w1)" using run r by (simp_all add: h)
  note v = parked_views [OF run1 r1 u, where k = ?k]
  have wants1: "wants w1 i = wants w i" if "i \<noteq> r" for i using that by (auto simp: wants_def place_of_def h)
  have wants': "wants (parked r ?k u w1) i = (if i = r then Some (req, ti) else wants w i)" for i
    using v(10,11) wants1 by auto
  have older: "unat tim \<le> unat (tmid (tmgr w))" if "i < length (acts w)" "wants w i = Some (rq, tim)" for i rq tim
  proof -
    have "coherent w i" using inv that(1) by (simp add: world_inv_def)
    with that(2) show ?thesis by (simp add: coherent_def mail_ok_def)
  qed
  have new: "tim \<noteq> ti" if "i < length (acts w)" "wants w i = Some (rq, tim)" for i rq tim
    using older [OF that] tm(5) by auto
  have "active_ok (parked r ?k u w1)" by (simp add: active_ok_def v h act0)
  moreover have "sched_ok (parked r ?k u w1)" using inv by (auto simp: world_inv_def sched_ok_def v h distinct_removeAll) (auto simp: parked_def h)
  moreover have "timers_ok (parked r ?k u w1)"
  proof -
    have p: "\<exists>i rq. i < length (acts w) \<and> j = int i \<and> wants (parked r ?k u w1) i = Some (rq, tim)" if "pending tm tim = Some (t', j)" for tim t' j
    proof (cases "tim = ti")
      case True
      with that tm(3) r show ?thesis by (intro exI [of _ r] exI [of _ req]) (simp add: wants')
    next
      case False
      with that tm(3) have "pending (tmgr w) tim = Some (t', j)" by simp
      with inv obtain i rq where "i < length (acts w)" "j = int i" "wants w i = Some (rq, tim)" unfolding world_inv_def timers_ok_def by blast
      with wr show ?thesis by (intro exI [of _ i] exI [of _ rq]) (auto simp: wants')
    qed
    have uq: "i = j" if "i < length (acts w)" "j < length (acts w)" "wants (parked r ?k u w1) i = Some (rq, tim)" "wants (parked r ?k u w1) j = Some (rq', tim)" for i j rq rq' tim
    proof -
      consider "i = r" "j = r" | "i = r" "j \<noteq> r" | "i \<noteq> r" "j = r" | "i \<noteq> r" "j \<noteq> r" by blast
      then show ?thesis
      proof cases
        case 4
        with that have "wants w i = Some (rq, tim)" "wants w j = Some (rq', tim)" by (simp_all add: wants')
        with that(1,2) inv show ?thesis unfolding world_inv_def timers_ok_def by blast
      next
        case 2
        with that(3,4) have "ti = tim" "wants w j = Some (rq', tim)" unfolding wants' by simp_all
        with new [OF that(2)] show ?thesis by blast
      next
        case 3
        with that(3,4) have "ti = tim" "wants w i = Some (rq, tim)" unfolding wants' by simp_all
        with new [OF that(1)] show ?thesis by blast
      qed simp
    qed
    from tm(1) p uq show ?thesis unfolding timers_ok_def v h by blast
  qed
  moreover have "coherent (parked r ?k u w1) i" if i: "i < length (acts w)" for i
  proof -
    have ok: "coherent w i" using inv i by (simp add: world_inv_def)
    show ?thesis
    proof (cases "i = r")
      case True
      have "status_ok False ((SaveStack u ?k (SetWaitingId (sequence_id req) (act w r)))\<lparr>co_status := kCoroutineSuspend\<rparr>)"
        by (simp add: status_ok_def SaveStack_stack [OF u])
      moreover have "msg_list (act w r) = []" using ok True wr by (simp add: coherent_def mail_ok_def)
      ultimately show ?thesis using True tm(2-4) by (simp add: coherent_def v wants' h mail_ok_def SetWaitingId_def)
    next
      case False
      have "mail_ok (wants w i) (act w i) tm wk i" if old: "mail_ok (wants w i) (act w i) (tmgr w) wk i" for wk
      proof (cases "wants w i")
        case None
        with old show ?thesis by (simp add: mail_ok_def)
      next
        case (Some p)
        obtain rq tim where p: "p = (rq, tim)" by (cases p)
        have "tim \<noteq> ti" using new [OF i] Some p by simp
        with old Some p tm(3-5) show ?thesis by (simp add: mail_ok_def)
      qed
      moreover have "woken (parked r ?k u w1) i = woken w i" using False run act0 by (simp add: woken_def v h)
      moreover have "run_of w \<noteq> int i" using False run by simp
      ultimately show ?thesis using False ok by (simp add: coherent_def v wants' h)
    qed
  qed
  ultimately show ?thesis by (simp add: world_inv_def v h w1_def [symmetric])
qed

section \<open>Resuming\<close>

text \<open>A coroutine begins at the top of its loop, or goes on at the place it gave way.\<close>

definition goes_on :: "place option \<Rightarrow> place" where
  "goes_on p = (case p of None \<Rightarrow> Loop_Top | Some k \<Rightarrow> k)"

definition running_now :: "nat \<Rightarrow> int list \<Rightarrow> coro_world \<Rightarrow> coro_world" where
  "running_now j acv w = w\<lparr>sched := (sched w)\<lparr>cur_coroutine_id := int j, active_coro_list := acv,
     coro_sche := (set_ctx (int j) ((act w j)\<lparr>co_status := kCoroutineRunning\<rparr>) (coro_sche (sched w)))\<lparr>running := int j\<rparr>\<rparr>, here := goes_on (place_of w j)\<rparr>"

lemma Resume_runs:
  assumes inv: "world_inv w" and run: "run_of w = -1" and j: "j < length (acts w)"
  shows "(case sched_Resume (int j) ((sched w)\<lparr>active_coro_list := acv\<rparr>) of (r, s) \<Rightarrow> resumed_at r (w\<lparr>sched := s\<rparr>)) = running_now j acv w"
proof -
  have "coherent w j" using inv j by (simp add: world_inv_def)
  then obtain c where c: "acts w ! j = Some c" "act w j = c" "status_ok False c" using run by (auto simp: coherent_def act_def)
  have cp: "cap (coro_sche (sched w)) = length (acts w)" using inv by (simp add: world_inv_def sched_ok_def)
  have at: "ctx_at (int j) (coro_sche (sched w)) = Some c" using c(1) j cp by (simp add: ctx_at_def)
  consider "co_status c = kCoroutineReady" | k where "co_status c = kCoroutineSuspend" "co_stack c = Some k" using c(3) by (auto simp: status_ok_def)
  then show ?thesis
  proof cases
    case 1
    then have "place_of w j = None" using run c(2) by (simp add: place_of_def coro_states)
    with 1 run j cp at c(2) show ?thesis
      by (simp add: sched_Resume_def CoroutineResume_def resumed_at_def running_now_def goes_on_def)
  next
    case 2
    then have "place_of w j = Some k" using run c(2) by (simp add: place_of_def)
    with 2 run j cp at c(2) show ?thesis
      by (simp add: sched_Resume_def CoroutineResume_def resumed_at_def running_now_def goes_on_def coro_states)
  qed
qed

lemma running_now_views:
  assumes "j < length (acts w)"
  shows "run_of (running_now j acv w) = int j" "length (acts (running_now j acv w)) = length (acts w)" "avail (running_now j acv w) = avail w"
    "active (running_now j acv w) = acv" "tmgr (running_now j acv w) = tmgr w"
    "act (running_now j acv w) i = (if i = j then (act w j)\<lparr>co_status := kCoroutineRunning\<rparr> else act w i)"
    "acts (running_now j acv w) ! i = (if i = j then Some ((act w j)\<lparr>co_status := kCoroutineRunning\<rparr>) else acts w ! i)"
    "cap (coro_sche (sched (running_now j acv w))) = cap (coro_sche (sched w))" "nco (coro_sche (sched (running_now j acv w))) = nco (coro_sche (sched w))"
    "cur_coroutine_id (sched (running_now j acv w)) = int j"
  using assms by (auto simp: running_now_def set_ctx_def act_def)

lemma running_now_wants:
  assumes "run_of w = -1" "j < length (acts w)"
  shows "wants (running_now j acv w) = wants w"
proof
  fix i
  show "wants (running_now j acv w) i = wants w i"
  proof (cases "i = j")
    case True
    have "recv_of (Some (goes_on p)) = recv_of p" for p by (cases p) (simp_all add: goes_on_def)
    moreover have "here (running_now j acv w) = goes_on (place_of w j)" by (simp add: running_now_def)
    ultimately show ?thesis using True assms by (simp add: wants_def [of "running_now j acv w"] place_of_def [of "running_now j acv w"] running_now_views) (simp add: wants_def)
  next
    case False
    then show ?thesis using assms by (simp add: wants_def place_of_def running_now_views)
  qed
qed

lemma inv_running_now:
  assumes inv: "world_inv w" and run: "run_of w = -1" and j: "j < length (acts w)" and acv: "active w = [] \<or> active w = [int j]"
  shows "world_inv (running_now j [] w)"
proof -
  note v = running_now_views [OF j, of "[]"]
  note wants' = running_now_wants [OF run j, of "[]"]
  have "active_ok (running_now j [] w)" by (simp add: active_ok_def v)
  moreover have "sched_ok (running_now j [] w)" using inv j by (auto simp: world_inv_def sched_ok_def v)
  moreover have "timers_ok (running_now j [] w)" using inv by (simp add: world_inv_def timers_ok_def v wants')
  moreover have "coherent (running_now j [] w) i" if i: "i < length (acts w)" for i
  proof -
    have ok: "coherent w i" using inv i by (simp add: world_inv_def)
    have wk: "woken w i \<Longrightarrow> woken (running_now j [] w) i" using run acv by (auto simp: woken_def v)
    have grow: "mail_ok (wants w i) c (tmgr w) (woken w i) i \<Longrightarrow> mail_ok (wants w i) c (tmgr w) (woken (running_now j [] w) i) i" for c
      using wk by (auto simp: mail_ok_def split: option.splits)
    have same: "mail_ok p (c\<lparr>co_status := x\<rparr>) tm b n = mail_ok p c tm b n" for p c x tm b n by (simp add: mail_ok_def split: option.split)
    show ?thesis
    proof (cases "i = j")
      case True
      with ok grow show ?thesis by (simp add: coherent_def v wants' status_ok_def same)
    next
      case False
      with ok grow run show ?thesis by (simp add: coherent_def v wants')
    qed
  qed
  ultimately show ?thesis by (simp add: world_inv_def v)
qed

text \<open>When no coroutine is available the scheduler makes one more.\<close>

definition set_insert :: "(int \<Rightarrow> int list \<Rightarrow> int list) \<Rightarrow> bool" where
  "set_insert ins \<longleftrightarrow> (\<forall>x l. x \<notin> set l \<longrightarrow> distinct l \<longrightarrow> distinct (ins x l) \<and> set (ins x l) = insert x (set l))"

definition extended :: "coro_world \<Rightarrow> coro_world" where
  "extended w = w\<lparr>sched := (sched w)\<lparr>all_coro_list := all_coro_list (sched w) @ [int (length (acts w))], available_coro_list := [int (length (acts w))],
     coro_sche := (coro_sche (sched w))\<lparr>coctxs := acts w @ [Some CoNew], cap := cap (coro_sche (sched w)) + 1, nco := nco (coro_sche (sched w)) + 1\<rparr>\<rparr>\<rparr>"

lemma single_list:
  assumes "set l = {x} \<and> distinct l"
  shows "l = [x]"
proof -
  have "length l = Suc 0" using assms distinct_card [of l] by simp
  then obtain a where "l = [a]" by (auto simp: length_Suc_conv)
  with assms show ?thesis by simp
qed

lemma GetAvailable_new:
  assumes ins: "set_insert ins" and inv: "world_inv w" and no: "avail w = []"
  shows "GetAvailableCoroId ins (sched w) = (int (length (acts w)), sched (extended w))"
proof -
  have "ins x [] = [x]" for x by (rule single_list) (use ins in \<open>simp add: set_insert_def\<close>)
  moreover have "nco (coro_sche (sched w)) \<ge> cap (coro_sche (sched w))" "cap (coro_sche (sched w)) = length (acts w)"
    using inv by (simp_all add: world_inv_def sched_ok_def)
  ultimately show ?thesis using no
    by (simp add: GetAvailableCoroId_def AddNewCoroutine_def CoroutineNew_def extended_def)
qed

lemma inv_extended:
  assumes inv: "world_inv w" and run: "run_of w = -1" and no: "avail w = []"
  shows "world_inv (extended w)"
proof -
  let ?n = "length (acts w)"
  have v: "run_of (extended w) = run_of w" "acts (extended w) = acts w @ [Some CoNew]" "avail (extended w) = [int ?n]" "active (extended w) = active w"
    "tmgr (extended w) = tmgr w" "here (extended w) = here w" by (simp_all add: extended_def)
  have act': "act (extended w) i = (if i = ?n then CoNew else act w i)" if "i < Suc ?n" for i using that by (simp add: act_def v nth_append)
  have wants': "wants (extended w) i = (if i = ?n then None else wants w i)" if "i < Suc ?n" for i
    using that run by (simp add: wants_def place_of_def v act') (simp add: CoNew_def coro_states)
  have all: "wants w i \<noteq> None" if "i < ?n" for i
  proof -
    have "coherent w i" using inv that by (simp add: world_inv_def)
    then show ?thesis by (simp add: coherent_def no)
  qed
  have "active_ok (extended w)" using inv by (auto simp: world_inv_def active_ok_def v wants')
  moreover have "sched_ok (extended w)" using inv run by (auto simp: world_inv_def sched_ok_def v) (auto simp: extended_def)
  moreover have "timers_ok (extended w)"
  proof -
    have p: "\<exists>i rq. i < Suc ?n \<and> j = int i \<and> wants (extended w) i = Some (rq, ti)" if "pending (tmgr w) ti = Some (t, j)" for ti t j
    proof -
      from that inv obtain i rq where "i < ?n" "j = int i" "wants w i = Some (rq, ti)" unfolding world_inv_def timers_ok_def by blast
      then show ?thesis by (intro exI [of _ i] exI [of _ rq]) (simp add: wants')
    qed
    have uq: "i = j" if "i < Suc ?n" "j < Suc ?n" "wants (extended w) i = Some (rq, ti)" "wants (extended w) j = Some (rq', ti)" for i j rq rq' ti
    proof -
      have "i < ?n" "j < ?n" "wants w i = Some (rq, ti)" "wants w j = Some (rq', ti)" using that wants' by (auto split: if_splits)
      with inv show ?thesis unfolding world_inv_def timers_ok_def by blast
    qed
    have len: "length (acts (extended w)) = Suc ?n" by (simp add: v)
    have "mgr_inv (tmgr w)" using inv by (simp add: world_inv_def timers_ok_def)
    with p uq show ?thesis unfolding timers_ok_def v(5) len by blast
  qed
  moreover have "coherent (extended w) i" if i: "i < Suc ?n" for i
  proof (cases "i = ?n")
    case True
    then show ?thesis using run by (simp add: coherent_def v act' wants' status_ok_def mail_ok_def) (simp add: CoNew_def)
  next
    case False
    with i have "i < ?n" by simp
    then have "coherent w i" using inv by (simp add: world_inv_def)
    moreover have "woken (extended w) i = woken w i" by (simp add: woken_def v)
    ultimately show ?thesis using False i all [OF \<open>i < ?n\<close>] by (simp add: coherent_def v act' wants' nth_append no)
  qed
  ultimately show ?thesis by (simp add: world_inv_def v)
qed

text \<open>The main loop: in one round a coroutine runs again.\<close>

lemma main_step_runs:
  assumes ins: "set_insert ins" and inv: "world_inv w" and run: "run_of w = -1"
  shows "\<exists>j w0. main_step ins w = running_now j [] w0 \<and> world_inv w0 \<and> run_of w0 = -1 \<and> j < length (acts w0) \<and> world_inv (main_step ins w) \<and>
     (w0 = w \<and> (active w = [int j] \<or> active w = [] \<and> avail w \<noteq> [] \<and> hd (avail w) = int j) \<or> w0 = extended w \<and> avail w = [] \<and> active w = [] \<and> j = length (acts w))"
proof -
  have cur: "cur_coroutine_id (sched w) = -1" and cp: "cap (coro_sche (sched w)) = length (acts w)" using inv run by (simp_all add: world_inv_def sched_ok_def)
  have same: "(sched w)\<lparr>active_coro_list := active w\<rparr> = sched w" by simp
  from inv consider j where "active w = [int j]" "j < length (acts w)" | "active w = []" by (auto simp: world_inv_def active_ok_def)
  then show ?thesis
  proof cases
    case 1
    have m: "main_step ins w = running_now j [] w"
      using Resume_runs [OF inv run 1(2), of "[]"] 1 run cp by (simp add: main_step_def CoroutineResumeActive_def split: prod.splits)
    with inv_running_now [OF inv run 1(2)] 1 inv run show ?thesis by (intro exI [of _ j] exI [of _ w]) simp
  next
    case 2
    have noact: "CoroutineResumeActive (sched w) = (False, Not_Switched, sched w)" using 2 run by (simp add: CoroutineResumeActive_def)
    show ?thesis
    proof (cases "avail w")
      case (Cons a as)
      with inv obtain j where j: "a = int j" "j < length (acts w)"
        by (auto simp: world_inv_def sched_ok_def intro: nonneg_int_cases)
      have "GetAvailableCoroId ins (sched w) = (int j, sched w)" by (simp add: GetAvailableCoroId_def Cons j)
      then have "main_step ins w = running_now j [] w"
        using Resume_runs [OF inv run j(2), of "[]", unfolded 2 [symmetric] same] noact cur by (simp add: main_step_def 2)
      with inv_running_now [OF inv run j(2)] 2 inv run j Cons show ?thesis by (intro exI [of _ j] exI [of _ w]) simp
    next
      case Nil
      note ext = inv_extended [OF inv run Nil]
      let ?n = "length (acts w)"
      have v: "run_of (extended w) = -1" "acts (extended w) = acts w @ [Some CoNew]" "active (extended w) = []" using run 2 by (simp_all add: extended_def)
      have same': "(sched (extended w))\<lparr>active_coro_list := []\<rparr> = sched (extended w)" using v(3) by (metis schedule.surjective schedule.update_convs(4) schedule.select_convs(4))
      have "extended w\<lparr>sched := s\<rparr> = w\<lparr>sched := s\<rparr>" for s by (simp add: extended_def)
      then have "main_step ins w = running_now ?n [] (extended w)"
        using Resume_runs [OF ext v(1), of ?n "[]", unfolded same'] noact cur GetAvailable_new [OF ins inv Nil] by (simp add: main_step_def v(2))
      with inv_running_now [OF ext v(1), of ?n] v ext Nil 2 show ?thesis by (intro exI [of _ ?n] exI [of _ "extended w"]) simp
    qed
  qed
qed

section \<open>Receiving\<close>

definition finished :: "(int \<Rightarrow> int list \<Rightarrow> int list) \<Rightarrow> nat \<Rightarrow> place actor \<Rightarrow> u64 \<Rightarrow> place \<Rightarrow> coro_world \<Rightarrow> coro_world" where
  "finished ins r c' ti k w =
     w\<lparr>sched := (sched w)\<lparr>available_coro_list := ins (int r) (avail w), coro_sche := set_ctx (int r) c' (coro_sche (sched w))\<rparr>,
       tmgr := DelTimerInThread ti (tmgr w), here := k\<rparr>"

lemma finished_views:
  assumes "r < length (acts w)"
  shows "run_of (finished ins r c' ti k w) = run_of w" "length (acts (finished ins r c' ti k w)) = length (acts w)"
    "avail (finished ins r c' ti k w) = ins (int r) (avail w)"
    "active (finished ins r c' ti k w) = active w" "tmgr (finished ins r c' ti k w) = DelTimerInThread ti (tmgr w)"
    "act (finished ins r c' ti k w) i = (if i = r then c' else act w i)"
    "acts (finished ins r c' ti k w) ! i = (if i = r then Some c' else acts w ! i)"
    "cap (coro_sche (sched (finished ins r c' ti k w))) = cap (coro_sche (sched w))" "nco (coro_sche (sched (finished ins r c' ti k w))) = nco (coro_sche (sched w))"
    "cur_coroutine_id (sched (finished ins r c' ti k w)) = cur_coroutine_id (sched w)" "here (finished ins r c' ti k w) = k"
  using assms by (auto simp: finished_def set_ctx_def act_def)

lemma DelTimerInThread_tmid: "tmid (DelTimerInThread ti s) = tmid s"
  by (simp add: DelTimerInThread_def split: option.splits)

lemma inv_finished:
  assumes ins: "set_insert ins" and inv: "world_inv w" and run: "run_of w = int r" and k: "recv_of (Some (here w)) = Some (req, ti)" "recv_of (Some k) = None"
    and c': "co_status c' = kCoroutineRunning" "\<not> is_waiting c'" "msg_list c' = []"
  shows "world_inv (finished ins r c' ti k w)"
proof -
  have r: "r < length (acts w)" using inv run by (auto simp: world_inv_def sched_ok_def)
  have wr: "wants w r = Some (req, ti)" using k run by (simp add: wants_def place_of_def)
  have act0: "active w = []" using inv run by (auto simp: world_inv_def active_ok_def)
  define w' where "w' = finished ins r c' ti k w"
  note v = finished_views [OF r, of ins c' ti k, folded w'_def]
  have wants': "wants w' i = (if i = r then None else wants w i)" for i
    using run k(2) by (auto simp: wants_def place_of_def v)
  have inv_tm: "mgr_inv (tmgr w)" using inv by (simp add: world_inv_def timers_ok_def)
  note tm = DelTimerInThread_spec [OF inv_tm, of ti]
  have "coherent w r" using inv r by (simp add: world_inv_def)
  then have out: "int r \<notin> set (avail w)" using wr by (simp add: coherent_def)
  have d: "distinct (avail w)" using inv by (simp add: world_inv_def sched_ok_def)
  have av: "distinct (avail w')" "set (avail w') = insert (int r) (set (avail w))" using ins out d by (simp_all add: set_insert_def v)
  have "active_ok w'" by (simp add: active_ok_def v act0)
  moreover have "sched_ok w'"
  proof -
    have "\<forall>j \<in> set (avail w'). 0 \<le> j \<and> j < int (length (acts w))" using av(2) inv r by (auto simp: world_inv_def sched_ok_def)
    with inv r av(1) show ?thesis unfolding world_inv_def sched_ok_def v(1,2,8-10) by simp
  qed
  moreover have "timers_ok w'"
  proof -
    have p: "\<exists>i rq. i < length (acts w) \<and> j = int i \<and> wants w' i = Some (rq, tim)" if "pending (tmgr w') tim = Some (t', j)" for tim t' j
    proof -
      from that tm(2) have "tim \<noteq> ti" "pending (tmgr w) tim = Some (t', j)" by (auto simp: v split: if_splits)
      with inv obtain i rq where i: "i < length (acts w)" "j = int i" "wants w i = Some (rq, tim)" unfolding world_inv_def timers_ok_def by blast
      with wr \<open>tim \<noteq> ti\<close> have "i \<noteq> r" by auto
      with i show ?thesis by (intro exI [of _ i] exI [of _ rq]) (simp add: wants')
    qed
    have uq: "i = j" if "i < length (acts w)" "j < length (acts w)" "wants w' i = Some (rq, tim)" "wants w' j = Some (rq', tim)" for i j rq rq' tim
    proof -
      have "wants w i = Some (rq, tim)" "wants w j = Some (rq', tim)" using that(3,4) unfolding wants' by (simp_all split: if_splits)
      with that(1,2) inv show ?thesis unfolding world_inv_def timers_ok_def by blast
    qed
    from tm(1) p uq show ?thesis unfolding timers_ok_def v by blast
  qed
  moreover have "coherent w' i" if i: "i < length (acts w)" for i
  proof -
    have ok: "coherent w i" using inv i by (simp add: world_inv_def)
    show ?thesis
    proof (cases "i = r")
      case True
      then show ?thesis using run c' av(2) by (simp add: coherent_def wants' mail_ok_def status_ok_def v(1,6,7))
    next
      case False
      have "mail_ok (wants w i) (act w i) (tmgr w') wk i" if old: "mail_ok (wants w i) (act w i) (tmgr w) wk i" for wk
      proof (cases "wants w i")
        case None
        with old show ?thesis by (simp add: mail_ok_def)
      next
        case (Some p)
        obtain rq tim where p: "p = (rq, tim)" by (cases p)
        have "tim \<noteq> ti" using inv i r False wr Some p unfolding world_inv_def timers_ok_def by blast
        then have "pending (tmgr w') tim = pending (tmgr w) tim" using tm(2) by (simp add: v)
        moreover have "tmid (tmgr w') = tmid (tmgr w)" by (simp add: v DelTimerInThread_tmid)
        ultimately show ?thesis using old Some p by (simp add: mail_ok_def)
      qed
      moreover have "woken w' i = woken w i" by (simp add: woken_def v)
      ultimately show ?thesis using False ok av(2) by (simp add: coherent_def wants' v(1,6,7))
    qed
  qed
  ultimately show ?thesis by (simp add: world_inv_def v w'_def [symmetric])
qed

text \<open>What SendRecieve returned, to whom and for what.\<close>

definition answer_ok :: "int \<times> message option \<times> message option \<Rightarrow> bool" where
  "answer_ok x = (case x of (j, req, resp) \<Rightarrow>
     (case resp of None \<Rightarrow> True
      | Some m \<Rightarrow> (case req of None \<Rightarrow> False | Some q \<Rightarrow> sequence_id m = sequence_id q \<and> status m = kStatusOK \<and> coroutine_id m = j)))"

definition good_step :: "coro_world \<Rightarrow> coro_world outcome \<Rightarrow> bool" where
  "good_step w res \<longleftrightarrow> (\<exists>w' new. res = Inr w' \<and> world_inv w' \<and> results w' = results w @ new \<and> (\<forall>x \<in> set new. answer_ok x))"

lemma good_stepI: "res = Inr w' \<Longrightarrow> world_inv w' \<Longrightarrow> results w' = results w \<Longrightarrow> good_step w res"
  unfolding good_step_def by (intro exI [of _ w'] exI [of _ "[]"]) simp

lemma results_views [simp]:
  "results (parked r k u w) = results w" "results (handed j c' tm w) = results w" "results (begun r req tm w) = results w"
  "results (running_now j acv w) = results w" "results (extended w) = results w" "results (finished ins r c' ti k w) = results w"
  by (simp_all add: parked_def handed_def begun_def running_now_def extended_def finished_def)

lemma Recieved_good:
  assumes ins: "set_insert ins" and inv: "world_inv w" and run: "0 \<le> run_of w" and k: "here w = Recv req ti cs temp"
  shows "good_step w (Recieved ins req ti cs temp w)"
proof (rule runner [OF inv run])
  fix r c assume r: "run_of w = int r" "r < length (acts w)" "cur_coroutine_id (sched w) = int r" "acts w ! r = Some c" "act w r = c"
    "wants w r = recv_of (Some (here w))" "active w = []" "ctx_at (int r) (coro_sche (sched w)) = Some c" "cap (coro_sche (sched w)) = length (acts w)"
  have coh: "coherent w r" using inv r(2) by (simp add: world_inv_def)
  have wr: "wants w r = Some (req, ti)" using r(6) k by simp
  from coh wr r(1,5) have mail: "is_waiting c" "ti \<noteq> 0" and st: "co_status c = kCoroutineRunning" and out: "int r \<notin> set (avail w)" and
    ms: "msg_list c = [] \<or> (\<exists>m. msg_list c = [m] \<and> sequence_id m = sequence_id req \<and> status m = kStatusOK \<and> coroutine_id m = int r)"
    by (auto simp: coherent_def mail_ok_def status_ok_def)
  define c' where "c' = c\<lparr>is_waiting := False, waiting_id := -1, msg_list := []\<rparr>"
  define resp where "resp = (case msg_list c of [] \<Rightarrow> None | m # ms \<Rightarrow> Some m)"
  have taken: "take_message (sequence_id req) c = (resp, [], c')"
    using ms by (auto simp: take_message_def Let_def c'_def resp_def)
  have okr: "status m = kStatusOK" if "resp = Some m" for m using ms that by (auto simp: resp_def)
  define w' where "w' = (finished ins r c' ti (Calls cs temp) w)\<lparr>dropped := dropped w, results := results w @ [(int r, Some req, resp)]\<rparr>"
  have ctx: "ctx_at (int r) (coro_sche (sched (w\<lparr>sched := AfterYieldToAvailable ins (int r) (sched w), tmgr := tm\<rparr>))) = Some c" for tm
    using r(8) by (simp add: AfterYieldToAvailable_def)
  have "Recieved ins req ti cs temp w = Inr w'"
    using r(3) mail(2) out taken okr ctx
    by (cases resp) (simp_all add: Recieved_def Let_def GetCoroutineCtx_def answer_def set_actor_def w'_def finished_def AfterYieldToAvailable_def Mgr_DelTimer_def)
  moreover have "world_inv w'"
  proof -
    have "recv_of (Some (here w)) = Some (req, ti)" using k by simp
    from inv_finished [OF ins inv r(1) this, of "Calls cs temp" c'] st show ?thesis by (simp add: w'_def c'_def)
  qed
  moreover have "answer_ok (int r, Some req, resp)"
    using ms by (auto simp: answer_ok_def resp_def)
  ultimately show ?thesis unfolding good_step_def by (intro exI [of _ w'] exI [of _ "[(int r, Some req, resp)]"]) (simp add: w'_def)
qed

section \<open>A step keeps the invariant\<close>

text \<open>
  What a step relies on: enough stack, the bounds of the timer ids and of the table of coroutine ids, answers that name a coroutine of
  this thread, and calls through clients that were started.
\<close>

definition deep_enough :: "(place \<Rightarrow> int) \<Rightarrow> bool" where
  "deep_enough depth \<longleftrightarrow> (\<forall>k. depth k < STACK_SIZE)"

definition legal :: "coro_world \<Rightarrow> bool" where
  "legal w \<longleftrightarrow> int (length (acts w)) \<le> MAX_CORO_IDS \<and> tmid (tmgr w) \<noteq> -1 \<and>
     (case here w of
        Batch (m # temp) \<Rightarrow> direction m = kIncomingRequest \<or> coroutine_id m < int (length (acts w))
      | Calls ((c, m) # cs) temp \<Rightarrow> client_ok c (cworld w)
      | _ \<Rightarrow> True)"

lemma handed_same:
  assumes "acts w ! j = Some (act w j)" "active w = []"
  shows "w\<lparr>tmgr := tm, sched := (sched w)\<lparr>active_coro_list := [int j]\<rparr>\<rparr> = handed j (act w j) tm w"
proof -
  have "(acts w)[j := Some (act w j)] = acts w" using assms(1) by (metis list_update_id)
  then show ?thesis by (simp add: handed_def set_ctx_def)
qed

lemma timer_fires:
  assumes inv: "world_inv w" and run: "run_of w = int r" and k: "here w = Timers t" and deep: "deep_enough depth"
    and x: "timer_map (tmgr w) = x # xs" "due_at x < t"
  obtains j req tm where "j < length (acts w)" "j \<noteq> r" "wants w j = Some (req, tid x)"
    "timer_turn depth t w = Inr (parked r (Timers t) (depth (Timers t)) (handed j (act w j) tm w))"
    "world_inv (parked r (Timers t) (depth (Timers t)) (handed j (act w j) tm w))"
proof (rule runner [OF inv])
  show "0 \<le> run_of w" using run by simp
next
  fix r' c assume "run_of w = int r'" and r: "acts w ! r' = Some c" "act w r' = c"
    "active w = []" "ctx_at (int r') (coro_sche (sched w)) = Some c" "cap (coro_sche (sched w)) = length (acts w)"
  then have rr: "r' = r" using run by simp
  have rec: "recv_of (Some (here w)) = None" by (simp add: k)
  define tm where "tm = (tmgr w)\<lparr>timer_map := xs, id_map := (id_map (tmgr w))(tid x := None)\<rparr>"
  have "mgr_inv (tmgr w)" using inv by (simp add: world_inv_def timers_ok_def)
  note tms = run_step [OF this x(1) tm_def]
  from tms(3) inv obtain j req where j: "j < length (acts w)" "tproc x = int j" "wants w j = Some (req, tid x)"
    unfolding world_inv_def timers_ok_def by blast
  have coh: "coherent w j" using inv j(1) by (simp add: world_inv_def)
  then have aj: "acts w ! j = Some (act w j)" by (auto simp: coherent_def act_def)
  have mail: "mail_ok (Some (req, tid x)) (act w j) tm True j"
    using coh j(3) by (auto simp: coherent_def mail_ok_def tm_def)
  have u: "depth (Timers t) < STACK_SIZE" using deep by (simp add: deep_enough_def)
  have kk: "recv_of (Some (Timers t)) = None" by simp
  from tms j mail inv_handed [OF inv run rec kk u j(1,3) refl refl mail tms(1)] have
    jr: "j \<noteq> r" and inv': "world_inv (parked r (Timers t) (depth (Timers t)) (handed j (act w j) tm w))" by (simp_all add: tm_def)
  define w1 where "w1 = w\<lparr>tmgr := tm\<rparr>"
  have "run_of w1 = int r" "ctx_at (int r) (coro_sche (sched w1)) = Some c" "act w1 r = c" "j < cap (coro_sche (sched w1))" "active w1 = []"
    using r j(1) run rr by (simp_all add: w1_def act_def)
  from yield_to_runs [OF this(1-3) u this(4) jr this(5), of "Timers t"]
  have "yield_to depth (int j) (Timers t) w1 = Inr (parked r (Timers t) (depth (Timers t)) (w1\<lparr>sched := (sched w1)\<lparr>active_coro_list := [int j]\<rparr>\<rparr>))"
    by (simp add: yield_to_def)
  moreover have "w1\<lparr>sched := (sched w1)\<lparr>active_coro_list := [int j]\<rparr>\<rparr> = handed j (act w j) tm w"
    using handed_same [OF aj r(3), of tm] by (simp add: w1_def)
  moreover have "\<not> due_at x \<ge> t" using x(2) by simp
  ultimately have "timer_turn depth t w = Inr (parked r (Timers t) (depth (Timers t)) (handed j (act w j) tm w))"
    using x(1) j(2) by (simp add: timer_turn_def OnTimerCoro_def tm_def [symmetric] w1_def [symmetric])
  with that j(1,3) jr inv' show ?thesis by blast
qed

lemma timer_turn_good:
  assumes inv: "world_inv w" and run: "0 \<le> run_of w" and k: "here w = Timers t" and deep: "deep_enough depth"
  shows "good_step w (timer_turn depth t w)"
proof -
  have "recv_of (Some (here w)) = None" by (simp add: k)
  from inv_here [OF inv run this, of Polling] have stop: "good_step w (Inr (w\<lparr>here := Polling\<rparr>))" by (intro good_stepI [OF refl]) simp_all
  show ?thesis
  proof (cases "\<exists>x xs. timer_map (tmgr w) = x # xs \<and> due_at x < t")
    case True
    then obtain x xs where x: "timer_map (tmgr w) = x # xs" "due_at x < t" by blast
    from run obtain r where r: "run_of w = int r" by (auto elim: nonneg_int_cases)
    from timer_fires [OF inv r k deep x] obtain w' where "timer_turn depth t w = Inr w'" "world_inv w'" "results w' = results w" by (metis results_views(1,2))
    then show ?thesis by (auto intro: good_stepI)
  next
    case False
    then have "timer_turn depth t w = Inr (w\<lparr>here := Polling\<rparr>)" by (auto simp: timer_turn_def not_less split: list.splits)
    with stop show ?thesis by simp
  qed
qed

lemma yield_at_good:
  assumes inv: "world_inv w" and run: "0 \<le> run_of w" and k: "recv_of (Some (here w)) = None" "recv_of (Some p) = None" and deep: "deep_enough depth"
  shows "\<exists>w'. yield_at depth p w = Inr w' \<and> world_inv w' \<and> results w' = results w"
proof (rule runner [OF inv run])
  fix r c assume r: "run_of w = int r" "act w r = c" "ctx_at (int r) (coro_sche (sched w)) = Some c"
  have u: "depth p < STACK_SIZE" using deep by (simp add: deep_enough_def)
  have "yield_at depth p w = Inr (parked r p (depth p) w)" unfolding yield_at_def by (rule sched_Yield_runs [OF r(1,3,2) u])
  with inv_parked [OF inv r(1) k u] show ?thesis by simp
qed

lemma here_good:
  assumes "world_inv w" "0 \<le> run_of w" "recv_of (Some (here w)) = None" "recv_of (Some p) = None"
  shows "good_step w (Inr (w\<lparr>here := p\<rparr>))"
  by (rule good_stepI [OF refl]) (use inv_here [OF assms] in simp_all)

lemma Process_good:
  assumes inv: "world_inv w" and run: "0 \<le> run_of w" and k: "here w = Polling" and deep: "deep_enough depth"
  shows "good_step w (Process depth w)"
proof (cases "inbox w = []")
  case True
  define w1 where "w1 = w\<lparr>empty_times := empty_times w + 1\<rparr>"
  have w1: "world_inv w1" "0 \<le> run_of w1" "recv_of (Some (here w1)) = None" using inv run k by (simp_all add: w1_def)
  from yield_at_good [OF w1 _ deep, of Loop_Top] obtain w' where "yield_at depth Loop_Top w1 = Inr w'" "world_inv w'" "results w' = results w"
    by (auto simp: w1_def)
  moreover have "world_inv (w1\<lparr>here := Loop_Top\<rparr>)" by (rule inv_here [OF w1]) simp
  ultimately show ?thesis
    using True by (auto simp: Process_def Let_def w1_def [symmetric] intro!: good_stepI) (auto simp: w1_def)
next
  case False
  have "world_inv (w\<lparr>empty_times := 0, inbox := [], here := Batch (inbox w)\<rparr>)" by (rule inv_elsewhere [OF inv run]) (simp_all add: k)
  with False show ?thesis by (auto simp: Process_def intro!: good_stepI)
qed

lemma ProcessClientItem_good:
  assumes inv: "world_inv w" and run: "0 \<le> run_of w" and k: "here w = Batch (m # temp)" and deep: "deep_enough depth"
    and m: "status m = kStatusOK" "coroutine_id m < int (length (acts w))"
  shows "good_step w (ProcessClientItem depth m temp w)"
proof (rule runner [OF inv run])
  fix r c0 assume r: "run_of w = int r" "r < length (acts w)" "act w r = c0"
    "active w = []" "ctx_at (int r) (coro_sche (sched w)) = Some c0" "cap (coro_sche (sched w)) = length (acts w)"
  have rec: "recv_of (Some (here w)) = None" by (simp add: k)
  have wr: "wants w r = None" using rec r(1) by (simp add: wants_def place_of_def)
  show ?thesis
  proof (cases "coroutine_id m < 0")
    case True
    from yield_at_good [OF inv run rec _ deep, of "Drop m temp"] obtain w' where
      "yield_at depth (Drop m temp) w = Inr w'" "world_inv w'" "results w' = results w" by auto
    with True show ?thesis by (auto simp: ProcessClientItem_def intro!: good_stepI)
  next
    case False
    then obtain j where j: "coroutine_id m = int j" "j < length (acts w)" using m(2) by (metis nonneg_int_cases not_less of_nat_less_iff)
    have coh: "coherent w j" using inv j(2) by (simp add: world_inv_def)
    then have aj: "acts w ! j = Some (act w j)" by (auto simp: coherent_def act_def)
    have ctx: "GetCoroutineCtx (int j) (coro_sche (sched w)) = Some (act w j)" using aj j(2) r(6) by (simp add: GetCoroutineCtx_def ctx_at_def)
    show ?thesis
    proof (cases "is_waiting (act w j) \<and> sequence_id m = waiting_id (act w j)")
      case False': False
      then have "SendMessage m (act w j) = (False, act w j)" by (auto simp: SendMessage_def)
      moreover have "world_inv (w\<lparr>dropped := dropped w @ [m], here := Batch temp\<rparr>)" by (rule inv_elsewhere [OF inv run rec]) simp_all
      ultimately show ?thesis using False j(1) ctx by (auto simp: ProcessClientItem_def intro!: good_stepI)
    next
      case True
      define c' where "c' = (act w j)\<lparr>msg_list := msg_list (act w j) @ [m], waiting_id := -1\<rparr>"
      have sent: "SendMessage m (act w j) = (True, c')" using True by (simp add: SendMessage_def c'_def)
      have "wants w j \<noteq> None" using coh True by (auto simp: coherent_def mail_ok_def)
      then obtain req ti where want: "wants w j = Some (req, ti)" by auto
      have jr: "j \<noteq> r" using wr want by auto
      have "\<not> woken w j" using jr r(1,4) by (simp add: woken_def)
      with coh want True have mail: "mail_ok (Some (req, ti)) c' (tmgr w) True j"
        by (auto simp: coherent_def mail_ok_def c'_def m(1) j(1))
      have u: "depth (Batch temp) < STACK_SIZE" using deep by (simp add: deep_enough_def)
      have kk: "recv_of (Some (Batch temp)) = None" by simp
      have tm: "mgr_inv (tmgr w)" using inv by (simp add: world_inv_def timers_ok_def)
      have cs: "co_status c' = co_status (act w j)" "co_stack c' = co_stack (act w j)" by (simp_all add: c'_def)
      have inv': "world_inv (parked r (Batch temp) (depth (Batch temp)) (handed j c' (tmgr w) w))"
        using inv_handed [OF inv r(1) rec kk u j(2) want cs mail tm] by simp
      define w1 where "w1 = set_actor (int j) c' w"
      have "run_of w1 = int r" "ctx_at (int r) (coro_sche (sched w1)) = Some c0" "act w1 r = c0" "j < cap (coro_sche (sched w1))" "active w1 = []"
        using r j(2) jr by (simp_all add: w1_def set_actor_def set_ctx_def act_def ctx_at_def)
      from yield_to_runs [OF this(1-3) u this(4) jr this(5), of "Batch temp"]
      have "yield_to depth (int j) (Batch temp) w1 = Inr (parked r (Batch temp) (depth (Batch temp)) (w1\<lparr>sched := (sched w1)\<lparr>active_coro_list := [int j]\<rparr>\<rparr>))"
        by (simp add: yield_to_def)
      moreover have "w1\<lparr>sched := (sched w1)\<lparr>active_coro_list := [int j]\<rparr>\<rparr> = handed j c' (tmgr w) w"
        by (simp add: w1_def set_actor_def handed_def)
      ultimately have "ProcessClientItem depth m temp w = Inr (parked r (Batch temp) (depth (Batch temp)) (handed j c' (tmgr w) w))"
        using j(1) ctx sent by (simp add: ProcessClientItem_def w1_def [symmetric])
      then show ?thesis by (rule good_stepI) (use inv' in simp_all)
    qed
  qed
qed

lemma ProcessMessage_good:
  assumes inv: "world_inv w" and run: "0 \<le> run_of w" and k: "here w = Batch (m # temp)" and deep: "deep_enough depth"
    and m: "direction m = kIncomingRequest \<or> coroutine_id m < int (length (acts w))"
  shows "good_step w (ProcessMessage depth prog now m temp w)"
proof -
  have rec: "recv_of (Some (here w)) = None" by (simp add: k)
  from yield_at_good [OF inv run rec _ deep, of "Drop m temp"] obtain w' where
    y: "yield_at depth (Drop m temp) w = Inr w'" "world_inv w'" "results w' = results w" by auto
  have "world_inv (w\<lparr>dropped := dropped w @ [m], here := Batch temp\<rparr>)" by (rule inv_elsewhere [OF inv run rec]) simp_all
  then have a: "good_step w (Inr (w\<lparr>dropped := dropped w @ [m], here := Batch temp\<rparr>))" by (intro good_stepI [OF refl]) simp_all
  have "world_inv (w\<lparr>handled := handled w @ [m], here := Calls (prog m) temp\<rparr>)" by (rule inv_elsewhere [OF inv run rec]) simp_all
  then have b: "good_step w (Inr (w\<lparr>handled := handled w @ [m], here := Calls (prog m) temp\<rparr>))" by (intro good_stepI [OF refl]) simp_all
  from good_stepI [OF y] have c: "good_step w (yield_at depth (Drop m temp) w)" by (simp add: y(1))
  have d: "good_step w (ProcessClientItem depth m temp w)" if "status m = kStatusOK" "direction m \<noteq> kIncomingRequest"
    using ProcessClientItem_good [OF inv run k deep that(1)] m that(2) by blast
  show ?thesis using a b c d by (simp add: ProcessMessage_def)
qed

text \<open>A call: the request goes out, and the coroutine waits for its answer.\<close>

lemma client_SendRecieve_coro:
  assumes "client_ok c w" "service_coro w = Some (h, cid)"
  shows "\<exists>req w'. client_SendRecieve now m c w = Inr (req, w') \<and> (\<forall>q. req = Some q \<longrightarrow> coroutine_id q = cid)"
proof (rule status_cases [OF assms(1)])
  assume st: "GetClientStatus c w = Inr kWorking"
  obtain s w1 where s: "GetSequenceId w = (s, w1)" by fastforce
  then have "service_coro w1 = Some (h, cid)" using assms(2) by (auto simp: GetSequenceId_def Let_def split: if_splits)
  then show ?thesis using st s by (auto simp: client_SendRecieve_def client_DoSend_def Let_def)
next
  fix st assume st: "GetClientStatus c w = Inr st" "st \<noteq> kWorking"
  have "client_ok c (w\<lparr>destroyed := destroyed w @ [m]\<rparr>)" using assms(1) by (simp add: client_ok_def)
  from SetNoBuzy_ok [OF this] st show ?thesis by (auto simp: client_SendRecieve_def)
qed

lemma DoRecieve_good:
  assumes inv: "world_inv w" and run: "0 \<le> run_of w" and rec: "recv_of (Some (here w)) = None" and deep: "deep_enough depth"
    and q: "coroutine_id req = cur_coroutine_id (sched w)" and bounds: "int (length (acts w)) \<le> MAX_CORO_IDS" "tmid (tmgr w) \<noteq> -1"
  shows "good_step w (DoRecieve depth now timeout req cs temp w)"
proof (rule runner [OF inv run])
  fix r c assume r: "run_of w = int r" "r < length (acts w)" "cur_coroutine_id (sched w) = int r" "acts w ! r = Some c" "act w r = c"
    "ctx_at (int r) (coro_sche (sched w)) = Some c" "cap (coro_sche (sched w)) = length (acts w)"
  have wr: "wants w r = None" using rec r(1) by (simp add: wants_def place_of_def)
  have coh: "coherent w r" using inv r(2) by (simp add: world_inv_def)
  then have idle: "msg_list c = []" using wr r(5) by (simp add: coherent_def mail_ok_def)
  obtain ti tm where t: "Mgr_AddTimer now (Some (int r)) (ucast timeout) (tmgr w) = (ti, tm)" by fastforce
  have inv_tm: "mgr_inv (tmgr w)" using inv by (simp add: world_inv_def timers_ok_def)
  have next_id: "unat (tmid (tmgr w) + 1) = unat (tmid (tmgr w)) + 1" using bounds(2) unatSuc [of "tmid (tmgr w)"]
    by (simp add: add.commute add_eq_0_iff)
  have nz: "tmid (tmgr w) + 1 > 0" using next_id by (metis unat_0 word_neq_0_conv add_is_0 one_neq_zero)
  then have gid: "GetTimerId (tmgr w) = (tmid (tmgr w) + 1, (tmgr w)\<lparr>tmid := tmid (tmgr w) + 1\<rparr>)" by (simp add: GetTimerId_def Let_def)
  have fresh: "pending (tmgr w) (fst (GetTimerId (tmgr w))) = None"
  proof (rule ccontr)
    assume "pending (tmgr w) (fst (GetTimerId (tmgr w))) \<noteq> None"
    then obtain t' j where "pending (tmgr w) (tmid (tmgr w) + 1) = Some (t', j)" by (auto simp: gid)
    with inv obtain i rq where i: "i < length (acts w)" "wants w i = Some (rq, tmid (tmgr w) + 1)" unfolding world_inv_def timers_ok_def by blast
    have "coherent w i" using inv i(1) by (simp add: world_inv_def)
    with i(2) have "unat (tmid (tmgr w) + 1) \<le> unat (tmid (tmgr w))" by (simp add: coherent_def mail_ok_def)
    with next_id show False by simp
  qed
  note add = Mgr_AddTimer_spec [OF inv_tm fresh t]
  have ti: "ti = tmid (tmgr w) + 1" "tmid tm = tmid (tmgr w) + 1" using t by (auto simp: Mgr_AddTimer_def gid AddTimerInThread_def)
  let ?k = "Recv req ti cs temp"
  have u: "depth ?k < STACK_SIZE" using deep by (simp add: deep_enough_def)
  have inv': "world_inv (parked r ?k (depth ?k) (begun r req tm w))"
    using inv_begun [OF inv r(1) rec u add(1,2,4), of req cs temp] ti next_id by simp
  define w1 where "w1 = set_actor (int r) (SetWaitingId (sequence_id req) c) w"
  define w2 where "w2 = w1\<lparr>tmgr := tm, sched := (sched w1)\<lparr>available_coro_list := removeAll (int r) (avail w1)\<rparr>\<rparr>"
  have w2: "w2 = begun r req tm w" by (simp add: w2_def w1_def set_actor_def begun_def r(5))
  note bv = begun_views [OF r(2), of req tm, folded w2]
  have c2: "ctx_at (int r) (coro_sche (sched w2)) = Some (SetWaitingId (sequence_id req) c)" using r by (simp add: ctx_at_def bv)
  have "act w2 r = SetWaitingId (sequence_id req) c" "run_of w2 = int r" using r(1,5) by (simp_all add: bv)
  from sched_Yield_runs [OF this(2) c2 this(1) u, of ?k]
  have y: "give_way ?k (sched_Yield (depth ?k) ?k (sched w2)) w2 = Inr (parked r ?k (depth ?k) (begun r req tm w))" by (simp add: w2)
  have "give_way ?k (sched_Yield_id (int r) (depth ?k) ?k (sched w1)) (w1\<lparr>tmgr := tm\<rparr>) = give_way ?k (sched_Yield (depth ?k) ?k (sched w2)) w2"
    using r(1) by (simp add: give_way_def sched_Yield_id_def Let_def w2_def w1_def set_actor_def set_ctx_def)
  moreover have "int r < MAX_CORO_IDS" using bounds(1) r(2) by simp
  moreover have "tmgr w1 = tmgr w" by (simp add: w1_def set_actor_def)
  ultimately have "DoRecieve depth now timeout req cs temp w = Inr (parked r ?k (depth ?k) (begun r req tm w))"
    using r(3,6) q idle t y by (simp add: DoRecieve_def Let_def GetCoroutineCtx_def w1_def [symmetric])
  then show ?thesis by (rule good_stepI) (use inv' in simp_all)
qed

lemma MakeCall_good:
  assumes inv: "world_inv w" and run: "0 \<le> run_of w" and k: "here w = Calls ((c, m) # cs) temp" and deep: "deep_enough depth" and leg: "legal w"
  shows "good_step w (MakeCall depth now c m cs temp w)"
proof -
  let ?cw = "(cworld w)\<lparr>service_coro := Some (hdl_id w, cur_coroutine_id (sched w))\<rparr>"
  have "client_ok c ?cw" using leg k by (simp add: legal_def client_ok_def)
  from client_SendRecieve_coro [OF this, of "hdl_id w" "cur_coroutine_id (sched w)" now m] obtain req cw where
    r: "client_SendRecieve now m c ?cw = Inr (req, cw)" "\<forall>q. req = Some q \<longrightarrow> coroutine_id q = cur_coroutine_id (sched w)" by auto
  define w1 where "w1 = w\<lparr>cworld := cw\<rparr>"
  have w1: "world_inv w1" "0 \<le> run_of w1" "recv_of (Some (here w1)) = None" using inv run k by (simp_all add: w1_def)
  show ?thesis
  proof (cases req)
    case None
    have "world_inv (answer None None (Calls cs temp) w1)" by (rule inv_elsewhere [OF w1]) (simp_all add: answer_def)
    moreover have "MakeCall depth now c m cs temp w = Inr (answer None None (Calls cs temp) w1)" using r(1) None by (simp add: MakeCall_def w1_def)
    ultimately show ?thesis unfolding good_step_def
      by (intro exI [of _ "answer None None (Calls cs temp) w1"] exI [of _ "[(cur_coroutine_id (sched w), None, None)]"]) (simp add: answer_def w1_def answer_ok_def)
  next
    case (Some q)
    have "good_step w1 (DoRecieve depth now (cl_timeout_ms c) q cs temp w1)"
      using DoRecieve_good [OF w1 deep, of q] r(2) Some leg by (simp add: w1_def legal_def)
    moreover have "MakeCall depth now c m cs temp w = DoRecieve depth now (cl_timeout_ms c) q cs temp w1" using r(1) Some by (simp add: MakeCall_def w1_def)
    ultimately show ?thesis by (simp add: good_step_def w1_def)
  qed
qed

lemma coro_step_good:
  assumes ins: "set_insert ins" and inv: "world_inv w" and run: "0 \<le> run_of w" and deep: "deep_enough depth" and leg: "legal w"
  shows "good_step w (coro_step ins depth prog now w)"
proof (cases "here w")
  case Loop_Top
  then show ?thesis using here_good [OF inv run] by (simp add: coro_step_def)
next
  case (Timers t)
  then show ?thesis using timer_turn_good [OF inv run Timers deep] by (simp add: coro_step_def)
next
  case Polling
  then show ?thesis using Process_good [OF inv run Polling deep] by (simp add: coro_step_def)
next
  case (Batch b)
  show ?thesis
  proof (cases b)
    case Nil
    then show ?thesis using here_good [OF inv run] Batch by (simp add: coro_step_def)
  next
    case (Cons m temp)
    then show ?thesis using ProcessMessage_good [OF inv run _ deep, of m temp] Batch leg by (simp add: coro_step_def legal_def)
  qed
next
  case (Calls cs temp)
  show ?thesis
  proof (cases cs)
    case Nil
    then show ?thesis using here_good [OF inv run] Calls by (simp add: coro_step_def)
  next
    case (Cons p ps)
    then show ?thesis using MakeCall_good [OF inv run _ deep leg] Calls by (cases p) (simp add: coro_step_def)
  qed
next
  case (Recv req ti cs temp)
  then show ?thesis using Recieved_good [OF ins inv run Recv] by (simp add: coro_step_def)
next
  case (Drop m temp)
  have "world_inv (w\<lparr>dropped := dropped w @ [m], here := Batch temp\<rparr>)" by (rule inv_elsewhere [OF inv run]) (simp_all add: Drop)
  then show ?thesis using Drop by (auto simp: coro_step_def intro!: good_stepI)
qed

lemma main_step_results: "results (main_step ins w) = results w"
  by (simp add: main_step_def resumed_at_def split: prod.splits resumed.splits option.splits)

lemma thread_step_good:
  assumes "set_insert ins" "world_inv w" "deep_enough depth" "legal w"
  shows "good_step w (thread_step ins depth prog now w)"
proof (cases "run_of w < 0")
  case True
  then have "run_of w = -1" using assms(2) by (auto simp: world_inv_def sched_ok_def)
  from main_step_runs [OF assms(1,2) this] have "world_inv (main_step ins w)" by blast
  then show ?thesis using True main_step_results by (auto simp: thread_step_def intro!: good_stepI)
next
  case False
  then show ?thesis using coro_step_good [OF assms(1,2) _ assms(3,4)] by (simp add: thread_step_def)
qed

section \<open>The thread from its start\<close>

lemma fill_step:
  fixes s :: "place coro_sched"
  assumes "k < n" "nco s = k" "cap s = n" "coctxs s = replicate k (Some CoNew) @ replicate (n - k) None"
  shows "CoroutineNew s = (int k, s\<lparr>coctxs := replicate (Suc k) (Some CoNew) @ replicate (n - Suc k) None, nco := Suc k\<rparr>)"
proof -
  have up: "[0..<n] = 0 # [1..<n]" using assms(1) by (simp add: upt_conv_Cons)
  have at: "coctxs s ! k = None" using assms(1) by (simp add: assms(4) nth_append)
  have set: "(coctxs s)[k := Some CoNew] = replicate (Suc k) (Some CoNew) @ replicate (n - Suc k) None"
  proof (rule nth_equalityI)
    show "length ((coctxs s)[k := Some CoNew]) = length (replicate (Suc k) (Some CoNew) @ replicate (n - Suc k) None :: place actor option list)"
      using assms(1) by (simp add: assms(4))
  next
    fix i assume "i < length ((coctxs s)[k := Some CoNew])"
    then show "(coctxs s)[k := Some CoNew] ! i = (replicate (Suc k) (Some CoNew) @ replicate (n - Suc k) None) ! i"
      using assms(1) by (auto simp: assms(4) nth_append nth_list_update less_Suc_eq simp del: replicate_Suc replicate.simps)
  qed
  have "find (\<lambda>cid. coctxs s ! cid = None) (map (\<lambda>idx. (idx + k) mod n) [0..<n]) = Some k"
    using assms(1) at by (simp add: up)
  then show ?thesis using assms(1-3) set by (simp add: CoroutineNew_def)
qed

definition blank :: "int \<Rightarrow> place schedule" where
  "blank n = \<lparr>coro_sche = \<lparr>nco = 0, cap = nat n, running = -1, coctxs = replicate (nat n) None\<rparr>, all_coro_list = [],
     available_coro_list = [], active_coro_list = [], cur_coroutine_id = -1\<rparr>"

lemma fill_loop:
  assumes ins: "set_insert ins"
  shows "k \<le> n \<Longrightarrow> \<exists>al av. ((\<lambda>s. snd (AddNewCoroutine ins s)) ^^ k) (blank (int n)) =
     \<lparr>coro_sche = \<lparr>nco = k, cap = n, running = -1, coctxs = replicate k (Some CoNew) @ replicate (n - k) None\<rparr>, all_coro_list = al,
       available_coro_list = av, active_coro_list = [], cur_coroutine_id = -1\<rparr> \<and> distinct av \<and> set av = int ` {0..<k}"
proof (induction k)
  case 0
  show ?case by (simp add: blank_def)
next
  case (Suc k)
  from Suc.IH [OF Suc_leD [OF Suc.prems]] obtain al av where s: "((\<lambda>s. snd (AddNewCoroutine ins s)) ^^ k) (blank (int n)) =
     \<lparr>coro_sche = \<lparr>nco = k, cap = n, running = -1, coctxs = replicate k (Some CoNew) @ replicate (n - k) None\<rparr>, all_coro_list = al,
       available_coro_list = av, active_coro_list = [], cur_coroutine_id = -1\<rparr>" and av: "distinct av" "set av = int ` {0..<k}" by blast
  have new: "int k \<notin> set av" using av(2) by auto
  with ins av have i: "distinct (ins (int k) av)" "set (ins (int k) av) = insert (int k) (set av)" by (simp_all add: set_insert_def)
  have "int ` {0..<Suc k} = insert (int k) (int ` {0..<k})" by (auto simp: image_iff less_Suc_eq)
  with i av(2) have "set (ins (int k) av) = int ` {0..<Suc k}" by simp
  moreover have "CoroutineNew \<lparr>nco = k, cap = n, running = -1, coctxs = replicate k (Some (CoNew :: place actor)) @ replicate (n - k) None\<rparr> =
      (int k, \<lparr>nco = Suc k, cap = n, running = -1, coctxs = replicate (Suc k) (Some CoNew) @ replicate (n - Suc k) None\<rparr>)"
    using Suc.prems by (subst fill_step [of k n]) simp_all
  ultimately show ?case using i(1) new s by (simp add: AddNewCoroutine_def)
qed

definition thread_new :: "place schedule \<Rightarrow> clients_world \<Rightarrow> int \<Rightarrow> coro_world" where
  "thread_new s cw hdl =
     \<lparr>sched = s, tmgr = mgr_new, inbox = [], empty_times = 0, cworld = cw, here = Loop_Top, results = [], handled = [], dropped = [], hdl_id = hdl\<rparr>"

lemma inv_thread_new:
  assumes ins: "set_insert ins" and s: "InitCoroSchedule ins (int n) = Inr s"
  shows "world_inv (thread_new s cw hdl)"
proof -
  from s have "s = ((\<lambda>s. snd (AddNewCoroutine ins s)) ^^ n) (blank (int n))"
    by (simp add: InitCoroSchedule_def CoroutineInit_def blank_def)
  with fill_loop [OF ins, of n n] obtain al av where
    s': "s = \<lparr>coro_sche = \<lparr>nco = n, cap = n, running = -1, coctxs = replicate n (Some CoNew)\<rparr>, all_coro_list = al,
       available_coro_list = av, active_coro_list = [], cur_coroutine_id = -1\<rparr>" "distinct av" "set av = int ` {0..<n}" by auto
  let ?w = "thread_new s cw hdl"
  have act': "act ?w i = CoNew" if "i < n" for i using that by (simp add: act_def thread_new_def s'(1))
  have wants': "wants ?w i = None" if "i < n" for i
    using act' [OF that] by (simp add: wants_def place_of_def thread_new_def s'(1)) (simp add: CoNew_def coro_states)
  have "coherent ?w i" if "i < n" for i
    using that act' wants' s'(3) by (simp add: coherent_def status_ok_def mail_ok_def) (simp add: thread_new_def s'(1) CoNew_def)
  moreover have "timers_ok ?w"
  proof -
    have "mgr_inv (mgr_new :: int timer_mgr)" "pending (mgr_new :: int timer_mgr) = Map.empty" by (rule mgr_inv_new, rule pending_new)
    moreover have "length (acts ?w) = n" "tmgr ?w = mgr_new" by (simp_all add: thread_new_def s'(1))
    ultimately show ?thesis using wants' by (simp add: timers_ok_def)
  qed
  moreover have "sched_ok ?w" using s' by (auto simp: sched_ok_def thread_new_def)
  moreover have "active_ok ?w" by (simp add: active_ok_def thread_new_def s'(1))
  moreover have "length (acts ?w) = n" by (simp add: thread_new_def s'(1))
  ultimately show ?thesis by (simp add: world_inv_def)
qed

text \<open>
  What can happen: the thread makes a step; a message is put into its queue; connections, sequence ids and the rest of the clients' world
  change (other threads, the network), but no connection disappears.
\<close>

inductive coro_reach :: "(int \<Rightarrow> int list \<Rightarrow> int list) \<Rightarrow> (place \<Rightarrow> int) \<Rightarrow> (message \<Rightarrow> calls) \<Rightarrow> coro_world \<Rightarrow> bool"
  for ins depth prog where
  reach_start: "InitCoroSchedule ins (int n) = Inr s \<Longrightarrow> coro_reach ins depth prog (thread_new s cw hdl)"
| reach_step: "coro_reach ins depth prog w \<Longrightarrow> legal w \<Longrightarrow> thread_step ins depth prog now w = Inr w' \<Longrightarrow> coro_reach ins depth prog w'"
| reach_arrive: "coro_reach ins depth prog w \<Longrightarrow> coro_reach ins depth prog (w\<lparr>inbox := inbox w @ [m]\<rparr>)"
| reach_network: "coro_reach ins depth prog w \<Longrightarrow> same_cons (cworld w) cw \<Longrightarrow> coro_reach ins depth prog (w\<lparr>cworld := cw\<rparr>)"

lemma coro_reach_inv:
  assumes "coro_reach ins depth prog w" "set_insert ins" "deep_enough depth"
  shows "world_inv w \<and> (\<forall>x \<in> set (results w). answer_ok x)"
  using assms(1)
proof induction
  case (reach_start n s cw hdl)
  from inv_thread_new [OF assms(2) this, of cw hdl] show ?case by (simp add: thread_new_def)
next
  case (reach_step w now w')
  then have "good_step w (thread_step ins depth prog now w)" using thread_step_good [OF assms(2) _ assms(3)] by blast
  with reach_step show ?case by (auto simp: good_step_def)
qed simp_all

section \<open>Runs on concrete events\<close>

datatype coro_event = E_Step u64 | E_Arrive message

fun coro_play :: "(int \<Rightarrow> int list \<Rightarrow> int list) \<Rightarrow> (place \<Rightarrow> int) \<Rightarrow> (message \<Rightarrow> calls) \<Rightarrow> coro_event list \<Rightarrow> coro_world \<Rightarrow> coro_world option" where
  "coro_play ins depth prog [] w = Some w"
| "coro_play ins depth prog (E_Arrive m # es) w = coro_play ins depth prog es (w\<lparr>inbox := inbox w @ [m]\<rparr>)"
| "coro_play ins depth prog (E_Step now # es) w =
     (if legal w then (case thread_step ins depth prog now w of Inl e \<Rightarrow> None | Inr w' \<Rightarrow> coro_play ins depth prog es w') else None)"

lemma coro_play_reach:
  "coro_play ins depth prog es w = Some w' \<Longrightarrow> coro_reach ins depth prog w \<Longrightarrow> coro_reach ins depth prog w'"
proof (induction es arbitrary: w)
  case (Cons e es)
  show ?case
  proof (cases e)
    case (E_Arrive m)
    with Cons show ?thesis by (auto intro: reach_arrive)
  next
    case (E_Step now)
    with Cons show ?thesis by (auto intro: reach_step split: if_splits sum.splits)
  qed
qed simp

text \<open>Two coroutines, one client; the handler of a message makes one call.\<close>

definition front :: "int \<Rightarrow> int list \<Rightarrow> int list" where "front x l = x # l"

lemma front_inserts: "set_insert front"
  by (simp add: set_insert_def front_def)

definition shallow :: "place \<Rightarrow> int" where "shallow k = 1024"

lemma shallow_deep: "deep_enough shallow"
  by (simp add: deep_enough_def shallow_def STACK_SIZE_def)

definition one_call :: "message \<Rightarrow> calls" where
  "one_call m = [(one_client, RapidMessage_new\<lparr>payload := Rapid_Data ''query'' 7\<rparr>)]"

definition incoming :: "u64 \<Rightarrow> message" where
  "incoming now = RapidMessage_new\<lparr>direction := kIncomingRequest, birthtime := now\<rparr>"

definition reply :: "u64 \<Rightarrow> int \<Rightarrow> message" where
  "reply sid j = RapidMessage_new\<lparr>direction := kIncomingResponse, sequence_id := sid, coroutine_id := j, payload := Rapid_Data ''found'' 7\<rparr>"

definition duo :: coro_world where
  "duo = (case InitCoroSchedule front 2 of Inr s \<Rightarrow> thread_new s one_connected 0)"

lemma duo_reach: "coro_reach front depth prog duo"
proof -
  obtain s :: "place schedule" where "InitCoroSchedule front 2 = Inr s" by (simp add: InitCoroSchedule_def CoroutineInit_def)
  then show ?thesis unfolding duo_def using reach_start [of front 2 s depth prog one_connected 0] by simp
qed

definition after :: "coro_event list \<Rightarrow> coro_world" where
  "after es = the (coro_play front shallow one_call es duo)"

lemma after_reach: "coro_play front shallow one_call es duo \<noteq> None \<Longrightarrow> coro_reach front shallow one_call (after es)"
  using coro_play_reach [OF _ duo_reach] by (auto simp: after_def)

text \<open>A request arrives, its handler calls, and another coroutine takes over.\<close>

definition ask :: "coro_event list" where
  "ask = E_Arrive (incoming 5) # replicate 6 (E_Step 5)"

text \<open>C30. SendRecieve returns the answer to its own request or none: in every state a service thread can come to, whatever its coroutines,
  its timers and the other threads did, a message that SendRecieve returned carries the sequence id of the request that was sent, has the
  status OK, and belongs to the coroutine that made the call.\<close>

theorem SendRecieve_gets_its_answer:
  assumes "coro_reach ins depth prog w" "set_insert ins" "deep_enough depth" "(j, req, Some m) \<in> set (results w)"
  shows "\<exists>q. req = Some q \<and> sequence_id m = sequence_id q \<and> status m = kStatusOK \<and> coroutine_id m = j"
proof -
  from coro_reach_inv [OF assms(1-3)] assms(4) have "answer_ok (j, req, Some m)" by blast
  then show ?thesis by (simp add: answer_ok_def split: option.splits)
qed

definition answered :: "coro_event list" where
  "answered = ask @ E_Arrive (reply 0 1) # replicate 6 (E_Step 6)"

theorem SendRecieve_gets_its_answer_witness:
  "\<exists>req q. (1, req, Some (reply 0 1)) \<in> set (results (after answered)) \<and> req = Some q \<and> sequence_id (reply 0 1) = sequence_id q \<and>
     status (reply 0 1) = kStatusOK \<and> coroutine_id (reply 0 1) = 1"
proof -
  have "coro_play front shallow one_call answered duo \<noteq> None" by code_simp
  note reach = after_reach [OF this]
  have "map (\<lambda>x. (fst x, snd (snd x))) (results (after answered)) = [(1, Some (reply 0 1))]" by code_simp
  then obtain req where r: "(1, req, Some (reply 0 1)) \<in> set (results (after answered))" by (cases "results (after answered)") auto
  from SendRecieve_gets_its_answer [OF reach front_inserts shallow_deep r] r show ?thesis by blast
qed

text \<open>C31. The thread never gets stuck and never faults: in every state it can come to, as long as answers name coroutines of the thread,
  calls go through clients that were started, and the tables of ids have room, its next step is defined; and when no coroutine
  runs, that step makes one run, a new one if all others wait.\<close>

theorem service_thread_goes_on:
  assumes "coro_reach ins depth prog w" "set_insert ins" "deep_enough depth" "legal w"
  shows "\<exists>w'. thread_step ins depth prog now w = Inr w' \<and> (running (coro_sche (sched w)) < 0 \<longrightarrow> 0 \<le> running (coro_sche (sched w')))"
proof -
  from coro_reach_inv [OF assms(1-3)] have inv: "world_inv w" by blast
  show ?thesis
  proof (cases "run_of w < 0")
    case True
    then have "run_of w = -1" using inv by (auto simp: world_inv_def sched_ok_def)
    from main_step_runs [OF assms(2) inv this] obtain j w0 where "main_step ins w = running_now j [] w0" "j < length (acts w0)" by blast
    then have "run_of (main_step ins w) = int j" by (simp add: running_now_views)
    then show ?thesis using True by (simp add: thread_step_def)
  next
    case False
    from thread_step_good [OF assms(2) inv assms(3,4)] obtain w' where "thread_step ins depth prog now w = Inr w'" unfolding good_step_def by blast
    with False show ?thesis by blast
  qed
qed

theorem service_thread_goes_on_witness:
  "\<exists>w'. thread_step front shallow one_call 5 duo = Inr w' \<and> 0 \<le> running (coro_sche (sched w'))"
proof -
  have "legal duo" by code_simp
  moreover have "running (coro_sche (sched duo)) < 0" by code_simp
  ultimately show ?thesis
    using service_thread_goes_on [OF duo_reach front_inserts shallow_deep, of one_call 5] by simp
qed

section \<open>A call that times out\<close>

lemma handed_place:
  assumes "j < length (acts w)" "j \<noteq> r" "run_of w = int r" "r < length (acts w)" "u < STACK_SIZE"
  shows "place_of (parked r k u (handed j (act w j) tm w)) j = place_of w j"
proof -
  have h: "run_of (handed j (act w j) tm w) = int r" "r < length (acts (handed j (act w j) tm w))" using assms by (simp_all add: handed_views)
  have "act (parked r k u (handed j (act w j) tm w)) j = act w j" using parked_views(6) [OF h assms(5), of j k] assms(1,2) by (simp add: handed_views)
  then show ?thesis using assms(2,3) parked_views(1) [OF h assms(5), of k] by (simp add: place_of_def)
qed

text \<open>C32. A call whose time is over does not wait on: when a coroutine looks through the timers and the first one is due, that timer belongs
  to a coroutine that waits in RecieveMessage for an answer; the next step gives way to it, and the one after resumes it where it
  waits.\<close>

theorem timed_out_call_resumes:
  assumes "coro_reach ins depth prog w" "set_insert ins" "deep_enough depth"
    "0 \<le> running (coro_sche (sched w))" "here w = Timers t" "timer_map (tmgr w) = x # xs" "due_at x < t"
  shows "\<exists>j req cs temp w1 w2. place_of w j = Some (Recv req (tid x) cs temp) \<and> thread_step ins depth prog now w = Inr w1 \<and>
     thread_step ins depth prog now' w1 = Inr w2 \<and> running (coro_sche (sched w2)) = int j \<and> here w2 = Recv req (tid x) cs temp"
proof -
  from coro_reach_inv [OF assms(1-3)] have inv: "world_inv w" by blast
  from inv assms(4) obtain r where r: "run_of w = int r" "r < length (acts w)" by (auto simp: world_inv_def sched_ok_def)
  from timer_fires [OF inv r(1) assms(5,3,6,7)] obtain j req tm where
    j: "j < length (acts w)" "j \<noteq> r" "wants w j = Some (req, tid x)"
    and step: "timer_turn depth t w = Inr (parked r (Timers t) (depth (Timers t)) (handed j (act w j) tm w))"
    and inv1: "world_inv (parked r (Timers t) (depth (Timers t)) (handed j (act w j) tm w))" by blast
  let ?w1 = "parked r (Timers t) (depth (Timers t)) (handed j (act w j) tm w)"
  have u: "depth (Timers t) < STACK_SIZE" using assms(3) by (simp add: deep_enough_def)
  have h: "run_of (handed j (act w j) tm w) = int r" "r < length (acts (handed j (act w j) tm w))" using r j(1) by (simp_all add: handed_views)
  note v = parked_views [OF h u, where k = "Timers t"]
  from j(3) obtain cs temp where p: "place_of w j = Some (Recv req (tid x) cs temp)"
    by (auto simp: wants_def recv_of_def split: option.splits place.splits)
  have p1: "place_of ?w1 j = Some (Recv req (tid x) cs temp)" using handed_place [OF j(1,2) r u] p by simp
  have act1: "active ?w1 = [int j]" using j(1) by (simp add: v(4) handed_views)
  from main_step_runs [OF assms(2) inv1 v(1)] act1 have m: "main_step ins ?w1 = running_now j [] ?w1" by auto
  have j1: "j < length (acts ?w1)" using j(1) by (simp add: v(2) handed_views)
  have "running (coro_sche (sched (running_now j [] ?w1))) = int j" using running_now_views(1) [OF j1] .
  moreover have "here (running_now j [] ?w1) = Recv req (tid x) cs temp" using p1 by (simp add: running_now_def goes_on_def)
  moreover have "thread_step ins depth prog now w = Inr ?w1" using assms(4,5) step by (simp add: thread_step_def coro_step_def)
  moreover have "thread_step ins depth prog now' ?w1 = Inr (running_now j [] ?w1)" using m v(1) by (simp add: thread_step_def)
  ultimately show ?thesis using p by blast
qed

definition overdue :: "coro_event list" where
  "overdue = ask @ [E_Step 600]"

theorem timed_out_call_resumes_witness:
  "\<exists>j req cs temp w1 w2. place_of (after overdue) j = Some (Recv req 1 cs temp) \<and> thread_step front shallow one_call 601 (after overdue) = Inr w1 \<and>
     thread_step front shallow one_call 602 w1 = Inr w2 \<and> running (coro_sche (sched w2)) = int j \<and> here w2 = Recv req 1 cs temp"
proof -
  have "coro_play front shallow one_call overdue duo \<noteq> None" by code_simp
  note reach = after_reach [OF this]
  have t: "0 \<le> running (coro_sche (sched (after overdue)))" by code_simp
  have h: "here (after overdue) = Timers 600" by code_simp
  have m: "timer_map (tmgr (after overdue)) = [\<lparr>node = 0, due_at = 505, tid = 1, tproc = 1\<rparr>]" by code_simp
  have "due_at \<lparr>node = 0, due_at = 505, tid = 1, tproc = 1 :: int\<rparr> < 600" by simp
  from timed_out_call_resumes [OF reach front_inserts shallow_deep t h m this, of 601 602] show ?thesis by simp
qed

section \<open>Messages left behind\<close>

fun thread_run :: "(int \<Rightarrow> int list \<Rightarrow> int list) \<Rightarrow> (place \<Rightarrow> int) \<Rightarrow> (message \<Rightarrow> calls) \<Rightarrow> u64 list \<Rightarrow> coro_world \<Rightarrow> coro_world outcome" where
  "thread_run ins depth prog [] w = Inr w"
| "thread_run ins depth prog (now # nows) w = outcome_bind (thread_step ins depth prog now w) (thread_run ins depth prog nows)"

text \<open>
  Coroutine a gave way in the middle of a batch; b is the first of the available ones; nothing else is there to do.
\<close>

definition left_behind :: "nat \<Rightarrow> nat \<Rightarrow> message list \<Rightarrow> coro_world \<Rightarrow> bool" where
  "left_behind a b batch w \<longleftrightarrow> a \<noteq> b \<and> a < length (coctxs (coro_sche (sched w))) \<and> place_of w a = Some (Batch batch) \<and>
     place_of w b \<in> {None, Some Loop_Top, Some Polling} \<and> inbox w = [] \<and> timer_map (tmgr w) = [] \<and>
     active_coro_list (sched w) = [] \<and> (\<exists>l. available_coro_list (sched w) = int b # l) \<and>
     (running (coro_sche (sched w)) = -1 \<or> running (coro_sche (sched w)) = int b)"

lemma place_elsewhere:
  assumes "sched w' = sched w" "run_of w \<noteq> int a"
  shows "place_of w' a = place_of w a"
  using assms by (simp add: place_of_def act_def)

lemma left_behind_step:
  assumes inv: "world_inv w" and ins: "set_insert ins" and deep: "deep_enough depth" and lb: "left_behind a b batch w"
  shows "\<exists>w'. thread_step ins depth prog now w = Inr w' \<and> world_inv w' \<and> left_behind a b batch w'"
proof (cases "run_of w = -1")
  case True
  from lb obtain l where av: "active w = []" "avail w = int b # l" by (auto simp: left_behind_def)
  from main_step_runs [OF ins inv True] av have
    m: "main_step ins w = running_now b [] w" and b: "b < length (acts w)" and inv': "world_inv (main_step ins w)" by auto
  note v = running_now_views [OF b, of "[]"]
  have pb: "place_of (running_now b [] w) b \<in> {None, Some Loop_Top, Some Polling}"
    using lb by (auto simp: place_of_def [of "running_now b [] w"] v left_behind_def) (auto simp: running_now_def goes_on_def)
  have "a \<noteq> b" using lb by (simp add: left_behind_def)
  then have pa: "place_of (running_now b [] w) a = place_of w a" using True by (simp add: place_of_def v)
  have rest: "inbox (running_now b [] w) = inbox w" by (simp add: running_now_def)
  from lb pa pb have "left_behind a b batch (running_now b [] w)" unfolding left_behind_def v rest by simp
  then show ?thesis using True m inv' by (simp add: thread_step_def)
next
  case False
  with lb have run: "run_of w = int b" by (auto simp: left_behind_def)
  then have nn: "0 \<le> run_of w" by simp
  have b: "b < length (acts w)" using inv run by (auto simp: world_inv_def sched_ok_def)
  have ab: "a \<noteq> b" "run_of w \<noteq> int a" using lb run by (auto simp: left_behind_def)
  have here: "here w = Loop_Top \<or> here w = Polling" using lb run by (auto simp: left_behind_def place_of_def)
  have moved: "left_behind a b batch w'" if "sched w' = sched w" "tmgr w' = tmgr w" "inbox w' = inbox w" "here w' = Loop_Top \<or> here w' = Polling" for w'
  proof -
    have "place_of w' a = place_of w a" by (rule place_elsewhere [OF that(1) ab(2)])
    moreover have "place_of w' b = Some (here w')" using run that(1) by (simp add: place_of_def)
    ultimately show ?thesis using lb that unfolding left_behind_def by auto
  qed
  show ?thesis
  proof (cases "here w = Loop_Top")
    case True
    then have step: "thread_step ins depth prog now w = Inr (w\<lparr>here := Polling\<rparr>)" using lb nn by (simp add: thread_step_def coro_step_def left_behind_def)
    have "world_inv (w\<lparr>here := Polling\<rparr>)" by (rule inv_here [OF inv nn]) (simp_all add: True)
    with step moved show ?thesis by simp
  next
    case False
    then have pol: "here w = Polling" using here by simp
    define w1 where "w1 = w\<lparr>empty_times := empty_times w + 1\<rparr>"
    have w1: "world_inv w1" "run_of w1 = int b" "recv_of (Some (here w1)) = None" using inv run pol by (simp_all add: w1_def)
    have u: "depth Loop_Top < STACK_SIZE" using deep by (simp add: deep_enough_def)
    have step: "thread_step ins depth prog now w = (if (empty_times w + 1) mod 10 = 0 then yield_at depth Loop_Top w1 else Inr (w1\<lparr>here := Loop_Top\<rparr>))"
      using lb nn pol by (simp add: thread_step_def coro_step_def left_behind_def Process_def Let_def w1_def)
    show ?thesis
    proof (cases "(empty_times w + 1) mod 10 = 0")
      case False
      have "world_inv (w1\<lparr>here := Loop_Top\<rparr>)" using w1 by (intro inv_here) simp_all
      with step False moved [of "w1\<lparr>here := Loop_Top\<rparr>"] show ?thesis by (simp add: w1_def)
    next
      case True
      let ?w' = "parked b Loop_Top (depth Loop_Top) w1"
      from runner [OF w1(1)] w1(2) obtain c where c: "act w1 b = c" "ctx_at (int b) (coro_sche (sched w1)) = Some c" by (metis of_nat_0_le_iff of_nat_eq_iff)
      have "yield_at depth Loop_Top w1 = Inr ?w'" unfolding yield_at_def by (rule sched_Yield_runs [OF w1(2) c(2,1) u])
      moreover have "world_inv ?w'" by (rule inv_parked [OF w1(1,2,3) _ u]) simp
      moreover have "left_behind a b batch ?w'"
      proof -
        have b1: "b < length (acts w1)" using b by (simp add: w1_def)
        note v = parked_views [OF w1(2) b1 u, where k = Loop_Top]
        have "place_of ?w' b = Some Loop_Top" by (simp add: place_of_def v(1,8) SaveStack_stack [OF u])
        moreover have "place_of ?w' a = place_of w a" using ab by (simp add: place_of_def v(1,6)) (simp add: w1_def act_def)
        moreover have "inbox ?w' = inbox w" by (simp add: parked_def w1_def)
        ultimately show ?thesis using lb unfolding left_behind_def v by (simp add: w1_def)
      qed
      ultimately show ?thesis using step True by simp
    qed
  qed
qed

text \<open>C33. Messages behind an answer are left behind. A coroutine that finds an answer in its batch gives way to the one that waits for it, and
  keeps the rest of the batch. As long as the scheduler finds another coroutine first, and no further message or timer comes, the rest
  stays where it is, however long the thread runs.\<close>

theorem batch_left_behind:
  assumes "coro_reach ins depth prog w" "set_insert ins" "deep_enough depth" "left_behind a b batch w"
  shows "\<exists>w'. thread_run ins depth prog nows w = Inr w' \<and> left_behind a b batch w'"
proof -
  have "world_inv w \<Longrightarrow> left_behind a b batch w \<Longrightarrow> \<exists>w'. thread_run ins depth prog nows w = Inr w' \<and> left_behind a b batch w'" for w
  proof (induction nows arbitrary: w)
    case (Cons now nows)
    from left_behind_step [OF Cons.prems(1) assms(2,3) Cons.prems(2)] obtain w1 where
      "thread_step ins depth prog now w = Inr w1" "world_inv w1" "left_behind a b batch w1" by blast
    with Cons.IH [of w1] show ?case by simp
  qed simp
  with coro_reach_inv [OF assms(1-3)] assms(4) show ?thesis by blast
qed

definition passed_on :: "coro_event list" where
  "passed_on = ask @ E_Arrive (reply 0 1) # E_Arrive (incoming 6) # replicate 8 (E_Step 6)"

theorem batch_left_behind_witness:
  "\<exists>w'. thread_run front shallow one_call [7, 8, 9, 200, 201, 202] (after passed_on) = Inr w' \<and> left_behind 0 1 [incoming 6] w'"
proof -
  have "coro_play front shallow one_call passed_on duo \<noteq> None" by code_simp
  note reach = after_reach [OF this]
  have "place_of (after passed_on) 0 = Some (Batch [incoming 6])" by code_simp
  moreover have "place_of (after passed_on) 1 = Some Loop_Top" by code_simp
  moreover have "inbox (after passed_on) = [] \<and> timer_map (tmgr (after passed_on)) = [] \<and> active (after passed_on) = []" by code_simp
  moreover have "avail (after passed_on) = [1, 0] \<and> run_of (after passed_on) = 1 \<and> length (acts (after passed_on)) = 2" by code_simp
  ultimately have "left_behind 0 1 [incoming 6] (after passed_on)" by (simp add: left_behind_def)
  from batch_left_behind [OF reach front_inserts shallow_deep this] show ?thesis .
qed

section \<open>Edges\<close>

text \<open>A request that failed comes back with its status, and is dropped: the coroutine that waits for it waits until its time is over.\<close>

lemma failed_request_not_delivered:
  "status m \<noteq> kStatusOK \<Longrightarrow> ProcessMessage depth prog now m temp w = yield_at depth (Drop m temp) w"
  by (simp add: ProcessMessage_def)

text \<open>An answer that names a coroutine the thread does not have is a null pointer.\<close>

lemma answer_for_no_coroutine:
  "int (cap (coro_sche (sched w))) \<le> coroutine_id m \<Longrightarrow> ProcessClientItem depth m temp w = Inl Null_Dereference"
  by (simp add: ProcessClientItem_def GetCoroutineCtx_def ctx_at_def)

text \<open>A stack that does not fit is not saved, and the coroutine is suspended all the same: it goes on with what was saved before.\<close>

lemma stack_not_saved:
  assumes "running s = int r" "ctx_at (int r) s = Some c" "r < length (coctxs s)" "here_used < STACK_SIZE" "STACK_SIZE \<le> used"
  shows "\<exists>s'. CoroutineYield here_used used k s = Inr (True, s') \<and> coctxs s' ! r = Some (c\<lparr>co_status := kCoroutineSuspend\<rparr>)"
  using assms by (simp add: CoroutineYield_def SaveStack_def set_ctx_def)

text \<open>From the hundred-thousandth coroutine on the id for the timer is read behind the table of ids.\<close>

lemma many_coroutines_out_of_bounds:
  assumes "MAX_CORO_IDS \<le> cur_coroutine_id (sched w)" "coroutine_id req = cur_coroutine_id (sched w)"
    "GetCoroutineCtx (cur_coroutine_id (sched w)) (coro_sche (sched w)) = Some c" "msg_list c = []"
  shows "DoRecieve depth now timeout req cs temp w = Inl Out_Of_Bounds"
  using assms by (simp add: DoRecieve_def Let_def)

end
