(* ===== verification/Http_Util.thy ===== *)
theory Http_Util
  imports Messages String_Util
begin

text \<open>
  The helpers for HTTP requests of src/src/protocol/http/http\_util.cpp: cookies, query parameters, the request a handler
  sees, domains. Strings are character strings; the byte functions of String\_Util are taken over. UrlDecode with
  is\_unicode first converts between character sets (iconv): \<open>conv\<close> is that conversion.
\<close>

section \<open>Strings\<close>

definition UrlDecode_str :: "string \<Rightarrow> string outcome" where
  "UrlDecode_str s = map_sum id chars_of (UrlDecode (bytes_of s))"

definition UrlDecode_unicode :: "(string \<Rightarrow> string) \<Rightarrow> string \<Rightarrow> string outcome" where
  "UrlDecode_unicode conv s = UrlDecode_str (conv s)"

definition Trim_str :: "string \<Rightarrow> string" where
  "Trim_str s = chars_of (Trim (bytes_of s))"

definition Split_str :: "string \<Rightarrow> char \<Rightarrow> string list" where
  "Split_str s delim = Split id [] s delim True"

text \<open>std::string::find of a string, from a position on; None for npos.\<close>

fun find_sub_at :: "string \<Rightarrow> string \<Rightarrow> nat \<Rightarrow> nat option" where
  "find_sub_at p [] k = (if p = [] then Some k else None)"
| "find_sub_at p (c # cs) k = (if take (length p) (c # cs) = p then Some k else find_sub_at p cs (Suc k))"

definition str_find :: "string \<Rightarrow> string \<Rightarrow> nat \<Rightarrow> nat option" where
  "str_find s p from = (if from > length s then None else find_sub_at p (drop from s) from)"

section \<open>Cookies and parameters\<close>

definition cookie_item :: "string \<Rightarrow> dict \<Rightarrow> dict" where
  "cookie_item kv items =
     (case str_find kv ''='' 0 of
        None \<Rightarrow> items
      | Some value_pos \<Rightarrow> dict_insert (Trim_str (take value_pos kv)) (Trim_str (drop (value_pos + 1) kv)) items)"

definition HttpCookieDecode :: "string \<Rightarrow> dict \<Rightarrow> dict" where
  "HttpCookieDecode cookie items = fold cookie_item (Split_str cookie (CHR '';'')) items"

definition map_item :: "(string \<Rightarrow> string) \<Rightarrow> string \<Rightarrow> dict \<Rightarrow> dict outcome" where
  "map_item conv kv to_dict =
     (case str_find kv ''='' 0 of
        None \<Rightarrow> Inr to_dict
      | Some value_pos \<Rightarrow>
          outcome_bind (UrlDecode_str (take value_pos kv)) (\<lambda>k.
          outcome_bind (UrlDecode_unicode conv (drop (value_pos + 1) kv)) (\<lambda>v. Inr (dict_insert k v to_dict))))"

fun map_items :: "(string \<Rightarrow> string) \<Rightarrow> string list \<Rightarrow> dict \<Rightarrow> dict outcome" where
  "map_items conv [] to_dict = Inr to_dict"
| "map_items conv (kv # kvs) to_dict = outcome_bind (map_item conv kv to_dict) (map_items conv kvs)"

definition SplitToMap :: "(string \<Rightarrow> string) \<Rightarrow> string \<Rightarrow> dict \<Rightarrow> dict outcome" where
  "SplitToMap conv split_str to_dict = map_items conv (Split_str split_str (CHR ''&'')) to_dict"

definition HandleTrackUrl :: "(string \<Rightarrow> string) \<Rightarrow> string \<Rightarrow> dict \<Rightarrow> dict outcome" where
  "HandleTrackUrl conv split_str to_dict =
     (case str_find split_str ''&click='' 0 of
        None \<Rightarrow> SplitToMap conv split_str to_dict
      | Some pos \<Rightarrow>
          outcome_bind (UrlDecode_unicode conv (drop (pos + 7) split_str)) (\<lambda>click.
            SplitToMap conv (take pos split_str) (dict_insert ''click'' click to_dict)))"

section \<open>The request a handler sees\<close>

record http_parsed_info =
  pi_method :: string
  pi_url :: string
  pi_headers :: dict
  pi_cookies :: dict
  cookies_str :: string
  x_real_ip :: string
  x_forward_for :: string
  pi_path :: string
  url_param :: dict
  pi_body :: string
  request_uid :: string
  user_id_str :: string

definition parsed_info_new :: http_parsed_info where
  "parsed_info_new =
     \<lparr>pi_method = [], pi_url = [], pi_headers = [], pi_cookies = [], cookies_str = [], x_real_ip = [], x_forward_for = [],
      pi_path = [], url_param = [], pi_body = [], request_uid = [], user_id_str = []\<rparr>"

definition take_header :: "string \<times> string \<Rightarrow> http_parsed_info \<Rightarrow> http_parsed_info" where
  "take_header it info =
     (let info' = (if fst it = ''Cookie'' then info\<lparr>cookies_str := snd it\<rparr>
                   else if fst it = ''X-Real-IP'' then info\<lparr>x_real_ip := snd it\<rparr>
                   else if fst it = ''X-Forwarded-For'' then info\<lparr>x_forward_for := snd it\<rparr>
                   else info)
      in info'\<lparr>pi_headers := dict_insert (fst it) (snd it) (pi_headers info')\<rparr>)"

definition SplitHttpPostBody :: "(string \<Rightarrow> string) \<Rightarrow> http_parsed_info \<Rightarrow> http_parsed_info outcome" where
  "SplitHttpPostBody conv info =
     (if pi_method info \<in> {''POST'', ''Post'', ''post''} \<and> dict_find ''adxid'' (url_param info) = None \<and> str_find (pi_path info) ''madx'' 0 = None
      then map_sum id (\<lambda>d. info\<lparr>url_param := d\<rparr>) (SplitToMap conv (pi_body info) (url_param info))
      else Inr info)"

definition GetUserId :: "http_parsed_info \<Rightarrow> http_parsed_info" where
  "GetUserId info =
     (let info1 = (case dict_find ''uid'' (url_param info) of None \<Rightarrow> info | Some v \<Rightarrow> info\<lparr>request_uid := v\<rparr>)
      in case dict_find ''uid'' (pi_cookies info1) of None \<Rightarrow> info1 | Some v \<Rightarrow> info1\<lparr>user_id_str := v\<rparr>)"

text \<open>Where the path starts, and where the parameters: behind a question mark, else behind the second slash.\<close>

definition path_start :: "string \<Rightarrow> nat" where
  "path_start url =
     (if str_find url ''http://'' 0 = Some 0 then (case str_find url ''/'' 8 of None \<Rightarrow> 0 | Some i \<Rightarrow> i) else 0)"

definition param_start :: "string \<Rightarrow> nat option" where
  "param_start url = (case str_find url ''?'' 0 of None \<Rightarrow> str_find url ''/'' 1 | Some i \<Rightarrow> Some i)"

text \<open>\<open>substr(begin, stop - begin)\<close>: with \<open>stop\<close> before \<open>begin\<close> the length wraps around and the rest is taken.\<close>

definition sub_between :: "nat \<Rightarrow> nat \<Rightarrow> string \<Rightarrow> string" where
  "sub_between b stop s = (if b \<le> stop then take (stop - b) (drop b s) else drop b s)"

definition BuildHttpRequest :: "(string \<Rightarrow> string) \<Rightarrow> http_data \<Rightarrow> http_parsed_info \<Rightarrow> http_parsed_info outcome" where
  "BuildHttpRequest conv ev info =
     (let url = hi_url (http_info ev);
          info1 = info\<lparr>pi_body := hi_body (http_info ev), pi_url := url, pi_method := hi_method (http_info ev)\<rparr>;
          info2 = fold take_header (hi_headers (http_info ev)) info1;
          info3 = info2\<lparr>pi_cookies := HttpCookieDecode (cookies_str info2) (pi_cookies info2)\<rparr>;
          first_pos = path_start url
      in outcome_bind
           (case param_start url of
              None \<Rightarrow> Inr (info3\<lparr>pi_path := drop first_pos url\<rparr>)
            | Some param_pos \<Rightarrow>
                let path = sub_between first_pos param_pos url;
                    raw_param = drop (param_pos + 1) url
                in map_sum id (\<lambda>d. info3\<lparr>pi_path := path, url_param := d\<rparr>)
                     (if path \<in> {''/ac'', ''/as'', ''/c'', ''/w''} then HandleTrackUrl conv raw_param (url_param info3)
                      else SplitToMap conv raw_param (url_param info3)))
           (\<lambda>info4. map_sum id GetUserId (SplitHttpPostBody conv info4)))"

section \<open>Responses\<close>

record http_response_info =
  status_code_ri :: int
  body_ri :: string
  headers_ri :: dict

definition WrapHttpResponse :: "http_data \<Rightarrow> http_response_info \<Rightarrow> int \<times> http_data" where
  "WrapHttpResponse ev response =
     (if status_code_ri response = -1 then (-1, ev)
      else (0, ev\<lparr>status_code := word_of_int (status_code_ri response),
                  http_info := (http_info ev)\<lparr>hi_body := hi_body (http_info ev) @ body_ri response,
                    hi_headers := fold (\<lambda>(k, v). dict_insert k v) (headers_ri response) (hi_headers (http_info ev))\<rparr>\<rparr>))"

section \<open>Domains\<close>

definition domain_start :: "string \<Rightarrow> nat" where
  "domain_start url = (case str_find url ''://'' 0 of None \<Rightarrow> 0 | Some i \<Rightarrow> i + 3)"

definition GetDomain :: "string \<Rightarrow> string" where
  "GetDomain url =
     (let begin_pos = domain_start url
      in case (str_find url ''/'' begin_pos, str_find url '':'' begin_pos) of
           (None, None) \<Rightarrow> drop begin_pos url
         | (Some e1, None) \<Rightarrow> sub_between begin_pos e1 url
         | (None, Some e2) \<Rightarrow> sub_between begin_pos e2 url
         | (Some e1, Some e2) \<Rightarrow> sub_between begin_pos (min e1 e2) url)"

definition GetDomainPort :: "string \<Rightarrow> string" where
  "GetDomainPort url =
     (let begin_pos = domain_start url
      in case str_find url ''/'' begin_pos of None \<Rightarrow> drop begin_pos url | Some e \<Rightarrow> sub_between begin_pos e url)"

definition GetRootDomain :: "string \<Rightarrow> string" where
  "GetRootDomain domain =
     (let field_list = Split_str (GetDomain domain) (CHR ''.''); n = length field_list
      in if n \<ge> 2
         then (if n > 3 \<and> field_list ! (n - 2) \<in> {''com'', ''net'', ''org''} then field_list ! (n - 3) @ ''.'' else []) @
              field_list ! (n - 2) @ ''.'' @ field_list ! (n - 1)
         else [])"

text \<open>The loop of CheckRootDomainMatch over the last fields of both names.\<close>

fun match_loop :: "string list \<Rightarrow> string list \<Rightarrow> nat \<Rightarrow> nat \<Rightarrow> bool" where
  "match_loop base_vc check_vc 0 check_n = True"
| "match_loop base_vc check_vc (Suc base_idx) check_n =
     (if base_vc ! base_idx \<noteq> check_vc ! (check_n - 1) then False else match_loop base_vc check_vc base_idx (check_n - 1))"

definition CheckRootDomainMatch :: "string \<Rightarrow> string \<Rightarrow> bool" where
  "CheckRootDomainMatch base_str check_str =
     (let base_vc = Split_str base_str (CHR ''.''); check_vc = Split_str check_str (CHR ''.'')
      in if length base_vc \<le> length check_vc then match_loop base_vc check_vc (length base_vc) (length check_vc) else False)"


section \<open>Finding\<close>

lemma find_sub_single: "find_sub_at [c] s k = find_at c s k"
  by (induction s arbitrary: k) auto

lemma str_find_single: "from \<le> length s \<Longrightarrow> str_find s [c] from = find_at c (drop from s) from"
  by (simp add: str_find_def find_sub_single)

lemma str_find_first: "c \<notin> set xs \<Longrightarrow> str_find (xs @ c # ys) [c] 0 = Some (length xs)"
  by (simp add: str_find_single find_at_hit)

lemma find_sub_prefix: "find_sub_at p s k = Some k \<Longrightarrow> p \<noteq> [] \<Longrightarrow> take (length p) s = p"
proof (cases s)
  case (Cons c cs)
  have "find_sub_at p cs (Suc k) \<noteq> Some k" for cs
  proof -
    have "find_sub_at p cs j = Some i \<Longrightarrow> j \<le> i" for i j
      by (induction cs arbitrary: j) (auto split: if_splits dest: Suc_leD)
    from this [of "Suc k" k] show ?thesis by fastforce
  qed
  then show "find_sub_at p s k = Some k \<Longrightarrow> p \<noteq> [] \<Longrightarrow> take (length p) s = p"
    using Cons by (auto split: if_splits)
qed simp

section \<open>Pieces\<close>

lemma Split_str_pieces: "Split_str s delim = filter (\<lambda>p. p \<noteq> []) (split_ref delim s)"
proof -
  have list: "fold (\<lambda>piece r. r @ [id piece]) ps r0 = r0 @ ps" for ps r0 :: "string list"
    by (induction ps arbitrary: r0) auto
  show ?thesis
    using list [of _ "[]"] by (simp add: Split_str_def Split_def split_loop_ref)
qed

lemma split_ref_join: "ps \<noteq> [] \<Longrightarrow> \<forall>p \<in> set ps. delim \<notin> set p \<Longrightarrow> split_ref delim (join delim ps) = ps"
  by (induction delim ps rule: join.induct) (simp_all add: split_ref_none split_ref_first)

lemma Split_str_join: "\<forall>p \<in> set ps. delim \<notin> set p \<and> p \<noteq> [] \<Longrightarrow> Split_str (join delim ps) delim = ps"
proof -
  assume a: "\<forall>p \<in> set ps. delim \<notin> set p \<and> p \<noteq> []"
  have "filter (\<lambda>p. p \<noteq> []) ps = ps" using a by (simp add: filter_id_conv)
  with a show ?thesis by (cases "ps = []") (simp_all add: Split_str_pieces split_ref_join)
qed

section \<open>Encoded parameters\<close>

lemma chars_of_bytes [simp]: "chars_of (bytes_of s) = s"
proof -
  have "char_of (unat (of_char c :: u8)) = c" for c
  proof -
    have "unat (of_char c :: u8) = of_char c"
      by (simp add: of_char_def unat_of_nat)
    then show ?thesis by simp
  qed
  then show ?thesis by (induction s) (simp_all add: chars_of_def bytes_of_def)
qed

definition encoded :: "string \<Rightarrow> string" where
  "encoded s = chars_of (UrlEncode (bytes_of s))"

definition encode_pair :: "string \<times> string \<Rightarrow> string" where
  "encode_pair kv = encoded (fst kv) @ ''='' @ encoded (snd kv)"

definition query_of :: "dict \<Rightarrow> string" where
  "query_of ps = join (CHR ''&'') (map encode_pair ps)"

lemma UrlDecode_encoded: "UrlDecode_str (encoded s) = Inr s"
  by (simp add: UrlDecode_str_def encoded_def UrlDecode_UrlEncode)


text \<open>The conversion keeps text of the 7-bit characters (iconv between gbk and utf-8 does).\<close>

definition ascii :: "string \<Rightarrow> bool" where
  "ascii s \<longleftrightarrow> (\<forall>c \<in> set s. 0 < (of_char c :: nat) \<and> (of_char c :: nat) < 128)"

definition ascii_transparent :: "(string \<Rightarrow> string) \<Rightarrow> bool" where
  "ascii_transparent conv \<longleftrightarrow> (\<forall>s. ascii s \<longrightarrow> conv s = s)"

lemma encoded_chars:
  assumes "c \<in> set (encoded s)"
  shows "c \<noteq> CHR ''&'' \<and> c \<noteq> CHR ''='' \<and> c \<noteq> CHR ''?'' \<and> 0 < (of_char c :: nat) \<and> (of_char c :: nat) < 128"
proof -
  from assms obtain b where b: "b \<in> set (UrlEncode (bytes_of s))" "c = char_of (unat b)"
    by (auto simp: encoded_def chars_of_def)
  from UrlEncode_chars [OF b(1)] have "url_plain b \<or> b = 37 \<or> b = 43" .
  then have b3: "unat b \<noteq> 38 \<and> unat b \<noteq> 61 \<and> unat b \<noteq> 63 \<and> 0 < unat b \<and> unat b < 128"
    by (auto simp: url_plain_def isalnum_def word_le_nat_alt)
  have c: "(of_char c :: nat) = unat b" using unat_byte [of b] b(2) by simp
  have "c \<noteq> CHR ''&''" "c \<noteq> CHR ''=''" "c \<noteq> CHR ''?''" using b3 c by (auto simp: of_char_def)
  with b3 c show ?thesis by simp
qed

lemma ascii_encoded: "ascii (encoded s)"
  using encoded_chars by (auto simp: ascii_def)

lemma encoded_no: "CHR ''&'' \<notin> set (encoded s)" "CHR ''='' \<notin> set (encoded s)" "CHR ''?'' \<notin> set (encoded s)"
  using encoded_chars by blast+

lemma map_item_encoded:
  assumes "ascii_transparent conv"
  shows "map_item conv (encode_pair (k, v)) d = Inr (dict_insert k v d)"
proof -
  have "str_find (encoded k @ CHR ''='' # encoded v) ''='' 0 = Some (length (encoded k))"
    by (rule str_find_first) (rule encoded_no)
  moreover have "conv (encoded v) = encoded v" using assms ascii_encoded by (simp add: ascii_transparent_def)
  ultimately show ?thesis
    by (simp add: map_item_def encode_pair_def UrlDecode_unicode_def UrlDecode_encoded)
qed

lemma map_items_encoded:
  "ascii_transparent conv \<Longrightarrow> map_items conv (map encode_pair ps) d = Inr (fold (\<lambda>(k, v). dict_insert k v) ps d)"
  by (induction ps arbitrary: d) (auto simp: map_item_encoded)

lemma query_pieces: "Split_str (query_of ps) (CHR ''&'') = map encode_pair ps"
  unfolding query_of_def by (rule Split_str_join) (auto simp: encode_pair_def encoded_no)

lemma SplitToMap_query:
  "ascii_transparent conv \<Longrightarrow> SplitToMap conv (query_of ps) d = Inr (fold (\<lambda>(k, v). dict_insert k v) ps d)"
  by (simp add: SplitToMap_def query_pieces map_items_encoded)

lemma fold_insert_new:
  "distinct (map fst ps) \<Longrightarrow> \<forall>k \<in> set (map fst ps). dict_find k d = None \<Longrightarrow> fold (\<lambda>(k, v). dict_insert k v) ps d = d @ ps"
proof (induction ps arbitrary: d)
  case (Cons p ps)
  obtain k v where p: "p = (k, v)" by fastforce
  have "fold (\<lambda>(k, v). dict_insert k v) ps (d @ [(k, v)]) = (d @ [(k, v)]) @ ps"
  proof (rule Cons.IH)
    show "\<forall>j \<in> set (map fst ps). dict_find j (d @ [(k, v)]) = None"
      using Cons.prems p by (auto simp: dict_find_def map_add_def)
  qed (use Cons.prems in simp)
  moreover have "dict_insert k v d = d @ [(k, v)]" using Cons.prems(2) p by (simp add: dict_insert_def)
  ultimately show ?case using p by simp
qed simp

section \<open>Domains\<close>

lemma match_loop_suffix:
  "n \<le> length base \<Longrightarrow> n \<le> m \<Longrightarrow> m \<le> length check \<Longrightarrow>
     match_loop base check n m \<longleftrightarrow> take n base = drop (m - n) (take m check)"
proof (induction n arbitrary: m)
  case (Suc n)
  then obtain m' where m: "m = Suc m'" by (cases m) auto
  have b: "take (Suc n) base = take n base @ [base ! n]" using Suc.prems by (simp add: take_Suc_conv_app_nth)
  have c: "take (Suc m') check = take m' check @ [check ! m']" using Suc.prems m by (simp add: take_Suc_conv_app_nth)
  have "drop (m - Suc n) (take m check) = drop (m' - n) (take m' check) @ [check ! m']"
    using Suc.prems unfolding m c by simp
  with Suc.IH [of m'] Suc.prems m b show ?case by auto
qed simp


lemma match_loop_whole:
  assumes "length base \<le> length check"
  shows "match_loop base check (length base) (length check) \<longleftrightarrow> (\<exists>front. check = front @ base)"
proof -
  have "match_loop base check (length base) (length check) \<longleftrightarrow> base = drop (length check - length base) check"
    using match_loop_suffix [of "length base" base "length check" check] assms by simp
  also have "\<dots> \<longleftrightarrow> (\<exists>front. check = front @ base)"
    by (metis append_eq_conv_conj append_take_drop_id length_append add_diff_cancel_right')
  finally show ?thesis .
qed

lemma take_header_frame:
  "url_param (fold take_header hs info) = url_param info" "request_uid (fold take_header hs info) = request_uid info"
  "pi_method (fold take_header hs info) = pi_method info" "pi_body (fold take_header hs info) = pi_body info"
  by (induction hs arbitrary: info) (simp_all add: take_header_def Let_def)

lemma GetUserId_frame:
  "pi_path (GetUserId info) = pi_path info" "url_param (GetUserId info) = url_param info" "pi_body (GetUserId info) = pi_body info"
  "request_uid (GetUserId info) = (case dict_find ''uid'' (url_param info) of None \<Rightarrow> request_uid info | Some u \<Rightarrow> u)"
  by (simp_all add: GetUserId_def Let_def split: option.split)

lemma path_start_0:
  assumes "CHR ''?'' \<notin> set path" "take 7 path \<noteq> ''http://''"
  shows "path_start (path @ ''?'' @ q) = 0"
proof -
  have "str_find (path @ ''?'' @ q) ''http://'' 0 \<noteq> Some 0"
  proof
    assume "str_find (path @ ''?'' @ q) ''http://'' 0 = Some 0"
    then have "take (length ''http://'') (path @ ''?'' @ q) = ''http://''"
      by (intro find_sub_prefix [where k = 0]) (simp_all add: str_find_def)
    moreover have "length ''http://'' = 7" by simp
    ultimately have t: "take 7 (path @ ''?'' @ q) = ''http://''" by (simp only:)
    show False
    proof (cases "7 \<le> length path")
      case True
      with t assms(2) show False by simp
    next
      case False
      then have "CHR ''?'' \<in> set (take 7 (path @ ''?'' @ q))" by (simp add: take_Cons')
      with t show False by simp
    qed
  qed
  then show ?thesis by (simp add: path_start_def)
qed

lemma param_start_mark: "CHR ''?'' \<notin> set path \<Longrightarrow> param_start (path @ ''?'' @ q) = Some (length path)"
  using str_find_first [of "CHR ''?''" path q] by (simp add: param_start_def)

section \<open>Properties\<close>

text \<open>What a client encodes a handler reads: a GET request whose URL is a path, a question mark and the URL-encoded parameters
  joined with ampersands and equals signs yields that path and exactly those parameters, in order, with the parameter uid as the
  request's uid, for all parameter names and values whatever bytes they hold (names distinct; the conversion between character sets
  leaves 7-bit text alone). The path must not contain a question mark, start with http://, or be one of the four tracked paths.\<close>

lemma http_request_params:
  assumes conv: "ascii_transparent conv" and "distinct (map fst ps)"
    and "CHR ''?'' \<notin> set path" "take 7 path \<noteq> ''http://''" "path \<notin> {''/ac'', ''/as'', ''/c'', ''/w''}"
    and "hi_url (http_info ev) = path @ ''?'' @ query_of ps" "hi_method (http_info ev) = ''GET''"
  shows "\<exists>info. BuildHttpRequest conv ev parsed_info_new = Inr info \<and> pi_path info = path \<and> url_param info = ps \<and>
     request_uid info = (case dict_find ''uid'' ps of None \<Rightarrow> [] | Some u \<Rightarrow> u) \<and> pi_body info = hi_body (http_info ev)"
proof -
  let ?info = "fold take_header (hi_headers (http_info ev))
      (parsed_info_new\<lparr>pi_body := hi_body (http_info ev), pi_url := hi_url (http_info ev), pi_method := ''GET''\<rparr>)"
  let ?info3 = "?info\<lparr>pi_cookies := HttpCookieDecode (cookies_str ?info) (pi_cookies ?info)\<rparr>"
  have url: "path_start (hi_url (http_info ev)) = 0" "param_start (hi_url (http_info ev)) = Some (length path)"
    using assms(3,4,6) path_start_0 param_start_mark by simp_all
  have params: "SplitToMap conv (query_of ps) [] = Inr ps"
    using SplitToMap_query [OF conv] fold_insert_new [OF assms(2), of "[]"] by (simp add: dict_find_def)
  have "sub_between 0 (length path) (hi_url (http_info ev)) = path" "drop (length path + 1) (hi_url (http_info ev)) = query_of ps"
    using assms(6) by (simp_all add: sub_between_def)
  then have "BuildHttpRequest conv ev parsed_info_new = Inr (GetUserId (?info3\<lparr>pi_path := path, url_param := ps\<rparr>))"
    using url params assms(5,7)
    by (simp add: BuildHttpRequest_def Let_def SplitHttpPostBody_def take_header_frame parsed_info_new_def)
  moreover have "request_uid ?info = []" "pi_body ?info = hi_body (http_info ev)"
    by (simp_all add: take_header_frame) (simp add: parsed_info_new_def)
  ultimately show ?thesis by (simp add: GetUserId_frame cong: option.case_cong)
qed


lemma http_request_params_witness:
  "\<exists>info. BuildHttpRequest id
      \<lparr>http_major = 1, http_minor = 1, status_code = 0, keep_alive = True, encode_gzip = False,
        http_info = http_info_new\<lparr>hi_method := ''GET'', hi_url := ''/find?uid=a%26b&q=1+%3D''\<rparr>\<rparr> parsed_info_new = Inr info \<and>
     pi_path info = ''/find'' \<and> url_param info = [(''uid'', ''a&b''), (''q'', ''1 ='')] \<and> request_uid info = ''a&b''"
proof -
  let ?ev = "\<lparr>http_major = 1, http_minor = 1, status_code = 0, keep_alive = True, encode_gzip = False,
        http_info = http_info_new\<lparr>hi_method := ''GET'', hi_url := ''/find?uid=a%26b&q=1+%3D''\<rparr>\<rparr>"
  have "query_of [(''uid'', ''a&b''), (''q'', ''1 ='')] = ''uid=a%26b&q=1+%3D''" by code_simp
  then have "hi_url (http_info ?ev) = ''/find'' @ ''?'' @ query_of [(''uid'', ''a&b''), (''q'', ''1 ='')]" by simp
  moreover have "ascii_transparent id" by (simp add: ascii_transparent_def)
  ultimately show ?thesis
    using http_request_params [of id "[(''uid'', ''a&b''), (''q'', ''1 ='')]" "''/find''" ?ev] by (auto simp: dict_find_def)
qed

text \<open>CheckRootDomainMatch holds exactly when the fields of the base name are the last fields of the checked name; empty fields do
  not count, so an empty base matches every name.\<close>

lemma CheckRootDomainMatch_fields:
  "CheckRootDomainMatch base_str check_str \<longleftrightarrow>
     (\<exists>front. filter (\<lambda>p. p \<noteq> []) (split_ref (CHR ''.'') check_str) = front @ filter (\<lambda>p. p \<noteq> []) (split_ref (CHR ''.'') base_str))"
  unfolding CheckRootDomainMatch_def Let_def Split_str_pieces using match_loop_whole by auto

section \<open>Edges\<close>

text \<open>A percent sign at the end of a parameter's value makes the handler's thread read behind the string.\<close>

lemma parameter_reads_out_of_bounds: "SplitToMap id ''a=%'' d = Inl Out_Of_Bounds"
  by (simp add: SplitToMap_def Split_str_pieces map_item_def str_find_def UrlDecode_str_def UrlDecode_unicode_def bytes_of_def of_char_def)

text \<open>Without a question mark the parameters start behind the second slash, also behind the one of http://.\<close>

lemma path_without_parameters:
  "sub_between (path_start ''/a/b'') 2 ''/a/b'' = ''/a''" "param_start ''/a/b'' = Some 2" "param_start ''http://host/a'' = Some 5"
  by code_simp+

end
