(* ===== verification/Http_Protocol.thy ===== *)
theory Http_Protocol
  imports Protocol_Base Http_Util
begin

text \<open>
  The HTTP protocol: src/src/protocol/http/http\_helper.h, http\_helper.cpp, http\_protocol.h, http\_protocol.cpp.
  The third-party parser (protocol/http/third) is a parameter: a function from its state and the bytes given
  to the callbacks it makes and what it answers. HttpMessage leaves its fields uninitialised: \<open>junk\<close>.
\<close>

section \<open>The parser's callbacks\<close>

text \<open>What on\_message\_complete reads from the parser: HTTP\_REQUEST or not, versions, status, http\_should\_keep\_alive, http\_method\_str.\<close>

record parser_facts =
  pf_request :: bool
  pf_major :: u16
  pf_minor :: u16
  pf_status :: u16
  pf_keep_alive :: bool
  pf_method :: string

datatype parser_call =
    On_Message_Begin
  | On_Url string
  | On_Header_Field string
  | On_Header_Value string
  | On_Headers_Complete
  | On_Body string
  | On_Message_Complete parser_facts

record 'q parse_answer =
  made_calls :: "parser_call list"
  parser_next :: 'q
  drained :: nat
  http_errno :: nat
  upgrade :: bool

type_synonym 'q http_parser_execute = "'q \<Rightarrow> string \<Rightarrow> 'q parse_answer"

text \<open>HttpAgent, with the counter of favicon requests (a static of Decode).\<close>

record 'q http_agent =
  agent_parser :: 'q
  agent_msgs :: "message list"
  http_req :: http_request_info
  favicon_idx :: u64

definition HttpProtocol_new :: "'q \<Rightarrow> u64 \<Rightarrow> 'q http_agent" where
  "HttpProtocol_new initial idx = \<lparr>agent_parser = initial, agent_msgs = [], http_req = http_info_new, favicon_idx = idx\<rparr>"

definition OnMessageBegin :: "'q http_agent \<Rightarrow> 'q http_agent" where
  "OnMessageBegin agent = agent\<lparr>http_req := (info_ReSet (http_req agent))\<lparr>is_parsed_complete := False\<rparr>\<rparr>"

definition OnUrl :: "string \<Rightarrow> 'q http_agent \<Rightarrow> 'q http_agent" where
  "OnUrl at agent = agent\<lparr>http_req := (http_req agent)\<lparr>hi_url := hi_url (http_req agent) @ at\<rparr>\<rparr>"

definition OnHeaderField :: "string \<Rightarrow> 'q http_agent \<Rightarrow> 'q http_agent" where
  "OnHeaderField at agent = agent\<lparr>http_req := (http_req agent)\<lparr>new_field := at\<rparr>\<rparr>"

definition OnHeaderValue :: "string \<Rightarrow> 'q http_agent \<Rightarrow> 'q http_agent" where
  "OnHeaderValue at agent =
     agent\<lparr>http_req := (http_req agent)\<lparr>hi_headers := dict_put (new_field (http_req agent)) at (hi_headers (http_req agent))\<rparr>\<rparr>"

definition OnHeadersComplete :: "'q http_agent \<Rightarrow> 'q http_agent" where
  "OnHeadersComplete agent = agent"

definition OnBody :: "string \<Rightarrow> 'q http_agent \<Rightarrow> 'q http_agent" where
  "OnBody at agent = agent\<lparr>http_req := (http_req agent)\<lparr>hi_body := hi_body (http_req agent) @ at\<rparr>\<rparr>"

definition OnMessageComplete :: "http_data \<Rightarrow> parser_facts \<Rightarrow> 'q http_agent \<Rightarrow> 'q http_agent" where
  "OnMessageComplete junk p agent =
     (let request_info = (http_req agent)\<lparr>is_parsed_complete := True, hi_method := pf_method p\<rparr>;
          (info, left) = info_Swap http_info_new request_info;
          msg = (message_new kHttpMessage
                  (Http_Data (junk\<lparr>http_major := pf_major p, http_minor := pf_minor p, status_code := pf_status p,
                                   keep_alive := pf_keep_alive p, http_info := info\<rparr>)))
                  \<lparr>direction := (if pf_request p then kIncomingRequest else kIncomingResponse)\<rparr>
      in agent\<lparr>http_req := info_ReSet left, agent_msgs := agent_msgs agent @ [msg]\<rparr>)"

fun parser_callback :: "http_data \<Rightarrow> parser_call \<Rightarrow> 'q http_agent \<Rightarrow> 'q http_agent" where
  "parser_callback junk On_Message_Begin agent = OnMessageBegin agent"
| "parser_callback junk (On_Url at) agent = OnUrl at agent"
| "parser_callback junk (On_Header_Field at) agent = OnHeaderField at agent"
| "parser_callback junk (On_Header_Value at) agent = OnHeaderValue at agent"
| "parser_callback junk On_Headers_Complete agent = OnHeadersComplete agent"
| "parser_callback junk (On_Body at) agent = OnBody at agent"
| "parser_callback junk (On_Message_Complete p) agent = OnMessageComplete junk p agent"

text \<open>All callbacks return 0, so the parser goes on. HttpParseRequest answers -1 on an error of the parser.\<close>

definition HttpParseRequest ::
    "'q http_parser_execute \<Rightarrow> http_data \<Rightarrow> string \<Rightarrow> 'q http_agent \<Rightarrow> int \<times> bool \<times> 'q http_agent" where
  "HttpParseRequest execute junk inbuf agent =
     (let r = execute (agent_parser agent) inbuf;
          agent' = (fold (parser_callback junk) (made_calls r) agent)\<lparr>agent_parser := parser_next r\<rparr>
      in (if http_errno r \<noteq> 0 then -1 else int (drained r), upgrade r, agent'))"

section \<open>Decoding\<close>

definition max_parse_size :: int where "max_parse_size = 1024 * 1024"
definition max_partial_size :: int where "max_partial_size = 256 * 1024"

text \<open>The message at the front; a request for the icon becomes a heartbeat.\<close>

definition deliver :: "message \<Rightarrow> 'q http_agent \<Rightarrow> message \<times> 'q http_agent" where
  "deliver msg agent =
     (case payload msg of
        Http_Data h \<Rightarrow>
          if hi_url (http_info h) = ''/favicon.ico''
          then ((HeartBeatMessage_new (favicon_idx agent + 1) (uint kHttpMessage))\<lparr>direction := direction msg\<rparr>,
                agent\<lparr>favicon_idx := favicon_idx agent + 1\<rparr>)
          else (msg, agent)
      | _ \<Rightarrow> (msg, agent))"

text \<open>The size is an int: behind 2 GiB it is negative and the parser is told to read almost all of memory.\<close>

function Decode_rounds :: "'q http_parser_execute \<Rightarrow> http_data \<Rightarrow> 'q http_agent \<Rightarrow> char buffer \<Rightarrow> bool \<Rightarrow>
    (message option \<times> ('q http_agent \<times> char buffer) \<times> bool) outcome" where
  "Decode_rounds execute junk agent input failed =
     (case agent_msgs agent of
        msg # rest \<Rightarrow>
          (let (m, agent') = deliver msg (agent\<lparr>agent_msgs := rest\<rparr>) in Inr (Some m, (agent', input), failed))
      | [] \<Rightarrow>
          let all = signed_take_bit 31 (int (GetReadingSize input)) in
          if all = 0 \<or> failed then Inr (None, (agent, input), failed)
          else if all < 0 then Inl Out_Of_Bounds
          else
            let size = min all max_parse_size;
                (parsed, up, agent') = HttpParseRequest execute junk (take (nat size) (GetReading input)) agent
            in if up \<or> parsed \<noteq> size then Decode_rounds execute junk agent' (DrainReading (nat size) input) True
               else if is_parsed_complete (http_req agent') then Decode_rounds execute junk agent' (DrainReading (nat size) input) failed
               else if size > max_partial_size then Decode_rounds execute junk agent' (DrainReading (nat size) input) True
               else Decode_rounds execute junk agent' input True)"
  by pat_completeness auto
termination
proof (relation "measure (\<lambda>(e, j, a, b, failed). if failed then 0 else 1 + GetReadingSize b)", goal_cases)
  case 1
  show ?case by simp
next
  case (3 execute junk agent input failed all size x parsed y up agent')
  from 3 have pos: "all \<noteq> 0" "\<not> all < 0" "\<not> failed" by blast+
  from 3 have "size = min all max_parse_size" and all: "all = signed_take_bit 31 (int (GetReadingSize input))" by blast+
  moreover have "0 < all" using pos(1,2) by linarith
  ultimately have "0 < nat size" by (simp add: max_parse_size_def del: signed_take_bit_nonnegative_iff)
  moreover have "GetReadingSize input \<noteq> 0" using pos(1) all by (intro notI) simp
  moreover have "GetReadingSize (DrainReading n b) = GetReadingSize b - n" for n and b :: "char buffer"
    by (auto simp: DrainReading_def GetReadingSize_def Let_def ResetAll_def)
  ultimately show ?case using pos(3) by simp
qed auto

declare Decode_rounds.simps [simp del]

definition http_Decode :: "'q http_parser_execute \<Rightarrow> http_data \<Rightarrow> ('q http_agent \<times> char buffer, message) decoder" where
  "http_Decode execute junk st failed = Decode_rounds execute junk (fst st) (snd st) failed"


section \<open>Encoding\<close>

definition lower_str :: "string \<Rightarrow> string" where
  "lower_str s = chars_of (ToLow (bytes_of s))"

definition GetHeaderStr :: "dict \<Rightarrow> string" where
  "GetHeaderStr headers = concat (map (\<lambda>(k, v). lower_str k @ '': '' @ v @ [CHR 0x0D, CHR 0x0A]) headers)"

definition ConvertStatusCode :: "int \<Rightarrow> string" where
  "ConvertStatusCode st =
     (if st = 200 then ''200 OK'' else if st = 201 then ''201 Created'' else if st = 202 then ''202 Accepted''
      else if st = 204 then ''204 No Content'' else if st = 300 then ''300 Multiple Choices''
      else if st = 301 then ''301 Moved Permanently'' else if st = 302 then ''302 Moved Temporarily''
      else if st = 304 then ''304 Not Modified'' else if st = 400 then ''400 Bad Request'' else if st = 401 then ''401 Unauthorized''
      else if st = 403 then ''403 Forbidden'' else if st = 404 then ''404 Not Found'' else if st = 405 then ''405 Method Not Allowed''
      else if st = 500 then ''500 Internal Server Error'' else if st = 501 then ''501 Not Implemented''
      else if st = 502 then ''502 Bad Gateway'' else if st = 503 then ''503 Service Unavailable''
      else dec_int st)"

definition http_version :: "u16 \<Rightarrow> string option" where
  "http_version minor = (if minor = 0 then Some ''HTTP/1.0'' else if minor = 1 then Some ''HTTP/1.1'' else None)"

definition crlf :: string where "crlf = [CHR 0x0D, CHR 0x0A]"

definition is_response :: "u8 \<Rightarrow> bool" where
  "is_response dir \<longleftrightarrow> dir = kOutgoingResponse \<or> dir = kIncomingResponse"

text \<open>The calls of Write that WirteToBuf makes, as long as none is refused.\<close>

definition start_writes :: "string \<Rightarrow> u8 \<Rightarrow> http_data \<Rightarrow> string list" where
  "start_writes version dir h =
     (if is_response dir then [version, '' '', ConvertStatusCode (uint (status_code h))]
      else [hi_method (http_info h), '' '', hi_url (http_info h), '' '', version])"

definition header_writes :: "http_data \<Rightarrow> string list" where
  "header_writes h =
     (if hi_headers (http_info h) \<noteq> [] then [GetHeaderStr (hi_headers (http_info h))] else []) @
     (if GetHeader ''Content-Length'' h = None \<and> hi_body (http_info h) \<noteq> []
      then [''Content-Length'', '': '', dec (length (hi_body (http_info h))), crlf] else []) @
     (if GetHeader ''Connection'' h = None
      then [if keep_alive h then ''Connection: keep-alive'' @ crlf else ''Connection: close'' @ crlf] else [])"

definition body_writes :: "http_data \<Rightarrow> string list" where
  "body_writes h = (if hi_body (http_info h) = [] then [] else [hi_body (http_info h)])"

definition WirteToBuf :: "(nat \<Rightarrow> string option) \<Rightarrow> u8 \<Rightarrow> http_data \<Rightarrow> char buffer \<Rightarrow> (bool \<times> char buffer) option" where
  "WirteToBuf malloc dir h output =
     (case http_version (http_minor h) of
        None \<Rightarrow> Some (False, output)
      | Some version \<Rightarrow>
          write_all (Write malloc) (start_writes version dir h @ [crlf] @ header_writes h @ [crlf] @ body_writes h) output)"

text \<open>The icon sent as the answer to a heartbeat.\<close>

definition g_favicon_ico :: string where
  "g_favicon_ico = map char_of [
    0, 0, 1, 0, 1, 0, 16, 16, 16, 0, 0, 0, 0, 0, 40, 1, 0, 0, 22, 0, 0, 0, 40, 0, 0, 0, 16, 0, 0, 0, 32, 0, 0, 0, 1, 0, 4, 0, 0, 0, 0, 0,
    128, 0, 0, 0, 0, 0, 0, 0, 0, 0, 0, 0, 16, 0, 0, 0, 0, 0, 0, 0, 0, 0, 0, 0, 222, 113, 235, 0, 0, 0, 0, 0, 0, 0, 0, 0, 0, 0, 0, 0, 0, 0,
    0, 0, 0, 0, 0, 0, 0, 0, 0, 0, 0, 0, 0, 0, 0, 0, 0, 0, 0, 0, 0, 0, 0, 0, 0, 0, 0, 0, 0, 0, 0, 0, 0, 0, 0, 0, 0, 0, 0, 0, 0, 0, 0, 1, 17,
    17, 17, 0, 0, 0, 0, 1, 17, 17, 17, 0, 0, 0, 0, 1, 17, 17, 17, 0, 0, 0, 0, 1, 17, 17, 17, 0, 0, 0, 0, 1, 17, 17, 17, 0, 0, 0, 0, 1, 17,
    17, 17, 0, 0, 0, 0, 1, 17, 17, 17, 0, 0, 0, 0, 0, 0, 0, 1, 0, 0, 0, 0, 0, 0, 0, 1, 0, 1, 0, 0, 0, 0, 0, 1, 0, 16, 0, 0, 0, 0, 0, 1, 1,
    0, 0, 0, 0, 0, 0, 1, 16, 17, 16, 0, 0, 0, 0, 1, 0, 17, 0, 0, 0, 0, 0, 1, 1, 16, 0, 0, 0, 0, 0, 1, 17, 0, 0, 0, 0, 0, 0, 1, 16, 0, 0,
    224, 63, 0, 0, 224, 63, 0, 0, 224, 63, 0, 0, 224, 63, 0, 0, 224, 63, 0, 0, 224, 63, 0, 0, 224, 63, 0, 0, 255, 191, 0, 0, 255, 187, 0,
    0, 255, 183, 0, 0, 255, 175, 0, 0, 255, 157, 0, 0, 255, 187, 0, 0, 255, 183, 0, 0, 255, 175, 0, 0, 255, 159, 0, 0 :: nat]"

definition http_Encode ::
    "http_data \<Rightarrow> (nat \<Rightarrow> string option) \<Rightarrow> message \<Rightarrow> char buffer \<Rightarrow> (bool \<times> char buffer) option outcome" where
  "http_Encode junk malloc pv output =
     (let send = (\<lambda>h. if http_major h \<noteq> 1 then Some (False, output) else WirteToBuf malloc (direction pv) h output) in
      if type_id pv = kHttpMessage
      then (case payload pv of Http_Data h \<Rightarrow> Inr (send h) | _ \<Rightarrow> Inl Bad_Cast)
      else if type_id pv = kHeartBeatMessage
      then (case payload pv of
              Heart_Data load_avg _ \<Rightarrow>
                let new = junk\<lparr>http_info := http_info_new\<rparr>;
                    one = (if is_response (direction pv)
                           then (let r = InitReply None 200 False True new
                                 in r\<lparr>http_info := (http_info r)\<lparr>hi_body := g_favicon_ico,
                                        hi_headers := dict_insert ''Content-Type'' ''image/x-icon'' (hi_headers (http_info r))\<rparr>\<rparr>)
                           else (let r = InitRequest ''GET'' True True True new
                                 in r\<lparr>http_info := (http_info r)\<lparr>hi_url := ''/favicon.ico''\<rparr>\<rparr>))
                in Inr (send (one\<lparr>http_info := (http_info one)\<lparr>hi_headers :=
                     dict_insert ''LoadAvg'' (dec (unat load_avg)) (hi_headers (http_info one))\<rparr>\<rparr>))
            | _ \<Rightarrow> Inl Bad_Cast)
      else Inr (Some (False, output)))"

definition http_HeartBeatRequest :: "http_data \<Rightarrow> message" where
  "http_HeartBeatRequest junk =
     (HttpMessage_new (junk\<lparr>keep_alive := True\<rparr>))\<lparr>type_id := kHeartBeatMessage, direction := kOutgoingRequest\<rparr>"

definition http_HeartBeatResponse :: "message \<Rightarrow> message outcome" where
  "http_HeartBeatResponse request =
     (case payload request of
        Http_Data h \<Rightarrow> Inr (request\<lparr>direction := kOutgoingResponse, payload := Http_Data (h\<lparr>status_code := 200\<rparr>)\<rparr>)
      | _ \<Rightarrow> Inl Bad_Cast)"


section \<open>A reader of HTTP messages\<close>

text \<open>The message format of the standard: a line ends with CR LF, an empty line ends the header, the rest is the body.\<close>

fun take_line :: "string \<Rightarrow> (string \<times> string) option" where
  "take_line [] = None"
| "take_line (c # cs) =
     (if c = CHR 0x0D \<and> cs \<noteq> [] \<and> hd cs = CHR 0x0A then Some ([], tl cs) else map_option (\<lambda>(l, r). (c # l, r)) (take_line cs))"

fun read_headers :: "nat \<Rightarrow> string \<Rightarrow> (dict \<times> string) option" where
  "read_headers 0 s = None"
| "read_headers (Suc n) s =
     (case take_line s of
        None \<Rightarrow> None
      | Some (l, r) \<Rightarrow>
          if l = [] then Some ([], r)
          else (case str_find l '': '' 0 of
                  None \<Rightarrow> None
                | Some i \<Rightarrow> map_option (\<lambda>(hs, body). ((take i l, drop (i + 2) l) # hs, body)) (read_headers n r)))"

definition read_http :: "string \<Rightarrow> (string \<times> dict \<times> string) option" where
  "read_http s =
     (case take_line s of
        None \<Rightarrow> None
      | Some (start, r) \<Rightarrow> map_option (\<lambda>(hs, body). (start, hs, body)) (read_headers (length s) r))"

definition header_lines :: "dict \<Rightarrow> string" where
  "header_lines hs = concat (map (\<lambda>(k, v). k @ '': '' @ v @ crlf) hs)"

definition clean_entry :: "string \<times> string \<Rightarrow> bool" where
  "clean_entry e \<longleftrightarrow> CHR '':'' \<notin> set (fst e) \<and> CHR 0x0D \<notin> set (fst e) \<and> CHR 0x0D \<notin> set (snd e)"

lemma take_line_crlf: "CHR 0x0D \<notin> set l \<Longrightarrow> take_line (l @ crlf @ r) = Some (l, r)"
  by (induction l) (auto simp: crlf_def)

lemma find_colon: "CHR '':'' \<notin> set k \<Longrightarrow> find_sub_at '': '' (k @ '': '' @ v) n = Some (n + length k)"
  by (induction k arbitrary: n) (auto simp: take_Cons')

lemma read_header_lines:
  "\<forall>e \<in> set hs. clean_entry e \<Longrightarrow> length hs < n \<Longrightarrow> read_headers n (header_lines hs @ crlf @ body) = Some (hs, body)"
proof (induction hs arbitrary: n)
  case Nil
  then obtain n' where n: "n = Suc n'" by (cases n) auto
  have "take_line (crlf @ body) = Some ([], body)" using take_line_crlf [of "[]" body] by simp
  then show ?case by (simp add: n header_lines_def)
next
  case (Cons e hs)
  obtain k v where e: "e = (k, v)" by fastforce
  from Cons.prems obtain n' where n: "n = Suc n'" "length hs < n'" by (cases n) auto
  have clean: "CHR '':'' \<notin> set k" "CHR 0x0D \<notin> set (k @ '': '' @ v)" using Cons.prems(1) e by (auto simp: clean_entry_def)
  have whole: "header_lines (e # hs) @ crlf @ body = (k @ '': '' @ v) @ crlf @ (header_lines hs @ crlf @ body)"
    by (simp add: header_lines_def e)
  have "take_line (header_lines (e # hs) @ crlf @ body) = Some (k @ '': '' @ v, header_lines hs @ crlf @ body)"
    unfolding whole by (rule take_line_crlf [OF clean(2)])
  moreover have "str_find (k @ '': '' @ v) '': '' 0 = Some (length k)"
    using find_colon [OF clean(1), of v 0] by (simp add: str_find_def)
  moreover have "read_headers n' (header_lines hs @ crlf @ body) = Some (hs, body)" using Cons n(2) by simp
  ultimately show ?case by (simp add: n(1) e)
qed

section \<open>What is sent\<close>

definition sent_headers :: "http_data \<Rightarrow> dict" where
  "sent_headers h =
     map (\<lambda>(k, v). (lower_str k, v)) (hi_headers (http_info h)) @
     (if GetHeader ''Content-Length'' h = None \<and> hi_body (http_info h) \<noteq> []
      then [(''Content-Length'', dec (length (hi_body (http_info h))))] else []) @
     (if GetHeader ''Connection'' h = None then [(''Connection'', if keep_alive h then ''keep-alive'' else ''close'')] else [])"

definition http_text :: "string \<Rightarrow> u8 \<Rightarrow> http_data \<Rightarrow> string" where
  "http_text version dir h = concat (start_writes version dir h) @ crlf @ header_lines (sent_headers h) @ crlf @ hi_body (http_info h)"

lemma writes_text:
  "concat (start_writes version dir h @ [crlf] @ header_writes h @ [crlf] @ body_writes h) = http_text version dir h"
proof -
  have "GetHeaderStr hs = header_lines (map (\<lambda>(k, v). (lower_str k, v)) hs)" for hs
    by (induction hs) (auto simp: GetHeaderStr_def header_lines_def crlf_def)
  then have "concat (header_writes h) = header_lines (sent_headers h)"
    by (auto simp: header_writes_def sent_headers_def header_lines_def)
  then show ?thesis by (simp add: http_text_def body_writes_def)
qed

definition http_clean :: "u8 \<Rightarrow> http_data \<Rightarrow> bool" where
  "http_clean dir h \<longleftrightarrow> (\<forall>e \<in> set (hi_headers (http_info h)). clean_entry e) \<and>
     (is_response dir \<or> CHR 0x0D \<notin> set (hi_method (http_info h)) \<and> CHR 0x0D \<notin> set (hi_url (http_info h)))"

lemma lower_str_clean:
  assumes "c \<in> set (lower_str k)" "c = CHR '':'' \<or> c = CHR 0x0D"
  shows "c \<in> set k"
proof -
  define low where "low b = (if 65 \<le> b \<and> b \<le> (90 :: u8) then b + 32 else b)" for b
  from assms(1) obtain b where b: "b \<in> set (bytes_of k)" "c = char_of (unat (low b))"
    by (auto simp: lower_str_def chars_of_def ToLow_def low_def)
  have "(of_char c :: nat) = unat (low b)" using b(2) unat_byte by simp
  then have n: "unat (low b) = 58 \<or> unat (low b) = 13" using assms(2) by (auto simp: of_char_def)
  have "low b = b"
  proof (rule ccontr)
    assume "low b \<noteq> b"
    then have "unat (low b) = unat b + 32" "65 \<le> unat b"
      by (auto simp: low_def word_le_nat_alt unat_word_ariths split: if_splits)
    with n show False by simp
  qed
  then have "c \<in> set (chars_of (bytes_of k))" using b by (simp add: chars_of_def)
  then show ?thesis by simp
qed

lemma dec_clean: "CHR 0x0D \<notin> set (dec n)"
  using dec_digits [of "CHR 0x0D" n] by (auto simp: is_digit_def of_char_def)

lemma sent_headers_clean:
  assumes "\<forall>e \<in> set (hi_headers (http_info h)). clean_entry e"
  shows "\<forall>e \<in> set (sent_headers h). clean_entry e"
proof -
  have "clean_entry (lower_str k, v)" if "clean_entry (k, v)" for k v
    using that lower_str_clean [of _ k] by (auto simp: clean_entry_def)
  with assms show ?thesis by (auto simp: sent_headers_def clean_entry_def dec_clean)
qed

lemma status_clean: "0 \<le> st \<Longrightarrow> CHR 0x0D \<notin> set (ConvertStatusCode st)"
  by (simp add: ConvertStatusCode_def dec_int_def dec_clean)

lemma start_clean:
  assumes "http_clean dir h" "http_version (http_minor h) = Some version"
  shows "CHR 0x0D \<notin> set (concat (start_writes version dir h))"
  using assms by (auto simp: start_writes_def http_clean_def http_version_def status_clean split: if_splits)

lemma read_http_text:
  assumes "http_clean dir h" "http_version (http_minor h) = Some version"
  shows "read_http (http_text version dir h) = Some (concat (start_writes version dir h), sent_headers h, hi_body (http_info h))"
proof -
  have "take_line (http_text version dir h) =
      Some (concat (start_writes version dir h), header_lines (sent_headers h) @ crlf @ hi_body (http_info h))"
    unfolding http_text_def by (rule take_line_crlf [OF start_clean [OF assms]])
  moreover have "length hs \<le> length (header_lines hs)" for hs
    by (induction hs) (auto simp: header_lines_def)
  then have "length (sent_headers h) < length (http_text version dir h)"
    by (simp add: http_text_def crlf_def less_Suc_eq_le trans_le_add1 trans_le_add2 le_SucI)
  then have "read_headers (length (http_text version dir h)) (header_lines (sent_headers h) @ crlf @ hi_body (http_info h)) =
      Some (sent_headers h, hi_body (http_info h))"
    using assms(1) by (intro read_header_lines sent_headers_clean) (simp_all add: http_clean_def)
  ultimately show ?thesis by (simp add: read_http_def)
qed

lemma http_Encode_sends:
  assumes "malloc_ok malloc" "buf_inv out" "type_id m = kHttpMessage" "payload m = Http_Data h"
    and v: "http_version (http_minor h) = Some version"
    and "length (GetReading out) + length (http_text version (direction m) h) \<le> buf_limit"
    and "http_Encode junk malloc m out = Inr (Some (True, out'))"
  shows "buf_inv out' \<and> GetReading out' = GetReading out @ http_text version (direction m) h"
proof -
  from assms(3,4,7) v have
    "write_all (Write malloc) (start_writes version (direction m) h @ [crlf] @ header_writes h @ [crlf] @ body_writes h) out = Some (True, out')"
    by (auto simp: http_Encode_def WirteToBuf_def split: if_splits)
  from allocator.encode_content [OF allocator.intro [OF assms(1)] assms(2) _ this] assms(6)
  show ?thesis unfolding writes_text by blast
qed

section \<open>What the callbacks build\<close>

text \<open>One message as the parser tells it: pieces of the URL, header fields with their values, pieces of the body, the facts.\<close>

record wire_message =
  wm_url :: "string list"
  wm_headers :: dict
  wm_body :: "string list"
  wm_facts :: parser_facts

definition calls_of :: "wire_message \<Rightarrow> parser_call list" where
  "calls_of wm =
     [On_Message_Begin] @ map On_Url (wm_url wm) @ concat (map (\<lambda>(f, v). [On_Header_Field f, On_Header_Value v]) (wm_headers wm)) @
     [On_Headers_Complete] @ map On_Body (wm_body wm) @ [On_Message_Complete (wm_facts wm)]"

definition parsed_message :: "http_data \<Rightarrow> wire_message \<Rightarrow> message" where
  "parsed_message junk wm =
     (message_new kHttpMessage
       (Http_Data (junk\<lparr>http_major := pf_major (wm_facts wm), http_minor := pf_minor (wm_facts wm), status_code := pf_status (wm_facts wm),
          keep_alive := pf_keep_alive (wm_facts wm),
          http_info := \<lparr>hi_method = pf_method (wm_facts wm), hi_url = concat (wm_url wm),
            hi_headers = fold (\<lambda>(f, v). dict_put f v) (wm_headers wm) [], new_field = [], hi_body = concat (wm_body wm), is_parsed_complete = True\<rparr>\<rparr>)))
     \<lparr>direction := (if pf_request (wm_facts wm) then kIncomingRequest else kIncomingResponse)\<rparr>"

definition parsed_out :: http_request_info where
  "parsed_out = http_info_new\<lparr>is_parsed_complete := True\<rparr>"

lemma url_pieces:
  "fold (parser_callback junk) (map On_Url us) agent = agent\<lparr>http_req := (http_req agent)\<lparr>hi_url := hi_url (http_req agent) @ concat us\<rparr>\<rparr>"
  by (induction us arbitrary: agent) (simp_all add: OnUrl_def)

lemma body_pieces:
  "fold (parser_callback junk) (map On_Body bs) agent = agent\<lparr>http_req := (http_req agent)\<lparr>hi_body := hi_body (http_req agent) @ concat bs\<rparr>\<rparr>"
  by (induction bs arbitrary: agent) (simp_all add: OnBody_def)

lemma header_pieces:
  "\<exists>f. fold (parser_callback junk) (concat (map (\<lambda>(f, v). [On_Header_Field f, On_Header_Value v]) hs)) agent =
     agent\<lparr>http_req := (http_req agent)\<lparr>new_field := f, hi_headers := fold (\<lambda>(f, v). dict_put f v) hs (hi_headers (http_req agent))\<rparr>\<rparr>"
proof (induction hs arbitrary: agent)
  case Nil
  show ?case by (rule exI [of _ "new_field (http_req agent)"]) simp
next
  case (Cons h hs)
  obtain f v where h: "h = (f, v)" by fastforce
  from Cons.IH [of "OnHeaderValue v (OnHeaderField f agent)"] obtain g where
    "fold (parser_callback junk) (concat (map (\<lambda>(f, v). [On_Header_Field f, On_Header_Value v]) hs)) (OnHeaderValue v (OnHeaderField f agent)) =
     (OnHeaderValue v (OnHeaderField f agent))\<lparr>http_req := (http_req (OnHeaderValue v (OnHeaderField f agent)))\<lparr>new_field := g,
       hi_headers := fold (\<lambda>(f, v). dict_put f v) hs (hi_headers (http_req (OnHeaderValue v (OnHeaderField f agent))))\<rparr>\<rparr>" by blast
  then show ?case using h by (intro exI [of _ g]) (simp add: OnHeaderValue_def OnHeaderField_def)
qed

lemma message_calls:
  "fold (parser_callback junk) (calls_of wm) agent =
     agent\<lparr>http_req := parsed_out, agent_msgs := agent_msgs agent @ [parsed_message junk wm]\<rparr>"
proof -
  define a1 where "a1 = agent\<lparr>http_req := http_info_new\<lparr>hi_url := concat (wm_url wm)\<rparr>\<rparr>"
  have a1: "fold (parser_callback junk) (map On_Url (wm_url wm)) (OnMessageBegin agent) = a1"
    by (simp add: url_pieces OnMessageBegin_def info_ReSet_def http_info_new_def a1_def)
  from header_pieces [of junk "wm_headers wm" a1] obtain f where
    f: "fold (parser_callback junk) (concat (map (\<lambda>(f, v). [On_Header_Field f, On_Header_Value v]) (wm_headers wm))) a1 =
     a1\<lparr>http_req := (http_req a1)\<lparr>new_field := f, hi_headers := fold (\<lambda>(f, v). dict_put f v) (wm_headers wm) (hi_headers (http_req a1))\<rparr>\<rparr>"
    by blast
  show ?thesis
    by (simp add: calls_of_def a1 f body_pieces)
      (simp add: a1_def OnHeadersComplete_def OnMessageComplete_def Let_def info_Swap_def
        info_ReSet_def http_info_new_def parsed_message_def parsed_out_def)
qed

lemma messages_calls:
  "wms \<noteq> [] \<Longrightarrow> fold (parser_callback junk) (concat (map calls_of wms)) agent =
     agent\<lparr>http_req := parsed_out, agent_msgs := agent_msgs agent @ map (parsed_message junk) wms\<rparr>"
proof (induction wms arbitrary: agent)
  case (Cons wm wms)
  then show ?case by (cases "wms = []") (simp_all add: message_calls)
qed simp

section \<open>A burst of messages\<close>

text \<open>Requests for the icon come out as heartbeats, counted on.\<close>

fun icon_beats :: "u64 \<Rightarrow> message list \<Rightarrow> message list \<times> u64" where
  "icon_beats n [] = ([], n)"
| "icon_beats n (m # ms) =
     (case payload m of
        Http_Data h \<Rightarrow>
          if hi_url (http_info h) = ''/favicon.ico''
          then (let (ms', n') = icon_beats (n + 1) ms in ((HeartBeatMessage_new (n + 1) (uint kHttpMessage))\<lparr>direction := direction m\<rparr> # ms', n'))
          else (let (ms', n') = icon_beats n ms in (m # ms', n'))
      | _ \<Rightarrow> (let (ms', n') = icon_beats n ms in (m # ms', n')))"

lemma queue_drains:
  "GetReadingSize b = 0 \<Longrightarrow>
     decode_loop (http_Decode execute junk) f (agent, b) s =
       Some (Inr (False, (agent\<lparr>agent_msgs := [], favicon_idx := snd (icon_beats (favicon_idx agent) (agent_msgs agent))\<rparr>, b),
         fold f (fst (icon_beats (favicon_idx agent) (agent_msgs agent))) s))"
proof (induction "agent_msgs agent" arbitrary: agent s)
  case Nil
  then have "Decode_rounds execute junk agent b False = Inr (None, (agent, b), False)"
    by (subst Decode_rounds.simps) simp
  with Nil show ?case by (subst decode_loop.simps) (simp add: http_Decode_def)
next
  case (Cons m ms)
  obtain m' agent' where d: "deliver m (agent\<lparr>agent_msgs := ms\<rparr>) = (m', agent')" by fastforce
  have rounds: "Decode_rounds execute junk agent b False = Inr (Some m', (agent', b), False)"
    using d by (subst Decode_rounds.simps) (simp add: Cons.hyps(2) [symmetric])
  have agent': "agent_msgs agent' = ms" "agent'\<lparr>agent_msgs := [], favicon_idx := n\<rparr> = agent\<lparr>agent_msgs := [], favicon_idx := n\<rparr>" for n
    using d by (auto simp: deliver_def split: payload.splits if_splits)
  have beats: "icon_beats (favicon_idx agent) (agent_msgs agent) =
      (m' # fst (icon_beats (favicon_idx agent') ms), snd (icon_beats (favicon_idx agent') ms))"
    using d unfolding Cons.hyps(2) [symmetric]
    by (auto simp: deliver_def case_prod_beta split: payload.splits if_splits)
  show ?case
    using Cons.hyps(1) [of agent' "f m' s"] Cons.prems agent' rounds beats
    by (subst decode_loop.simps) (simp add: http_Decode_def)
qed


lemma burst_parsed:
  assumes inv: "buf_inv b" and idle: "agent_msgs agent = []"
    and one: "0 < GetReadingSize b" "GetReadingSize b \<le> 1024 * 1024"
    and parse: "execute (agent_parser agent) (GetReading b) =
      \<lparr>made_calls = calls, parser_next = q, drained = GetReadingSize b, http_errno = 0, upgrade = False\<rparr>"
    and agent': "agent' = (fold (parser_callback junk) calls agent)\<lparr>agent_parser := q\<rparr>"
  shows "Decode_rounds execute junk agent b False =
     (if is_parsed_complete (http_req agent') then Decode_rounds execute junk agent' (DrainReading (GetReadingSize b) b) False
      else if int (GetReadingSize b) > max_partial_size then Decode_rounds execute junk agent' (DrainReading (GetReadingSize b) b) True
      else Decode_rounds execute junk agent' b True)"
proof -
  have all: "signed_take_bit 31 (int (GetReadingSize b)) = int (GetReadingSize b)"
    using one(2) by (intro signed_take_bit_int_eq_self) simp_all
  have size: "min (int (GetReadingSize b)) max_parse_size = int (GetReadingSize b)"
    using one(2) by (simp add: max_parse_size_def)
  have "take (GetReadingSize b) (GetReading b) = GetReading b" using inv by (simp add: buf_inv_def)
  have less: "max_partial_size < max_parse_size" by (simp add: max_partial_size_def max_parse_size_def)
  from \<open>take (GetReadingSize b) (GetReading b) = GetReading b\<close> have run: "HttpParseRequest execute junk (take (GetReadingSize b) (GetReading b)) agent = (int (GetReadingSize b), False, agent')"
    using parse by (simp add: HttpParseRequest_def Let_def agent')
  show ?thesis
    using one(1) by (subst Decode_rounds.simps) (simp add: idle all size run Let_def less cong: if_cong)
qed

text \<open>Once it failed, the next round only hands out the front message, which the connection destroys.\<close>

lemma failed_round:
  "\<exists>m agent'. Decode_rounds execute junk agent b True = Inr (m, (agent', b), True)"
  by (subst Decode_rounds.simps) (auto split: list.split prod.split simp: Let_def)

section \<open>Properties\<close>


definition answer_200 :: http_data where
  "answer_200 = \<lparr>http_major = 1, http_minor = 1, status_code = 200, keep_alive = True, encode_gzip = False,
     http_info = http_info_new\<lparr>hi_headers := [(''X-Trace'', ''7'')], hi_body := ''ok''\<rparr>\<rparr>"



definition two_gets :: "wire_message list" where
  "two_gets =
     (let facts = \<lparr>pf_request = True, pf_major = 1, pf_minor = 1, pf_status = 0, pf_keep_alive = True, pf_method = ''GET''\<rparr>
      in [\<lparr>wm_url = [''/a'', ''bc''], wm_headers = [(''Host'', ''x''), (''Host'', ''y'')], wm_body = [], wm_facts = facts\<rparr>,
          \<lparr>wm_url = [''/favicon.ico''], wm_headers = [], wm_body = [], wm_facts = facts\<rparr>])"

definition tells_two_gets :: "nat http_parser_execute" where
  "tells_two_gets q s =
     \<lparr>made_calls = concat (map calls_of two_gets), parser_next = Suc q, drained = length s, http_errno = 0, upgrade = False\<rparr>"

text \<open>What the messages are told by.\<close>

definition url_or_icon :: "message \<Rightarrow> string" where
  "url_or_icon m = (case payload m of Http_Data h \<Rightarrow> hi_url (http_info h) | Heart_Data n _ \<Rightarrow> ''icon'' | _ \<Rightarrow> [])"


section \<open>Edges\<close>

text \<open>
  When the bytes of one read end inside a message, Decode fails: DecodeMsg answers -1 (the connection is shut down) and
  hands on nothing, not even the complete messages in front.
\<close>

lemma http_partial_closes:
  assumes "buf_inv b" "agent_msgs agent = []" "0 < GetReadingSize b" "GetReadingSize b \<le> 1024 * 1024"
    and "execute (agent_parser agent) (GetReading b) =
      \<lparr>made_calls = calls, parser_next = q, drained = GetReadingSize b, http_errno = 0, upgrade = False\<rparr>"
    and "\<not> is_parsed_complete (http_req (fold (parser_callback junk) calls agent))"
  shows "\<exists>st. DecodeMsg (http_Decode execute junk) f (agent, b) s = Some (Inr (-1, st, s))"
proof -
  define agent' where "agent' = (fold (parser_callback junk) calls agent)\<lparr>agent_parser := q\<rparr>"
  from burst_parsed [of b agent execute calls q agent' junk, OF assms(1-5) agent'_def] assms(6) obtain b1 where
    "Decode_rounds execute junk agent b False = Decode_rounds execute junk agent' b1 True" by (auto simp: agent'_def split: if_splits)
  with failed_round [of execute junk agent' b1] obtain m a where
    "Decode_rounds execute junk agent b False = Inr (m, (a, b1), True)" by auto
  then have "decode_loop (http_Decode execute junk) f (agent, b) s = Some (Inr (True, (a, b1), s))"
    by (subst decode_loop.simps) (simp add: http_Decode_def)
  then show ?thesis by (simp add: DecodeMsg_def)
qed

lemma cut_message:
  "\<not> is_parsed_complete (http_req (fold (parser_callback junk) (concat (map calls_of wms) @ On_Message_Begin # map On_Url us) agent))"
  by (simp add: url_pieces OnMessageBegin_def)

text \<open>A heartbeat the protocol makes itself cannot be encoded, and the answer to a request for the icon writes into a HeartBeatMessage
  as into an HttpMessage.\<close>

lemma http_heartbeat_bad_cast: "http_Encode junk malloc (http_HeartBeatRequest junk) out = Inl Bad_Cast"
  by (simp add: http_Encode_def http_HeartBeatRequest_def HttpMessage_new_def message_new_def kinds)

lemma icon_answer_bad_cast: "http_HeartBeatResponse (HeartBeatMessage_new l h) = Inl Bad_Cast"
  by (simp add: http_HeartBeatResponse_def HeartBeatMessage_new_def message_new_def)

text \<open>The name of the added header is compared with its capitals: a message with content-length of its own is sent with two.\<close>

lemma content_length_twice:
  assumes "hi_headers (http_info h) = [(''content-length'', ''2'')]" "hi_body (http_info h) = ''ok''" "keep_alive h"
  shows "sent_headers h = [(''content-length'', ''2''), (''Content-Length'', ''2''), (''Connection'', ''keep-alive'')]"
proof -
  have "lower_str ''content-length'' = ''content-length''" "dec (Suc (Suc 0)) = ''2''" by code_simp+
  with assms show ?thesis by (simp add: sent_headers_def GetHeader_def dict_find_def)
qed

end
