(* ===== verification/Redis_Protocol.thy ===== *)
theory Redis_Protocol
  imports Protocol_Base String_Util
begin

text \<open>
  The redis protocol of src/src/protocol/redis: the reply parser and the command printer of
  redis\_parser.h and redis\_parser.cpp, Decode and Encode of redis\_protocol.cpp. A pointer into a text is
  the rest of the text; reading the character behind it gives the terminating zero, reading further is
  the fault Out\_Of\_Bounds.
\<close>

section \<open>Reading a text\<close>

definition kSep :: char where "kSep = CHR 0x01"
definition CR :: char where "CR = CHR 0x0D"
definition LF :: char where "LF = CHR 0x0A"

definition char_at :: "string \<Rightarrow> nat \<Rightarrow> char outcome" where
  "char_at s i = (if i < length s then Inr (s ! i) else if i = length s then Inr (CHR 0x00) else Inl Out_Of_Bounds)"

fun find_crlf :: "string \<Rightarrow> nat option" where
  "find_crlf (c # d # cs) = (if c = CR \<and> d = LF then Some 0 else map_option Suc (find_crlf (d # cs)))"
| "find_crlf cs = None"

text \<open>
  GetLengthLinelength: a turn of either of its nested loops is one step from \<open>pos\<close>. The int result is -1
  without a line end.
\<close>

function length_loop :: "string \<Rightarrow> nat \<Rightarrow> nat \<Rightarrow> int" where
  "length_loop line safe_len pos =
     (if pos < safe_len then
        (if line ! pos \<noteq> CR then length_loop line safe_len (pos + 1)
         else if line ! (pos + 1) = LF then int (pos + 2)
         else length_loop line safe_len (pos + 1))
      else -1)"
  by pat_completeness auto
termination
  by (relation "measure (\<lambda>(line, safe_len, pos). safe_len - pos)") auto

declare length_loop.simps [simp del]

definition GetLengthLinelength :: "string \<Rightarrow> nat \<Rightarrow> int" where
  "GetLengthLinelength line_data line_len = length_loop line_data (line_len - 1) 1"

section \<open>Replies\<close>

text \<open>
  ParseSingleStr: return code (0 ok, 1 nil, 2 incomplete, -1 error), has\_read\_len, and out. The test
  \<open>str_len <= (signed)(line_len - has_read_len - 2)\<close> keeps 32 bits.
\<close>

definition ParseSingleStr :: "string \<Rightarrow> nat \<Rightarrow> nat \<Rightarrow> string \<Rightarrow> (int \<times> nat \<times> string) outcome" where
  "ParseSingleStr line_data line_len has_read_len out =
     outcome_bind (char_at line_data 0) (\<lambda>c0.
       if c0 = CHR ''$'' then
         let n = GetLengthLinelength line_data line_len in
         if n = -1 then Inr (-1, has_read_len, out)
         else
           let has = has_read_len + nat n;
               (str_len, used) = strtoll (drop 1 line_data);
               read_pos = 1 + used + 2
           in if str_len > 0 then
                (if str_len \<le> signed_take_bit 31 (int line_len - int has - 2)
                 then outcome_bind (char_at line_data (read_pos + nat str_len)) (\<lambda>c1.
                        if c1 = CR then
                          outcome_bind (char_at line_data (read_pos + nat str_len + 1)) (\<lambda>c2.
                            if c2 = LF then Inr (0, has + nat str_len + 2, take (nat str_len) (drop read_pos line_data))
                            else Inr (-1, has, out))
                        else Inr (-1, has, out))
                 else Inr (2, has, out))
              else if str_len = -1 then Inr (1, has, out)
              else Inr (-1, has, out)
       else Inr (-1, has_read_len, out))"

text \<open>The loop over the elements of an array reply: return code, size\_reply, out.\<close>

fun array_loop :: "nat \<Rightarrow> string \<Rightarrow> nat \<Rightarrow> string \<Rightarrow> (int \<times> nat \<times> string) outcome" where
  "array_loop 0 reply size_reply out = Inr (0, size_reply, out)"
| "array_loop (Suc i) reply size_reply out =
     outcome_bind (ParseSingleStr (drop size_reply reply) (length reply - size_reply) 0 []) (\<lambda>(ret, one_str_len, tmp_out).
       if ret = 0 then array_loop i reply (size_reply + one_str_len) (out @ [kSep] @ tmp_out)
       else if ret = 1 then array_loop i reply (size_reply + one_str_len) (out @ [kSep] @ ''-1'')
       else if ret = 2 then Inr (1, size_reply, out)
       else Inr (-1, size_reply, out))"

text \<open>ParseReply: return code (0 ok, 1 incomplete, -1 error), is\_pong, size\_reply, out.\<close>

definition ParseReply :: "string \<Rightarrow> bool \<Rightarrow> nat \<Rightarrow> string \<Rightarrow> (int \<times> bool \<times> nat \<times> string) outcome" where
  "ParseReply reply is_pong size_reply out =
     (if reply = [] then Inr (-1, is_pong, size_reply, out)
      else (case find_crlf reply of
         None \<Rightarrow> Inr (-1, is_pong, size_reply, out)
       | Some first_CRLF \<Rightarrow>
           let p0 = hd reply in
           if p0 = CHR ''-'' then Inr (0, False, first_CRLF + 2, out @ ''-1'')
           else if p0 = CHR ''+'' then
             Inr (0, first_CRLF = 5 \<and> take 4 (drop 1 reply) = ''PONG'', first_CRLF + 2, out @ ''0'')
           else if p0 = CHR '':'' then
             Inr (0, False, first_CRLF + 2, out @ ''1'' @ [kSep] @ take (first_CRLF - 1) (drop 1 reply))
           else if p0 = CHR ''$'' then
             outcome_bind (ParseSingleStr reply (length reply) size_reply []) (\<lambda>(ret, size', tmp_out).
               if ret = 0 then Inr (0, False, size', out @ ''1'' @ [kSep] @ tmp_out)
               else if ret = 1 then Inr (0, False, size', out @ ''0'')
               else if ret = 2 then Inr (1, False, size', out)
               else Inr (-1, False, size', out))
           else if p0 = CHR ''*'' then
             let array_num = fst (strtoll (drop 1 reply)) in
             if array_num > 0 then
               outcome_bind (array_loop (nat array_num) reply (first_CRLF + 2) (take (first_CRLF - 1) (drop 1 reply)))
                 (\<lambda>(ret, size', out'). Inr (ret, False, size', out'))
             else if array_num = -1 then Inr (0, False, first_CRLF + 2, out @ ''0'')
             else Inr (-1, False, first_CRLF + 2, out)
           else Inr (-1, False, size_reply, out)))"

section \<open>Commands\<close>

text \<open>One segment as a bulk string.\<close>

definition bulk :: "string \<Rightarrow> u32 \<Rightarrow> string" where
  "bulk str len_seg = CHR ''$'' # dec (unat len_seg) @ [CR, LF] @ take (unat len_seg) str @ [CR, LF]"

function cmd_loop :: "string \<Rightarrow> nat \<Rightarrow> u32 \<Rightarrow> string \<Rightarrow> (u32 \<times> string) option" where
  "cmd_loop inp follower num_segs result =
     (case find_at kSep (drop follower inp) follower of
        None \<Rightarrow>
          let len_seg = of_nat (length inp - follower) :: u32
          in if len_seg = 0 then Some (num_segs, result)
             else Some (num_segs + 1, result @ bulk (drop follower inp) len_seg)
      | Some leader \<Rightarrow>
          if leader = follower then None
          else
            let len_seg = of_nat (leader - follower) :: u32
            in if len_seg = 0 then Some (num_segs, result)
               else cmd_loop inp (leader + 1) (num_segs + 1) (result @ bulk (drop follower inp) len_seg))"
  by pat_completeness auto
termination
proof (relation "measure (\<lambda>(inp, follower, num_segs, result). Suc (length inp) - follower)", goal_cases)
  case (2 inp follower num_segs result leader len_seg)
  from find_at_Some [OF 2(1)] obtain ys zs where split: "drop follower inp = ys @ kSep # zs" "leader = follower + length ys" by blast
  have "length (drop follower inp) = length ys + Suc (length zs)" by (simp add: split(1))
  then show ?case by (simp add: split(2))
qed simp

declare cmd_loop.simps [simp del]

definition ParseCmd :: "string \<Rightarrow> string option" where
  "ParseCmd inp =
     (if inp = [] then None
      else map_option (\<lambda>(num_segs, result). CHR ''*'' # dec (unat num_segs) @ result) (cmd_loop inp 0 0 [CR, LF]))"

section \<open>Every accepted reply has a length\<close>

lemma length_loop_pos: "length_loop line n pos = -1 \<or> 2 \<le> length_loop line n pos"
proof (induction line n pos rule: length_loop.induct)
  case (1 line safe_len pos)
  then show ?case by (subst (1 2) length_loop.simps) auto
qed

lemma ParseSingleStr_size:
  "ParseSingleStr line n has out = Inr (ret, has', out') \<Longrightarrow> has \<le> has' \<and> (ret = 0 \<or> ret = 1 \<longrightarrow> has + 1 < has')"
  using length_loop_pos [of line "n - 1" 1]
  by (auto simp: GetLengthLinelength_def ParseSingleStr_def Let_def outcome_bind_Inr_iff split: prod.splits if_splits)

lemma array_loop_size: "array_loop i reply sz out = Inr (ret, sz', out') \<Longrightarrow> sz \<le> sz'"
proof (induction i arbitrary: sz out)
  case (Suc i)
  then show ?case
    by (fastforce simp: outcome_bind_Inr_iff split: prod.splits if_splits dest: ParseSingleStr_size)
qed simp

lemma ParseReply_size:
  "ParseReply reply p 0 out = Inr (ret, p', n, out') \<Longrightarrow> ret = 0 \<Longrightarrow> 0 < n"
  by (auto simp: ParseReply_def Let_def outcome_bind_Inr_iff split: prod.splits if_splits option.splits
      dest!: ParseSingleStr_size array_loop_size)

section \<open>Decode and Encode\<close>

text \<open>The loop of Decode: Inl of a return code that stops it, or the bytes used, the texts and is\_pong.\<close>

function redis_loop :: "string \<Rightarrow> nat \<Rightarrow> string list \<Rightarrow> bool \<Rightarrow> (int + nat \<times> string list \<times> bool) outcome" where
  "redis_loop reply size_reply tmp_body is_pong =
     (case ParseReply reply is_pong 0 [] of
        Inl e \<Rightarrow> Inl e
      | Inr (ret, is_pong', one_cmd_size, result) \<Rightarrow>
          if ret \<noteq> 0 then Inr (Inl ret)
          else if one_cmd_size > length reply then Inl Out_Of_Range_Exception
          else
            let reply' = drop one_cmd_size reply
            in if reply' = [] then Inr (Inr (size_reply + one_cmd_size, tmp_body @ [result], is_pong'))
               else redis_loop reply' (size_reply + one_cmd_size) (tmp_body @ [result]) is_pong')"
  by pat_completeness auto
termination
proof (relation "measure (\<lambda>(reply, size_reply, tmp_body, is_pong). length reply)", goal_cases)
  case 2
  then show ?case by (auto dest: ParseReply_size)
qed simp

declare redis_loop.simps [simp del]

definition MaxSize_Allowed :: nat where "MaxSize_Allowed = 8 * 1024 * 1024"

definition redis_Decode :: "(char buffer, message) decoder" where
  "redis_Decode input failed =
     (let sz = GetReadingSize input in
      if sz = 0 then Inr (None, input, failed)
      else if sz > MaxSize_Allowed then Inr (None, ResetAll input, False)
      else (case redis_loop (GetReading input) 0 [] False of
              Inl e \<Rightarrow> Inl e
            | Inr (Inl ret) \<Rightarrow> if ret > 0 then Inr (None, input, failed) else Inr (None, ResetAll input, False)
            | Inr (Inr (size_reply, tmp_body, is_pong)) \<Rightarrow>
                if \<not> is_pong
                then Inr (Some (RedisMessage_new\<lparr>payload := Redis_Data tmp_body\<rparr>), DrainReading size_reply input, failed)
                else Inr (None, DrainReading size_reply input, failed)))"

fun redis_request :: "string list \<Rightarrow> string option" where
  "redis_request [] = Some []"
| "redis_request (it # bodys) =
     (case ParseCmd it of None \<Rightarrow> None | Some one_cmd \<Rightarrow> map_option (append one_cmd) (redis_request bodys))"

text \<open>The static\_cast trusts type\_id; EnsureSize is called even for an empty request.\<close>

definition redis_Encode :: "(nat \<Rightarrow> string option) \<Rightarrow> message \<Rightarrow> char buffer \<Rightarrow> (bool \<times> char buffer) option outcome" where
  "redis_Encode malloc msg output =
     (if type_id msg = kRedisMessage then
        (case payload msg of
           Redis_Data bodys \<Rightarrow>
             if bodys = [] then Inr (Some (False, output))
             else (case redis_request bodys of
                     None \<Rightarrow> Inr (Some (False, output))
                   | Some request \<Rightarrow> Inr (pour malloc request output))
         | _ \<Rightarrow> Inl Bad_Cast)
      else Inr (Some (False, output)))"

definition redis_HeartBeatRequest :: message where
  "redis_HeartBeatRequest = RedisMessage_new\<lparr>type_id := kHeartBeatMessage\<rparr>"

definition redis_HeartBeatResponse :: "message \<Rightarrow> message" where
  "redis_HeartBeatResponse request = request"

section \<open>The wire format\<close>

datatype reply =
    Status string
  | Error_Reply string
  | Int_Reply string
  | Bulk string
  | Nil_Bulk
  | Array_Reply "string option list"
  | Nil_Array

definition crlf :: string where "crlf = [CR, LF]"

definition bulk_text :: "string \<Rightarrow> string" where
  "bulk_text s = CHR ''$'' # dec (length s) @ crlf @ s @ crlf"

fun elem_text :: "string option \<Rightarrow> string" where
  "elem_text None = ''$-1'' @ crlf"
| "elem_text (Some s) = bulk_text s"

fun wire :: "reply \<Rightarrow> string" where
  "wire (Status s) = CHR ''+'' # s @ crlf"
| "wire (Error_Reply s) = CHR ''-'' # s @ crlf"
| "wire (Int_Reply s) = CHR '':'' # s @ crlf"
| "wire (Bulk s) = bulk_text s"
| "wire Nil_Bulk = ''$-1'' @ crlf"
| "wire (Array_Reply es) = CHR ''*'' # dec (length es) @ crlf @ concat (map elem_text es)"
| "wire Nil_Array = ''*-1'' @ crlf"

text \<open>How the messages of this library show a reply.\<close>

fun elem_shown :: "string option \<Rightarrow> string" where
  "elem_shown None = kSep # ''-1''"
| "elem_shown (Some s) = kSep # s"

fun shown :: "reply \<Rightarrow> string" where
  "shown (Status s) = ''0''"
| "shown (Error_Reply s) = ''-1''"
| "shown (Int_Reply s) = ''1'' @ [kSep] @ s"
| "shown (Bulk s) = ''1'' @ [kSep] @ s"
| "shown Nil_Bulk = ''0''"
| "shown (Array_Reply es) = dec (length es) @ concat (map elem_shown es)"
| "shown Nil_Array = ''0''"

text \<open>Lines without a carriage return; the empty string and the empty array are not accepted by the parser.\<close>

fun elem_ok :: "string option \<Rightarrow> bool" where
  "elem_ok None = True"
| "elem_ok (Some s) = (s \<noteq> [])"

fun reply_ok :: "reply \<Rightarrow> bool" where
  "reply_ok (Status s) = (CR \<notin> set s)"
| "reply_ok (Error_Reply s) = (CR \<notin> set s)"
| "reply_ok (Int_Reply s) = (CR \<notin> set s)"
| "reply_ok (Bulk s) = elem_ok (Some s)"
| "reply_ok Nil_Bulk = True"
| "reply_ok (Array_Reply es) = (es \<noteq> [] \<and> (\<forall>e \<in> set es. elem_ok e))"
| "reply_ok Nil_Array = True"

definition is_pong_reply :: "reply \<Rightarrow> bool" where
  "is_pong_reply r \<longleftrightarrow> r = Status ''PONG''"

section \<open>Parsing what is on the wire\<close>

lemma crlf_not_digit [simp]: "\<not> is_digit CR" "CR \<noteq> LF" "CR \<noteq> CHR ''$''" "LF \<noteq> CR"
  by code_simp+

lemma length_crlf [simp]: "length crlf = 2"
  by (simp add: crlf_def)

lemma dec_no_CR [simp]: "CR \<notin> set (dec n)"
  using dec_digits [of CR n] by auto

lemma length_loop_line:
  "CR \<notin> set (drop pos xs) \<Longrightarrow> pos \<le> length xs \<Longrightarrow> length xs < n \<Longrightarrow>
     length_loop (xs @ crlf @ t) n pos = int (length xs + 2)"
proof (induction "length xs - pos" arbitrary: pos)
  case 0
  then show ?case by (subst length_loop.simps) (simp add: crlf_def nth_append)
next
  case (Suc d)
  then have pos: "pos < length xs" by simp
  then have "xs ! pos \<in> set (drop pos xs)" by (metis Cons_nth_drop_Suc list.set_intros(1))
  moreover have "set (drop (pos + 1) xs) \<subseteq> set (drop pos xs)" by (simp add: set_drop_subset_set_drop)
  ultimately have step: "xs ! pos \<noteq> CR" "CR \<notin> set (drop (pos + 1) xs)" using Suc.prems(1) by auto
  have "length_loop (xs @ crlf @ t) n (pos + 1) = int (length xs + 2)"
    using Suc.hyps(2) Suc.prems(3) pos step(2) by (intro Suc.hyps(1)) simp_all
  then show ?case using step(1) pos Suc.prems(3) by (subst length_loop.simps) (simp add: nth_append)
qed

lemma find_crlf_first: "CR \<notin> set xs \<Longrightarrow> find_crlf (xs @ crlf @ t) = Some (length xs)"
proof (induction xs)
  case (Cons x xs)
  then show ?case by (cases xs) (auto simp: crlf_def)
qed (simp add: crlf_def)

lemma take_crlf: "take (length s) (s @ crlf @ t) = s" by simp

text \<open>A bulk string in front of anything is read completely; its header and content give its length.\<close>

lemma ParseSingleStr_bulk:
  assumes "s \<noteq> []" "length (bulk_text s @ t) < 2 ^ 31"
  shows "ParseSingleStr (bulk_text s @ t) (length (bulk_text s @ t)) 0 out = Inr (0, length (bulk_text s), s)"
proof -
  let ?l = "bulk_text s @ t" and ?h = "CHR ''$'' # dec (length s)"
  let ?k = "length (dec (length s))"
  have l: "?l = ?h @ crlf @ s @ crlf @ t" by (simp add: bulk_text_def)
  have len: "length ?l = ?k + 1 + 2 + length s + 2 + length t" by (simp add: l)
  have first: "char_at ?l 0 = Inr (CHR ''$'')" by (simp add: l char_at_def)
  have n: "GetLengthLinelength ?l (length ?l) = int (?k + 3)"
    using length_loop_line [of 1 ?h "length ?l - 1" "s @ crlf @ t"] unfolding GetLengthLinelength_def
    by (simp add: l)
  have num: "strtoll (drop 1 ?l) = (int (length s), ?k)"
    using strtoll_dec [of "length s" CR "LF # s @ crlf @ t"] assms(2) by (simp add: l crlf_def len)
  have fits: "int (length s) \<le> signed_take_bit 31 (int (length ?l) - int (?k + 3) - 2)"
    using assms(2) len by (subst signed_take_bit_int_eq_self) auto
  have pos: "drop (1 + ?k + 2) ?l = s @ crlf @ t" by (simp add: l)
  have "?l ! length (?h @ crlf @ s) = CR" "?l ! length (?h @ crlf @ s @ [CR]) = LF"
    using nth_append_length [of "?h @ crlf @ s" CR "LF # t"] nth_append_length [of "?h @ crlf @ s @ [CR]" LF t]
    by (simp_all add: l crlf_def)
  moreover have "length (?h @ crlf @ s) = 1 + ?k + 2 + length s" "length (?h @ crlf @ s @ [CR]) = 1 + ?k + 2 + length s + 1"
    by simp_all
  ultimately have at: "char_at ?l (1 + ?k + 2 + nat (int (length s))) = Inr CR"
    "char_at ?l (1 + ?k + 2 + nat (int (length s)) + 1) = Inr LF"
    using len by (simp_all only: char_at_def nat_int) simp_all
  have whole: "nat (int (?k + 3)) + nat (int (length s)) + 2 = length (bulk_text s)" by (simp add: bulk_text_def)
  show ?thesis
    using assms(1) fits whole unfolding ParseSingleStr_def first n num outcome_bind.simps Let_def prod.case at pos
    by simp
qed

lemma ParseSingleStr_nil:
  "ParseSingleStr (''$-1'' @ crlf @ t) (length (''$-1'' @ crlf @ t)) 0 out = Inr (1, 5, out)"
proof -
  have no: "CR \<notin> set ''$-1''" by code_simp
  have n: "GetLengthLinelength (''$-1'' @ crlf @ t) (length (''$-1'' @ crlf @ t)) = 5"
    using length_loop_line [of 1 "''$-1''" "length (''$-1'' @ crlf @ t) - 1" t] no unfolding GetLengthLinelength_def by simp
  have num: "strtoll (drop 1 (''$-1'' @ crlf @ t)) = (-1, 2)"
    using strtoll_minus_one [of CR "LF # t"] by (simp add: crlf_def)
  show ?thesis
    unfolding ParseSingleStr_def n num Let_def by (simp add: char_at_def)
qed

lemma array_loop_then:
  "\<forall>e \<in> set es. elem_ok e \<Longrightarrow> length (pre @ concat (map elem_text es) @ t) < 2 ^ 31 \<Longrightarrow>
     array_loop (length es + m) (pre @ concat (map elem_text es) @ t) (length pre) out =
       array_loop m (pre @ concat (map elem_text es) @ t) (length pre + length (concat (map elem_text es))) (out @ concat (map elem_shown es))"
proof (induction es arbitrary: pre out)
  case (Cons e es)
  let ?rest = "concat (map elem_text es) @ t"
  have split: "pre @ concat (map elem_text (e # es)) @ t = (pre @ elem_text e) @ ?rest" by simp
  have parse: "ParseSingleStr (elem_text e @ ?rest) (length (elem_text e @ ?rest)) 0 [] =
      Inr (case e of None \<Rightarrow> (1, 5, []) | Some s \<Rightarrow> (0, length (bulk_text s), s))"
  proof (cases e)
    case None
    then show ?thesis using ParseSingleStr_nil [of ?rest "[]"] by simp
  next
    case (Some s)
    then show ?thesis using ParseSingleStr_bulk [of s ?rest "[]"] Cons.prems by simp
  qed
  have IH: "array_loop (length es + m) ((pre @ elem_text e) @ ?rest) (length (pre @ elem_text e)) o' =
      array_loop m ((pre @ elem_text e) @ ?rest) (length (pre @ elem_text e) + length (concat (map elem_text es))) (o' @ concat (map elem_shown es))" for o'
    using Cons.prems by (intro Cons.IH) (simp_all add: add.assoc)
  have drop: "drop (length pre) ((pre @ elem_text e) @ ?rest) = elem_text e @ ?rest"
    "length ((pre @ elem_text e) @ ?rest) - length pre = length (elem_text e @ ?rest)" by simp_all
  show ?case
    unfolding split list.size add_Suc add_0_right add_Suc_right array_loop.simps drop parse
    using IH by (cases e) (simp_all add: add.assoc numeral_eq_Suc)
qed simp

lemma array_loop_elems:
  assumes "\<forall>e \<in> set es. elem_ok e" "length (pre @ concat (map elem_text es) @ t) < 2 ^ 31"
  shows "array_loop (length es) (pre @ concat (map elem_text es) @ t) (length pre) out =
     Inr (0, length pre + length (concat (map elem_text es)), out @ concat (map elem_shown es))"
  using array_loop_then [OF assms, of 0 out] by simp

lemma ParseReply_wire:
  assumes ok: "reply_ok r" and small: "length (wire r @ t) < 2 ^ 31"
  shows "ParseReply (wire r @ t) p 0 [] = Inr (0, is_pong_reply r, length (wire r), shown r)"
proof -
  have line: "find_crlf (c # s @ crlf @ u) = Some (Suc (length s))" if "CR \<notin> set s" "c \<noteq> CR" for c s u
    using find_crlf_first [of "c # s" u] that by simp
  have marks: "CHR ''+'' \<noteq> CR" "CHR ''-'' \<noteq> CR" "CHR '':'' \<noteq> CR" "CHR ''$'' \<noteq> CR" "CHR ''*'' \<noteq> CR" "CHR ''1'' \<noteq> CR"
    by code_simp+
  show ?thesis
  proof (cases r)
    case (Status s)
    have "(Suc (length s) = 5 \<and> take 4 (s @ crlf @ t) = ''PONG'') = (s = ''PONG'')"
      by (cases "length s = 4") auto
    then show ?thesis using Status ok marks line [of s "CHR ''+''" t] by (simp add: ParseReply_def is_pong_reply_def)
  next
    case (Error_Reply s)
    then show ?thesis using ok marks line [of s "CHR ''-''" t] by (simp add: ParseReply_def is_pong_reply_def)
  next
    case (Int_Reply s)
    then show ?thesis using ok marks line [of s "CHR '':''" t] by (simp add: ParseReply_def is_pong_reply_def)
  next
    case (Bulk s)
    have crlf: "find_crlf (bulk_text s @ t) = Some (Suc (length (dec (length s))))"
      using line [of "dec (length s)" "CHR ''$''" "s @ crlf @ t"] marks by (simp add: bulk_text_def)
    have hd: "hd (bulk_text s @ t) = CHR ''$''" "bulk_text s @ t \<noteq> []" by (simp_all add: bulk_text_def)
    have one: "ParseSingleStr (bulk_text s @ t) (length (bulk_text s @ t)) 0 [] = Inr (0, length (bulk_text s), s)"
      using ok small Bulk by (intro ParseSingleStr_bulk) simp_all
    show ?thesis
      unfolding Bulk wire.simps ParseReply_def crlf option.case Let_def hd one using hd
      by (simp add: is_pong_reply_def)
  next
    case Nil_Bulk
    show ?thesis
      using ParseSingleStr_nil [of t "[]"] line [of "''-1''" "CHR ''$''" t] marks
      by (simp add: Nil_Bulk ParseReply_def is_pong_reply_def)
  next
    case Nil_Array
    have "strtoll (''-1'' @ crlf @ t) = (-1, 2)" using strtoll_minus_one [of CR "LF # t"] by (simp add: crlf_def)
    then show ?thesis
      using line [of "''-1''" "CHR ''*''" t] marks by (simp add: Nil_Array ParseReply_def is_pong_reply_def)
  next
    case (Array_Reply es)
    let ?n = "dec (length es)" and ?pre = "CHR ''*'' # dec (length es) @ crlf"
    let ?l = "?pre @ concat (map elem_text es) @ t"
    have wire: "wire r @ t = ?l" by (simp add: Array_Reply)
    have len: "length es \<le> length (concat (map elem_text es))" for es
    proof (induction es)
      case (Cons e es)
      then show ?case by (cases e) (simp_all add: bulk_text_def)
    qed simp
    have num: "strtoll (drop 1 ?l) = (int (length es), length ?n)"
      using strtoll_dec [of "length es" CR "LF # concat (map elem_text es) @ t"] len [of es] small wire by (simp add: crlf_def)
    have crlf: "find_crlf ?l = Some (Suc (length ?n))"
      using line [of ?n "CHR ''*''" "concat (map elem_text es) @ t"] marks by simp
    have loop: "array_loop (length es) ?l (Suc (length ?n) + 2) ?n =
        Inr (0, length ?pre + length (concat (map elem_text es)), ?n @ concat (map elem_shown es))"
      using array_loop_elems [of es ?pre t ?n] ok small by (simp add: Array_Reply)
    have pos: "0 < int (length es)" "es \<noteq> []" using ok by (simp_all add: Array_Reply)
    have digits: "take (Suc (length ?n) - 1) (drop 1 ?l) = ?n" by simp
    have hd: "?l \<noteq> []" "hd ?l = CHR ''*''" by simp_all
    show ?thesis
      unfolding wire ParseReply_def crlf option.case Let_def num fst_conv hd(2) nat_int loop digits using hd(1) pos
      by (simp add: Array_Reply is_pong_reply_def)
  qed
qed

lemma wire_nonempty [simp]: "wire r \<noteq> []"
  by (cases r) (simp_all add: bulk_text_def)

lemma redis_loop_then:
  "\<forall>r \<in> set rs. reply_ok r \<Longrightarrow> length (concat (map wire rs) @ t) < 2 ^ 31 \<Longrightarrow> t \<noteq> [] \<Longrightarrow>
     \<exists>p'. redis_loop (concat (map wire rs) @ t) n acc p =
       redis_loop t (n + length (concat (map wire rs))) (acc @ map shown rs) p'"
proof (induction rs arbitrary: n acc p)
  case (Cons r rs)
  let ?rest = "concat (map wire rs) @ t"
  have "ParseReply (wire r @ ?rest) p 0 [] = Inr (0, is_pong_reply r, length (wire r), shown r)"
    using Cons.prems by (intro ParseReply_wire) simp_all
  then have "redis_loop (wire r @ ?rest) n acc p =
      redis_loop ?rest (n + length (wire r)) (acc @ [shown r]) (is_pong_reply r)"
    using Cons.prems(3) by (subst redis_loop.simps) (simp add: Let_def)
  moreover obtain p' where "redis_loop ?rest (n + length (wire r)) (acc @ [shown r]) (is_pong_reply r) =
      redis_loop t (n + length (wire r) + length (concat (map wire rs))) ((acc @ [shown r]) @ map shown rs) p'"
    using Cons.IH [of "n + length (wire r)" "acc @ [shown r]" "is_pong_reply r"] Cons.prems by auto
  ultimately show ?case by (auto simp: add.assoc)
qed auto

lemma redis_loop_last:
  assumes "reply_ok r" "length (wire r) < 2 ^ 31"
  shows "redis_loop (wire r) n acc p = Inr (Inr (n + length (wire r), acc @ [shown r], is_pong_reply r))"
  using ParseReply_wire [of r "[]" p] assms by (subst redis_loop.simps) simp

lemma redis_loop_wires:
  assumes "rs \<noteq> []" "\<forall>r \<in> set rs. reply_ok r" "length (concat (map wire rs)) < 2 ^ 31"
  shows "redis_loop (concat (map wire rs)) 0 [] p =
     Inr (Inr (length (concat (map wire rs)), map shown rs, is_pong_reply (last rs)))"
proof -
  obtain qs r where rs: "rs = qs @ [r]" using assms(1) by (cases rs rule: rev_cases) auto
  from redis_loop_then [of qs "wire r" 0 "[]" p] redis_loop_last [of r] assms(2,3) show ?thesis
    by (auto simp: rs)
qed

subsection \<open>Replies cut by the network\<close>

lemma find_crlf_none: "CR \<notin> set xs \<Longrightarrow> find_crlf (xs @ [CR]) = None \<and> find_crlf xs = None"
proof (induction xs)
  case (Cons x xs)
  then show ?case by (cases xs) auto
qed simp

definition bulk_header :: "string \<Rightarrow> nat" where
  "bulk_header s = length (dec (length s)) + 3"

lemma ParseReply_cut_header:
  assumes "k < bulk_header s"
  shows "ParseReply (take k (bulk_text s)) p 0 [] = Inr (-1, p, 0, [])"
proof -
  let ?h = "CHR ''$'' # dec (length s)"
  have h: "CR \<notin> set (take j ?h)" for j
    using set_take_subset [of j ?h] by fastforce
  have cut: "take k (bulk_text s) = take k ?h @ take (k - length ?h) crlf"
    using assms by (simp add: bulk_text_def bulk_header_def take_Cons' take_append crlf_def)
  have "find_crlf (take k (bulk_text s)) = None"
  proof (cases "k = length ?h + 1")
    case True
    show ?thesis unfolding cut unfolding True using find_crlf_none [OF h [of "length ?h"]] by (simp add: crlf_def)
  next
    case False
    then have "k \<le> length ?h" using assms by (simp add: bulk_header_def)
    then show ?thesis using find_crlf_none [OF h [of k]] by (simp add: cut)
  qed
  then show ?thesis by (simp add: ParseReply_def)
qed

lemma ParseSingleStr_cut_body:
  assumes "bulk_header s \<le> k" "k < length (bulk_text s)" "length (bulk_text s) < 2 ^ 31" "s \<noteq> []"
  shows "ParseSingleStr (take k (bulk_text s)) k 0 [] = Inr (2, bulk_header s, [])"
proof -
  let ?h = "CHR ''$'' # dec (length s)" and ?d = "length (dec (length s))"
  let ?t = "take (k - bulk_header s) (s @ crlf)"
  have cut: "take k (bulk_text s) = ?h @ crlf @ ?t"
    using assms(1) by (simp add: bulk_text_def bulk_header_def take_Cons' take_append numeral_3_eq_3)
  have len: "length (?h @ crlf @ ?t) = k" using assms(2) cut by (metis length_take min.absorb4)
  have n: "GetLengthLinelength (?h @ crlf @ ?t) k = int (length ?h + 2)"
    unfolding GetLengthLinelength_def using assms(1) by (intro length_loop_line) (simp_all add: bulk_header_def)
  have num: "strtoll (drop 1 (?h @ crlf @ ?t)) = (int (length s), ?d)"
    using strtoll_dec [of "length s" CR "LF # ?t"] assms(3) by (simp add: crlf_def bulk_text_def)
  have fits: "\<not> int (length s) \<le> signed_take_bit 31 (int k - int (length ?h + 2) - 2)"
    using assms by (subst signed_take_bit_int_eq_self) (auto simp: bulk_header_def bulk_text_def)
  have "ParseSingleStr (?h @ crlf @ ?t) k 0 [] = Inr (2, length ?h + 2, [])"
    unfolding ParseSingleStr_def n num Let_def using fits assms(4) by (simp add: char_at_def)
  then show ?thesis unfolding cut by (simp add: bulk_header_def)
qed

lemma ParseReply_cut_body:
  assumes "bulk_header s \<le> k" "k < length (bulk_text s)" "length (bulk_text s) < 2 ^ 31" "s \<noteq> []"
  shows "ParseReply (take k (bulk_text s)) p 0 [] = Inr (1, False, bulk_header s, [])"
proof -
  let ?h = "CHR ''$'' # dec (length s)"
  have cut: "take k (bulk_text s) = ?h @ crlf @ take (k - bulk_header s) (s @ crlf)"
    using assms(1) by (simp add: bulk_text_def bulk_header_def take_Cons' take_append numeral_3_eq_3)
  have crlf: "find_crlf (take k (bulk_text s)) = Some (length ?h)" unfolding cut by (rule find_crlf_first) simp
  have hd: "take k (bulk_text s) \<noteq> []" "hd (take k (bulk_text s)) = CHR ''$''" unfolding cut by simp_all
  have len: "length (take k (bulk_text s)) = k" using assms(2) by simp
  show ?thesis
    unfolding ParseReply_def crlf option.case Let_def len hd(2) ParseSingleStr_cut_body [OF assms] using hd(1) by simp
qed

lemma length_loop_none: "\<forall>i. pos \<le> i \<longrightarrow> i < n \<longrightarrow> line ! i \<noteq> CR \<Longrightarrow> length_loop line n pos = -1"
proof (induction "n - pos" arbitrary: pos)
  case 0
  then show ?case by (subst length_loop.simps) simp
next
  case (Suc d)
  then have "length_loop line n (pos + 1) = -1" by (intro Suc.hyps(1)) simp_all
  then show ?case using Suc.hyps(2) Suc.prems by (subst length_loop.simps) simp
qed

lemma ParseSingleStr_cut_header:
  assumes "k < bulk_header s"
  shows "ParseSingleStr (take k (bulk_text s)) k 0 [] = Inr (-1, 0, [])"
proof (cases "k = 0")
  case True
  then show ?thesis by (simp add: ParseSingleStr_def char_at_def)
next
  case False
  let ?h = "CHR ''$'' # dec (length s)"
  have "take k (bulk_text s) ! i \<noteq> CR" if "i < k - 1" for i
  proof -
    have "i < length ?h" using that assms by (simp add: bulk_header_def)
    moreover have "bulk_text s = ?h @ crlf @ s @ crlf" by (simp add: bulk_text_def)
    ultimately have "take k (bulk_text s) ! i = ?h ! i" "?h ! i \<in> set ?h" using that nth_mem [of i ?h] by (simp_all only: nth_take nth_append) simp_all
    moreover have "CR \<notin> set ?h" by simp
    ultimately show ?thesis by metis
  qed
  then have "GetLengthLinelength (take k (bulk_text s)) k = -1"
    unfolding GetLengthLinelength_def by (intro length_loop_none) simp
  moreover have "char_at (take k (bulk_text s)) 0 = Inr (CHR ''$'')"
    using False by (simp add: char_at_def bulk_text_def take_Cons')
  ultimately show ?thesis by (simp add: ParseSingleStr_def)
qed

text \<open>
  Where a bulk string that is cut can stand: alone, or as an element of an array, behind its header line and the elements
  before it.
\<close>

fun in_front :: "(nat \<times> string option list) option \<Rightarrow> string" where
  "in_front None = []"
| "in_front (Some (n, es)) = CHR ''*'' # dec n @ crlf @ concat (map elem_text es)"

fun place_ok :: "(nat \<times> string option list) option \<Rightarrow> bool" where
  "place_ok None = True"
| "place_ok (Some (n, es)) = (length es < n \<and> n < 2 ^ 31 \<and> (\<forall>e \<in> set es. elem_ok e))"

lemma ParseReply_cut_array:
  assumes at: "length es < n" "n < 2 ^ 31" "\<forall>e \<in> set es. elem_ok e" and k: "k < length (bulk_text s)" "s \<noteq> []"
    and small: "length (in_front (Some (n, es)) @ bulk_text s) < 2 ^ 31"
  shows "\<exists>sz out. ParseReply (in_front (Some (n, es)) @ take k (bulk_text s)) p 0 [] =
     Inr (if bulk_header s \<le> k then 1 else -1, False, sz, out)"
proof -
  let ?t = "take k (bulk_text s)" and ?pre = "CHR ''*'' # dec n @ crlf"
  let ?l = "?pre @ concat (map elem_text es) @ ?t"
  have l: "in_front (Some (n, es)) @ ?t = ?l" by simp
  have len: "length ?t = k" "length ?l < 2 ^ 31" "length (bulk_text s) < 2 ^ 31" using k small by simp_all
  have no: "CR \<notin> set (CHR ''*'' # dec n)" by (simp, code_simp)
  have crlf: "find_crlf ?l = Some (Suc (length (dec n)))" using find_crlf_first [OF no, of "concat (map elem_text es) @ ?t"] by simp
  have num: "strtoll (drop 1 ?l) = (int n, length (dec n))"
    using strtoll_dec [of n CR "LF # concat (map elem_text es) @ ?t"] at(2) by (simp add: crlf_def)
  from less_imp_Suc_add [OF at(1)] obtain m where "n = Suc (length es + m)" by blast
  then have m: "length es + Suc m = n" by simp
  let ?stop = "length ?pre + length (concat (map elem_text es))"
  have drop: "drop ?stop ?l = ?t" "length ?l - ?stop = k" using len(1) by simp_all
  have one: "ParseSingleStr ?t k 0 [] = (if bulk_header s \<le> k then Inr (2, bulk_header s, []) else Inr (-1, 0, []))"
    using ParseSingleStr_cut_body [OF _ k(1) len(3) k(2)] ParseSingleStr_cut_header [of k s] by simp
  have "array_loop (Suc m) ?l ?stop out = Inr (if bulk_header s \<le> k then 1 else -1, ?stop, out)" for out
    unfolding array_loop.simps drop one by simp
  from this array_loop_then [OF at(3) len(2), of "Suc m", unfolded m]
  have loop: "array_loop n ?l (Suc (length (dec n)) + 2) out = Inr (if bulk_header s \<le> k then 1 else -1, ?stop, out @ concat (map elem_shown es))" for out
    by simp
  have hd: "?l \<noteq> []" "hd ?l = CHR ''*''" by simp_all
  show ?thesis
    unfolding l ParseReply_def crlf option.case Let_def num fst_conv hd(2) nat_int loop using hd(1) at(1) by simp
qed

section \<open>Printing commands\<close>

lemma cmd_loop_segments:
  "segs \<noteq> [] \<Longrightarrow> \<forall>s \<in> set segs. s \<noteq> [] \<and> kSep \<notin> set s \<and> length s < 2 ^ 32 \<Longrightarrow>
     cmd_loop (pre @ join kSep segs) (length pre) n res = Some (n + of_nat (length segs), res @ concat (map bulk_text segs))"
proof (induction segs arbitrary: pre n res)
  case (Cons s segs)
  have len: "unat (of_nat (length s) :: u32) = length s" using Cons.prems(2) by (simp add: unat_of_nat take_bit_nat_eq_self)
  then have nz: "(of_nat (length s) :: u32) \<noteq> 0" using Cons.prems(2) by (metis length_0_conv list.set_intros(1) unat_0)
  have bulk: "bulk (s @ t) (of_nat (length s)) = bulk_text s" for t by (simp add: bulk_def bulk_text_def len crlf_def)
  show ?case
  proof (cases segs)
    case Nil
    have "find_at kSep s (length pre) = None" using Cons.prems(2) by (simp add: find_at_None)
    then show ?thesis
      using nz bulk [of "[]"] by (subst cmd_loop.simps) (simp add: Nil Let_def add.commute)
  next
    case (Cons q qs)
    let ?rest = "join kSep segs" and ?pre' = "pre @ s @ [kSep]"
    have join: "pre @ join kSep (s # segs) = ?pre' @ ?rest" by (simp add: Cons)
    have "drop (length pre) (?pre' @ ?rest) = s @ kSep # ?rest" by simp
    moreover have "find_at kSep (s @ kSep # ?rest) (length pre) = Some (length pre + length s)"
      using Cons.prems(2) find_at_hit [of kSep s ?rest "length pre"] by simp
    ultimately have "cmd_loop (?pre' @ ?rest) (length pre) n res =
        cmd_loop (?pre' @ ?rest) (length ?pre') (n + 1) (res @ bulk_text s)"
      using nz bulk [of "kSep # ?rest"] Cons.prems(2) by (subst cmd_loop.simps) (simp add: Let_def)
    then show ?thesis
      using Cons.IH [of ?pre' "n + 1" "res @ bulk_text s"] Cons.prems Cons unfolding join by (simp add: add.assoc)
  qed
qed simp

lemma ParseCmd_segments:
  assumes "segs \<noteq> []" "\<forall>s \<in> set segs. s \<noteq> [] \<and> kSep \<notin> set s \<and> length s < 2 ^ 32" "length segs < 2 ^ 32"
  shows "ParseCmd (join kSep segs) = Some (wire (Array_Reply (map Some segs)))"
proof -
  have "join kSep segs \<noteq> []" using assms(1,2) by (induction kSep segs rule: join.induct) auto
  moreover have "unat (0 + of_nat (length segs) :: u32) = length segs"
    using assms(3) by (simp add: unat_of_nat take_bit_nat_eq_self)
  moreover have "concat (map (elem_text \<circ> Some) segs) = concat (map bulk_text segs)" by (simp add: comp_def)
  ultimately show ?thesis
    using cmd_loop_segments [OF assms(1,2), of "[]" 0 "[CR, LF]"] by (simp add: ParseCmd_def crlf_def)
qed

lemma array_shown: "segs \<noteq> [] \<Longrightarrow> concat (map elem_shown (map Some segs)) = kSep # join kSep segs"
  by (induction kSep segs rule: join.induct) simp_all

section \<open>Properties\<close>

text \<open>C14. A command of segments between separators is printed as the array of bulk strings of its segments, and
  the reply parser reads that text back, using all of it: the number of segments, then the same segments.
  A command that starts with a separator or is empty is refused.\<close>

theorem redis_command_roundtrip:
  assumes "segs \<noteq> []" "\<forall>s \<in> set segs. s \<noteq> [] \<and> kSep \<notin> set s \<and> length s < 2 ^ 32" "length segs < 2 ^ 32"
    and "length (wire (Array_Reply (map Some segs)) @ t) < 2 ^ 31"
  shows "(\<exists>txt. ParseCmd (join kSep segs) = Some txt \<and>
       ParseReply (txt @ t) p 0 [] = Inr (0, False, length txt, dec (length segs) @ [kSep] @ join kSep segs)) \<and>
     ParseCmd (kSep # rest) = None \<and> ParseCmd [] = None"
proof (intro conjI)
  have "reply_ok (Array_Reply (map Some segs))" using assms(1,2) by auto
  from ParseReply_wire [OF this assms(4)] array_shown [OF assms(1)] ParseCmd_segments [OF assms(1-3)]
  show "\<exists>txt. ParseCmd (join kSep segs) = Some txt \<and>
     ParseReply (txt @ t) p 0 [] = Inr (0, False, length txt, dec (length segs) @ [kSep] @ join kSep segs)"
    by (simp add: is_pong_reply_def)
  show "ParseCmd (kSep # rest) = None" by (subst ParseCmd_def, subst cmd_loop.simps) simp
qed (simp add: ParseCmd_def)

theorem redis_command_roundtrip_witness:
  "\<exists>txt. ParseCmd (''set'' @ [kSep] @ ''key'') = Some txt \<and>
     ParseReply txt False 0 [] = Inr (0, False, length txt, ''2'' @ [kSep] @ ''set'' @ [kSep] @ ''key'')"
proof -
  have "dec (Suc (Suc 0)) = ''2''" "kSep \<notin> set ''setkey''" by code_simp+
  moreover have "length (wire (Array_Reply (map Some [''set'', ''key'']))) = 22" by code_simp
  ultimately show ?thesis
    using conjunct1 [OF redis_command_roundtrip, of "[''set'', ''key'']" "[]" False] by simp
qed



text \<open>C16. A bulk string, alone or an element of an array, that the network cuts behind its own header line is waited for: Decode
  leaves the buffer as it is. Cut inside its header line, or, in an array, in front of it (behind the header line of the array or behind a complete
  element), it counts as an error: Decode resets the buffer, the replies received complete before it are lost with it, and
  failed is set to false, so the connection goes on in the middle of a reply.\<close>

theorem redis_cut_reply:
  assumes "buf_inv b" "\<forall>r \<in> set rs. reply_ok r" "s \<noteq> []" "k < length (bulk_text s)" "place_ok pl" "pl = None \<longrightarrow> 0 < k"
    and con: "GetReading b = concat (map wire rs) @ in_front pl @ take k (bulk_text s)"
    and small: "length (concat (map wire rs) @ in_front pl @ bulk_text s) \<le> MaxSize_Allowed"
  shows "redis_Decode b failed =
     (if bulk_header s \<le> k then Inr (None, b, failed) else Inr (None, ResetAll b, False))"
proof -
  let ?t = "in_front pl @ take k (bulk_text s)"
  have size: "length (bulk_text s) < 2 ^ 31" "length (in_front pl @ bulk_text s) < 2 ^ 31"
    "length (concat (map wire rs) @ ?t) < 2 ^ 31" "length (concat (map wire rs) @ ?t) \<le> MaxSize_Allowed"
    using small assms(4) by (simp_all add: MaxSize_Allowed_def)
  have t: "?t \<noteq> []" using assms(4,6) by (cases pl) auto
  have parse: "\<exists>p' n out. ParseReply ?t p 0 [] = Inr (if bulk_header s \<le> k then 1 else -1, p', n, out)" for p
  proof (cases pl)
    case None
    then show ?thesis
      using ParseReply_cut_body [OF _ assms(4) size(1) assms(3)] ParseReply_cut_header [of k s] by (simp add: ex_bool_eq)
  next
    case (Some x)
    obtain n es where x: "x = (n, es)" by fastforce
    have "length es < n" "n < 2 ^ 31" "\<forall>e \<in> set es. elem_ok e" using assms(5) by (simp_all add: Some x)
    from ParseReply_cut_array [OF this assms(4,3)] size(2) show ?thesis unfolding Some x by blast
  qed
  from redis_loop_then [OF assms(2) size(3) t, of 0 "[]" False] obtain p' where
    loop: "redis_loop (GetReading b) 0 [] False = redis_loop ?t (length (concat (map wire rs))) (map shown rs) p'"
    by (auto simp: con)
  have total: "GetReadingSize b = length (concat (map wire rs) @ ?t)"
    using assms(1) length_GetReading [of b] by (simp add: con buf_inv_def)
  then have pre: "GetReadingSize b \<noteq> 0" "\<not> GetReadingSize b > MaxSize_Allowed"
    using t size(4) by (simp_all add: not_less)
  from parse [of p'] obtain p'' n out where "ParseReply ?t p' 0 [] = Inr (if bulk_header s \<le> k then 1 else -1, p'', n, out)" by blast
  then have "redis_loop ?t m acc p' = Inr (Inl (if bulk_header s \<le> k then 1 else -1))" for m acc
    by (subst redis_loop.simps) simp
  then show ?thesis using pre by (simp add: redis_Decode_def Let_def loop)
qed

text \<open>A bulk string cut in its header line, one cut behind it, and an array of two elements cut behind its own header line.\<close>

theorem redis_cut_reply_witness:
  "redis_Decode \<lparr>blk = Some (wire (Int_Reply ''7'') @ ''$3''), rpos = 0, wpos = 6\<rparr> True =
     Inr (None, \<lparr>blk = Some (wire (Int_Reply ''7'') @ ''$3''), rpos = 0, wpos = 0\<rparr>, False) \<and>
   redis_Decode \<lparr>blk = Some (''$3'' @ crlf @ ''a''), rpos = 0, wpos = 5\<rparr> True =
     Inr (None, \<lparr>blk = Some (''$3'' @ crlf @ ''a''), rpos = 0, wpos = 5\<rparr>, True) \<and>
   redis_Decode \<lparr>blk = Some (''*2'' @ crlf), rpos = 0, wpos = 4\<rparr> True =
     Inr (None, \<lparr>blk = Some (''*2'' @ crlf), rpos = 0, wpos = 0\<rparr>, False)"
proof -
  have cut: "take 2 (bulk_text ''abc'') = ''$3''" "take 5 (bulk_text ''abc'') = ''$3'' @ crlf @ ''a''" "length (bulk_text ''abc'') = 9"
    "bulk_header ''abc'' = 4" "dec 2 = ''2''" by code_simp+
  have ok: "CR \<notin> set ''7''" by code_simp
  let ?b = "\<lparr>blk = Some (wire (Int_Reply ''7'') @ ''$3''), rpos = 0, wpos = 6\<rparr>"
  have "buf_inv ?b" "GetReading ?b = concat (map wire [Int_Reply ''7'']) @ in_front None @ take 2 (bulk_text ''abc'')"
    unfolding cut by (simp_all add: buf_inv_def buf_defs)
  from redis_cut_reply [OF this(1) _ _ _ _ _ this(2), of True] cut(3,4) ok
  have first: "redis_Decode ?b True = Inr (None, \<lparr>blk = Some (wire (Int_Reply ''7'') @ ''$3''), rpos = 0, wpos = 0\<rparr>, False)"
    by (simp add: MaxSize_Allowed_def ResetAll_def)
  let ?c = "\<lparr>blk = Some (''$3'' @ crlf @ ''a''), rpos = 0, wpos = 5\<rparr>"
  have "buf_inv ?c" "GetReading ?c = concat (map wire []) @ in_front None @ take 5 (bulk_text ''abc'')"
    unfolding cut by (simp_all add: buf_inv_def buf_defs)
  from redis_cut_reply [OF this(1) _ _ _ _ _ this(2), of True] cut(3,4)
  have second: "redis_Decode ?c True = Inr (None, ?c, True)" by (simp add: MaxSize_Allowed_def)
  let ?d = "\<lparr>blk = Some (''*2'' @ crlf), rpos = 0, wpos = 4\<rparr>"
  have "buf_inv ?d" "GetReading ?d = concat (map wire []) @ in_front (Some (2, [])) @ take 0 (bulk_text ''abc'')"
    by (simp_all add: cut(5) buf_inv_def buf_defs)
  from redis_cut_reply [OF this(1) _ _ _ _ _ this(2), of True] cut(3,4,5)
  have "redis_Decode ?d True = Inr (None, \<lparr>blk = Some (''*2'' @ crlf), rpos = 0, wpos = 0\<rparr>, False)"
    by (simp add: MaxSize_Allowed_def ResetAll_def)
  with first second show ?thesis by blast
qed

text \<open>The length of a bulk string is read with strtoll, which skips white space and so the line end: when blanks
  and a number follow, the parser looks for the end of the string behind the received text, outside the storage it
  was given, for any number of blanks from six on.\<close>

lemma redis_reads_out_of_bounds:
  assumes "buf_inv b" "GetReading b = CHR ''$'' # crlf @ replicate j CHR '' '' @ ''5''" "6 \<le> j" "j < 1000"
  shows "redis_Decode b failed = Inl Out_Of_Bounds"
proof -
  let ?l = "CHR ''$'' # crlf @ replicate j CHR '' '' @ ''5''"
  have chars: "is_space CR" "is_space LF" "is_space CHR '' ''" "\<not> is_space (CHR ''5'')" "is_digit (CHR ''5'')"
    "CHR ''5'' \<noteq> CHR ''-''" "CHR ''5'' \<noteq> CHR ''+''" "digits_value ''5'' = 5" "CHR ''$'' \<noteq> CR" by code_simp+
  have ws: "takeWhile is_space (crlf @ replicate j CHR '' '' @ ''5'') = crlf @ replicate j CHR '' ''"
    using chars by (simp add: crlf_def takeWhile_append)
  have num: "strtoll (drop 1 ?l) = (5, j + 3)"
    using chars unfolding strtoll_def Let_def by (simp add: ws)
  have n: "GetLengthLinelength ?l (length ?l) = 3"
    using length_loop_line [of 1 "''$''" "length ?l - 1" "replicate j CHR '' '' @ ''5''"] by (simp add: GetLengthLinelength_def)
  have fits: "5 \<le> signed_take_bit 31 (int (length ?l) - 3 - 2)"
    using assms(3,4) by (subst signed_take_bit_int_eq_self) auto
  have "char_at ?l (1 + (j + 3) + 2 + 5) = Inl Out_Of_Bounds" by (simp add: char_at_def)
  then have "ParseSingleStr ?l (length ?l) 0 [] = Inl Out_Of_Bounds"
    unfolding ParseSingleStr_def n num Let_def using fits by (simp add: char_at_def)
  moreover have "find_crlf ?l = Some 1"
    using find_crlf_first [of "''$''" "replicate j CHR '' '' @ ''5''"] chars by simp
  ultimately have "ParseReply ?l p 0 [] = Inl Out_Of_Bounds" for p
    unfolding ParseReply_def by simp
  then have "redis_loop ?l 0 [] False = Inl Out_Of_Bounds" by (subst redis_loop.simps) simp
  moreover have "GetReadingSize b = j + 4"
    using assms(1) length_GetReading [of b] by (simp add: assms(2) buf_inv_def)
  ultimately show ?thesis using assms(4) by (simp add: redis_Decode_def assms(2) MaxSize_Allowed_def)
qed

lemma redis_reads_out_of_bounds_witness:
  "redis_Decode \<lparr>blk = Some (CHR ''$'' # crlf @ ''      5''), rpos = 0, wpos = 10\<rparr> False = Inl Out_Of_Bounds"
proof -
  let ?b = "\<lparr>blk = Some (CHR ''$'' # crlf @ ''      5''), rpos = 0, wpos = 10\<rparr>"
  have "replicate 6 CHR '' '' = ''      ''" by (simp add: numeral_eq_Suc)
  then have "buf_inv ?b" "GetReading ?b = CHR ''$'' # crlf @ replicate 6 CHR '' '' @ ''5''"
    by (simp_all add: buf_inv_def buf_defs)
  from redis_reads_out_of_bounds [OF this] show ?thesis by simp
qed

section \<open>Outside the contract\<close>

text \<open>The empty bulk string is a reply of the protocol, but an error for the parser; so is the empty array.\<close>

lemma empty_replies_rejected:
  "ParseReply (wire (Bulk [])) p 0 [] = Inr (-1, False, 4, [])" "ParseReply (wire (Array_Reply [])) p 0 [] = Inr (-1, False, 4, [])"
proof -
  have dec: "dec 0 = ''0''" by code_simp
  have chars: "CR \<notin> set ''$0''" "CR \<notin> set ''*0''" by code_simp+
  have num: "strtoll (''0'' @ crlf @ t) = (0, 1)" for t
    using strtoll_dec [of 0 CR "LF # t"] by (simp add: dec crlf_def)
  have n: "GetLengthLinelength (''$0'' @ crlf @ crlf) (length (''$0'' @ crlf @ crlf)) = 4"
    using length_loop_line [of 1 "''$0''" "length (''$0'' @ crlf @ crlf) - 1" crlf] chars by (simp add: GetLengthLinelength_def)
  have drop: "drop 1 (''$0'' @ crlf @ crlf) = ''0'' @ crlf @ crlf" "drop 1 (''*0'' @ crlf) = ''0'' @ crlf @ []" by simp_all
  have "ParseSingleStr (''$0'' @ crlf @ crlf) (length (''$0'' @ crlf @ crlf)) 0 [] = Inr (-1, 4, [])"
    unfolding ParseSingleStr_def n drop num Let_def by (simp add: char_at_def)
  then show "ParseReply (wire (Bulk [])) p 0 [] = Inr (-1, False, 4, [])"
    using find_crlf_first [of "''$0''" crlf] chars by (simp add: ParseReply_def bulk_text_def dec)
  show "ParseReply (wire (Array_Reply [])) p 0 [] = Inr (-1, False, 4, [])"
    using find_crlf_first [of "''*0''" "[]"] chars num [of "[]"] by (simp add: ParseReply_def dec)
qed

lemma redis_heartbeat_refused: "redis_Encode malloc redis_HeartBeatRequest b = Inr (Some (False, b))"
  by (simp add: redis_Encode_def redis_HeartBeatRequest_def kinds)

lemma redis_request_wires:
  "\<forall>cmd \<in> set cmds. cmd \<noteq> [] \<and> length cmd < 2 ^ 32 \<and> (\<forall>s \<in> set cmd. s \<noteq> [] \<and> kSep \<notin> set s \<and> length s < 2 ^ 32) \<Longrightarrow>
     redis_request (map (join kSep) cmds) = Some (concat (map (\<lambda>cmd. wire (Array_Reply (map Some cmd))) cmds))"
  by (induction cmds) (simp_all add: ParseCmd_segments del: wire.simps)

end
