(* ===== verification/Base64.thy ===== *)
theory Base64
  imports String_Util
begin

text \<open>
  The two base64 codecs of src/src/common/string_util.cpp: the padded one with optional line wraps
  (Base64Encode, Base64Decode and the loops go\_base64\_encode and go\_base64\_decode under them) and
  the URL-safe one without padding. Bytes are 8-bit words; the int arithmetic of the C code only
  feeds bytes and six-bit indices, for which the 8-bit operations give the same values. Output space
  is counted as in the code. The lengths are size\_t values that the calls of go\_base64\_encode and go\_base64\_decode
  narrow to int (\<open>int_of_size\<close>), so they may come out negative or too small. std::string::resize of a negative int is the
  length\_error exception. No object in memory is as large as 2^62 bytes, so the size\_t arithmetic does not wrap.
\<close>

unbundle bit_operations_syntax

section \<open>Tables\<close>

definition kEncodeTable :: bytes where
  "kEncodeTable =
  [65, 66, 67, 68, 69, 70, 71, 72, 73, 74, 75, 76, 77, 78, 79, 80,
   81, 82, 83, 84, 85, 86, 87, 88, 89, 90, 97, 98, 99, 100, 101, 102,
   103, 104, 105, 106, 107, 108, 109, 110, 111, 112, 113, 114, 115, 116, 117, 118,
   119, 120, 121, 122, 48, 49, 50, 51, 52, 53, 54, 55, 56, 57, 43, 47]"

definition kDecodeTable :: bytes where
  "kDecodeTable =
  [255, 255, 255, 255, 255, 255, 255, 255, 255, 255, 255, 255, 255, 255, 255, 255,
   255, 255, 255, 255, 255, 255, 255, 255, 255, 255, 255, 255, 255, 255, 255, 255,
   255, 255, 255, 255, 255, 255, 255, 255, 255, 255, 255, 62, 255, 255, 255, 63,
   52, 53, 54, 55, 56, 57, 58, 59, 60, 61, 255, 255, 255, 255, 255, 255,
   255, 0, 1, 2, 3, 4, 5, 6, 7, 8, 9, 10, 11, 12, 13, 14,
   15, 16, 17, 18, 19, 20, 21, 22, 23, 24, 25, 255, 255, 255, 255, 255,
   255, 26, 27, 28, 29, 30, 31, 32, 33, 34, 35, 36, 37, 38, 39, 40,
   41, 42, 43, 44, 45, 46, 47, 48, 49, 50, 51, 255, 255, 255, 255, 255,
   255, 255, 255, 255, 255, 255, 255, 255, 255, 255, 255, 255, 255, 255, 255, 255,
   255, 255, 255, 255, 255, 255, 255, 255, 255, 255, 255, 255, 255, 255, 255, 255,
   255, 255, 255, 255, 255, 255, 255, 255, 255, 255, 255, 255, 255, 255, 255, 255,
   255, 255, 255, 255, 255, 255, 255, 255, 255, 255, 255, 255, 255, 255, 255, 255,
   255, 255, 255, 255, 255, 255, 255, 255, 255, 255, 255, 255, 255, 255, 255, 255,
   255, 255, 255, 255, 255, 255, 255, 255, 255, 255, 255, 255, 255, 255, 255, 255,
   255, 255, 255, 255, 255, 255, 255, 255, 255, 255, 255, 255, 255, 255, 255, 255,
   255, 255, 255, 255, 255, 255, 255, 255, 255, 255, 255, 255, 255, 255, 255, 255]"

definition t64 :: bytes where
  "t64 =
  [65, 66, 67, 68, 69, 70, 71, 72, 73, 74, 75, 76, 77, 78, 79, 80,
   81, 82, 83, 84, 85, 86, 87, 88, 89, 90, 97, 98, 99, 100, 101, 102,
   103, 104, 105, 106, 107, 108, 109, 110, 111, 112, 113, 114, 115, 116, 117, 118,
   119, 120, 121, 122, 48, 49, 50, 51, 52, 53, 54, 55, 56, 57, 45, 95]"

text \<open>
  \_t256 as it is initialised: the initialiser lists 224 values (255 stands for the char -1), the
  last 32 of the 256 elements are therefore 0.
\<close>

definition t256 :: bytes where
  "t256 =
  [255, 255, 255, 255, 255, 255, 255, 255, 255, 255, 255, 255, 255, 255, 255, 255,
   255, 255, 255, 255, 255, 255, 255, 255, 255, 255, 255, 255, 255, 255, 255, 255,
   255, 255, 255, 255, 255, 255, 255, 255, 255, 255, 255, 255, 255, 62, 255, 255,
   52, 53, 54, 55, 56, 57, 58, 59, 60, 61, 255, 255, 255, 255, 255, 255,
   255, 0, 1, 2, 3, 4, 5, 6, 7, 8, 9, 10, 11, 12, 13, 14,
   15, 16, 17, 18, 19, 20, 21, 22, 23, 24, 25, 255, 255, 255, 255, 63,
   255, 26, 27, 28, 29, 30, 31, 32, 33, 34, 35, 36, 37, 38, 39, 40,
   41, 42, 43, 44, 45, 46, 47, 48, 49, 50, 51, 255, 255, 255, 255, 255,
   255, 255, 255, 255, 255, 255, 255, 255, 255, 255, 255, 255, 255, 255, 255, 255,
   255, 255, 255, 255, 255, 255, 255, 255, 255, 255, 255, 255, 255, 255, 255, 255,
   255, 255, 255, 255, 255, 255, 255, 255, 255, 255, 255, 255, 255, 255, 255, 255,
   255, 255, 255, 255, 255, 255, 255, 255, 255, 255, 255, 255, 255, 255, 255, 255,
   255, 255, 255, 255, 255, 255, 255, 255, 255, 255, 255, 255, 255, 255, 255, 255,
   255, 255, 255, 255, 255, 255, 255, 255, 255, 255, 255, 255, 255, 255, 255, 255] @ replicate 32 0"

section \<open>The padded codec\<close>

definition enc :: "u8 \<Rightarrow> u8" where
  "enc i = kEncodeTable ! unat i"

definition dec :: "u8 \<Rightarrow> u8" where
  "dec c = kDecodeTable ! unat c"

text \<open>\_base64\_encode of 3, 2 or 1 bytes.\<close>

definition base64_encode3 :: "u8 \<Rightarrow> u8 \<Rightarrow> u8 \<Rightarrow> bytes" where
  "base64_encode3 a b c =
     [enc (drop_bit 2 a AND 63), enc ((push_bit 4 a + drop_bit 4 b) AND 63),
      enc ((push_bit 2 b + drop_bit 6 c) AND 63), enc (c AND 63)]"

definition base64_encode2 :: "u8 \<Rightarrow> u8 \<Rightarrow> bytes" where
  "base64_encode2 a b =
     [enc (drop_bit 2 a AND 63), enc ((push_bit 4 a + drop_bit 4 b) AND 63), enc (push_bit 2 b AND 63)]"

definition base64_encode1 :: "u8 \<Rightarrow> bytes" where
  "base64_encode1 a = [enc (drop_bit 2 a AND 63), enc (push_bit 4 a AND 63)]"

text \<open>\_base64\_decode of \<open>len\<close> characters: the \<open>len - 1\<close> bytes that are copied out afterwards.\<close>

definition base64_decode :: "bytes \<Rightarrow> bytes" where
  "base64_decode buf =
     (let d = (\<lambda>i. dec (buf ! i));
          b0 = push_bit 2 (d 0) OR drop_bit 4 (d 1);
          b1 = (push_bit 4 (d 1) AND 240) OR drop_bit 2 (d 2);
          b2 = (push_bit 6 (d 2) AND 192) OR d 3
      in if length buf > 3 then [b0, b1, b2] else if length buf > 2 then [b0, b1] else [b0])"

text \<open>
  The first loop of go\_base64\_encode. \<open>buf\<close> are the \<open>cnt\<close> bytes collected so far, \<open>out\<close> what was copied to
  dst; the result is None for \<open>return -1\<close>, otherwise the loop's final state.
\<close>

fun encode_loop :: "int \<Rightarrow> bytes \<Rightarrow> bytes \<Rightarrow> bytes \<Rightarrow> int \<Rightarrow> (bytes \<times> bytes \<times> bytes \<times> int) option" where
  "encode_loop wraps (a # b # c # src) buf out dst_len =
     (let buf1 = buf @ base64_encode3 a b c
      in if int (length buf1) \<ge> wraps
         then
           let buf2 = (if wraps > 0 then buf1 @ [10] else buf1)
           in if dst_len < int (length buf2) then None
              else encode_loop wraps src [] (out @ buf2) (dst_len - int (length buf2))
         else encode_loop wraps src buf1 out dst_len)"
| "encode_loop wraps src buf out dst_len = Some (src, buf, out, dst_len)"

text \<open>A size\_t passed as an int.\<close>

definition int_of_size :: "nat \<Rightarrow> int" where
  "int_of_size n = sint (word_of_nat n :: 32 word)"

text \<open>Only the first \<open>src_len\<close> bytes behind src are read, none when \<open>src_len\<close> is negative.\<close>

definition go_base64_encode :: "bytes \<Rightarrow> int \<Rightarrow> int \<Rightarrow> int \<Rightarrow> bytes option" where
  "go_base64_encode src src_len dst_len wraps0 =
     (let wraps = (if wraps0 > 512 - 4 then 512 - 4 else wraps0)
      in case encode_loop wraps (take (nat src_len) src) [] [] dst_len of
           None \<Rightarrow> None
         | Some (rest, buf, out, dl) \<Rightarrow>
             let buf1 = (case rest of
                           [] \<Rightarrow> buf
                         | [a] \<Rightarrow> buf @ base64_encode1 a @ [61, 61]
                         | a # b # _ \<Rightarrow> buf @ base64_encode2 a b @ [61])
             in if length buf1 > 0
                then (if dl < int (length buf1) then None else Some (out @ buf1))
                else Some out)"

definition skipped :: "u8 \<Rightarrow> bool" where
  "skipped c \<longleftrightarrow> c = 10 \<or> c = 13 \<or> c = 9 \<or> c = 32 \<or> c = 12 \<or> c = 8 \<or> c = 127"

text \<open>
  The loop of go\_base64\_decode; \<open>buf\<close> are the \<open>cnt\<close> characters collected, \<open>out\<close> what was copied to dst.
\<close>

fun decode_loop :: "bytes \<Rightarrow> bytes \<Rightarrow> bytes \<Rightarrow> int \<Rightarrow> bytes option" where
  "decode_loop [] buf out dst_len = Some out"
| "decode_loop (c # src) buf out dst_len =
     (let stop = (c = 61);
          buf1 = (if skipped c \<or> stop then buf else buf @ [c])
      in if length buf1 = 4 \<or> (stop \<and> length buf1 > 1)
         then
           if dst_len < int (length buf1) - 1 then None
           else if stop then Some (out @ base64_decode buf1)
           else decode_loop src [] (out @ base64_decode buf1) (dst_len - (int (length buf1) - 1))
         else if stop then Some out
         else decode_loop src buf1 out dst_len)"

definition go_base64_decode :: "bytes \<Rightarrow> int \<Rightarrow> int \<Rightarrow> bytes option" where
  "go_base64_decode src src_len dst_len = decode_loop (take (nat src_len) src) [] [] dst_len"

text \<open>
  \<open>result.resize(j)\<close> with \<open>j = -1\<close> throws. \<open>mem\<close> is the memory \<open>str\<close> points to; \<open>len = 0\<close> means a
  zero-terminated string.
\<close>

definition Base64Decode :: "bytes \<Rightarrow> nat \<Rightarrow> bytes outcome" where
  "Base64Decode mem len =
     (let src = (if len > 0 then take len mem else takeWhile (\<lambda>c. c \<noteq> 0) mem)
      in case go_base64_decode src (int_of_size (length src)) (int_of_size (length src + 1)) of
           None \<Rightarrow> Inl Length_Error_Exception
         | Some r \<Rightarrow> Inr r)"

definition Base64Encode :: "bytes \<Rightarrow> int \<Rightarrow> bytes outcome" where
  "Base64Encode src wraps =
     (let len = length src;
          dst_len = (4 * len + 2) div 3 + 3 + (if wraps > 0 then len div (if wraps > 64 then 64 else nat wraps) else 0)
      in case go_base64_encode src (int_of_size len) (int_of_size dst_len) wraps of
           None \<Rightarrow> Inl Length_Error_Exception
         | Some r \<Rightarrow> Inr r)"

definition SafeBase64ToBase64 :: "bytes \<Rightarrow> bytes" where
  "SafeBase64ToBase64 url64 =
     (let s = map (\<lambda>c. if c = 95 then 47 else c) (map (\<lambda>c. if c = 45 then 43 else c) url64)
      in s @ replicate ((4 - length s mod 4) mod 4) 61)"

section \<open>The URL-safe codec\<close>

fun UrlSafeBase64Encode :: "bytes \<Rightarrow> bytes" where
  "UrlSafeBase64Encode (a # b # c # src) =
     [t64 ! unat (drop_bit 2 a), t64 ! unat (push_bit 4 (a AND 3) OR drop_bit 4 b),
      t64 ! unat (push_bit 2 (b AND 15) OR drop_bit 6 c), t64 ! unat (c AND 63)] @ UrlSafeBase64Encode src"
| "UrlSafeBase64Encode [a, b] =
     [t64 ! unat (drop_bit 2 a), t64 ! unat (push_bit 4 (a AND 3) OR drop_bit 4 b), t64 ! unat (push_bit 2 (b AND 15))]"
| "UrlSafeBase64Encode [a] = [t64 ! unat (drop_bit 2 a), t64 ! unat (push_bit 4 (a AND 3))]"
| "UrlSafeBase64Encode [] = []"

text \<open>\<open>_t256[*s++] < 0\<close> returns -1; a char is signed.\<close>

definition look :: "u8 \<Rightarrow> (u8 \<Rightarrow> int + bytes) \<Rightarrow> int + bytes" where
  "look s f = (let p = t256 ! unat s in if sint p < 0 then Inl (-1) else f p)"

text \<open>Inl is a negative return value, Inr the bytes written to dst.\<close>

fun UrlSafeBase64Decode :: "bytes \<Rightarrow> int + bytes" where
  "UrlSafeBase64Decode (a # b # c # d # src) =
     look a (\<lambda>p0. look b (\<lambda>p1. look c (\<lambda>p2. look d (\<lambda>p3.
       map_sum id (append [push_bit 2 p0 OR drop_bit 4 p1, (push_bit 4 p1 AND 240) OR drop_bit 2 p2,
                           (push_bit 6 p2 AND 192) OR p3])
         (UrlSafeBase64Decode src)))))"
| "UrlSafeBase64Decode [] = Inr []"
| "UrlSafeBase64Decode [a, b, c] =
     look a (\<lambda>p0. look b (\<lambda>p1. look c (\<lambda>p2.
       if p2 AND 3 \<noteq> 0 then Inl (-1)
       else Inr [push_bit 2 p0 OR drop_bit 4 p1, (push_bit 4 p1 AND 240) OR drop_bit 2 p2])))"
| "UrlSafeBase64Decode [a, b] =
     look a (\<lambda>p0. look b (\<lambda>p1. if p1 AND 15 \<noteq> 0 then Inl (-1) else Inr [push_bit 2 p0 OR drop_bit 4 p1]))"
| "UrlSafeBase64Decode [a] = Inl (-2)"

section \<open>Six-bit groups\<close>

lemma masks:
  "(63 :: u8) = mask 6" "(15 :: u8) = mask 4" "(3 :: u8) = mask 2"
  "(240 :: u8) = push_bit 4 (mask 4)" "(192 :: u8) = push_bit 6 (mask 2)"
  by (simp_all add: mask_eq_exp_minus_1 push_bit_eq_mult)

lemma disjoint_add:
  "push_bit 4 a + drop_bit 4 b = push_bit 4 a OR drop_bit 4 (b :: u8)"
  "push_bit 2 b + drop_bit 6 c = push_bit 2 b OR drop_bit 6 (c :: u8)"
  by (rule disjunctive_add; auto simp: bit_simps dest: bit_imp_le_length)+

lemma byte_eqI:
  assumes "\<And>n. n \<in> {0, 1, 2, 3, 4, 5, 6, 7} \<Longrightarrow> bit a n = bit b n"
  shows "a = (b :: u8)"
proof (rule bit_word_eqI)
  fix n assume "n < LENGTH(8)"
  then have "n \<in> {0, 1, 2, 3, 4, 5, 6, 7}" by auto
  then show "bit a n = bit b n" by (rule assms)
qed

lemma byte_bit_high: "8 \<le> n \<Longrightarrow> \<not> bit (a :: u8) n"
  by (auto dest: bit_imp_le_length)

lemmas byte_bits = bit_or_iff bit_and_iff bit_push_bit_iff bit_drop_bit_eq bit_mask_iff byte_bit_high

lemma regroup3:
  fixes a b c :: u8
  defines "i0 \<equiv> drop_bit 2 a AND 63" and "i1 \<equiv> (push_bit 4 a + drop_bit 4 b) AND 63"
    and "i2 \<equiv> (push_bit 2 b + drop_bit 6 c) AND 63" and "i3 \<equiv> c AND 63"
  shows "push_bit 2 i0 OR drop_bit 4 i1 = a"
    and "(push_bit 4 i1 AND 240) OR drop_bit 2 i2 = b"
    and "(push_bit 6 i2 AND 192) OR i3 = c"
  unfolding i0_def i1_def i2_def i3_def disjoint_add masks
  by (rule byte_eqI; auto simp: byte_bits; simp add: numeral_2_eq_2 numeral_3_eq_3)+

lemma regroup2:
  fixes a b :: u8
  defines "i0 \<equiv> drop_bit 2 a AND 63" and "i1 \<equiv> (push_bit 4 a + drop_bit 4 b) AND 63" and "i2 \<equiv> push_bit 2 b AND 63"
  shows "push_bit 2 i0 OR drop_bit 4 i1 = a" and "(push_bit 4 i1 AND 240) OR drop_bit 2 i2 = b"
  unfolding i0_def i1_def i2_def disjoint_add masks
  by (rule byte_eqI; auto simp: byte_bits; simp add: numeral_2_eq_2 numeral_3_eq_3)+

lemma regroup1:
  fixes a :: u8
  defines "i0 \<equiv> drop_bit 2 a AND 63" and "i1 \<equiv> push_bit 4 a AND 63"
  shows "push_bit 2 i0 OR drop_bit 4 i1 = a"
  unfolding i0_def i1_def masks
  by (rule byte_eqI; auto simp: byte_bits; simp add: numeral_2_eq_2 numeral_3_eq_3)

text \<open>The groups of the URL-safe codec; they use every bit of the input, and no other.\<close>

lemma url_regroup3:
  fixes a b c :: u8
  defines "i0 \<equiv> drop_bit 2 a" and "i1 \<equiv> push_bit 4 (a AND 3) OR drop_bit 4 b"
    and "i2 \<equiv> push_bit 2 (b AND 15) OR drop_bit 6 c" and "i3 \<equiv> c AND 63"
  shows "push_bit 2 i0 OR drop_bit 4 i1 = a"
    and "(push_bit 4 i1 AND 240) OR drop_bit 2 i2 = b"
    and "(push_bit 6 i2 AND 192) OR i3 = c"
  unfolding i0_def i1_def i2_def i3_def masks
  by (rule byte_eqI; auto simp: byte_bits; simp add: numeral_2_eq_2 numeral_3_eq_3)+

lemma url_regroup2:
  fixes a b :: u8
  defines "i0 \<equiv> drop_bit 2 a" and "i1 \<equiv> push_bit 4 (a AND 3) OR drop_bit 4 b" and "i2 \<equiv> push_bit 2 (b AND 15)"
  shows "push_bit 2 i0 OR drop_bit 4 i1 = a" and "(push_bit 4 i1 AND 240) OR drop_bit 2 i2 = b" and "i2 AND 3 = 0"
  unfolding i0_def i1_def i2_def masks
  by (rule byte_eqI; auto simp: byte_bits; simp add: numeral_2_eq_2 numeral_3_eq_3)+

lemma url_regroup1:
  fixes a :: u8
  defines "i0 \<equiv> drop_bit 2 a" and "i1 \<equiv> push_bit 4 (a AND 3)"
  shows "push_bit 2 i0 OR drop_bit 4 i1 = a" and "i1 AND 15 = 0"
  unfolding i0_def i1_def masks
  by (rule byte_eqI; auto simp: byte_bits; simp add: numeral_2_eq_2 numeral_3_eq_3)+

lemma six_bits_iff: "unat (x :: u8) < 64 \<longleftrightarrow> \<not> bit x 6 \<and> \<not> bit x 7"
proof -
  have "unat x < 64 \<longleftrightarrow> drop_bit 6 x = 0"
    by (simp add: word_unat_eq_iff unat_div drop_bit_eq_div div_eq_0_iff)
  also have "\<dots> \<longleftrightarrow> \<not> bit x 6 \<and> \<not> bit x 7"
  proof
    assume "drop_bit 6 x = 0"
    then have "\<not> bit (drop_bit 6 x) 0" "\<not> bit (drop_bit 6 x) 1" by simp_all
    then show "\<not> bit x 6 \<and> \<not> bit x 7" by (simp add: bit_drop_bit_eq)
  next
    assume "\<not> bit x 6 \<and> \<not> bit x 7"
    then show "drop_bit 6 x = 0" by (intro byte_eqI) (auto simp: byte_bits)
  qed
  finally show ?thesis .
qed

lemma six_bits:
  "unat (x AND 63 :: u8) < 64" "unat (drop_bit 2 x :: u8) < 64"
  "unat (push_bit 4 (a AND 3) OR drop_bit 4 b :: u8) < 64" "unat (push_bit 2 (b AND 15) OR drop_bit 6 c :: u8) < 64"
  "unat (push_bit 4 (a AND 3) :: u8) < 64" "unat (push_bit 2 (b AND 15) :: u8) < 64"
  unfolding six_bits_iff masks by (auto simp: byte_bits)

section \<open>The tables are inverse to each other\<close>

lemma dec_enc:
  assumes "unat i < 64"
  shows "dec (enc i) = i" "\<not> skipped (enc i)" "enc i \<noteq> 61"
proof -
  have "list_all (\<lambda>n. dec (enc (of_nat n)) = of_nat n \<and> \<not> skipped (enc (of_nat n)) \<and> enc (of_nat n) \<noteq> 61) [0 ..< 64]"
    by code_simp
  then have "dec (enc i) = i \<and> \<not> skipped (enc i) \<and> enc i \<noteq> 61" using assms by (rule bytes_below)
  then show "dec (enc i) = i" "\<not> skipped (enc i)" "enc i \<noteq> 61" by simp_all
qed

lemma t256_t64:
  assumes "unat i < 64"
  shows "t256 ! unat (t64 ! unat i) = i" "0 \<le> sint i"
proof -
  have "list_all (\<lambda>n. t256 ! unat (t64 ! unat (of_nat n :: u8)) = (of_nat n :: u8) \<and> 0 \<le> sint (of_nat n :: u8)) [0 ..< 64]"
    by code_simp
  then have "t256 ! unat (t64 ! unat i) = i \<and> 0 \<le> sint i" using assms by (rule bytes_below)
  then show "t256 ! unat (t64 ! unat i) = i" "0 \<le> sint i" by simp_all
qed

lemma look_t64: "unat i < 64 \<Longrightarrow> look (t64 ! unat i) f = f i"
  using t256_t64 [of i] by (simp add: look_def Let_def)

lemma url_decode4:
  assumes "unat i0 < 64" "unat i1 < 64" "unat i2 < 64" "unat i3 < 64"
  shows "UrlSafeBase64Decode ([t64 ! unat i0, t64 ! unat i1, t64 ! unat i2, t64 ! unat i3] @ src) =
     map_sum id (append [push_bit 2 i0 OR drop_bit 4 i1, (push_bit 4 i1 AND 240) OR drop_bit 2 i2,
                         (push_bit 6 i2 AND 192) OR i3]) (UrlSafeBase64Decode src)"
  using assms by (simp add: look_t64)

lemma url_decode3:
  assumes "unat i0 < 64" "unat i1 < 64" "unat i2 < 64" "i2 AND 3 = 0"
  shows "UrlSafeBase64Decode [t64 ! unat i0, t64 ! unat i1, t64 ! unat i2] =
     Inr [push_bit 2 i0 OR drop_bit 4 i1, (push_bit 4 i1 AND 240) OR drop_bit 2 i2]"
  using assms by (simp add: look_t64)

lemma url_decode2:
  assumes "unat i0 < 64" "unat i1 < 64" "i1 AND 15 = 0"
  shows "UrlSafeBase64Decode [t64 ! unat i0, t64 ! unat i1] = Inr [push_bit 2 i0 OR drop_bit 4 i1]"
  using assms by (simp add: look_t64)

lemma UrlSafe_roundtrip: "UrlSafeBase64Decode (UrlSafeBase64Encode s) = Inr s"
proof (induction s rule: UrlSafeBase64Encode.induct)
  case (1 a b c src)
  show ?case
    unfolding UrlSafeBase64Encode.simps url_decode4 [OF six_bits(2,3,4,1)] 1 url_regroup3 by simp
next
  case (2 a b)
  show ?case
    unfolding UrlSafeBase64Encode.simps url_decode3 [OF six_bits(2,3,6) url_regroup2(3)] url_regroup2 by simp
next
  case (3 a)
  show ?case
    unfolding UrlSafeBase64Encode.simps url_decode2 [OF six_bits(2,5) url_regroup1(2)] url_regroup1 by simp
qed simp

section \<open>Decoding what was encoded\<close>

text \<open>
  Text \<open>cs\<close> in front of anything is consumed whole and yields \<open>s\<close>, if there is room.
\<close>

definition decodes :: "bytes \<Rightarrow> bytes \<Rightarrow> bool" where
  "decodes cs s \<longleftrightarrow> length s \<le> length cs \<and> (\<forall>rest out dl. int (length s) \<le> dl \<longrightarrow>
     decode_loop (cs @ rest) [] out dl = decode_loop rest [] (out @ s) (dl - int (length s)))"

text \<open>The same for text that ends the loop with padding.\<close>

definition decodes_end :: "bytes \<Rightarrow> bytes \<Rightarrow> bool" where
  "decodes_end cs s \<longleftrightarrow> length s \<le> length cs \<and> (\<forall>out dl. int (length s) \<le> dl \<longrightarrow> decode_loop cs [] out dl = Some (out @ s))"

lemma decodes_Nil: "decodes [] []"
  by (simp add: decodes_def)

lemma decodes_newline: "decodes [10] []"
  by (simp add: decodes_def Let_def skipped_def)

lemma decodes_append: "decodes cs s \<Longrightarrow> decodes cs' s' \<Longrightarrow> decodes (cs @ cs') (s @ s')"
  by (simp add: decodes_def algebra_simps)

lemma decodes_end_append: "decodes cs s \<Longrightarrow> decodes_end cs' s' \<Longrightarrow> decodes_end (cs @ cs') (s @ s')"
  by (simp add: decodes_def decodes_end_def)

lemma decodes_end_Nil: "decodes_end [] []"
  by (simp add: decodes_end_def)

lemma decode_loop4:
  assumes "unat i0 < 64" "unat i1 < 64" "unat i2 < 64" "unat i3 < 64" "3 \<le> dl"
  shows "decode_loop ([enc i0, enc i1, enc i2, enc i3] @ rest) [] out dl =
     decode_loop rest [] (out @ [push_bit 2 i0 OR drop_bit 4 i1, (push_bit 4 i1 AND 240) OR drop_bit 2 i2,
                                 (push_bit 6 i2 AND 192) OR i3]) (dl - 3)"
  using assms by (simp add: dec_enc Let_def base64_decode_def)

lemma decode_loop3:
  assumes "unat i0 < 64" "unat i1 < 64" "unat i2 < 64" "2 \<le> dl"
  shows "decode_loop ([enc i0, enc i1, enc i2] @ [61]) [] out dl =
     Some (out @ [push_bit 2 i0 OR drop_bit 4 i1, (push_bit 4 i1 AND 240) OR drop_bit 2 i2])"
  using assms by (simp add: dec_enc Let_def base64_decode_def)

lemma decode_loop2:
  assumes "unat i0 < 64" "unat i1 < 64" "1 \<le> dl"
  shows "decode_loop ([enc i0, enc i1] @ [61, 61]) [] out dl = Some (out @ [push_bit 2 i0 OR drop_bit 4 i1])"
  using assms by (simp add: dec_enc Let_def base64_decode_def)

lemma length_groups:
  "length (base64_encode3 a b c) = 4" "length (base64_encode2 a b) = 3" "length (base64_encode1 a) = 2"
  by (simp_all add: base64_encode3_def base64_encode2_def base64_encode1_def)

lemma decodes_group3: "decodes (base64_encode3 a b c) [a, b, c]"
  unfolding decodes_def length_groups unfolding base64_encode3_def
  by (intro conjI allI impI, simp, subst decode_loop4 [OF six_bits(1) six_bits(1) six_bits(1) six_bits(1)])
     (simp, simp only: regroup3, simp)

lemma decodes_group2: "decodes_end (base64_encode2 a b @ [61]) [a, b]"
  unfolding decodes_end_def length_append length_groups unfolding base64_encode2_def
  by (intro conjI allI impI, simp, subst decode_loop3 [OF six_bits(1) six_bits(1) six_bits(1)]) (simp, simp only: regroup2)

lemma decodes_group1: "decodes_end (base64_encode1 a @ [61, 61]) [a]"
  unfolding decodes_end_def length_append length_groups unfolding base64_encode1_def
  by (intro conjI allI impI, simp, subst decode_loop2 [OF six_bits(1) six_bits(1)]) (simp, simp only: regroup1)

lemma encode_loop_decodes:
  "encode_loop wraps src buf out dl = Some (rest, buf', out', dl') \<Longrightarrow> decodes (out @ buf) s \<Longrightarrow>
     \<exists>s'. decodes (out' @ buf') (s @ s') \<and> src = s' @ rest \<and> length rest < 3 \<and>
          dl' + int (length out') = dl + int (length out)"
proof (induction wraps src buf out dl arbitrary: s rule: encode_loop.induct)
  case (1 wraps a b c src buf out dl)
  have grp: "decodes (out @ buf @ base64_encode3 a b c) (s @ [a, b, c])"
    using decodes_append [OF "1.prems"(2) decodes_group3] by simp
  show ?case
  proof (cases "int (length (buf @ base64_encode3 a b c)) \<ge> wraps")
    case False
    with "1.IH"(2) [OF refl False _ grp [folded append_assoc, simplified]] "1.prems"(1) grp show ?thesis
      by (fastforce simp: Let_def)
  next
    case True
    define buf2 where "buf2 = (if wraps > 0 then (buf @ base64_encode3 a b c) @ [10] else buf @ base64_encode3 a b c)"
    have "decodes (out @ buf2) (s @ [a, b, c])"
      using grp decodes_append [OF grp decodes_newline] by (simp add: buf2_def)
    then have d: "decodes ((out @ buf2) @ []) (s @ [a, b, c])" by simp
    have room: "\<not> dl < int (length buf2)" and
      run: "encode_loop wraps src [] (out @ buf2) (dl - int (length buf2)) = Some (rest, buf', out', dl')"
      using "1.prems"(1) True by (auto simp: Let_def buf2_def split: if_splits)
    from "1.IH"(1) [OF refl True buf2_def room run d] show ?thesis by fastforce
  qed
qed auto

lemma list_3_cases:
  obtains "xs = []" | x where "xs = [x]" | x y where "xs = [x, y]" | a b c ys where "xs = a # b # c # ys"
proof (cases xs)
  case (Cons x ys)
  note xs = this
  show ?thesis
  proof (cases ys)
    case (Cons y zs)
    then show ?thesis using xs that(3,4) by (cases zs) simp_all
  qed (use xs that(2) in simp)
qed (use that(1) in simp)

lemma list_3_induct [case_names short step]:
  assumes "\<And>xs. length xs < 3 \<Longrightarrow> P xs" "\<And>a b c xs. P xs \<Longrightarrow> P (a # b # c # xs)"
  shows "P xs"
proof (induction "length xs" arbitrary: xs rule: less_induct)
  case less
  show ?case
  proof (cases xs rule: list_3_cases)
    case (4 a b c ys)
    then have "P ys" by (intro less) simp
    then show ?thesis unfolding 4 by (rule assms(2))
  qed (use assms(1) in simp_all)
qed

lemma encode_loop_short: "length src < 3 \<Longrightarrow> encode_loop wraps src buf out dl = Some (src, buf, out, dl)"
  by (cases "(wraps, src, buf, out, dl)" rule: encode_loop.cases) auto

text \<open>Without wrapping every group is copied at once, and needs four bytes of room.\<close>

lemma encode_loop_no_wrap:
  "wraps \<le> 0 \<Longrightarrow> 4 * int (length src div 3) \<le> dl \<Longrightarrow>
     \<exists>rest out'. encode_loop wraps src [] out dl = Some (rest, [], out', dl - 4 * int (length src div 3)) \<and>
       length rest = length src mod 3 \<and> length out' = length out + 4 * (length src div 3)"
proof (induction src arbitrary: out dl rule: list_3_induct)
  case (short xs)
  then show ?case by (simp add: encode_loop_short)
next
  case (step a b c xs)
  have "length (a # b # c # xs) = length xs + 3" by simp
  then have len: "length (a # b # c # xs) div 3 = Suc (length xs div 3)" "length (a # b # c # xs) mod 3 = length xs mod 3"
    by (simp_all only: div_add_self2 mod_add_self2)
  have "4 * int (length xs div 3) \<le> dl - 4" using step.prems(2) unfolding len by simp
  from step.IH [OF step.prems(1) this, of "out @ base64_encode3 a b c"]
  obtain rest out' where
    "encode_loop wraps xs [] (out @ base64_encode3 a b c) (dl - 4) = Some (rest, [], out', dl - 4 - 4 * int (length xs div 3))"
    "length rest = length xs mod 3" "length out' = length (out @ base64_encode3 a b c) + 4 * (length xs div 3)"
    by blast
  moreover have "encode_loop wraps (a # b # c # xs) [] out dl = encode_loop wraps xs [] (out @ base64_encode3 a b c) (dl - 4)"
    using step.prems unfolding len by (simp add: Let_def length_groups)
  ultimately show ?case unfolding len by (simp add: length_groups)
qed

lemma go_base64_encode_no_wrap:
  assumes "wraps \<le> 0" "4 * ((length src + 2) div 3) \<le> dl"
  shows "\<exists>cs. go_base64_encode src (int (length src)) (int dl) wraps = Some cs \<and> length cs = 4 * ((length src + 2) div 3)"
proof -
  have n: "(length src + 2) div 3 = length src div 3 + (if length src mod 3 = 0 then 0 else 1)" by presburger
  have "4 * int (length src div 3) \<le> int dl" using assms(2) n by linarith
  from encode_loop_no_wrap [OF assms(1) this, of "[]"] obtain rest out' where
    r: "encode_loop wraps src [] [] (int dl) = Some (rest, [], out', int dl - 4 * int (length src div 3))"
      "length rest = length src mod 3" "length out' = 4 * (length src div 3)"
    by auto
  have w: "(if wraps > 512 - 4 then 512 - 4 else wraps) = wraps" using assms(1) by simp
  have three: "length src mod 3 < 3" by simp
  have "rest = [] \<or> (\<exists>x. rest = [x]) \<or> (\<exists>x y. rest = [x, y])"
    using r(2) three by (cases rest rule: list_3_cases) auto
  note run = go_base64_encode_def [of src "int (length src)" "int dl" wraps, unfolded nat_int take_all [OF order_refl] w Let_def r(1) option.case prod.case]
  from \<open>rest = [] \<or> (\<exists>x. rest = [x]) \<or> (\<exists>x y. rest = [x, y])\<close> show ?thesis
    using r(2,3) n assms(2) by (auto simp: run length_groups)
qed

text \<open>With wraps a multiple of 4, every full line needs one byte more than its characters.\<close>

lemma encode_loop_wrap_needs:
  assumes q: "0 < q"
  shows "length buf = 4 * j \<Longrightarrow> j < q \<Longrightarrow> 0 \<le> dl \<Longrightarrow> dl < (4 * int q + 1) * int ((j + length src div 3) div q) \<Longrightarrow>
     encode_loop (4 * int q) src buf out dl = None"
proof (induction src arbitrary: buf j out dl rule: list_3_induct)
  case (short xs)
  then show ?case by simp
next
  case (step a b c xs)
  have "length (a # b # c # xs) = length xs + 3" by simp
  then have len: "length (a # b # c # xs) div 3 = Suc (length xs div 3)" by (simp only: div_add_self2)
  let ?buf = "buf @ base64_encode3 a b c"
  have blen: "length ?buf = 4 * Suc j" using step.prems(1) by (simp add: length_groups)
  show ?case
  proof (cases "Suc j = q")
    case True
    have "j + Suc (length xs div 3) = length xs div 3 + q" using True by simp
    then have "(j + Suc (length xs div 3)) div q = Suc (length xs div 3 div q)"
      using q by (simp only: div_add_self2 simp_thms)
    then have need: "dl < (4 * int q + 1) * int (Suc (length xs div 3 div q))"
      using step.prems(4) unfolding len by simp
    show ?thesis
    proof (cases "dl < 4 * int q + 1")
      case True
      then show ?thesis using blen \<open>Suc j = q\<close> by (simp add: Let_def)
    next
      case False
      have "dl - (4 * int q + 1) < (4 * int q + 1) * int ((0 + length xs div 3) div q)"
        using need by (simp add: algebra_simps)
      then have "encode_loop (4 * int q) xs [] o' (dl - (4 * int q + 1)) = None" for o'
        using False q by (intro step.IH [of _ 0]) simp_all
      then show ?thesis using False blen \<open>Suc j = q\<close> by (simp add: Let_def add.commute)
    qed
  next
    case False
    have "dl < (4 * int q + 1) * int ((Suc j + length xs div 3) div q)"
      using step.prems(4) unfolding len by simp
    then have "encode_loop (4 * int q) xs ?buf out dl = None"
      using False step.prems(2,3) blen by (intro step.IH [of _ "Suc j"]) simp_all
    moreover have "\<not> 4 * int q \<le> int (length ?buf)" using blen False step.prems(2) by simp
    ultimately show ?thesis by (simp add: Let_def)
  qed
qed

section \<open>Properties\<close>

text \<open>Sizes below 2^31 pass unchanged.\<close>

lemma int_of_size: "n < 2 ^ 31 \<Longrightarrow> int_of_size n = int n"
  by (simp add: int_of_size_def signed_take_bit_int_eq_self sint_uint uint_nat unat_of_nat take_bit_nat_eq_self)

lemma encode_loop_room: "encode_loop wraps src buf out dl = Some (rest, buf', out', dl') \<Longrightarrow> 0 \<le> dl \<Longrightarrow> 0 \<le> dl'"
  by (induction wraps src buf out dl rule: encode_loop.induct) (auto simp: Let_def split: if_splits)

text \<open>The room Base64Encode reserves.\<close>

lemma reserved_room:
  assumes "n < 2 ^ 29"
  shows "(4 * n + 2) div 3 + 3 + (if w then n div k else 0) + 1 < (2 :: nat) ^ 31"
proof -
  have "(if w then n div k else 0) \<le> n" by simp
  moreover have "(4 * n + 2) div 3 \<le> 2 * n + 2" by linarith
  ultimately show ?thesis using assms by simp
qed

text \<open>What go\_base64\_encode returns decodes to its input, and fits into the room it was given.\<close>

lemma go_base64_encode_decodes:
  assumes "go_base64_encode src (int (length src)) dst_len wraps = Some cs" "0 \<le> dst_len"
  shows "decodes_end cs src" "int (length cs) \<le> dst_len"
proof -
  from assms(1) obtain w rest buf out dl where
    run: "encode_loop w src [] [] dst_len = Some (rest, buf, out, dl)" and
    cs: "cs = out @ (case rest of [] \<Rightarrow> buf | [a] \<Rightarrow> buf @ base64_encode1 a @ [61, 61] | a # b # _ \<Rightarrow> buf @ base64_encode2 a b @ [61])" and
    room: "cs \<noteq> out \<longrightarrow> int (length cs) \<le> dl + int (length out)"
    by (auto simp: go_base64_encode_def Let_def split: option.splits if_splits)
  from encode_loop_decodes [OF run, of "[]"] obtain s where
    s: "decodes (out @ buf) s" "src = s @ rest" "length rest < 3" "dl + int (length out) = dst_len"
    by (auto simp: decodes_Nil)
  show "decodes_end cs src"
  proof (cases rest rule: list_3_cases)
    case 1
    then show ?thesis using decodes_end_append [OF s(1) decodes_end_Nil] s(2) cs by simp
  next
    case (2 x)
    then show ?thesis using decodes_end_append [OF s(1) decodes_group1 [of x]] s(2) cs by simp
  next
    case (3 x y)
    then show ?thesis using decodes_end_append [OF s(1) decodes_group2 [of x y]] s(2) cs by simp
  qed (use s(3) in simp)
  have "int (length out) \<le> dst_len" using encode_loop_room [OF run assms(2)] s(4) by simp
  then show "int (length cs) \<le> dst_len" using room s(4) by (cases "cs = out") simp_all
qed

text \<open>C10. For inputs of less than 512 MB: without line wraps Base64Encode does not fail and yields four characters per started
  group of three bytes; whatever the wraps, when it succeeds, Base64Decode of its non-empty result gives back the
  input.\<close>

theorem base64_roundtrip:
  assumes "length src < 2 ^ 29"
  shows "(wraps \<le> 0 \<longrightarrow> (\<exists>cs. Base64Encode src wraps = Inr cs \<and> length cs = 4 * ((length src + 2) div 3))) \<and>
   (Base64Encode src wraps = Inr cs \<longrightarrow> cs \<noteq> [] \<longrightarrow> Base64Decode cs (length cs) = Inr src)"
proof (intro conjI impI)
  let ?n = "length src"
  let ?dl = "(4 * ?n + 2) div 3 + 3 + (if wraps > 0 then ?n div (if wraps > 64 then 64 else nat wraps) else 0)"
  have small: "?dl + 1 < 2 ^ 31" by (rule reserved_room [OF assms])
  then have size: "int_of_size ?n = int ?n" "int_of_size ?dl = int ?dl" using assms by (simp_all add: int_of_size)
  {
    assume w: "wraps \<le> 0"
    have "4 * ((length src + 2) div 3) \<le> (4 * length src + 2) div 3 + 3" by presburger
    from go_base64_encode_no_wrap [OF w this] w size
    show "\<exists>cs. Base64Encode src wraps = Inr cs \<and> length cs = 4 * ((length src + 2) div 3)"
      by (auto simp: Base64Encode_def)
  }
  assume e: "Base64Encode src wraps = Inr cs" and ne: "cs \<noteq> []"
  then have "go_base64_encode src (int ?n) (int ?dl) wraps = Some cs"
    unfolding Base64Encode_def Let_def size by (auto split: option.splits)
  from go_base64_encode_decodes [OF this] have d: "decodes_end cs src" "length cs \<le> ?dl" by simp_all
  with small have "int_of_size (length cs) = int (length cs)" "int_of_size (length cs + 1) = int (length cs) + 1"
    by (simp_all add: int_of_size)
  then show "Base64Decode cs (length cs) = Inr src"
    using ne d(1) by (simp add: Base64Decode_def go_base64_decode_def decodes_end_def Let_def)
qed

text \<open>Beyond that: of two to four gigabytes nothing is encoded, and the result is the empty string without any error.\<close>

lemma Base64Encode_large_is_empty:
  assumes "2 ^ 31 \<le> length src" "length src < 2 ^ 32"
  shows "Base64Encode src wraps = Inr []"
proof -
  have "int_of_size (length src) = int (length src) - 2 ^ 32"
  proof -
    define k where "k = int (length src) - 2 ^ 32"
    have k: "- (2 ^ 31) \<le> k" "k < 2 ^ 31" using assms by (simp_all add: k_def)
    have "word_of_int (int (length src)) = (word_of_int (k + 2 ^ 32) :: 32 word)" by (simp add: k_def)
    also have "\<dots> = word_of_int k" by simp
    finally have "int_of_size (length src) = sint (word_of_int k :: 32 word)" by (simp add: int_of_size_def)
    also have "\<dots> = k" using k by (simp add: sint_sbintrunc' signed_take_bit_int_eq_self)
    finally show ?thesis by (simp add: k_def)
  qed
  then have "nat (int_of_size (length src)) = 0" using assms(2) by simp
  then show ?thesis unfolding Base64Encode_def go_base64_encode_def Let_def by simp
qed

text \<open>The room Base64Encode reserves for line wraps is too small: for every line length that is a multiple
  of four up to 64, thirteen full lines or more do not fit, and the call throws length\_error
  (a wrap of 64 fails for every input of 48 m bytes, m at least 13).\<close>

lemma Base64Encode_wraps_throw:
  assumes "0 < q" "q \<le> 16" "13 \<le> m" "length src = 3 * q * m" "length src < 2 ^ 29"
  shows "Base64Encode src (int (4 * q)) = Inl Length_Error_Exception"
proof -
  define dl where "dl = (4 * length src + 2) div 3 + 3 + length src div (4 * q)"
  have "(3 * q * m) div (4 * q) = (q * (3 * m)) div (q * 4)" by (simp add: ac_simps)
  also have "\<dots> = 3 * m div 4" using assms(1) by (intro div_mult_mult1) simp
  finally have "length src div (4 * q) = 3 * m div 4" using assms(4) by simp
  moreover have "(4 * length src + 2) div 3 = 4 * q * m"
  proof -
    have "4 * length src + 2 = 2 + (4 * q * m) * 3" using assms(4) by simp
    moreover have "(2 + (4 * q * m) * 3) div 3 = 4 * q * m + 2 div 3" by (rule div_mult_self1) simp
    ultimately show ?thesis by (simp only:)
  qed
  ultimately have "dl = 4 * q * m + 3 + 3 * m div 4" by (simp add: dl_def)
  moreover have "3 + 3 * m div 4 < m" using assms(3) by presburger
  ultimately have "dl < (4 * q + 1) * m" by (simp add: algebra_simps)
  then have "int dl < int ((4 * q + 1) * m)" by (simp only: of_nat_less_iff)
  moreover have "(0 + length src div 3) div q = m" using assms(1,4) by (simp add: mult.assoc)
  ultimately have "int dl < (4 * int q + 1) * int ((0 + length src div 3) div q)" by (simp add: algebra_simps)
  from encode_loop_wrap_needs [OF assms(1), of "[]" 0, OF _ _ _ this] have
    none: "encode_loop (4 * int q) src [] [] (int dl) = None"
    using assms(1) by simp
  have "(if int (4 * q) > 512 - 4 then 512 - 4 else int (4 * q)) = 4 * int q" using assms(2) by simp
  with none have "go_base64_encode src (int (length src)) (int dl) (int (4 * q)) = None"
    unfolding go_base64_encode_def Let_def by (simp only:) simp
  moreover have "(if int (4 * q) > 64 then 64 else nat (int (4 * q))) = 4 * q" using assms(2) by simp
  moreover have "int_of_size dl = int dl" "int_of_size (length src) = int (length src)"
    using reserved_room [OF assms(5), of True "4 * q"] assms(5) by (simp_all add: int_of_size dl_def)
  ultimately show ?thesis
    using assms(1) unfolding Base64Encode_def Let_def dl_def by (simp only:) simp
qed

lemma Base64Encode_wraps_throw_witness:
  "Base64Encode (replicate 39 0) 4 = Inl Length_Error_Exception"
  using Base64Encode_wraps_throw [of 1 13 "replicate 39 0"] by simp

text \<open>The URL-safe decoder inverts the URL-safe encoder on every byte string, with no failure.\<close>

lemma UrlSafeBase64_roundtrip: "UrlSafeBase64Decode (UrlSafeBase64Encode s) = Inr s"
  by (rule UrlSafe_roundtrip)

text \<open>The decoding table of the URL-safe codec is initialised with 224 of its 256 entries, so every byte
  from 224 on is accepted as a digit of value 0 instead of being rejected.\<close>

lemma UrlSafeBase64_accepts_high_bytes:
  assumes "224 \<le> c" "224 \<le> d"
  shows "UrlSafeBase64Decode [c, d] = Inr [0]"
proof -
  have zero: "t256 ! unat x = 0" if "224 \<le> x" for x :: u8
  proof -
    have len: "length t256 = 256"
      by (simp add: t256_def)
    have "224 \<le> unat x" using that by (simp add: word_le_nat_alt)
    moreover have "take 224 t256 @ replicate 32 0 = t256" by (simp add: t256_def)
    ultimately show ?thesis
      using unat_byte [of x] nth_append [of "take 224 t256" "replicate 32 0" "unat x"] len by simp
  qed
  show ?thesis using assms by (simp add: look_def zero)
qed

lemma UrlSafeBase64_accepts_high_bytes_witness: "UrlSafeBase64Decode [228, 255] = Inr [0]"
  by (rule UrlSafeBase64_accepts_high_bytes) simp_all

lemma base64_roundtrip_witness:
  "Base64Encode [72, 105, 33, 10] 0 = Inr [83, 71, 107, 104, 67, 103, 61, 61] \<and>
   Base64Decode [83, 71, 107, 104, 67, 103, 61, 61] 8 = Inr [72, 105, 33, 10]"
proof -
  have "Base64Encode [72, 105, 33, 10] 0 = Inr [83, 71, 107, 104, 67, 103, 61, 61]" by code_simp
  moreover from this base64_roundtrip [of "[72, 105, 33, 10]" 0 "[83, 71, 107, 104, 67, 103, 61, 61]"]
  have "Base64Decode [83, 71, 107, 104, 67, 103, 61, 61] (length [83, 71, 107, 104, 67, 103, 61, 61 :: u8])
     = Inr [72, 105, 33, 10]" by simp
  moreover have "length [83, 71, 107, 104, 67, 103, 61, 61 :: u8] = 8" by simp
  ultimately show ?thesis by (simp only:)
qed

end
