(* ===== verification/Spec2Isabelle.thy ===== *)
theory Spec2Isabelle
  imports Application Sync_Client Server Coroutine Http_Protocol Redis_Protocol Buffer Timer Matrix Base64
begin

text \<open>
  A verification development of libnbf, a C++ library of network servers and clients with an event loop
  per I/O thread, protocols over TCP (rapid, HTTP, redis), service threads that handle the messages, plain or as coroutines, timers,
  a monitor and configuration files. Paths below are relative to src/src/.

  How a message travels, and where each leg is modelled. The acceptor (\<open>Acceptor\<close>: net_thread_mgr/acceptor_thread.cpp, on the
  sockets of \<open>Socket\<close>: net/socket.cpp) listens; an accepted connection (\<open>Server\<close>: net/server_connect.cpp,
  connect_manager.cpp) is registered with the event driver of an I/O thread
  (\<open>Event_Driver\<close>: event/event_driver.cpp, event_data.cpp), which calls it when its descriptor becomes readable. The
  connection (\<open>Connect\<close>: net/connect.cpp) reads into its byte buffer (\<open>Buffer\<close>: common/buffer.cpp) and
  has its protocol decode (\<open>Protocol_Base\<close>, \<open>Rapid_Protocol\<close>, \<open>Redis_Protocol\<close>, \<open>Http_Protocol\<close>: protocol/). The message
  (\<open>Messages\<close>: message_base.h, message.h) is queued for a service thread (\<open>Service\<close>: service/service_manager.cpp,
  service_handle.cpp), which answers through the queue of the I/O thread the connection belongs to (\<open>Io_Threads\<close>:
  net_thread_mgr/io_threads.cpp). The I/O thread encodes the answer into the outgoing buffer and writes. On the client's side
  \<open>Clients\<close> (client/) chooses a connection, \<open>Client_Connect\<close> (net/client_connect.cpp) connects and reconnects,
  \<open>Async_Client\<close> (net/async_sequence.cpp,
  async_client_connect.cpp) matches answers to requests by sequence id, \<open>Sync_Client\<close> (net/sync_sequence.cpp,
  sync_client_connect.cpp) by their order; both give requests up after a time-out with the timers of \<open>Timer\<close>
  (event/timer/timer.cpp), which stand on the indexed heap of \<open>Heap\<close> (common/heap.h). A service thread that waits for an
  answer is a coroutine (\<open>Coroutine\<close>: coroutine/, service/coroutine_service_handle.cpp), with the timers of
  \<open>Timer_Mgr\<close>. \<open>Application\<close> (app/appbase.cpp) starts and stops all of it.

  Theories, from the bottom up.

    \<^item> \<open>Prelude\<close>: machine types, the outcome of code that may leave its defined behaviour (the datatype fault), code that
      may not return, generic lemmas.
    \<^item> The interfaces. byte_queue (\<open>Byte_Queue\<close>) is what encoders rely on, allocator (\<open>Buffer\<close>) what Buffer relies on,
      handle_queue (\<open>Handle_Queue\<close>) what the timers rely on, node_order (\<open>Heap\<close>) what the heap's repair relies on,
      std_map (\<open>Std_Map\<close>) what the configuration and the monitor rely on,
      framed_protocol (\<open>Protocol_Base\<close>) what the reading loop relies on, buffer_protocol (\<open>Connect\<close>)
      what a connection relies on, bounded_queue (\<open>Ring_Buffer\<close>) what the monitor's queues rely on, stoppable
      (\<open>Client_Start\<close>) what makes clients, routers and groups of routers close each connection once. Each is interpreted on
      the model of the code that provides it.
    \<^item> \<open>C_Text\<close>, \<open>String_Util\<close>, \<open>Base64\<close>: numbers in text, common/string_util.cpp and its base64 codecs.
    \<^item> \<open>Timer_Mgr\<close> (common/timer_mgr.cpp), the timers of a service thread; \<open>Ring_Buffer\<close> (common/lockfree_ringbuffer.h with
      spin_lock.h), a queue between threads; \<open>Ini_Files\<close> (common/ini_files.cpp); \<open>App_Config\<close> (app/app_cmd_parser.cpp,
      config_info.cpp), the command line and the configuration read from such a file.
    \<^item> \<open>Http_Util\<close> (protocol/http/http_util.cpp): cookies, parameters, domains.
    \<^item> \<open>Matrix_Stat\<close> (monitor/matrix_stat.cpp, matrix_stat_map.cpp), the statistics, and \<open>Matrix\<close> (monitor/matrix.cpp,
      matrix_item_map.cpp, matrix_collector.cpp), the marks, the queues and the thread that collects them.
    \<^item> \<open>Client_Start\<close> (client/client_mgr.cpp and below it): starting and stopping the clients of a configuration;
      \<open>Application\<close> (app/appbase.cpp, with Init, Start and Stop of service_manager.cpp and net_thread_mgr.cpp): the
      phases of the main thread, with signals between them.
    \<^item> the theories named above.

  How the code's state corresponds to the model. A class is a record with the code's fields, an object that is shared or
  deleted is a value at an address in a map (messages in async_world, FdEvents in event_driver, nodes in heap, connections in
  clients_world and the server, items in the monitor, the network manager in the application), and an
  access to an address that is not in the map is the fault Use_After_Free. Descriptors are the set of the open ones. The saved
  stack of a coroutine is a value that says where it goes on. Machine integers keep their width where
  wrapping matters (sequence ids, counters of the round robin, event bits, size_t in the growth of a buffer, lengths narrowed to
  int); sizes that
  cannot wrap on the stated assumptions are natural numbers; doubles are rationals rounded to 53 bits. Operations return the
  code's result next to the new state;
  early returns and error codes are branches. Answers of the system (read, write, accept, connect, epoll_wait, malloc, epoll_ctl,
  the clock) are arguments or scripts consumed one per call. An unordered_map or unordered_set is the list of its entries in an iteration
  order left open, or a map where no code iterates over it. Locks make the guarded block one step; only the ring buffer's
  lock protocol is modelled step by step.

  What the lemmas show. Containers: operations act on the abstract content (a byte list, a finite map, a multiset) and
  keep an invariant; nothing is lost or invented. Timers: which fire, in what order, and which are lost when a callback
  cancels its own. Protocols: what is encoded is
  decoded or read back, for sequences of messages in one burst, and what happens to a burst that is cut. Connections: a read
  delivers the messages of a burst in order, a write sends a prefix. Clients: over every run of the steps each request
  is waiting once or answered exactly once (asynchronous), or answered in order (synchronous); every message handed over meets
  one fate; connections are closed once. Coroutines: no reachable step faults, an answer reaches the coroutine that asked. The
  event driver: no
  dangling pointer in any reachable state, a round is safe whatever its handlers add and delete. Threads: messages
  spread evenly over the service threads, those of one connection stay on one I/O thread. Sockets: descriptors are accounted for
  on every path. The monitor: items are held once, statistics are those of the recorded values, in the first lap of the
  rings. The application: what runs while it waits (\<open>started_application_runs\<close>) and why a second stop faults. Where the
  code does not do what it
  means to, a lemma shows the behaviour it has.

  Bounds and fuel. Loops of the code that always end are recursive functions with a measure; loops that may not end are
  partial functions whose value None is not returning (growing a buffer, ShrinkSpace, the timers' loops, the ring's size),
  with theorems on when they return. pop_all and read_headers take fuel: the number of entries, and the length of the text,
  which bounds the number of lines. Buffers are followed up to 2^60 bytes (buf_limit), connections and HTTP up to the int range,
  base64 up to 512 MB, the rings (and with them the monitor) up to their size in pushes, beyond which the code writes outside its
  array.

  Not modelled: the third-party HTTP parser (an argument of the HTTP protocol), logging, starting and joining threads (a thread
  of the application is a flag), iconv (an argument), the switching of stacks itself, tasks run by coroutine service threads,
  AcceptClientV1, dumps of derived messages, the allocation counters of monitor/mem_profile.h, the clock wrappers of
  common/time.h, the wrappers of strtol, and the test programs. An asynchronous or synchronous connection is modelled with its own timers,
  not with those of other connections of its thread. SyncClientConnect::CleanSequenceQueue reads the front of a list once
  more when it is empty and does not use what it read; the model does nothing there. CoroutineActor::DoRecieve reads fields of the
  message it has handed over; the model reads them from its own copy.
\<close>

end
